(* ===== verification/Prelude.thy ===== *)
theory Prelude
  imports Main "HOL-Library.Word"
begin

text \<open>
  What every component of the development shares: the machine-integer types, the wrap-around
  arithmetic of \<open>usize\<close>, panics as values, and generic lemmas on lists and options.

  The kernel is only ever built with \<open>cargo build --release\<close> (see the \<open>Makefile\<close>), where
  \<open>+\<close>, \<open>-\<close>, \<open>*\<close> on \<open>usize\<close> wrap around and a shift count is taken modulo the width. An
  address, size or page number is therefore a natural number below \<open>2 ^ 64\<close>, and each
  operation of the source is one of the \<open>usize_*\<close> operations below, with the wrap-around
  written out. Values that are packed into bit fields are words of \<open>HOL-Library.Word\<close>.
\<close>

unbundle bit_operations_syntax

named_theorems usize_arith \<open>the wrapping operations, where nothing wraps\<close>

type_synonym usize = nat
type_synonym u8 = "8 word"
type_synonym u16 = "16 word"
type_synonym u32 = "32 word"
type_synonym u64 = "64 word"

abbreviation usize_limit :: nat where
  "usize_limit \<equiv> 18446744073709551616"

lemma usize_limit_pow: "usize_limit = 2 ^ 64"
  by simp

definition usize_add :: "usize \<Rightarrow> usize \<Rightarrow> usize" where
  "usize_add a b = (a + b) mod usize_limit"

definition usize_sub :: "usize \<Rightarrow> usize \<Rightarrow> usize" where
  "usize_sub a b = (if b \<le> a then a - b else (a + usize_limit) - b)"

definition usize_mul :: "usize \<Rightarrow> usize \<Rightarrow> usize" where
  "usize_mul a b = (a * b) mod usize_limit"

definition usize_shl :: "usize \<Rightarrow> nat \<Rightarrow> usize" where
  "usize_shl a k = (a * 2 ^ (k mod 64)) mod usize_limit"

definition usize_shr :: "usize \<Rightarrow> nat \<Rightarrow> usize" where
  "usize_shr a k = a div 2 ^ (k mod 64)"

definition usize_not :: "usize \<Rightarrow> usize" where
  "usize_not a = (usize_limit - 1) - a"

definition div_ceil :: "usize \<Rightarrow> usize \<Rightarrow> usize" where
  "div_ceil a b = (if 0 < a mod b then a div b + 1 else a div b)"

lemma usize_add_lt [simp]: "usize_add a b < usize_limit"
  by (simp add: usize_add_def)

lemma usize_mul_lt [simp]: "usize_mul a b < usize_limit"
  by (simp add: usize_mul_def)

lemma usize_add_small [usize_arith]: "a + b < usize_limit \<Longrightarrow> usize_add a b = a + b"
  by (simp add: usize_add_def)

lemma usize_sub_small [usize_arith]: "b \<le> a \<Longrightarrow> usize_sub a b = a - b"
  by (simp add: usize_sub_def)

lemma usize_mul_small [usize_arith]: "a * b < usize_limit \<Longrightarrow> usize_mul a b = a * b"
  by (simp add: usize_mul_def)

lemma usize_shl_small [usize_arith]:
  "k < 64 \<Longrightarrow> a * 2 ^ k < usize_limit \<Longrightarrow> usize_shl a k = a * 2 ^ k"
  by (simp add: usize_shl_def)

lemma usize_shr_small [usize_arith]: "k < 64 \<Longrightarrow> usize_shr a k = a div 2 ^ k"
  by (simp add: usize_shr_def)

lemma usize_sub_add_wrap: "a < usize_limit \<Longrightarrow> b < usize_limit \<Longrightarrow> usize_add (usize_sub a b) b = a"
  by (auto simp: usize_add_def usize_sub_def)

lemma div_ceil_le_iff: "0 < b \<Longrightarrow> div_ceil a b \<le> c \<longleftrightarrow> a \<le> c * b"
proof -
  assume b: "0 < b"
  have split: "a = a div b * b + a mod b" by simp
  show ?thesis
  proof (cases "a mod b = 0")
    case True
    then have "a = a div b * b" using split by simp
    then have "a \<le> c * b \<longleftrightarrow> a div b \<le> c"
      using b by (metis mult_le_cancel2)
    with True show ?thesis by (simp add: div_ceil_def)
  next
    case False
    have "a \<le> c * b \<longleftrightarrow> a div b < c"
    proof
      assume "a \<le> c * b"
      then have "a div b * b < c * b" using split False by linarith
      then show "a div b < c" using b by simp
    next
      assume "a div b < c"
      then have "(a div b + 1) * b \<le> c * b" by (intro mult_le_mono1) simp
      then have "a div b * b + b \<le> c * b" by simp
      moreover have "a mod b < b" using b by simp
      ultimately show "a \<le> c * b" using split by linarith
    qed
    with False show ?thesis by (auto simp: div_ceil_def)
  qed
qed

lemma less_div_ceil_iff: "0 < b \<Longrightarrow> c < div_ceil a b \<longleftrightarrow> c * b < a"
  using div_ceil_le_iff [of b a c] by linarith

lemma le_div_ceil_mult: "0 < b \<Longrightarrow> a \<le> div_ceil a b * b"
  using div_ceil_le_iff [of b a "div_ceil a b"] by simp

lemma div_ceil_dvd [simp]: "b dvd a \<Longrightarrow> div_ceil a b = a div b"
  by (simp add: div_ceil_def)

lemma div_ceil_zero [simp]: "div_ceil 0 b = 0"
  by (simp add: div_ceil_def)

lemma unat_lt_pow: "unat (w :: 'a::len word) < 2 ^ LENGTH('a)"
  by (rule unsigned_less)

subsection \<open>Bit counting on \<open>usize\<close>\<close>

text \<open>\<open>trailing_zeros\<close> is 64 at zero; \<open>ilog2\<close> panics at zero, so its uses guard it.\<close>

fun ctz :: "nat \<Rightarrow> nat" where
  "ctz n = (if n = 0 \<or> odd n then 0 else Suc (ctz (n div 2)))"

declare ctz.simps [simp del]

definition trailing_zeros :: "usize \<Rightarrow> nat" where
  "trailing_zeros n = (if n = 0 then 64 else ctz n)"

fun log2_floor :: "nat \<Rightarrow> nat" where
  "log2_floor n = (if n < 2 then 0 else Suc (log2_floor (n div 2)))"

declare log2_floor.simps [simp del]

lemma ctz_dvd_iff: "0 < n \<Longrightarrow> 2 ^ k dvd n \<longleftrightarrow> k \<le> ctz n"
proof (induction n arbitrary: k rule: ctz.induct)
  case (1 n)
  show ?case
  proof (cases "odd n")
    case True
    then show ?thesis by (cases k) (auto simp: ctz.simps [of n])
  next
    case False
    with "1.prems" obtain m where m: "n = 2 * m" "0 < m" by (auto elim: evenE)
    with False "1.IH" [of "k - 1"] show ?thesis
      by (cases k) (auto simp: ctz.simps [of "2 * m"])
  qed
qed

lemma trailing_zeros_dvd: "k \<le> trailing_zeros n \<Longrightarrow> 2 ^ k dvd n"
  by (cases "n = 0") (auto simp: trailing_zeros_def ctz_dvd_iff)

lemma trailing_zeros_ge: "2 ^ k dvd n \<Longrightarrow> k \<le> 64 \<Longrightarrow> k \<le> trailing_zeros n"
  by (cases "n = 0") (auto simp: trailing_zeros_def ctz_dvd_iff)

lemma log2_floor_le_iff: "0 < n \<Longrightarrow> 2 ^ k \<le> n \<longleftrightarrow> k \<le> log2_floor n"
proof (induction n arbitrary: k rule: log2_floor.induct)
  case (1 n)
  show ?case
  proof (cases "n < 2")
    case True
    with "1.prems" have "n = 1" by simp
    have "(2::nat) ^ k \<le> 1 \<longleftrightarrow> k = 0"
      using power_gt1 [of "2::nat" "k - 1"] by (cases k) (auto simp: not_le)
    then show ?thesis using \<open>n = 1\<close> by (simp add: log2_floor.simps [of "Suc 0"])
  next
    case False
    show ?thesis
    proof (cases k)
      case (Suc j)
      have "2 ^ Suc j \<le> n \<longleftrightarrow> 2 ^ j \<le> n div 2"
        by (simp add: less_eq_div_iff_mult_less_eq mult.commute)
      also have "\<dots> \<longleftrightarrow> j \<le> log2_floor (n div 2)"
        using False by (intro "1.IH") auto
      finally show ?thesis using Suc False by (simp add: log2_floor.simps [of n])
    qed (use "1.prems" in auto)
  qed
qed

lemma log2_floor_pow [simp]: "log2_floor (2 ^ k) = k"
proof -
  have "k \<le> log2_floor (2 ^ k)" using log2_floor_le_iff [of "2 ^ k" k] by simp
  moreover have "\<not> Suc k \<le> log2_floor (2 ^ k)"
    using log2_floor_le_iff [of "2 ^ k" "Suc k"] by simp
  ultimately show ?thesis by simp
qed

subsection \<open>Packed bit fields\<close>

text \<open>
  Reading a field \<open>(v >> k) & mask\<close> out of an OR of shifted fields: the field at \<open>k\<close> comes back,
  the ones below and above contribute nothing.
\<close>

lemma field_below: "j + w \<le> k \<Longrightarrow> drop_bit k (push_bit j (take_bit w (x :: 'a::len word))) = 0"
  by (rule bit_word_eqI) (auto simp: bit_simps)

lemma field_above: "k + n \<le> j \<Longrightarrow> take_bit n (drop_bit k (push_bit j (x :: 'a::len word))) = 0"
  by (rule bit_word_eqI) (auto simp: bit_simps)

lemma field_at:
  "k + w \<le> LENGTH('a) \<Longrightarrow>
    take_bit w (drop_bit k (push_bit k (take_bit w (x :: 'a::len word)))) = take_bit w x"
  by (rule bit_word_eqI) (auto simp: bit_simps)

lemmas field_simps_word = field_below field_above field_at

subsection \<open>Panics as values\<close>

text \<open>
  Every \<open>panic!\<close>, failed \<open>assert!\<close>, \<open>unwrap\<close> of \<open>None\<close> and out-of-range index of the source is
  a value \<open>Inl\<close> of an outcome; a computation that goes on is \<open>Inr\<close>. A Rust \<open>Option\<close> returned
  by the source stays an option inside. \<open>OutOfFuel\<close> is not a panic of the source: a loop that is given
  an iteration bound returns it when the bound is reached, and wherever one is used it is proved
  that the bound is enough.
\<close>

datatype panic =
  Panicked string
| AssertFailed string
| UnwrapNone
| IndexOutOfBounds
| OutOfFuel

type_synonym 'a outcome = "panic + 'a"

definition obind :: "'a outcome \<Rightarrow> ('a \<Rightarrow> 'b outcome) \<Rightarrow> 'b outcome" where
  "obind r f = (case r of Inl e \<Rightarrow> Inl e | Inr x \<Rightarrow> f x)"

definition unwrap :: "'a option \<Rightarrow> 'a outcome" where
  "unwrap r = (case r of None \<Rightarrow> Inl UnwrapNone | Some x \<Rightarrow> Inr x)"

definition expect :: "string \<Rightarrow> 'a option \<Rightarrow> 'a outcome" where
  "expect msg r = (case r of None \<Rightarrow> Inl (Panicked msg) | Some x \<Rightarrow> Inr x)"

definition assert_that :: "string \<Rightarrow> bool \<Rightarrow> unit outcome" where
  "assert_that msg b = (if b then Inr () else Inl (AssertFailed msg))"

lemma obind_Inr [simp]: "obind (Inr x) f = f x"
  by (simp add: obind_def)

lemma obind_Inl [simp]: "obind (Inl e) f = Inl e"
  by (simp add: obind_def)

lemma obind_eq_Inr: "obind r f = Inr y \<longleftrightarrow> (\<exists>x. r = Inr x \<and> f x = Inr y)"
  by (cases r) auto

lemma obind_assoc: "obind (obind r f) g = obind r (\<lambda>x. obind (f x) g)"
  by (cases r) auto

lemma unwrap_simps [simp]: "unwrap None = Inl UnwrapNone" "unwrap (Some x) = Inr x"
  by (simp_all add: unwrap_def)

lemma expect_simps [simp]: "expect msg None = Inl (Panicked msg)" "expect msg (Some x) = Inr x"
  by (simp_all add: expect_def)

lemma assert_that_simps [simp]:
  "assert_that msg True = Inr ()" "assert_that msg False = Inl (AssertFailed msg)"
  by (simp_all add: assert_that_def)

subsection \<open>Slices and iterators\<close>

text \<open>\<open>slice.get(i)\<close>, and \<open>Iterator::min\<close>.\<close>

definition get :: "'a list \<Rightarrow> nat \<Rightarrow> 'a option" where
  "get xs i = (if i < length xs then Some (xs ! i) else None)"

fun list_min :: "nat list \<Rightarrow> nat option" where
  "list_min [] = None"
| "list_min (x # xs) = (case list_min xs of None \<Rightarrow> Some x | Some y \<Rightarrow> Some (min x y))"

lemma get_in [simp]: "i < length xs \<Longrightarrow> get xs i = Some (xs ! i)"
  by (simp add: get_def)

lemma get_out [simp]: "length xs \<le> i \<Longrightarrow> get xs i = None"
  by (simp add: get_def)

lemma get_eq_Some: "get xs i = Some x \<longleftrightarrow> i < length xs \<and> xs ! i = x"
  by (simp add: get_def)

lemma list_min_None [simp]: "list_min xs = None \<longleftrightarrow> xs = []"
  by (cases xs) (auto split: option.splits)

lemma list_min_Some: "list_min xs = Some m \<Longrightarrow> m \<in> set xs \<and> (\<forall>x \<in> set xs. m \<le> x)"
proof (induction xs arbitrary: m)
  case (Cons x xs)
  then show ?case
    by (cases "list_min xs") (auto simp: min_def split: if_splits)
qed simp

lemma find_SomeD: "find P xs = Some x \<Longrightarrow> x \<in> set xs \<and> P x"
  by (auto simp: find_Some_iff)

lemma find_None_iff_all: "find P xs = None \<longleftrightarrow> (\<forall>x \<in> set xs. \<not> P x)"
  by (auto simp: find_None_iff)

lemma set_map_filter: "set (List.map_filter f xs) = {y. \<exists>x \<in> set xs. f x = Some y}"
  by (force simp: List.map_filter_def)

subsection \<open>Text\<close>

text \<open>The bytes of a string literal.\<close>

definition ascii :: "string \<Rightarrow> u8 list" where
  "ascii s = map of_char s"

text \<open>
  \<open>{:016x}\<close> of an address and \<open>{:02x}\<close> of a byte: all the digits of the type, in lower case; \<open>{:#018x}\<close> and
  \<open>{:#04x}\<close> put \<open>0x\<close> before them.
\<close>

definition lower_hex_digit :: "nat \<Rightarrow> u8" where
  "lower_hex_digit d = (if d < 10 then 48 + of_nat d else 87 + of_nat d)"

definition fmt_hex :: "nat \<Rightarrow> nat \<Rightarrow> u8 list" where
  "fmt_hex width v = map (\<lambda>i. lower_hex_digit (v div 16 ^ i mod 16)) (rev [0..<width])"

definition fmt_hex_prefixed :: "nat \<Rightarrow> nat \<Rightarrow> u8 list" where
  "fmt_hex_prefixed width v = [48, 120] @ fmt_hex (width - 2) v"

lemma lower_hex_digit_eq: "d < 16 \<Longrightarrow> unat (lower_hex_digit d) = (if d < 10 then 48 + d else 87 + d)"
proof -
  assume d: "d < 16"
  have "lower_hex_digit d = word_of_nat (if d < 10 then 48 + d else 87 + d)" by (simp add: lower_hex_digit_def)
  then show ?thesis using d by (simp add: unsigned_of_nat take_bit_nat_eq_self)
qed

lemma lower_hex_digit_inj: "d < 16 \<Longrightarrow> e < 16 \<Longrightarrow> lower_hex_digit d = lower_hex_digit e \<Longrightarrow> d = e"
proof -
  assume d: "d < 16" "e < 16" "lower_hex_digit d = lower_hex_digit e"
  then have "(if d < 10 then 48 + d else 87 + d) = (if e < 10 then 48 + e else 87 + e)"
    using lower_hex_digit_eq [of d] lower_hex_digit_eq [of e] by metis
  then show "d = e" using d by (simp split: if_splits)
qed

lemma fmt_hex_Suc: "fmt_hex (Suc w) v = lower_hex_digit (v div 16 ^ w mod 16) # fmt_hex w v"
  by (simp add: fmt_hex_def)

lemma lower_hex_digit_plain: "d < 16 \<Longrightarrow> lower_hex_digit d \<noteq> 10"
  using lower_hex_digit_eq [of d] by (auto split: if_splits)

lemma fmt_hex_plain [simp]: "10 \<notin> set (fmt_hex n v)"
  using lower_hex_digit_plain [of "v div 16 ^ i mod 16" for i] by (auto simp: fmt_hex_def)

lemma length_fmt_hex [simp]: "length (fmt_hex n v) = n"
  by (simp add: fmt_hex_def)

text \<open>\<open>{:x}\<close> of an unsigned number, and \<open>{:#0w$x}\<close>, which is at least \<open>w\<close> characters wide.\<close>

fun hex_digits :: "nat \<Rightarrow> u8 list" where
  "hex_digits n = (if n < 16 then [lower_hex_digit n] else hex_digits (n div 16) @ [lower_hex_digit (n mod 16)])"

declare hex_digits.simps [simp del]

definition fmt_hex_padded :: "nat \<Rightarrow> nat \<Rightarrow> u8 list" where
  "fmt_hex_padded width v = [48, 120] @ replicate (width - 2 - length (hex_digits v)) 48 @ hex_digits v"

text \<open>\<open>{}\<close> of an unsigned number.\<close>

fun fmt_dec :: "nat \<Rightarrow> u8 list" where
  "fmt_dec n = (if n < 10 then [48 + of_nat n] else fmt_dec (n div 10) @ [48 + of_nat (n mod 10)])"

declare fmt_dec.simps [simp del]

end
