(* ===== verification/Memory.thy ===== *)
theory Memory
  imports Prelude
begin

text \<open>
  Physical memory as a function from byte addresses to bytes, with the little-endian loads and
  stores the kernel performs through raw pointers (\<open>src/src/lib/mmio.rs\<close> and every
  \<open>as *mut u64\<close>, \<open>as *mut u16\<close> of the allocators). Every component that keeps its state inside
  memory (the free lists, the page metadata, the slab free lists, the page tables) reads and
  writes this one function, so aliasing between them is part of what is proved.
\<close>

type_synonym mem = "usize \<Rightarrow> u8"

subsection \<open>Little-endian values\<close>

fun le_encode :: "nat \<Rightarrow> nat \<Rightarrow> u8 list" where
  "le_encode 0 v = []"
| "le_encode (Suc n) v = of_nat v # le_encode n (v div 256)"

fun le_decode :: "u8 list \<Rightarrow> nat" where
  "le_decode [] = 0"
| "le_decode (b # bs) = unat b + 256 * le_decode bs"

lemma length_le_encode [simp]: "length (le_encode n v) = n"
  by (induction n arbitrary: v) auto

lemma le_decode_encode: "le_decode (le_encode n v) = v mod 256 ^ n"
proof (induction n arbitrary: v)
  case (Suc n)
  have "unat (of_nat v :: u8) = v mod 256"
    by (simp add: unat_of_nat)
  with Suc show ?case by (simp add: mod_mult2_eq)
qed simp

lemma le_decode_lt: "le_decode bs < 256 ^ length bs"
proof (induction bs)
  case (Cons b bs)
  have "unat b < 256" using unat_lt_pow [of b] by simp
  then have "unat b + 256 * le_decode bs < 256 + 256 * le_decode bs" by simp
  also have "256 + 256 * le_decode bs = 256 * Suc (le_decode bs)" by simp
  also have "\<dots> \<le> 256 * 256 ^ length bs" using Cons by (intro mult_le_mono2) simp
  finally show ?case by simp
qed simp

lemma le_decode_zeros [simp]: "le_decode (replicate n 0) = 0"
  by (induction n) auto

subsection \<open>Loads and stores\<close>

definition load_bytes :: "mem \<Rightarrow> usize \<Rightarrow> nat \<Rightarrow> u8 list" where
  "load_bytes m a n = map (\<lambda>i. m (a + i)) [0..<n]"

definition store_bytes :: "mem \<Rightarrow> usize \<Rightarrow> u8 list \<Rightarrow> mem" where
  "store_bytes m a bs = (\<lambda>x. if a \<le> x \<and> x < a + length bs then bs ! (x - a) else m x)"

definition load :: "mem \<Rightarrow> usize \<Rightarrow> nat \<Rightarrow> nat" where
  "load m a n = le_decode (load_bytes m a n)"

definition store :: "mem \<Rightarrow> usize \<Rightarrow> nat \<Rightarrow> nat \<Rightarrow> mem" where
  "store m a n v = store_bytes m a (le_encode n v)"

text \<open>\<open>ptr.write_bytes(0, n)\<close>.\<close>

definition zero_fill :: "mem \<Rightarrow> usize \<Rightarrow> nat \<Rightarrow> mem" where
  "zero_fill m a n = (\<lambda>x. if a \<le> x \<and> x < a + n then 0 else m x)"

definition read_byte :: "mem \<Rightarrow> usize \<Rightarrow> u8" where
  "read_byte m a = m a"

definition write_byte :: "mem \<Rightarrow> usize \<Rightarrow> u8 \<Rightarrow> mem" where
  "write_byte m a b = m(a := b)"

definition read_32 :: "mem \<Rightarrow> usize \<Rightarrow> u32" where
  "read_32 m a = of_nat (load m a 4)"

definition write_32 :: "mem \<Rightarrow> usize \<Rightarrow> u32 \<Rightarrow> mem" where
  "write_32 m a v = store m a 4 (unat v)"

definition read_u16 :: "mem \<Rightarrow> usize \<Rightarrow> u16" where
  "read_u16 m a = of_nat (load m a 2)"

definition write_u16 :: "mem \<Rightarrow> usize \<Rightarrow> u16 \<Rightarrow> mem" where
  "write_u16 m a v = store m a 2 (unat v)"

definition read_u64 :: "mem \<Rightarrow> usize \<Rightarrow> u64" where
  "read_u64 m a = of_nat (load m a 8)"

definition write_u64 :: "mem \<Rightarrow> usize \<Rightarrow> u64 \<Rightarrow> mem" where
  "write_u64 m a v = store m a 8 (unat v)"

definition read_usize :: "mem \<Rightarrow> usize \<Rightarrow> usize" where
  "read_usize m a = load m a 8"

definition write_usize :: "mem \<Rightarrow> usize \<Rightarrow> usize \<Rightarrow> mem" where
  "write_usize m a v = store m a 8 v"

subsection \<open>Frames: where a store can be seen\<close>

definition range_of :: "usize \<Rightarrow> nat \<Rightarrow> usize set" where
  "range_of a n = {a..<a + n}"

definition same_on :: "usize set \<Rightarrow> mem \<Rightarrow> mem \<Rightarrow> bool" where
  "same_on X m m' \<longleftrightarrow> (\<forall>x \<in> X. m' x = m x)"

lemma same_onI: "(\<And>x. x \<in> X \<Longrightarrow> m' x = m x) \<Longrightarrow> same_on X m m'"
  by (simp add: same_on_def)

lemma same_onD: "same_on X m m' \<Longrightarrow> x \<in> X \<Longrightarrow> m' x = m x"
  by (simp add: same_on_def)

lemma same_on_refl [simp]: "same_on X m m"
  by (simp add: same_on_def)

lemma same_on_trans: "same_on X m m' \<Longrightarrow> same_on X m' m'' \<Longrightarrow> same_on X m m''"
  by (simp add: same_on_def)

lemma same_on_subset: "same_on X m m' \<Longrightarrow> Y \<subseteq> X \<Longrightarrow> same_on Y m m'"
  by (auto simp: same_on_def)

lemma in_range_of [simp]: "x \<in> range_of a n \<longleftrightarrow> a \<le> x \<and> x < a + n"
  by (simp add: range_of_def)

lemma range_of_mono: "b \<le> a \<Longrightarrow> a + n \<le> b + k \<Longrightarrow> range_of a n \<subseteq> range_of b k"
  by auto

lemma range_of_disjoint: "a + n \<le> b \<or> b + k \<le> a \<Longrightarrow> range_of a n \<inter> range_of b k = {}"
  by auto

lemma load_same_on: "same_on (range_of a n) m m' \<Longrightarrow> load m' a n = load m a n"
  by (auto simp: load_def load_bytes_def same_on_def intro!: arg_cong [where f = le_decode])

lemma store_same_on: "range_of a n \<inter> X = {} \<Longrightarrow> same_on X m (store m a n v)"
  by (fastforce simp: same_on_def store_def store_bytes_def disjoint_iff)

lemma load_store_same: "load (store m a n v) a n = v mod 256 ^ n"
proof -
  have "load_bytes (store m a n v) a n = le_encode n v"
    by (rule nth_equalityI) (simp_all add: load_bytes_def store_def store_bytes_def)
  then show ?thesis by (simp add: load_def le_decode_encode)
qed

lemma load_store_other:
  assumes "a + n \<le> b \<or> b + k \<le> a"
  shows "load (store m a n v) b k = load m b k"
proof (rule load_same_on)
  have "range_of a n \<inter> range_of b k = {}"
    using assms by (rule range_of_disjoint)
  then show "same_on (range_of b k) m (store m a n v)"
    by (rule store_same_on)
qed

lemma load_lt: "load m a n < 256 ^ n"
  using le_decode_lt [of "load_bytes m a n"] by (simp add: load_def load_bytes_def)

lemma zero_fill_same_on: "range_of a n \<inter> X = {} \<Longrightarrow> same_on X m (zero_fill m a n)"
  by (fastforce simp: same_on_def zero_fill_def disjoint_iff)

lemma load_zero_fill:
  assumes "a \<le> b" "b + k \<le> a + n"
  shows "load (zero_fill m a n) b k = 0"
proof -
  have "load_bytes (zero_fill m a n) b k = replicate k 0"
    using assms by (intro nth_equalityI) (auto simp: load_bytes_def zero_fill_def)
  then show ?thesis by (simp add: load_def)
qed

subsection \<open>The sized accesses\<close>

lemma read_write_u64 [simp]: "read_u64 (write_u64 m a v) a = v"
  using unat_lt_pow [of v] by (simp add: read_u64_def write_u64_def load_store_same)

lemma read_write_u16 [simp]: "read_u16 (write_u16 m a v) a = v"
  using unat_lt_pow [of v] by (simp add: read_u16_def write_u16_def load_store_same)

lemma read_write_usize: "v < usize_limit \<Longrightarrow> read_usize (write_usize m a v) a = v"
  by (simp add: read_usize_def write_usize_def load_store_same)

lemma write_u64_same_on: "range_of a 8 \<inter> X = {} \<Longrightarrow> same_on X m (write_u64 m a v)"
  by (simp add: write_u64_def store_same_on)

lemma write_u16_same_on: "range_of a 2 \<inter> X = {} \<Longrightarrow> same_on X m (write_u16 m a v)"
  by (simp add: write_u16_def store_same_on)

lemma write_usize_same_on: "range_of a 8 \<inter> X = {} \<Longrightarrow> same_on X m (write_usize m a v)"
  by (simp add: write_usize_def store_same_on)

lemma read_u64_same_on: "same_on (range_of a 8) m m' \<Longrightarrow> read_u64 m' a = read_u64 m a"
  by (simp add: read_u64_def load_same_on)

lemma read_u16_same_on: "same_on (range_of a 2) m m' \<Longrightarrow> read_u16 m' a = read_u16 m a"
  by (simp add: read_u16_def load_same_on)

lemma read_usize_same_on: "same_on (range_of a 8) m m' \<Longrightarrow> read_usize m' a = read_usize m a"
  by (simp add: read_usize_def load_same_on)

lemma read_usize_lt: "read_usize m a < usize_limit"
  using load_lt [of m a 8] by (simp add: read_usize_def)

lemma read_u64_zero_fill: "a \<le> b \<Longrightarrow> b + 8 \<le> a + n \<Longrightarrow> read_u64 (zero_fill m a n) b = 0"
  by (simp add: read_u64_def load_zero_fill)

end
