(* ===== verification/Pfn.thy ===== *)
theory Pfn
  imports Memory
begin

text \<open>
  Page frame numbers (\<open>src/src/mm/pfn.rs\<close>), regions and page ranges
  (\<open>src/src/mm/region.rs\<close>), and the alignment helpers of \<open>src/src/mm/map.rs\<close>.
  The newtype \<open>Pfn(usize)\<close> is its number.
\<close>

type_synonym pfn = usize

definition PAGE_SIZE :: usize where
  "PAGE_SIZE = 4096"

definition pfn_ZERO :: pfn where
  "pfn_ZERO = 0"

definition to_addr :: "pfn \<Rightarrow> usize" where
  "to_addr p = usize_mul p PAGE_SIZE"

definition from_addr_down :: "usize \<Rightarrow> pfn" where
  "from_addr_down a = a div PAGE_SIZE"

definition from_addr_up :: "usize \<Rightarrow> pfn" where
  "from_addr_up a = div_ceil a PAGE_SIZE"

definition pfn_offset :: "pfn \<Rightarrow> usize \<Rightarrow> pfn" where
  "pfn_offset p n = usize_add p n"

definition pages_until :: "pfn \<Rightarrow> pfn \<Rightarrow> usize" where
  "pages_until p e = usize_sub e p"

definition alignment_order :: "pfn \<Rightarrow> usize" where
  "alignment_order p = trailing_zeros p"

definition index_from :: "pfn \<Rightarrow> pfn \<Rightarrow> usize" where
  "index_from p b = usize_sub p b"

definition buddy :: "pfn \<Rightarrow> usize \<Rightarrow> pfn" where
  "buddy p order = p XOR usize_shl 1 order"

subsection \<open>The buddy of a block\<close>

lemma bit_nat_div: "bit (n::nat) k \<longleftrightarrow> odd (n div 2 ^ k)"
  by (simp add: bit_iff_odd)

lemma xor_pow2:
  fixes p :: nat
  shows "p XOR 2 ^ k = (if odd (p div 2 ^ k) then p - 2 ^ k else p + 2 ^ k)"
proof -
  have flip: "p XOR 2 ^ k = flip_bit k p"
    by (simp add: flip_bit_eq_xor push_bit_eq_mult)
  show ?thesis
  proof (cases "bit p k")
    case True
    then have "flip_bit k p = unset_bit k p" by (simp add: flip_bit_eq_if)
    moreover have "p = unset_bit k p + 2 ^ k"
    proof -
      have "p = set_bit k (unset_bit k p)"
        using True by (auto intro!: bit_eqI simp: bit_simps)
      then show ?thesis by (simp add: set_bit_eq bit_simps)
    qed
    ultimately show ?thesis using True flip by (auto simp: bit_nat_div)
  next
    case False
    then have "flip_bit k p = set_bit k p" by (simp add: flip_bit_eq_if)
    moreover have "set_bit k p = p + 2 ^ k"
      using False by (simp add: set_bit_eq)
    ultimately show ?thesis using False flip by (auto simp: bit_nat_div)
  qed
qed

text \<open>
  A block of order \<open>k\<close> is \<open>2 ^ k\<close> pages from a page number that is a multiple of \<open>2 ^ k\<close>.
\<close>

definition block :: "pfn \<Rightarrow> nat \<Rightarrow> pfn set" where
  "block p k = {p..<p + 2 ^ k}"

lemma in_block [simp]: "x \<in> block p k \<longleftrightarrow> p \<le> x \<and> x < p + 2 ^ k"
  by (simp add: block_def)

lemma block_0 [simp]: "block p 0 = {p}"
  by (auto simp: block_def)

lemma block_nonempty [simp]: "p \<in> block p k"
  by simp

lemma finite_block [simp]: "finite (block p k)" and card_block [simp]: "card (block p k) = 2 ^ k"
  by (simp_all add: block_def)

lemma block_split: "block p (Suc k) = block p k \<union> block (p + 2 ^ k) k"
  by (auto simp: block_def)

lemma block_split_disjoint: "block p k \<inter> block (p + 2 ^ k) k = {}"
  by (auto simp: block_def)

lemma buddy_cases:
  assumes "2 ^ k dvd p" and "k < 64"
  shows "buddy p k = (if 2 ^ Suc k dvd p then p + 2 ^ k else p - 2 ^ k)"
proof -
  obtain q where q: "p = 2 ^ k * q" using assms(1) by (auto elim: dvdE)
  have "2 ^ Suc k dvd p \<longleftrightarrow> even q"
    using q by (simp add: mult.commute [of 2])
  moreover have "p div 2 ^ k = q" using q by simp
  moreover have "usize_shl 1 k = 2 ^ k"
    using assms(2) power_strict_increasing [of k 64 "2::nat"] by (simp add: usize_shl_def)
  ultimately show ?thesis by (simp add: buddy_def xor_pow2)
qed

lemma not_dvd_Suc_ge: "2 ^ k dvd p \<Longrightarrow> \<not> 2 ^ Suc k dvd p \<Longrightarrow> (2::nat) ^ k \<le> p"
  by (metis dvd_0_right dvd_imp_le gr0I)

lemma dvd_Suc_cases:
  assumes "2 ^ k dvd (p::nat)"
  shows "2 ^ Suc k dvd p \<or> 2 ^ Suc k dvd p - 2 ^ k \<and> 2 ^ k \<le> p"
proof -
  obtain q where q: "p = 2 ^ k * q" using assms by (auto elim: dvdE)
  show ?thesis
  proof (cases "even q")
    case True
    then show ?thesis using q by (simp add: mult.commute [of 2])
  next
    case False
    then obtain r where "q = 2 * r + 1" by (auto elim: oddE)
    then have "p - 2 ^ k = 2 ^ Suc k * r" "2 ^ k \<le> p"
      using q by (simp_all add: algebra_simps)
    then show ?thesis by simp
  qed
qed

text \<open>
  The two halves of a block of order \<open>k + 1\<close> are each other's buddy, and the lower one of a block
  and its buddy starts the block the two make together.
\<close>

lemma buddy_merge:
  assumes "2 ^ k dvd p" and "k < 64"
  shows "2 ^ Suc k dvd min p (buddy p k)"
    and "block p k \<union> block (buddy p k) k = block (min p (buddy p k)) (Suc k)"
    and "block p k \<inter> block (buddy p k) k = {}"
    and "2 ^ k dvd buddy p k"
proof -
  have "2 ^ Suc k dvd min p (buddy p k)
      \<and> block p k \<union> block (buddy p k) k = block (min p (buddy p k)) (Suc k)
      \<and> block p k \<inter> block (buddy p k) k = {} \<and> 2 ^ k dvd buddy p k"
  proof (cases "2 ^ Suc k dvd p")
    case True
    then have "buddy p k = p + 2 ^ k" using buddy_cases [OF assms] by simp
    moreover have "min p (p + 2 ^ k) = p" by simp
    ultimately show ?thesis
      using True assms(1) block_split [of p k] block_split_disjoint [of p k] by simp
  next
    case False
    obtain r where r: "p = r + 2 ^ k" "2 ^ Suc k dvd r"
      using dvd_Suc_cases [OF assms(1)] False by (metis le_add_diff_inverse2)
    then have "buddy p k = r" "min p r = r"
      using buddy_cases [OF assms] False by simp_all
    moreover have "2 ^ k dvd r" using r(2) by (metis dvd_mult_right power_Suc)
    ultimately show ?thesis
      using r block_split [of r k] block_split_disjoint [of r k] by (simp add: Un_commute Int_commute)
  qed
  then show "2 ^ Suc k dvd min p (buddy p k)"
    "block p k \<union> block (buddy p k) k = block (min p (buddy p k)) (Suc k)"
    "block p k \<inter> block (buddy p k) k = {}"
    "2 ^ k dvd buddy p k"
    by blast+
qed

lemma buddy_neq: "2 ^ k dvd p \<Longrightarrow> k < 64 \<Longrightarrow> buddy p k \<noteq> p"
  using buddy_merge(3) [of k p] block_nonempty by fastforce

lemma buddy_buddy:
  assumes "2 ^ k dvd p" and "k < 64"
  shows "buddy (buddy p k) k = p"
  by (simp add: buddy_def xor.assoc)

text \<open>An aligned block never straddles another: the smaller one is inside or outside.\<close>

lemma aligned_block_nested:
  assumes "2 ^ j dvd p" "2 ^ k dvd q" "j \<le> k" "x \<in> block p j" "x \<in> block q k"
  shows "block p j \<subseteq> block q k"
proof -
  have "2 ^ j dvd q" using assms(2,3) power_le_dvd by blast
  then obtain a b where ab: "p = 2 ^ j * a" "q = 2 ^ j * b"
    using assms(1) by (auto elim!: dvdE)
  have k: "(2::nat) ^ k = 2 ^ j * 2 ^ (k - j)"
    using assms(3) by (simp flip: power_add)
  have x: "2 ^ j * a \<le> x" "x < 2 ^ j * (a + 1)" "2 ^ j * b \<le> x" "x < 2 ^ j * (b + 2 ^ (k - j))"
    using assms(4,5) ab k by (simp_all add: algebra_simps)
  have "2 ^ j * b < 2 ^ j * (a + 1)" "2 ^ j * a < 2 ^ j * (b + 2 ^ (k - j))"
    using x by (meson le_less_trans)+
  then have "b < a + 1" "a < b + 2 ^ (k - j)"
    unfolding nat_mult_less_cancel_disj by simp_all
  then have "b \<le> a" "a + 1 \<le> b + 2 ^ (k - j)" by simp_all
  then have "q \<le> p" "2 ^ j * (a + 1) \<le> 2 ^ j * (b + 2 ^ (k - j))"
    using ab by (simp, intro mult_le_mono2) 
  moreover from this(2) have "p + 2 ^ j \<le> q + 2 ^ k"
    using ab k by (simp add: algebra_simps)
  ultimately show ?thesis by (auto simp: block_def)
qed

subsection \<open>The bytes of a page\<close>

lemma PAGE_SIZE_eq [simp]: "PAGE_SIZE = 4096"
  by (simp add: PAGE_SIZE_def)

text \<open>Page numbers of addresses below \<open>2 ^ 64\<close>.\<close>

abbreviation pfn_limit :: nat where
  "pfn_limit \<equiv> 4503599627370496"

definition page_bytes :: "pfn \<Rightarrow> usize set" where
  "page_bytes p = range_of (p * 4096) 4096"

lemma to_addr_small [usize_arith]: "p < pfn_limit \<Longrightarrow> to_addr p = p * 4096"
  by (simp add: to_addr_def usize_mul_def)

lemma in_page_bytes [simp]: "x \<in> page_bytes p \<longleftrightarrow> x div 4096 = p"
  by (auto simp: page_bytes_def)

lemma page_bytes_disjoint: "p \<noteq> q \<Longrightarrow> page_bytes p \<inter> page_bytes q = {}"
  by auto

lemma from_addr_down_to_addr [simp]: "p < pfn_limit \<Longrightarrow> from_addr_down (to_addr p) = p"
  by (simp add: to_addr_small from_addr_down_def)

lemma from_addr_up_to_addr [simp]: "p < pfn_limit \<Longrightarrow> from_addr_up (to_addr p) = p"
  by (simp add: to_addr_small from_addr_up_def)

lemma from_addr_up_le_iff: "from_addr_up a \<le> p \<longleftrightarrow> a \<le> p * 4096"
  by (simp add: from_addr_up_def div_ceil_le_iff)

lemma less_from_addr_up_iff: "p < from_addr_up a \<longleftrightarrow> p * 4096 < a"
  by (simp add: from_addr_up_def less_div_ceil_iff)

lemma pages_until_small [usize_arith]: "p \<le> e \<Longrightarrow> pages_until p e = e - p"
  by (simp add: pages_until_def usize_sub_small)

lemma index_from_small [usize_arith]: "b \<le> p \<Longrightarrow> index_from p b = p - b"
  by (simp add: index_from_def usize_sub_small)

lemma pfn_offset_small [usize_arith]: "p + n < usize_limit \<Longrightarrow> pfn_offset p n = p + n"
  by (simp add: pfn_offset_def usize_add_small)

declare in_block [simp del]

end
