(* ===== verification/Region.thy ===== *)
theory Region
  imports Pfn
begin

text \<open>
  Regions and page ranges (\<open>src/src/mm/region.rs\<close>) and the alignment functions of
  \<open>src/src/mm/map.rs\<close>. A region is a byte range as the device tree or the linker script gave it; a
  page range is the pages it touches inside the arena.
\<close>

record region =
  r_base :: usize
  r_size :: usize

record page_range =
  pr_start :: pfn
  pr_end :: pfn

definition region_EMPTY :: region where
  "region_EMPTY = \<lparr>r_base = 0, r_size = 0\<rparr>"

definition region_end :: "region \<Rightarrow> usize" where
  "region_end r = usize_add (r_base r) (r_size r)"

definition page_range_new :: "region \<Rightarrow> region \<Rightarrow> page_range option" where
  "page_range_new r arena =
    (let lo = max (r_base r) (r_base arena);
         hi = min (region_end r) (region_end arena)
     in if lo < hi then Some \<lparr>pr_start = from_addr_down lo, pr_end = from_addr_up hi\<rparr>
        else None)"

definition pr_pages :: "page_range \<Rightarrow> usize" where
  "pr_pages r = pages_until (pr_start r) (pr_end r)"

definition pr_contains :: "page_range \<Rightarrow> pfn \<Rightarrow> bool" where
  "pr_contains r p \<longleftrightarrow> pr_start r \<le> p \<and> p < pr_end r"

definition pr_region :: "page_range \<Rightarrow> region" where
  "pr_region r = \<lparr>r_base = to_addr (pr_start r), r_size = usize_mul (pr_pages r) PAGE_SIZE\<rparr>"

subsection \<open>Which pages a range holds\<close>

definition pr_set :: "page_range \<Rightarrow> pfn set" where
  "pr_set r = {p. pr_contains r p}"

lemma in_pr_set: "p \<in> pr_set r \<longleftrightarrow> pr_start r \<le> p \<and> p < pr_end r"
  by (simp add: pr_set_def pr_contains_def)

text \<open>
  A page is in the range of a region when it holds a byte of the region and of the arena: the
  region is rounded outward, so a region that starts in the middle of a page claims the page.
\<close>

definition page_touches :: "region \<Rightarrow> region \<Rightarrow> pfn \<Rightarrow> bool" where
  "page_touches r arena p \<longleftrightarrow>
    max (r_base r) (r_base arena) < min (region_end r) (region_end arena) \<and>
    max (r_base r) (r_base arena) div 4096 \<le> p \<and>
    p * 4096 < min (region_end r) (region_end arena)"

lemma page_range_new_set:
  "page_range_new r arena = Some pr \<Longrightarrow> p \<in> pr_set pr \<longleftrightarrow> page_touches r arena p"
  by (auto simp: in_pr_set page_range_new_def page_touches_def Let_def from_addr_down_def
      less_from_addr_up_iff split: if_splits)

lemma page_range_new_None: "page_range_new r arena = None \<Longrightarrow> \<not> page_touches r arena p"
  by (auto simp: page_range_new_def page_touches_def Let_def split: if_splits)

lemma page_touches_byte:
  "page_touches r arena p \<longleftrightarrow>
    (\<exists>x. x div 4096 = p \<and> max (r_base r) (r_base arena) \<le> x \<and> x < min (region_end r) (region_end arena))"
    (is "?l \<longleftrightarrow> ?r")
proof -
  let ?lo = "max (r_base r) (r_base arena)" and ?hi = "min (region_end r) (region_end arena)"
  have "?lo < ?hi \<and> ?lo div 4096 \<le> p \<and> p * 4096 < ?hi \<longleftrightarrow>
      (\<exists>x. x div 4096 = p \<and> ?lo \<le> x \<and> x < ?hi)" (is "?a \<longleftrightarrow> ?b")
  proof
    assume a: ?a
    have "max ?lo (p * 4096) div 4096 = p"
      using a by (cases "?lo \<le> p * 4096") (auto simp: max_def not_le dest: div_le_mono [of _ _ 4096])
    moreover have "max ?lo (p * 4096) < ?hi" using a by simp
    ultimately show ?b by (meson max.cobounded1)
  next
    assume ?b
    then obtain x where x: "x div 4096 = p" "?lo \<le> x" "x < ?hi" by blast
    have "?lo div 4096 \<le> p" using x(1,2) div_le_mono by blast
    moreover have "p * 4096 \<le> x" using x(1) by auto
    ultimately show ?a using x(2,3) by linarith
  qed
  then show ?thesis by (simp add: page_touches_def)
qed

lemma pr_pages_small [usize_arith]: "pr_start r \<le> pr_end r \<Longrightarrow> pr_pages r = pr_end r - pr_start r"
  by (simp add: pr_pages_def pages_until_small)

subsection \<open>Alignment\<close>

definition align_up :: "usize \<Rightarrow> usize \<Rightarrow> usize" where
  "align_up a align = usize_sub (usize_add a align) 1 AND usize_not (usize_sub align 1)"

definition align_down :: "usize \<Rightarrow> usize \<Rightarrow> usize" where
  "align_down a align = a AND usize_not (usize_sub align 1)"

lemma and_not_mask:
  assumes "a < usize_limit" and "k \<le> 64"
  shows "a AND usize_not (2 ^ k - 1) = a div 2 ^ k * 2 ^ k"
proof -
  have split: "(2::nat) ^ 64 = 2 ^ k * 2 ^ (64 - k)"
    using assms(2) by (simp flip: power_add)
  have "usize_not (2 ^ k - 1) = 2 ^ 64 - 2 ^ k"
    by (simp add: usize_not_def)
  also have "\<dots> = push_bit k (mask (64 - k))"
    by (simp only: split push_bit_eq_mult mask_eq_exp_minus_1 diff_mult_distrib mult.commute [of "2 ^ k"] mult_1)
  finally have notk: "usize_not (2 ^ k - 1) = push_bit k (mask (64 - k))" .
  have "a = take_bit 64 a" using assms(1) by (simp add: take_bit_nat_eq_self)
  then have top: "bit a i \<Longrightarrow> i < 64" for i
    by (metis bit_take_bit_iff)
  have "a AND push_bit k (mask (64 - k)) = push_bit k (drop_bit k a)"
  proof (rule bit_eqI)
    fix n
    have "bit a n \<Longrightarrow> k \<le> n \<Longrightarrow> n - k < 64 - k"
      using top [of n] by linarith
    then show "bit (a AND push_bit k (mask (64 - k))) n = bit (push_bit k (drop_bit k a)) n"
      by (auto simp: bit_simps)
  qed
  then show ?thesis
    by (simp only: notk) (simp add: push_bit_eq_mult drop_bit_eq_div)
qed

lemma align_down_pow2:
  "a < usize_limit \<Longrightarrow> k < 64 \<Longrightarrow> align_down a (2 ^ k) = a div 2 ^ k * 2 ^ k"
  using and_not_mask [of a k] by (simp add: align_down_def usize_sub_small)

lemma div_ceil_eq_div: "0 < b \<Longrightarrow> div_ceil a b = (a + b - 1) div b"
proof -
  assume b: "0 < b"
  show ?thesis
  proof (rule antisym)
    have "a + b - 1 < (a + b - 1) div b * b + b"
      using dividend_less_div_times [OF b, of "a + b - 1"] by simp
    then show "div_ceil a b \<le> (a + b - 1) div b"
      using b by (simp add: div_ceil_le_iff)
    have "a \<le> div_ceil a b * b" using b div_ceil_le_iff by blast
    then show "(a + b - 1) div b \<le> div_ceil a b"
      using b by (intro less_Suc_eq_le [THEN iffD1]) (simp add: div_less_iff_less_mult)
  qed
qed

lemma align_up_pow2:
  assumes "a + 2 ^ k \<le> usize_limit" and "k < 64" and "0 < a + 2 ^ k - 1"
  shows "align_up a (2 ^ k) = div_ceil a (2 ^ k) * 2 ^ k"
proof -
  have "usize_sub (usize_add a (2 ^ k)) 1 = a + 2 ^ k - 1"
  proof (cases "a + 2 ^ k = usize_limit")
    case True
    then show ?thesis by (simp add: usize_add_def usize_sub_def)
  next
    case False
    with assms(1) have "usize_add a (2 ^ k) = a + 2 ^ k" by (simp add: usize_add_small)
    moreover have "1 \<le> a + 2 ^ k" by (simp add: add_increasing)
    ultimately show ?thesis by (simp only: usize_sub_small)
  qed
  moreover have "a + 2 ^ k - 1 < usize_limit" using assms(1) by simp
  ultimately show ?thesis
    using and_not_mask [of "a + 2 ^ k - 1" k] assms(2)
    by (simp add: align_up_def usize_sub_small div_ceil_eq_div)
qed

lemma align_down_page: "a < usize_limit \<Longrightarrow> align_down a 4096 = a div 4096 * 4096"
  using align_down_pow2 [of a 12] by simp

lemma align_up_page: "a + 4096 \<le> usize_limit \<Longrightarrow> align_up a 4096 = div_ceil a 4096 * 4096"
  using align_up_pow2 [of a 12] by simp

end
