(* ===== verification/Store.thy ===== *)
theory Store
  imports Prelude
begin

text \<open>
  Two interfaces every in-memory structure of the kernel has. A \<open>store\<close> is a state that keeps a
  value per key: the page metadata table, the links in free pages, the slots of a page table. A
  \<open>link_store\<close> keeps doubly linked lists in such values, the intrusive lists of the free blocks and
  of the partial slabs; what pushing and unlinking do to a list is proved once, here, and used by
  both.
\<close>

subsection \<open>Doubly linked lists over a next and a previous map\<close>

fun dseg :: "('k \<Rightarrow> 'k option) \<Rightarrow> ('k \<Rightarrow> 'k option) \<Rightarrow> 'k option \<Rightarrow> 'k option \<Rightarrow> 'k list
    \<Rightarrow> 'k option \<Rightarrow> 'k option \<Rightarrow> bool" where
  "dseg nx pv p h [] q t \<longleftrightarrow> h = t \<and> p = q"
| "dseg nx pv p h (x # xs) q t \<longleftrightarrow> h = Some x \<and> pv x = p \<and> dseg nx pv (Some x) (nx x) xs q t"

fun dll :: "('k \<Rightarrow> 'k option) \<Rightarrow> ('k \<Rightarrow> 'k option) \<Rightarrow> 'k option \<Rightarrow> 'k option \<Rightarrow> 'k list \<Rightarrow> bool" where
  "dll nx pv p h [] \<longleftrightarrow> h = None"
| "dll nx pv p h (x # xs) \<longleftrightarrow> h = Some x \<and> pv x = p \<and> dll nx pv (Some x) (nx x) xs"

lemma dll_append:
  "dll nx pv p h (as @ bs) \<longleftrightarrow> (\<exists>q t. dseg nx pv p h as q t \<and> dll nx pv q t bs)"
  by (induction as arbitrary: p h) auto

lemma dseg_last: "dseg nx pv p h as q t \<Longrightarrow> q = (if as = [] then p else Some (last as))"
  by (induction as arbitrary: p h) auto

lemma dseg_next: "dseg nx pv p h as q t \<Longrightarrow> t = (if as = [] then h else nx (last as))"
  by (induction as arbitrary: p h) (auto split: if_splits)

lemma dseg_head: "dseg nx pv p h as q t \<Longrightarrow> h = (if as = [] then t else Some (hd as))"
  by (cases as) auto

lemma dll_head: "dll nx pv p h xs \<Longrightarrow> h = (if xs = [] then None else Some (hd xs))"
  by (cases xs) auto

lemma dll_cong:
  "(\<And>x. x \<in> set xs \<Longrightarrow> nx' x = nx x \<and> pv' x = pv x) \<Longrightarrow> dll nx' pv' p h xs = dll nx pv p h xs"
  by (induction xs arbitrary: p h) auto

lemma dseg_cong:
  "(\<And>x. x \<in> set xs \<Longrightarrow> nx' x = nx x \<and> pv' x = pv x) \<Longrightarrow> dseg nx' pv' p h xs q t = dseg nx pv p h xs q t"
  by (induction xs arbitrary: p h) auto

text \<open>Changing what the first node has as previous, and what the last has as next.\<close>

lemma dll_new_prev:
  assumes "dll nx pv p h xs" and "distinct xs"
    and "\<And>x. x \<in> set xs \<Longrightarrow> nx' x = nx x"
    and "\<And>x. x \<in> set xs \<Longrightarrow> pv' x = (if h = Some x then p' else pv x)"
  shows "dll nx' pv' p' h xs"
proof (cases xs)
  case Nil
  then show ?thesis using assms(1) by simp
next
  case (Cons x ys)
  have "dll nx' pv' (Some x) (nx x) ys = dll nx pv (Some x) (nx x) ys"
    using assms Cons by (intro dll_cong) auto
  then show ?thesis using assms Cons by simp
qed

lemma dseg_new_next:
  assumes "dseg nx pv p h xs q t" and "distinct xs"
    and "\<And>x. x \<in> set xs \<Longrightarrow> pv' x = pv x"
    and "\<And>x. x \<in> set xs \<Longrightarrow> nx' x = (if q = Some x then t' else nx x)"
  shows "dseg nx' pv' p (if xs = [] then t' else h) xs q t'"
  using assms
proof (induction xs arbitrary: p h)
  case (Cons x xs)
  have q: "q = (if xs = [] then Some x else Some (last xs))"
    using dseg_last Cons.prems(1) by fastforce
  have "dseg nx' pv' (Some x) (if xs = [] then t' else nx x) xs q t'"
    using Cons.prems by (intro Cons.IH) auto
  moreover have "nx' x = (if xs = [] then t' else nx x)"
    using Cons.prems q by (auto dest: last_in_set)
  ultimately show ?case using Cons.prems by simp
qed simp

lemma dll_push_maps:
  assumes "dll nx pv None h xs" and "distinct xs" and "k \<notin> set xs"
    and "nx' k = h" "pv' k = None"
    and "\<And>x. x \<in> set xs \<Longrightarrow> nx' x = nx x"
    and "\<And>x. x \<in> set xs \<Longrightarrow> pv' x = (if h = Some x then Some k else pv x)"
  shows "dll nx' pv' None (Some k) (k # xs)"
  using dll_new_prev [of nx pv None h xs nx' pv' "Some k"] assms by simp

lemma dll_unlink_links:
  assumes "dll nx pv None h (as @ k # bs)"
  shows "pv k = (if as = [] then None else Some (last as))"
    and "nx k = (if bs = [] then None else Some (hd bs))"
    and "h = (if as = [] then Some k else Some (hd as))"
proof -
  obtain q t where qt: "dseg nx pv None h as q t" "dll nx pv q t (k # bs)"
    using assms dll_append by metis
  then show "pv k = (if as = [] then None else Some (last as))"
    "nx k = (if bs = [] then None else Some (hd bs))"
    "h = (if as = [] then Some k else Some (hd as))"
    using dseg_last dseg_head dll_head [of nx pv "Some k" "nx k" bs] by fastforce+
qed

lemma dll_unlink_maps:
  assumes d: "dll nx pv None h (as @ k # bs)" and dist: "distinct (as @ k # bs)"
    and nx: "\<And>x. x \<in> set (as @ bs) \<Longrightarrow> nx' x = (if pv k = Some x then nx k else nx x)"
    and pv: "\<And>x. x \<in> set (as @ bs) \<Longrightarrow> pv' x = (if nx k = Some x then pv k else pv x)"
  shows "dll nx' pv' None (if pv k = None then nx k else h) (as @ bs)"
proof -
  obtain q t where qt: "dseg nx pv None h as q t" "dll nx pv q t (k # bs)"
    using d dll_append by metis
  note k = dll_unlink_links [OF d]
  have q: "q = pv k" and t: "t = Some k" and b: "dll nx pv (Some k) (nx k) bs"
    using qt by auto
  have "dseg nx' pv' None (if as = [] then nx k else h) as q (nx k)"
  proof (rule dseg_new_next [OF qt(1)])
    show "pv' x = pv x" if "x \<in> set as" for x
    proof -
      have "x \<notin> set bs" using that dist by auto
      then have "nx k \<noteq> Some x" using k(2) by auto
      then show ?thesis using that pv by simp
    qed
    show "nx' x = (if q = Some x then nx k else nx x)" if "x \<in> set as" for x
      using that nx q by simp
  qed (use dist in simp)
  moreover have "dll nx' pv' q (nx k) bs"
  proof (rule dll_new_prev [OF b])
    show "nx' x = nx x" if "x \<in> set bs" for x
    proof -
      have "x \<notin> set as" using that dist by auto
      then have "pv k \<noteq> Some x" using k(1) by auto
      then show ?thesis using that nx by simp
    qed
    show "pv' x = (if nx k = Some x then q else pv x)" if "x \<in> set bs" for x
      using that pv q by simp
  qed (use dist in simp)
  ultimately have "dll nx' pv' None (if as = [] then nx k else h) (as @ bs)"
    unfolding dll_append by blast
  moreover have "(if as = [] then nx k else h) = (if pv k = None then nx k else h)"
    using k(1) by simp
  ultimately show ?thesis by simp
qed

subsection \<open>Stores\<close>

locale store =
  fixes rd :: "'s \<Rightarrow> 'k \<Rightarrow> 'v"
    and wr :: "'s \<Rightarrow> 'k \<Rightarrow> 'v \<Rightarrow> 's"
    and ok :: "'k \<Rightarrow> bool"
    and fits :: "'v \<Rightarrow> bool"
  assumes rd_wr_same: "ok k \<Longrightarrow> fits v \<Longrightarrow> rd (wr s k v) k = v"
    and rd_wr_other: "ok k \<Longrightarrow> ok k' \<Longrightarrow> k' \<noteq> k \<Longrightarrow> rd (wr s k v) k' = rd s k'"
begin

lemma rd_wr: "ok k \<Longrightarrow> ok k' \<Longrightarrow> fits v \<Longrightarrow> rd (wr s k v) k' = (if k' = k then v else rd s k')"
  by (simp add: rd_wr_same rd_wr_other)

lemma rd_wr_wr:
  "ok k \<Longrightarrow> ok j \<Longrightarrow> ok i \<Longrightarrow> fits v \<Longrightarrow> fits w \<Longrightarrow>
    rd (wr (wr s k v) j w) i = (if i = j then w else if i = k then v else rd s i)"
  by (simp add: rd_wr)

end

text \<open>
  A store of nodes with a next and a previous link: \<open>set_next\<close> and \<open>set_prev\<close> say what rewriting one
  link of a node means.
\<close>

locale link_store = store rd wr ok fits
  for rd :: "'s \<Rightarrow> 'k \<Rightarrow> 'v"
    and wr :: "'s \<Rightarrow> 'k \<Rightarrow> 'v \<Rightarrow> 's"
    and ok :: "'k \<Rightarrow> bool"
    and fits :: "'v \<Rightarrow> bool" +
  fixes nxt :: "'v \<Rightarrow> 'k option"
    and prv :: "'v \<Rightarrow> 'k option"
begin

definition chain :: "'s \<Rightarrow> 'k option \<Rightarrow> 'k list \<Rightarrow> bool" where
  "chain s h xs \<longleftrightarrow> distinct xs \<and> (\<forall>x \<in> set xs. ok x)
    \<and> dll (\<lambda>x. nxt (rd s x)) (\<lambda>x. prv (rd s x)) None h xs"

lemma chain_Nil [simp]: "chain s h [] \<longleftrightarrow> h = None"
  by (simp add: chain_def)

lemma chain_head: "chain s h xs \<Longrightarrow> h = (if xs = [] then None else Some (hd xs))"
  by (auto simp: chain_def dest: dll_head)

lemma chain_cong:
  "(\<And>x. x \<in> set xs \<Longrightarrow> nxt (rd s' x) = nxt (rd s x) \<and> prv (rd s' x) = prv (rd s x)) \<Longrightarrow>
    chain s' h xs = chain s h xs"
  unfolding chain_def
  using dll_cong [of xs "\<lambda>x. nxt (rd s' x)" "\<lambda>x. nxt (rd s x)" "\<lambda>x. prv (rd s' x)" "\<lambda>x. prv (rd s x)"]
  by simp

text \<open>Pushing a node in front of the old head: one write for the node, one for the old head.\<close>

lemma chain_push_empty:
  assumes "ok k" "fits v" "nxt v = None" "prv v = None"
  shows "chain (wr s k v) (Some k) [k]"
  using assms by (simp add: chain_def rd_wr_same)

lemma chain_push:
  assumes c: "chain s (Some h) xs" and k: "ok k" "k \<notin> set xs"
    and v: "fits v" "nxt v = Some h" "prv v = None"
    and w: "fits w" "nxt w = nxt (rd s h)" "prv w = Some k"
  shows "chain (wr (wr s k v) h w) (Some k) (k # xs)"
proof -
  have h: "h \<in> set xs" using chain_head [OF c] by (auto split: if_splits)
  then have okh: "ok h" and hk: "h \<noteq> k" using c k(2) by (auto simp: chain_def)
  let ?s = "wr (wr s k v) h w"
  have rd': "rd ?s x = (if x = h then w else if x = k then v else rd s x)" if "ok x" for x
    using that okh k(1) v(1) w(1) by (simp add: rd_wr_wr)
  have ok: "\<forall>x \<in> set (k # xs). ok x" using c k(1) by (auto simp: chain_def)
  have "dll (\<lambda>x. nxt (rd ?s x)) (\<lambda>x. prv (rd ?s x)) None (Some k) (k # xs)"
  proof (rule dll_push_maps)
    show "dll (\<lambda>x. nxt (rd s x)) (\<lambda>x. prv (rd s x)) None (Some h) xs" "distinct xs"
      using c by (simp_all add: chain_def)
  qed (use k v w hk rd' ok in auto)
  then show ?thesis using c k ok by (simp add: chain_def)
qed

text \<open>
  Unlinking a node. Whatever the order of the writes, a list is unlinked when the new state has the
  node's next as the next of its previous, and the node's previous as the previous of its next.
\<close>

lemma chain_unlink:
  assumes c: "chain s h (as @ k # bs)"
    and nx: "\<And>x. x \<in> set (as @ bs) \<Longrightarrow>
      nxt (rd s' x) = (if prv (rd s k) = Some x then nxt (rd s k) else nxt (rd s x))"
    and pv: "\<And>x. x \<in> set (as @ bs) \<Longrightarrow>
      prv (rd s' x) = (if nxt (rd s k) = Some x then prv (rd s k) else prv (rd s x))"
  shows "chain s' (if prv (rd s k) = None then nxt (rd s k) else h) (as @ bs)"
proof -
  have "dll (\<lambda>x. nxt (rd s' x)) (\<lambda>x. prv (rd s' x)) None
      (if prv (rd s k) = None then nxt (rd s k) else h) (as @ bs)"
    using c by (intro dll_unlink_maps) (auto simp: chain_def nx pv)
  then show ?thesis using c by (simp add: chain_def)
qed

lemma chain_links:
  assumes "chain s h (as @ k # bs)"
  shows "prv (rd s k) = (if as = [] then None else Some (last as))"
    and "nxt (rd s k) = (if bs = [] then None else Some (hd bs))"
  using assms dll_unlink_links [of "\<lambda>x. nxt (rd s x)" "\<lambda>x. prv (rd s x)" h as k bs]
  by (auto simp: chain_def)

lemma chain_neighbours:
  assumes "chain s h (as @ k # bs)"
  shows "prv (rd s k) = Some x \<Longrightarrow> x \<in> set as" and "nxt (rd s k) = Some x \<Longrightarrow> x \<in> set bs"
  using chain_links [OF assms] by (auto split: if_splits)

end

end
