(* ===== verification/FreeLists.thy ===== *)
theory FreeLists
  imports Pfn Region Store
begin

text \<open>
  The free lists of the buddy allocator (\<open>src/src/mm/frames/lists.rs\<close>): one doubly linked list of
  free blocks per order, whose links are the first two words of the free blocks themselves. The
  model reads and writes those words in memory; \<open>fl_inv\<close> relates the heads and the memory to one
  list of page numbers per order, and each operation is shown to be a list operation on it.
\<close>

definition MAX_ORDER :: usize where
  "MAX_ORDER = 10"

definition ORDERS :: usize where
  "ORDERS = MAX_ORDER + 1"

definition EMPTY_LINK :: usize where
  "EMPTY_LINK = usize_limit - 1"

record links =
  l_prev :: "pfn option"
  l_next :: "pfn option"

record free_lists =
  fl_heads :: "pfn option list"
  fl_pages :: usize

definition free_lists_empty :: free_lists where
  "free_lists_empty = \<lparr>fl_heads = replicate ORDERS None, fl_pages = 0\<rparr>"

definition addr_from_pfn :: "pfn option \<Rightarrow> usize" where
  "addr_from_pfn p = (case p of None \<Rightarrow> EMPTY_LINK | Some q \<Rightarrow> to_addr q)"

definition pfn_from_addr :: "usize \<Rightarrow> pfn option" where
  "pfn_from_addr a = (if a \<noteq> EMPTY_LINK then Some (from_addr_down a) else None)"

definition links_encode :: "links \<Rightarrow> usize \<times> usize" where
  "links_encode l = (addr_from_pfn (l_prev l), addr_from_pfn (l_next l))"

definition links_decode :: "usize \<times> usize \<Rightarrow> links" where
  "links_decode raw = \<lparr>l_prev = pfn_from_addr (fst raw), l_next = pfn_from_addr (snd raw)\<rparr>"

definition read_links :: "mem \<Rightarrow> pfn \<Rightarrow> links" where
  "read_links m p = links_decode (read_usize m (to_addr p), read_usize m (to_addr p + 8))"

definition write_links :: "mem \<Rightarrow> pfn \<Rightarrow> links \<Rightarrow> mem" where
  "write_links m p l =
    (let raw = links_encode l
     in write_usize (write_usize m (to_addr p) (fst raw)) (to_addr p + 8) (snd raw))"

definition fl_head :: "free_lists \<Rightarrow> nat \<Rightarrow> pfn option" where
  "fl_head fl order = (case get (fl_heads fl) order of None \<Rightarrow> None | Some h \<Rightarrow> h)"

text \<open>\<open>blocks\<close> walks the list; on a cyclic list it would not return, which is \<open>None\<close>.\<close>

partial_function (option) fl_count :: "mem \<Rightarrow> pfn option \<Rightarrow> usize \<Rightarrow> usize option" where
  "fl_count m current count =
    (case current of
       None \<Rightarrow> Some count
     | Some p \<Rightarrow> fl_count m (l_next (read_links m p)) (usize_add count 1))"

definition fl_blocks :: "mem \<Rightarrow> free_lists \<Rightarrow> nat \<Rightarrow> usize option" where
  "fl_blocks m fl order = fl_count m (fl_head fl order) 0"

definition fl_push :: "mem \<Rightarrow> free_lists \<Rightarrow> pfn \<Rightarrow> nat \<Rightarrow> mem \<times> free_lists" where
  "fl_push m fl p order =
    (case get (fl_heads fl) order of
       None \<Rightarrow> (m, fl)
     | Some head \<Rightarrow>
         let heads = (fl_heads fl)[order := Some p];
             m1 = write_links m p \<lparr>l_prev = None, l_next = head\<rparr>;
             m2 = (case head of
                     None \<Rightarrow> m1
                   | Some h \<Rightarrow> write_links m1 h ((read_links m1 h)\<lparr>l_prev := Some p\<rparr>))
         in (m2, \<lparr>fl_heads = heads, fl_pages = usize_add (fl_pages fl) (usize_shl 1 order)\<rparr>))"

definition fl_unlink :: "mem \<Rightarrow> free_lists \<Rightarrow> pfn \<Rightarrow> nat \<Rightarrow> mem \<times> free_lists" where
  "fl_unlink m fl p order =
    (let prev = l_prev (read_links m p);
         next = l_next (read_links m p);
         m1 = (case prev of
                 Some q \<Rightarrow> write_links m q ((read_links m q)\<lparr>l_next := next\<rparr>)
               | None \<Rightarrow> m);
         heads = (case prev of
                    Some q \<Rightarrow> fl_heads fl
                  | None \<Rightarrow> (fl_heads fl)[order := next]);
         m2 = (case next of
                 Some n \<Rightarrow> write_links m1 n ((read_links m1 n)\<lparr>l_prev := prev\<rparr>)
               | None \<Rightarrow> m1)
     in (m2, \<lparr>fl_heads = heads, fl_pages = usize_sub (fl_pages fl) (usize_shl 1 order)\<rparr>))"

definition fl_pop :: "mem \<Rightarrow> free_lists \<Rightarrow> nat \<Rightarrow> mem \<times> free_lists \<times> pfn option" where
  "fl_pop m fl order =
    (case fl_head fl order of
       None \<Rightarrow> (m, fl, None)
     | Some p \<Rightarrow> let (m', fl') = fl_unlink m fl p order in (m', fl', Some p))"

subsection \<open>Links in a free page\<close>

definition links_fit :: "links \<Rightarrow> bool" where
  "links_fit l \<longleftrightarrow> pred_option (\<lambda>p. p < pfn_limit) (l_prev l) \<and> pred_option (\<lambda>p. p < pfn_limit) (l_next l)"

lemma pfn_addr_roundtrip: "pred_option (\<lambda>p. p < pfn_limit) v \<Longrightarrow> pfn_from_addr (addr_from_pfn v) = v"
proof (cases v)
  case (Some p)
  assume "pred_option (\<lambda>p. p < pfn_limit) v"
  then have p: "p < pfn_limit" using Some by simp
  have "p * 4096 \<noteq> usize_limit - 1"
  proof
    assume "p * 4096 = usize_limit - 1"
    then have "p * 4096 mod 4096 = (usize_limit - 1) mod 4096" by (rule arg_cong)
    then show False by simp
  qed
  then show ?thesis
    using Some p by (simp add: addr_from_pfn_def pfn_from_addr_def EMPTY_LINK_def to_addr_small
        from_addr_down_def)
qed (simp add: addr_from_pfn_def pfn_from_addr_def)

lemma addr_from_pfn_lt: "pred_option (\<lambda>p. p < pfn_limit) v \<Longrightarrow> addr_from_pfn v < usize_limit"
  by (cases v) (auto simp: addr_from_pfn_def EMPTY_LINK_def to_addr_small)

lemma links_roundtrip: "links_fit l \<Longrightarrow> links_decode (links_encode l) = l"
  by (simp add: links_fit_def links_encode_def links_decode_def pfn_addr_roundtrip)

lemma read_links_fit: "links_fit (read_links m p)"
proof -
  have "pred_option (\<lambda>p. p < pfn_limit) (pfn_from_addr a)" if "a < usize_limit" for a
    using that by (simp add: pfn_from_addr_def from_addr_down_def div_less_iff_less_mult)
  then show ?thesis
    by (simp add: links_fit_def read_links_def links_decode_def read_usize_lt)
qed

lemma read_write_links_same: "p < pfn_limit \<Longrightarrow> links_fit l \<Longrightarrow> read_links (write_links m p l) p = l"
proof -
  assume p: "p < pfn_limit" and l: "links_fit l"
  have e: "fst (links_encode l) < usize_limit" "snd (links_encode l) < usize_limit"
    using l by (simp_all add: links_encode_def links_fit_def addr_from_pfn_lt)
  let ?m = "write_usize m (to_addr p) (fst (links_encode l))"
  have "same_on (range_of (to_addr p) 8) ?m (write_usize ?m (to_addr p + 8) (snd (links_encode l)))"
    by (intro write_usize_same_on range_of_disjoint) simp
  then have "read_usize (write_links m p l) (to_addr p) = fst (links_encode l)"
    using e by (simp add: write_links_def Let_def read_usize_same_on read_write_usize)
  moreover have "read_usize (write_links m p l) (to_addr p + 8) = snd (links_encode l)"
    using e by (simp add: write_links_def Let_def read_write_usize)
  ultimately show ?thesis using l by (simp add: read_links_def links_roundtrip)
qed

definition bytes_of :: "pfn set \<Rightarrow> usize set" where
  "bytes_of P = {x. x div 4096 \<in> P}"

lemma in_bytes_of [simp]: "x \<in> bytes_of P \<longleftrightarrow> x div 4096 \<in> P"
  by (simp add: bytes_of_def)

lemma write_links_same_on: "p < pfn_limit \<Longrightarrow> X \<inter> page_bytes p = {} \<Longrightarrow> same_on X m (write_links m p l)"
proof -
  assume p: "p < pfn_limit" and X: "X \<inter> page_bytes p = {}"
  have "range_of (to_addr p) 8 \<subseteq> page_bytes p" "range_of (to_addr p + 8) 8 \<subseteq> page_bytes p"
    using p by (auto simp: to_addr_small page_bytes_def)
  then have "range_of (to_addr p) 8 \<inter> X = {}" "range_of (to_addr p + 8) 8 \<inter> X = {}"
    using X by blast+
  then show ?thesis
    unfolding write_links_def Let_def
    by (blast intro: same_on_trans write_usize_same_on)
qed

lemma read_links_same_on: "p < pfn_limit \<Longrightarrow> same_on (page_bytes p) m m' \<Longrightarrow> read_links m' p = read_links m p"
proof -
  assume p: "p < pfn_limit" and s: "same_on (page_bytes p) m m'"
  have "range_of (to_addr p) 8 \<subseteq> page_bytes p" "range_of (to_addr p + 8) 8 \<subseteq> page_bytes p"
    using p by (auto simp: to_addr_small page_bytes_def)
  then have "same_on (range_of (to_addr p) 8) m m'" "same_on (range_of (to_addr p + 8) 8) m m'"
    using s same_on_subset by blast+
  then show ?thesis by (simp add: read_links_def read_usize_same_on)
qed

interpretation flinks: link_store read_links write_links "\<lambda>p. p < pfn_limit" links_fit l_next l_prev
proof
  show "read_links (write_links s k v) k = v" if "k < pfn_limit" "links_fit v" for s k v
    using that by (rule read_write_links_same)
  show "read_links (write_links s k v) k' = read_links s k'"
    if "k < pfn_limit" "k' < pfn_limit" "k' \<noteq> k" for s :: mem and k k' v
    using that by (intro read_links_same_on write_links_same_on page_bytes_disjoint) auto
qed

subsection \<open>The lists the heads and the memory stand for\<close>

definition heads_set :: "(nat \<Rightarrow> pfn list) \<Rightarrow> pfn set" where
  "heads_set L = (\<Union>k<ORDERS. set (L k))"

definition total_pages :: "(nat \<Rightarrow> pfn list) \<Rightarrow> nat" where
  "total_pages L = (\<Sum>k<ORDERS. length (L k) * 2 ^ k)"

definition fl_inv :: "mem \<Rightarrow> free_lists \<Rightarrow> (nat \<Rightarrow> pfn list) \<Rightarrow> bool" where
  "fl_inv m fl L \<longleftrightarrow> length (fl_heads fl) = ORDERS
    \<and> (\<forall>k<ORDERS. flinks.chain m (fl_heads fl ! k) (L k))
    \<and> (\<forall>j<ORDERS. \<forall>k<ORDERS. j \<noteq> k \<longrightarrow> set (L j) \<inter> set (L k) = {})
    \<and> fl_pages fl = total_pages L \<and> total_pages L < usize_limit"

lemma ORDERS_eq: "ORDERS = 11"
  by (simp add: ORDERS_def MAX_ORDER_def)

lemma fl_invD:
  assumes "fl_inv m fl L" and "k < ORDERS"
  shows "flinks.chain m (fl_heads fl ! k) (L k)" and "distinct (L k)"
    and "x \<in> set (L k) \<Longrightarrow> x < pfn_limit" and "fl_head fl k = fl_heads fl ! k"
    and "fl_head fl k = (if L k = [] then None else Some (hd (L k)))"
proof -
  show c: "flinks.chain m (fl_heads fl ! k) (L k)" using assms by (simp add: fl_inv_def)
  then show "distinct (L k)" "x \<in> set (L k) \<Longrightarrow> x < pfn_limit" by (auto simp: flinks.chain_def)
  show h: "fl_head fl k = fl_heads fl ! k" using assms by (simp add: fl_head_def fl_inv_def)
  show "fl_head fl k = (if L k = [] then None else Some (hd (L k)))"
    unfolding h using c by (rule flinks.chain_head)
qed

lemma heads_setI: "k < ORDERS \<Longrightarrow> x \<in> set (L k) \<Longrightarrow> x \<in> heads_set L"
  by (auto simp: heads_set_def)

lemma heads_set_limit: "fl_inv m fl L \<Longrightarrow> x \<in> heads_set L \<Longrightarrow> x < pfn_limit"
  by (auto simp: heads_set_def dest: fl_invD(3))

lemma heads_set_upd:
  "k < ORDERS \<Longrightarrow> heads_set (L(k := xs)) = set xs \<union> (\<Union>j \<in> {..<ORDERS} - {k}. set (L j))"
  by (auto simp: heads_set_def split: if_splits)

lemma total_pages_upd:
  "k < ORDERS \<Longrightarrow> total_pages (L(k := xs)) + length (L k) * 2 ^ k = total_pages L + length xs * 2 ^ k"
  by (simp add: total_pages_def sum.remove [of "{..<ORDERS}" k])

lemma usize_shl_order: "k < ORDERS \<Longrightarrow> usize_shl 1 k = 2 ^ k"
  using power_strict_increasing [of k 11 "2::nat"] by (simp add: usize_shl_def ORDERS_eq)

text \<open>Chains whose nodes keep their links keep their shape; the rest of an update of one list.\<close>

lemma fl_inv_update:
  assumes inv: "fl_inv m fl L" and k: "k < ORDERS"
    and fl': "fl_heads fl' = (fl_heads fl)[k := h']"
    and chain: "flinks.chain m' h' xs"
    and others: "\<And>x. x < pfn_limit \<Longrightarrow> x \<notin> set (L k) \<Longrightarrow> x \<notin> set xs \<Longrightarrow> read_links m' x = read_links m x"
    and new: "\<And>x. x \<in> set xs \<Longrightarrow> x \<in> set (L k) \<or> x \<notin> heads_set L"
    and pages: "fl_pages fl' = total_pages (L(k := xs))" "total_pages (L(k := xs)) < usize_limit"
  shows "fl_inv m' fl' (L(k := xs))"
proof -
  have disj: "set (L j) \<inter> set xs = {}" if "j < ORDERS" "j \<noteq> k" for j
    using new inv k that heads_setI [OF that(1)] by (fastforce simp: fl_inv_def)
  have "flinks.chain m' (fl_heads fl' ! j) ((L(k := xs)) j)" if j: "j < ORDERS" for j
  proof (cases "j = k")
    case True
    then show ?thesis using chain fl' inv k by (simp add: fl_inv_def)
  next
    case False
    have "read_links m' x = read_links m x" if "x \<in> set (L j)" for x
    proof (rule others)
      show "x < pfn_limit" using fl_invD(3) [OF inv j that] .
      show "x \<notin> set (L k)" using inv j k False that by (auto simp: fl_inv_def)
      show "x \<notin> set xs" using disj [OF j False] that by auto
    qed
    then have "flinks.chain m' (fl_heads fl ! j) (L j) = flinks.chain m (fl_heads fl ! j) (L j)"
      by (intro flinks.chain_cong) simp
    then show ?thesis using fl_invD(1) [OF inv j] False fl' by simp
  qed
  moreover have "length (fl_heads fl') = ORDERS" using fl' inv by (simp add: fl_inv_def)
  ultimately show ?thesis
    using disj inv pages by (auto simp: fl_inv_def Int_commute)
qed

lemma fl_push_inv:
  assumes inv: "fl_inv m fl L" and k: "k < ORDERS" and p: "p < pfn_limit" "p \<notin> heads_set L"
    and room: "total_pages L + 2 ^ k < usize_limit"
    and push: "fl_push m fl p k = (m', fl')"
  shows "fl_inv m' fl' (L(k := p # L k))"
    and "same_on (- bytes_of (insert p (heads_set L))) m m'"
proof -
  let ?h = "fl_heads fl ! k" and ?v = "\<lparr>l_prev = None, l_next = fl_heads fl ! k\<rparr>"
  let ?m1 = "write_links m p ?v"
  define w where "w = (\<lambda>h. (read_links ?m1 h)\<lparr>l_prev := Some p\<rparr>)"
  note c = fl_invD(1) [OF inv k]
  have notin: "p \<notin> set (L k)" using p(2) heads_setI [OF k] by blast
  have len: "k < length (fl_heads fl)" using inv k by (simp add: fl_inv_def)
  have m': "m' = (case ?h of None \<Rightarrow> ?m1 | Some h \<Rightarrow> write_links ?m1 h (w h))"
    and fl': "fl' = \<lparr>fl_heads = (fl_heads fl)[k := Some p], fl_pages = usize_add (fl_pages fl) (2 ^ k)\<rparr>"
    using push len usize_shl_order [OF k] by (auto simp: fl_push_def Let_def w_def split: option.splits)
  have hd: "h \<in> set (L k) \<and> h < pfn_limit \<and> h \<noteq> p" if "?h = Some h" for h
  proof -
    have "h \<in> set (L k)" using flinks.chain_head [OF c] that by (auto split: if_splits)
    then show ?thesis using fl_invD(3) [OF inv k] notin by auto
  qed
  have vfit: "links_fit ?v"
    using hd by (cases ?h) (auto simp: links_fit_def)
  have wfit: "links_fit (w h)" for h
    using read_links_fit [of ?m1 h] p(1) by (simp add: links_fit_def w_def)
  have chain: "flinks.chain m' (Some p) (p # L k)"
  proof (cases ?h)
    case None
    then have "L k = []" using flinks.chain_head [OF c] by (simp split: if_splits)
    then show ?thesis
      using None vfit p(1) flinks.chain_push_empty [of p ?v m] by (simp add: m')
  next
    case (Some h)
    have "l_next (w h) = l_next (read_links m h)"
      using hd [OF Some] p(1) flinks.rd_wr_other [of p h m ?v] by (simp add: w_def)
    then show ?thesis
      using c Some vfit wfit p(1) notin by (auto simp: m' w_def intro!: flinks.chain_push)
  qed
  have other: "read_links m' x = read_links m x"
    if "x < pfn_limit" "x \<notin> set (L k)" "x \<notin> set (p # L k)" for x
  proof -
    have "read_links ?m1 x = read_links m x"
      using that p(1) by (intro flinks.rd_wr_other) auto
    moreover have "read_links (write_links ?m1 h (w h)) x = read_links ?m1 x" if "?h = Some h" for h
      using hd [OF that] \<open>x < pfn_limit\<close> \<open>x \<notin> set (L k)\<close> by (intro flinks.rd_wr_other) auto
    ultimately show ?thesis by (cases ?h) (simp_all add: m')
  qed
  have tot: "total_pages (L(k := p # L k)) = total_pages L + 2 ^ k"
    using total_pages_upd [OF k, of L "p # L k"] by simp
  show "fl_inv m' fl' (L(k := p # L k))"
  proof (rule fl_inv_update [OF inv k _ chain])
    show "fl_heads fl' = (fl_heads fl)[k := Some p]" by (simp add: fl')
    show "fl_pages fl' = total_pages (L(k := p # L k))"
      using inv room by (simp add: fl' tot fl_inv_def usize_add_small)
  qed (use other p(2) room tot in auto)
  have "same_on (- bytes_of (insert p (heads_set L))) m ?m1"
    using p(1) by (intro write_links_same_on) auto
  moreover have "same_on (- bytes_of (insert p (heads_set L))) ?m1 (write_links ?m1 h (w h))"
    if "?h = Some h" for h
    using hd [OF that] heads_setI [OF k] by (intro write_links_same_on) auto
  ultimately show "same_on (- bytes_of (insert p (heads_set L))) m m'"
    by (cases ?h) (auto simp: m' intro: same_on_trans)
qed

lemma fl_push_out_of_range: "length (fl_heads fl) \<le> k \<Longrightarrow> fl_push m fl p k = (m, fl)"
  by (simp add: fl_push_def)

lemma fl_unlink_inv:
  assumes inv: "fl_inv m fl L" and k: "k < ORDERS" and p: "p \<in> set (L k)"
    and unlink: "fl_unlink m fl p k = (m', fl')"
  shows "fl_inv m' fl' (L(k := remove1 p (L k)))"
    and "same_on (- bytes_of (heads_set L)) m m'"
proof -
  obtain as bs where split: "L k = as @ p # bs" using p by (meson split_list)
  note c = fl_invD(1) [OF inv k] and dist = fl_invD(2) [OF inv k]
  have rem: "remove1 p (L k) = as @ bs" using split dist by (simp add: remove1_append)
  define pr nx where "pr = l_prev (read_links m p)" and "nx = l_next (read_links m p)"
  define wp where "wp = (\<lambda>q. (read_links m q)\<lparr>l_next := nx\<rparr>)"
  define m1 where "m1 = (case pr of Some q \<Rightarrow> write_links m q (wp q) | None \<Rightarrow> m)"
  define wn where "wn = (\<lambda>n. (read_links m1 n)\<lparr>l_prev := pr\<rparr>)"
  have m': "m' = (case nx of Some n \<Rightarrow> write_links m1 n (wn n) | None \<Rightarrow> m1)"
    and fl': "fl' = \<lparr>fl_heads = (case pr of Some q \<Rightarrow> fl_heads fl | None \<Rightarrow> (fl_heads fl)[k := nx]),
      fl_pages = usize_sub (fl_pages fl) (2 ^ k)\<rparr>"
    using unlink usize_shl_order [OF k]
    by (auto simp: fl_unlink_def Let_def pr_def nx_def wp_def m1_def wn_def split: option.splits)
  note nb = flinks.chain_neighbours [OF c [unfolded split]]
  have prin: "q \<in> set as \<and> q < pfn_limit" if "pr = Some q" for q
    using that nb(1) fl_invD(3) [OF inv k] split by (auto simp: pr_def)
  have nxin: "n \<in> set bs \<and> n < pfn_limit" if "nx = Some n" for n
    using that nb(2) fl_invD(3) [OF inv k] split by (auto simp: nx_def)
  have fits: "links_fit (wp q)" "links_fit (wn n)" for q n
    using read_links_fit [of m p] read_links_fit [of m q] read_links_fit [of m1 n]
    by (simp_all add: links_fit_def wp_def wn_def pr_def nx_def)
  have rd1: "read_links m1 x = (if pr = Some x then wp x else read_links m x)" if "x < pfn_limit" for x
    using that prin fits flinks.rd_wr by (auto simp: m1_def split: option.splits)
  have rd2: "read_links m' x = (if nx = Some x then wn x else read_links m1 x)" if "x < pfn_limit" for x
    using that nxin fits flinks.rd_wr by (auto simp: m' split: option.splits)
  have disj: "x \<notin> set bs" if "x \<in> set as" for x
    using that dist split by auto
  have lim: "x < pfn_limit" if "x \<in> set (as @ bs)" for x
    using that fl_invD(3) [OF inv k] split by auto
  let ?h = "fl_heads fl ! k"
  have chain: "flinks.chain m' (if pr = None then nx else ?h) (as @ bs)"
    unfolding pr_def nx_def
  proof (rule flinks.chain_unlink [OF c [unfolded split]], fold pr_def nx_def)
    show "l_next (read_links m' x) = (if pr = Some x then nx else l_next (read_links m x))"
      if "x \<in> set (as @ bs)" for x
      using rd1 [OF lim [OF that]] rd2 [OF lim [OF that]] by (simp add: wp_def wn_def)
    show "l_prev (read_links m' x) = (if nx = Some x then pr else l_prev (read_links m x))"
      if "x \<in> set (as @ bs)" for x
      using rd1 [OF lim [OF that]] rd2 [OF lim [OF that]] by (simp add: wp_def wn_def)
  qed
  have other: "read_links m' x = read_links m x" if "x < pfn_limit" "x \<notin> set (L k)" for x
    using rd1 [OF that(1)] rd2 [OF that(1)] prin nxin that(2) split by (auto split: if_splits)
  have tot: "total_pages (L(k := as @ bs)) + 2 ^ k = total_pages L"
    using total_pages_upd [OF k, of L "as @ bs"] split by simp
  show "fl_inv m' fl' (L(k := remove1 p (L k)))"
    unfolding rem
  proof (rule fl_inv_update [OF inv k _ chain])
    show "fl_heads fl' = (fl_heads fl)[k := if pr = None then nx else ?h]"
      by (cases pr) (simp_all add: fl')
    show "fl_pages fl' = total_pages (L(k := as @ bs))"
      using inv tot by (simp add: fl' fl_inv_def usize_sub_small)
    show "total_pages (L(k := as @ bs)) < usize_limit"
      using inv tot by (simp add: fl_inv_def)
  qed (use other split in auto)
  have "same_on (- bytes_of (heads_set L)) m m1"
    using prin heads_setI [OF k, of _ L] split
    by (auto simp: m1_def split: option.splits intro!: write_links_same_on)
  moreover have "same_on (- bytes_of (heads_set L)) m1 m'"
    using nxin heads_setI [OF k, of _ L] split
    by (auto simp: m' split: option.splits intro!: write_links_same_on)
  ultimately show "same_on (- bytes_of (heads_set L)) m m'" by (rule same_on_trans)
qed

lemma fl_pop_inv:
  assumes inv: "fl_inv m fl L" and k: "k < ORDERS" and xs: "L k = p # ps"
  obtains m' fl' where "fl_pop m fl k = (m', fl', Some p)" and "fl_inv m' fl' (L(k := ps))"
    and "same_on (- bytes_of (heads_set L)) m m'"
proof -
  obtain m' fl' where u: "fl_unlink m fl p k = (m', fl')" by fastforce
  have "fl_head fl k = Some p" using fl_invD(5) [OF inv k] xs by simp
  then have "fl_pop m fl k = (m', fl', Some p)" using u by (simp add: fl_pop_def)
  moreover have "p \<in> set (L k)" using xs by simp
  ultimately show thesis
    using that fl_unlink_inv [OF inv k _ u] xs by simp
qed

lemma fl_pop_empty: "fl_inv m fl L \<Longrightarrow> k < ORDERS \<Longrightarrow> L k = [] \<Longrightarrow> fl_pop m fl k = (m, fl, None)"
  using fl_invD(5) by (simp add: fl_pop_def)

lemma fl_inv_same_on:
  assumes "fl_inv m fl L" and "same_on (bytes_of (heads_set L)) m m'"
  shows "fl_inv m' fl L"
proof -
  have "flinks.chain m' (fl_heads fl ! k) (L k)" if k: "k < ORDERS" for k
  proof -
    have "read_links m' x = read_links m x" if "x \<in> set (L k)" for x
      using fl_invD(3) [OF assms(1) k that] assms(2) heads_setI [of k x L] k that
      by (intro read_links_same_on) (auto intro: same_on_subset)
    then have "flinks.chain m' (fl_heads fl ! k) (L k) = flinks.chain m (fl_heads fl ! k) (L k)"
      by (intro flinks.chain_cong) simp
    then show ?thesis using fl_invD(1) [OF assms(1) k] by simp
  qed
  then show ?thesis using assms(1) by (simp add: fl_inv_def)
qed

lemma heads_set_empty [simp]: "heads_set (\<lambda>_. []) = {}"
  by (simp add: heads_set_def)

lemma fl_inv_empty: "fl_inv m free_lists_empty (\<lambda>_. [])"
  by (simp add: fl_inv_def free_lists_empty_def total_pages_def)

text \<open>The debug walk returns, with the length of the list (as a \<open>usize\<close>).\<close>

lemma fl_count_chain:
  "dll (\<lambda>x. l_next (read_links m x)) pv prev h xs \<Longrightarrow> fl_count m h (n mod usize_limit)
    = Some ((n + length xs) mod usize_limit)"
proof (induction xs arbitrary: prev h n)
  case Nil
  then show ?case by (simp add: fl_count.simps)
next
  case (Cons x xs)
  have "usize_add (n mod usize_limit) 1 = (n + 1) mod usize_limit"
    by (simp add: usize_add_def mod_simps)
  then show ?case
    using Cons.IH [of "Some x" "l_next (read_links m x)" "n + 1"] Cons.prems
    by (simp add: fl_count.simps [of m "Some x"])
qed

lemma fl_blocks_length:
  assumes "fl_inv m fl L" and "k < ORDERS"
  shows "fl_blocks m fl k = Some (length (L k) mod usize_limit)"
proof -
  have "dll (\<lambda>x. l_next (read_links m x)) (\<lambda>x. l_prev (read_links m x)) None (fl_head fl k) (L k)"
    using fl_invD(1,4) [OF assms] by (simp add: flinks.chain_def)
  then show ?thesis using fl_count_chain [of m _ None _ _ 0] by (simp add: fl_blocks_def)
qed

end
