(* ===== verification/Gaps.thy ===== *)
theory Gaps
  imports Region
begin

text \<open>
  The gap iterator (\<open>src/src/mm/gaps.rs\<close>): the runs of whole pages of the arena that no taken
  region touches, in address order. The lazy iterator is modelled by the list of everything it
  yields; its two loops (skipping forward over taken ranges, and yielding run after run) are
  recursive functions whose termination is proved, for any arena and any list of regions.
\<close>

definition ranges :: "region \<Rightarrow> region list \<Rightarrow> page_range list" where
  "ranges arena taken = List.map_filter (\<lambda>r. page_range_new r arena) taken"

definition containing :: "region \<Rightarrow> region list \<Rightarrow> pfn \<Rightarrow> pfn option" where
  "containing arena taken p = map_option pr_end (find (\<lambda>r. pr_contains r p) (ranges arena taken))"

definition next_base_above :: "region \<Rightarrow> region list \<Rightarrow> pfn \<Rightarrow> pfn option" where
  "next_base_above arena taken p =
    list_min (map pr_start (filter (\<lambda>r. p < pr_start r) (ranges arena taken)))"

lemma containing_SomeD:
  "containing arena taken p = Some e \<Longrightarrow> \<exists>r \<in> set (ranges arena taken). pr_contains r p \<and> pr_end r = e"
  by (auto simp: containing_def dest: find_SomeD)

lemma containing_None: "containing arena taken p = None \<longleftrightarrow> (\<forall>r \<in> set (ranges arena taken). \<not> pr_contains r p)"
  by (simp add: containing_def find_None_iff_all)

lemma containing_greater: "containing arena taken p = Some e \<Longrightarrow> p < e"
  by (auto dest!: containing_SomeD simp: pr_contains_def)

text \<open>\<open>while let Some(stop) = containing(cursor) { cursor = stop }\<close>.\<close>

function gaps_skip :: "region \<Rightarrow> region list \<Rightarrow> pfn \<Rightarrow> pfn" where
  "gaps_skip arena taken cursor =
    (case containing arena taken cursor of
       Some stop \<Rightarrow> gaps_skip arena taken stop
     | None \<Rightarrow> cursor)"
  by pat_completeness auto
termination
proof (relation "measure (\<lambda>(arena, taken, cursor). sum_list (map pr_end (ranges arena taken)) - cursor)")
  fix arena taken cursor stop
  assume c: "containing arena taken cursor = Some stop"
  then obtain r where "r \<in> set (ranges arena taken)" "pr_end r = stop"
    using containing_SomeD by blast
  then have "stop \<le> sum_list (map pr_end (ranges arena taken))"
    using member_le_sum_list [of stop "map pr_end (ranges arena taken)"] by auto
  then show "((arena, taken, stop), arena, taken, cursor)
      \<in> measure (\<lambda>(arena, taken, cursor). sum_list (map pr_end (ranges arena taken)) - cursor)"
    using containing_greater [OF c] by simp
qed simp

declare gaps_skip.simps [simp del]

lemma gaps_skip_ge: "cursor \<le> gaps_skip arena taken cursor"
proof (induction arena taken cursor rule: gaps_skip.induct)
  case (1 arena taken cursor)
  then show ?case
    using containing_greater [of arena taken cursor]
    by (subst gaps_skip.simps) (fastforce split: option.splits)
qed

lemma gaps_skip_free: "containing arena taken (gaps_skip arena taken cursor) = None"
proof (induction arena taken cursor rule: gaps_skip.induct)
  case (1 arena taken cursor)
  then show ?case
    by (simp add: gaps_skip.simps [of arena taken cursor] split: option.splits)
qed

definition run_end :: "region \<Rightarrow> region list \<Rightarrow> pfn \<Rightarrow> pfn \<Rightarrow> pfn" where
  "run_end arena taken cursor fin =
    min (case next_base_above arena taken cursor of Some b \<Rightarrow> b | None \<Rightarrow> fin) fin"

lemma next_base_above_greater: "next_base_above arena taken p = Some b \<Longrightarrow> p < b"
  by (auto simp: next_base_above_def dest!: list_min_Some)

lemma run_end_greater: "cursor < fin \<Longrightarrow> cursor < run_end arena taken cursor fin"
  by (auto simp: run_end_def dest: next_base_above_greater split: option.splits)

text \<open>The closure of \<open>from_fn\<close>, called until it returns \<open>None\<close>.\<close>

function gaps_from :: "region \<Rightarrow> region list \<Rightarrow> pfn \<Rightarrow> page_range list" where
  "gaps_from arena taken cursor =
    (let c = gaps_skip arena taken cursor;
         fin = from_addr_down (region_end arena)
     in if fin \<le> c then []
        else let stop = run_end arena taken c fin
             in \<lparr>pr_start = c, pr_end = stop\<rparr> # gaps_from arena taken stop)"
  by pat_completeness auto
termination
proof (relation "measure (\<lambda>(arena, taken, cursor). from_addr_down (region_end arena) - cursor)")
  fix arena taken cursor c fin stop
  assume "c = gaps_skip arena taken cursor" "fin = from_addr_down (region_end arena)"
    "\<not> fin \<le> c" "stop = run_end arena taken c fin"
  then show "((arena, taken, stop), arena, taken, cursor)
      \<in> measure (\<lambda>(arena, taken, cursor). from_addr_down (region_end arena) - cursor)"
    using gaps_skip_ge [of cursor arena taken] run_end_greater [of c fin arena taken] by auto
qed simp

declare gaps_from.simps [simp del]

definition gaps :: "region \<Rightarrow> region list \<Rightarrow> page_range list" where
  "gaps arena taken = gaps_from arena taken (from_addr_up (r_base arena))"

subsection \<open>What the iterator yields\<close>

definition taken_page :: "region \<Rightarrow> region list \<Rightarrow> pfn \<Rightarrow> bool" where
  "taken_page arena taken p \<longleftrightarrow> (\<exists>r \<in> set taken. page_touches r arena p)"

lemma taken_page_ranges: "taken_page arena taken p \<longleftrightarrow> (\<exists>r \<in> set (ranges arena taken). pr_contains r p)"
proof -
  have "page_touches r arena p \<longleftrightarrow> (\<exists>pr. page_range_new r arena = Some pr \<and> pr_contains pr p)" for r
    using page_range_new_set [of r arena] page_range_new_None [of r arena]
    by (cases "page_range_new r arena") (auto simp: in_pr_set pr_contains_def)
  then show ?thesis
    by (auto simp: taken_page_def ranges_def set_map_filter)
qed

lemma containing_None_iff: "containing arena taken p = None \<longleftrightarrow> \<not> taken_page arena taken p"
  by (simp add: containing_None taken_page_ranges)

lemma gaps_skip_skips: "cursor \<le> p \<Longrightarrow> p < gaps_skip arena taken cursor \<Longrightarrow> taken_page arena taken p"
proof (induction arena taken cursor rule: gaps_skip.induct)
  case (1 arena taken cursor)
  show ?case
  proof (cases "containing arena taken cursor")
    case None
    with "1.prems" show ?thesis by (simp add: gaps_skip.simps [of arena taken cursor])
  next
    case (Some stop)
    show ?thesis
    proof (cases "p < stop")
      case True
      with Some "1.prems"(1) show ?thesis
        by (force simp: taken_page_ranges pr_contains_def dest!: containing_SomeD)
    next
      case False
      with Some "1.prems" show ?thesis
        by (intro "1.IH") (simp_all add: gaps_skip.simps [of arena taken cursor])
    qed
  qed
qed

lemma run_untaken:
  assumes "\<not> taken_page arena taken c" "c \<le> p" "p < run_end arena taken c fin"
  shows "\<not> taken_page arena taken p"
proof
  assume "taken_page arena taken p"
  then obtain r where r: "r \<in> set (ranges arena taken)" "pr_start r \<le> p" "p < pr_end r"
    by (auto simp: taken_page_ranges pr_contains_def)
  have "c < pr_start r"
  proof (rule ccontr)
    assume "\<not> c < pr_start r"
    then have "pr_contains r c" using assms(2) r by (simp add: pr_contains_def)
    then show False using assms(1) r(1) taken_page_ranges by blast
  qed
  then have mem: "pr_start r \<in> set (map pr_start (filter (\<lambda>r. c < pr_start r) (ranges arena taken)))"
    using r(1) by simp
  obtain b where b: "next_base_above arena taken c = Some b"
  proof (cases "next_base_above arena taken c")
    case None
    then show ?thesis using mem by (simp add: next_base_above_def)
  qed
  then have "b \<le> pr_start r" using mem by (auto simp: next_base_above_def dest!: list_min_Some)
  then have "run_end arena taken c fin \<le> pr_start r"
    using b by (simp add: run_end_def)
  with assms(3) r(2) show False by simp
qed

lemma run_end_taken:
  assumes "run_end arena taken c fin < fin"
  shows "taken_page arena taken (run_end arena taken c fin)"
proof -
  obtain b where b: "next_base_above arena taken c = Some b" "run_end arena taken c fin = b"
    using assms by (auto simp: run_end_def min_def split: option.splits if_splits)
  then obtain r where "r \<in> set (ranges arena taken)" "pr_start r = b"
    by (auto simp: next_base_above_def dest!: list_min_Some)
  moreover from this(1) have "pr_start r < pr_end r"
    by (auto simp: ranges_def set_map_filter page_range_new_def Let_def from_addr_down_def
        less_from_addr_up_iff div_less_iff_less_mult split: if_splits
        intro: le_less_trans [OF div_times_less_eq_dividend])
  ultimately show ?thesis
    by (auto simp: taken_page_ranges pr_contains_def b(2))
qed

lemma gaps_from_pages:
  "(\<exists>r \<in> set (gaps_from arena taken cursor). p \<in> pr_set r) \<longleftrightarrow>
    cursor \<le> p \<and> p < from_addr_down (region_end arena) \<and> \<not> taken_page arena taken p"
proof (induction arena taken cursor rule: gaps_from.induct)
  case (1 arena taken cursor)
  let ?c = "gaps_skip arena taken cursor" and ?fin = "from_addr_down (region_end arena)"
  let ?stop = "run_end arena taken ?c ?fin"
  have free: "\<not> taken_page arena taken ?c"
    using gaps_skip_free containing_None_iff by blast
  have low: "taken_page arena taken p" if "cursor \<le> p" "p < ?c" for p
    using gaps_skip_skips that by blast
  show ?case
  proof (cases "?fin \<le> ?c")
    case True
    then show ?thesis
      using low gaps_skip_ge [of cursor arena taken]
      by (auto simp: gaps_from.simps [of arena taken cursor] intro: less_le_trans)
  next
    case False
    have stop: "?c < ?stop" "?stop \<le> ?fin"
      using False run_end_greater [of ?c ?fin] by (auto simp: run_end_def)
    have IH: "(\<exists>r \<in> set (gaps_from arena taken ?stop). p \<in> pr_set r) \<longleftrightarrow>
        ?stop \<le> p \<and> p < ?fin \<and> \<not> taken_page arena taken p"
      using "1.IH" [OF refl refl False refl] .
    have "cursor \<le> ?c" by (rule gaps_skip_ge)
    then have "(p \<in> pr_set \<lparr>pr_start = ?c, pr_end = ?stop\<rparr>
        \<or> (\<exists>r \<in> set (gaps_from arena taken ?stop). p \<in> pr_set r)) \<longleftrightarrow>
        cursor \<le> p \<and> p < ?fin \<and> \<not> taken_page arena taken p"
      unfolding IH using run_untaken [OF free, of p ?fin] low [of p] stop
      by (cases "p < ?c"; cases "p < ?stop") (auto simp: in_pr_set)
    then show ?thesis
      using False by (simp add: gaps_from.simps [of arena taken cursor] Let_def)
  qed
qed

text \<open>
  Order: a later run starts past the end of an earlier one, with at least one taken page between
  them, so no two runs are adjacent and each is as long as it can be.
\<close>

fun separated :: "page_range list \<Rightarrow> bool" where
  "separated [] = True"
| "separated [r] = (pr_start r < pr_end r)"
| "separated (r # s # rs) = (pr_start r < pr_end r \<and> pr_end r < pr_start s \<and> separated (s # rs))"

lemma gaps_from_Cons:
  "gaps_from arena taken cursor = r # rs \<Longrightarrow>
    pr_start r = gaps_skip arena taken cursor \<and> pr_start r < pr_end r
    \<and> pr_end r = run_end arena taken (pr_start r) (from_addr_down (region_end arena))
    \<and> rs = gaps_from arena taken (pr_end r)"
  by (subst (asm) gaps_from.simps) (auto simp: Let_def run_end_greater not_le split: if_splits)

lemma gaps_from_separated: "separated (gaps_from arena taken cursor)"
proof (induction "gaps_from arena taken cursor" arbitrary: cursor rule: separated.induct)
  case (2 r)
  then show ?case using gaps_from_Cons [of arena taken cursor r "[]"] by (metis separated.simps(2))
next
  case (3 r s rs)
  note r = gaps_from_Cons [OF 3(2) [symmetric]]
  then have s: "gaps_from arena taken (pr_end r) = s # rs" by simp
  note s' = gaps_from_Cons [OF s]
  let ?fin = "from_addr_down (region_end arena)"
  have "\<exists>q \<in> set (gaps_from arena taken (pr_end r)). pr_start s \<in> pr_set q"
    using s s' by (auto simp: in_pr_set)
  then have "pr_end r \<le> pr_start s" "pr_start s < ?fin" "\<not> taken_page arena taken (pr_start s)"
    unfolding gaps_from_pages by simp_all
  moreover from this have "taken_page arena taken (pr_end r)"
    using run_end_taken [of arena taken "pr_start r" ?fin] r by simp
  ultimately have "pr_end r < pr_start s"
    by (metis le_neq_implies_less)
  moreover have "separated (s # rs)" using 3(1) [OF s [symmetric]] s by simp
  ultimately show ?case using r 3(2) by (metis separated.simps(3))
qed (metis separated.simps(1))

lemma separated_tl: "separated (r # rs) \<Longrightarrow> separated rs"
  by (cases rs) auto

lemma separated_nonempty: "separated rs \<Longrightarrow> r \<in> set rs \<Longrightarrow> pr_start r < pr_end r"
  by (induction rs rule: separated.induct) auto

lemma separated_hd_less: "separated (r # rs) \<Longrightarrow> q \<in> set rs \<Longrightarrow> pr_end r < pr_start q"
proof (induction rs arbitrary: r)
  case (Cons s rs)
  then have rs: "separated (s # rs)" "pr_end r < pr_start s" by simp_all
  show ?case
  proof (cases "q = s")
    case False
    then have "pr_end s < pr_start q" using Cons.IH [OF rs(1)] Cons.prems(2) by simp
    moreover have "pr_start s < pr_end s" using separated_nonempty [OF rs(1)] by simp
    ultimately show ?thesis using rs(2) by simp
  qed (use rs in simp)
qed simp

lemma gaps_pages:
  "(\<exists>r \<in> set (gaps arena taken). p \<in> pr_set r) \<longleftrightarrow>
    r_base arena \<le> p * 4096 \<and> p < from_addr_down (region_end arena) \<and> \<not> taken_page arena taken p"
  unfolding gaps_def gaps_from_pages by (simp add: from_addr_up_le_iff)

lemma gaps_separated: "separated (gaps arena taken)"
  by (simp add: gaps_def gaps_from_separated)

end
