(* ===== verification/MemMap.thy ===== *)
theory MemMap
  imports Gaps
begin

text \<open>
  The boot memory map (\<open>src/src/mm/map.rs\<close>): the arena, which is the memory the device tree
  reported rounded inward to whole pages, and at most sixteen reserved regions.
\<close>

definition RESERVED :: usize where
  "RESERVED = 16"

datatype full = Full

record memory_map =
  mm_arena :: region
  mm_reserved :: "region list"
  mm_len :: usize

definition memory_map_new :: "region \<Rightarrow> memory_map option" where
  "memory_map_new memory =
    (let base = align_up (r_base memory) PAGE_SIZE;
         fin = align_down (region_end memory) PAGE_SIZE
     in if base \<le> fin
        then Some \<lparr>mm_arena = \<lparr>r_base = base, r_size = fin - base\<rparr>,
                   mm_reserved = replicate RESERVED region_EMPTY, mm_len = 0\<rparr>
        else None)"

definition reserve :: "memory_map \<Rightarrow> region \<Rightarrow> full + memory_map" where
  "reserve mm r =
    (if mm_len mm < length (mm_reserved mm)
     then Inr (mm\<lparr>mm_reserved := (mm_reserved mm)[mm_len mm := r], mm_len := mm_len mm + 1\<rparr>)
     else Inl Full)"

definition reserved :: "memory_map \<Rightarrow> region list" where
  "reserved mm = take (mm_len mm) (mm_reserved mm)"

definition unreserved :: "memory_map \<Rightarrow> page_range list" where
  "unreserved mm = gaps (mm_arena mm) (reserved mm)"

subsection \<open>Well-formed maps\<close>

definition map_wf :: "memory_map \<Rightarrow> bool" where
  "map_wf mm \<longleftrightarrow> length (mm_reserved mm) = RESERVED \<and> mm_len mm \<le> RESERVED
    \<and> 4096 dvd r_base (mm_arena mm) \<and> 4096 dvd r_size (mm_arena mm)
    \<and> r_base (mm_arena mm) + r_size (mm_arena mm) < usize_limit"

text \<open>The pages of an arena, and of a map's arena.\<close>

definition arena_pages :: "region \<Rightarrow> pfn set" where
  "arena_pages a = {r_base a div 4096..<(r_base a + r_size a) div 4096}"

lemma map_wf_new:
  assumes "r_base memory + 4096 \<le> usize_limit" and "memory_map_new memory = Some mm"
  shows "map_wf mm"
proof -
  have "region_end memory < usize_limit" by (simp add: region_end_def)
  then show ?thesis
    using assms le_less_trans [OF div_times_less_eq_dividend [of "region_end memory" 4096]]
    by (auto simp: memory_map_new_def map_wf_def Let_def align_up_page align_down_page
        split: if_splits intro!: dvd_diff_nat)
qed

lemma reserve_cases:
  assumes "map_wf mm"
  shows "reserve mm r = (if mm_len mm = 16 then Inl Full else
    Inr (mm\<lparr>mm_reserved := (mm_reserved mm)[mm_len mm := r], mm_len := mm_len mm + 1\<rparr>))"
  using assms by (auto simp: reserve_def map_wf_def RESERVED_def)

lemma reserved_reserve:
  assumes "map_wf mm" and "reserve mm r = Inr mm'"
  shows "reserved mm' = reserved mm @ [r]" and "map_wf mm'" and "mm_arena mm' = mm_arena mm"
  using assms
  by (auto simp: reserve_def reserved_def map_wf_def RESERVED_def take_Suc_conv_app_nth
      split: if_splits)

lemma length_reserved: "map_wf mm \<Longrightarrow> length (reserved mm) = mm_len mm"
  by (simp add: reserved_def map_wf_def)

lemma arena_end: "map_wf mm \<Longrightarrow> region_end (mm_arena mm) = r_base (mm_arena mm) + r_size (mm_arena mm)"
  by (simp add: map_wf_def region_end_def usize_add_small)

text \<open>
  The unreserved pages are the arena's pages that hold no byte of a reserved region; for whole-page
  arithmetic the clipping to the arena disappears.
\<close>

lemma page_touches_arena:
  assumes "map_wf mm" and "p \<in> arena_pages (mm_arena mm)"
  shows "page_touches r (mm_arena mm) p \<longleftrightarrow>
    (\<exists>x \<in> page_bytes p. r_base r \<le> x \<and> x < region_end r)"
proof -
  let ?a = "mm_arena mm"
  obtain b n where bn: "r_base ?a = 4096 * b" "r_size ?a = 4096 * n"
    using assms(1) by (auto simp: map_wf_def elim!: dvdE)
  have "(4096 * b + 4096 * n) div 4096 = b + n"
    by (simp only: distrib_left [symmetric]) simp
  then have "p \<in> {b..<b + n}"
    using assms(2) bn by (simp add: arena_pages_def)
  then have p: "b \<le> p" "p < b + n" by simp_all
  have "r_base ?a \<le> x \<and> x < r_base ?a + r_size ?a" if "x div 4096 = p" for x
    using that p unfolding bn by linarith
  then show ?thesis
    using arena_end [OF assms(1)] by (auto simp: page_touches_byte)
qed

lemma unreserved_pages:
  assumes "map_wf mm"
  shows "(\<exists>run \<in> set (unreserved mm). p \<in> pr_set run) \<longleftrightarrow>
    p \<in> arena_pages (mm_arena mm) \<and>
    (\<forall>r \<in> set (reserved mm). \<forall>x \<in> page_bytes p. \<not> (r_base r \<le> x \<and> x < region_end r))"
proof -
  let ?a = "mm_arena mm"
  obtain b where "r_base ?a = 4096 * b"
    using assms by (auto simp: map_wf_def elim!: dvdE)
  then have "r_base ?a \<le> p * 4096 \<and> p < from_addr_down (region_end ?a) \<longleftrightarrow> p \<in> arena_pages ?a"
    using arena_end [OF assms] by (simp add: arena_pages_def from_addr_down_def)
  then show ?thesis
    unfolding unreserved_def gaps_pages
    by (auto simp: taken_page_def page_touches_arena [OF assms])
qed

end
