(* ===== verification/Pages.thy ===== *)
theory Pages
  imports MemMap Store
begin

text \<open>
  The page metadata table (\<open>src/src/mm/pages.rs\<close>): one 64-bit entry per page of the arena, at
  the base of a region taken out of the memory map. The first half is the packed entry and its
  encoding; the second is the table in memory, with every access bounds-checked as in the source.
\<close>

subsection \<open>Indices and slots\<close>

type_synonym arena_index = u32
type_synonym slot = u16

definition ENTRY_SIZE :: usize where
  "ENTRY_SIZE = 8"

definition arena_index_BITS :: nat where
  "arena_index_BITS = 19"

definition arena_index_NONE :: u32 where
  "arena_index_NONE = push_bit arena_index_BITS 1 - 1"

definition MAX_PAGES :: usize where
  "MAX_PAGES = unat arena_index_NONE"

definition arena_index_to_raw :: "arena_index option \<Rightarrow> u32" where
  "arena_index_to_raw v = (case v of Some i \<Rightarrow> i | None \<Rightarrow> arena_index_NONE)"

definition arena_index_from_raw :: "u32 \<Rightarrow> arena_index option" where
  "arena_index_from_raw raw = (if raw \<noteq> arena_index_NONE then Some raw else None)"

definition slot_BITS :: nat where
  "slot_BITS = 10"

definition slot_NONE :: u16 where
  "slot_NONE = push_bit slot_BITS 1 - 1"

definition slot_new :: "usize \<Rightarrow> slot option" where
  "slot_new i = (if i < unat slot_NONE then Some (of_nat i) else None)"

definition slot_index :: "slot \<Rightarrow> usize" where
  "slot_index s = unat s"

definition slot_to_raw :: "slot option \<Rightarrow> u16" where
  "slot_to_raw v = (case v of Some s \<Rightarrow> s | None \<Rightarrow> slot_NONE)"

definition slot_from_raw :: "u16 \<Rightarrow> slot option" where
  "slot_from_raw raw = (if raw \<noteq> slot_NONE then Some raw else None)"

lemma arena_index_NONE_eq: "arena_index_NONE = 524287"
  by (simp add: arena_index_NONE_def arena_index_BITS_def push_bit_eq_mult)

lemma slot_NONE_eq: "slot_NONE = 1023"
  by (simp add: slot_NONE_def slot_BITS_def push_bit_eq_mult)

lemma MAX_PAGES_eq: "MAX_PAGES = 524287"
  by (simp add: MAX_PAGES_def arena_index_NONE_eq)

subsection \<open>Entries\<close>

datatype entry =
  Buddy (buddy_free: bool) (buddy_order: u8)
| Slab (slab_class: u8) (slab_free_head: "slot option") (slab_in_use: u16)
    (slab_next: "arena_index option") (slab_prev: "arena_index option")

fun entry_to_u64 :: "entry \<Rightarrow> u64" where
  "entry_to_u64 (Buddy free order) =
    0 OR push_bit 1 (of_bool free) OR push_bit 2 (ucast order AND 0xF)"
| "entry_to_u64 (Slab cls free_head in_use next_partial prev_partial) =
    1 OR push_bit 1 (ucast cls AND 0xF)
      OR push_bit 5 (ucast (slot_to_raw free_head) AND 0x3FF)
      OR push_bit 15 (ucast in_use AND 0x3FF)
      OR push_bit 25 (ucast (arena_index_to_raw next_partial) AND 0x7FFFF)
      OR push_bit 44 (ucast (arena_index_to_raw prev_partial) AND 0x7FFFF)"

definition entry_from_u64 :: "u64 \<Rightarrow> entry" where
  "entry_from_u64 v =
    (if v AND 1 \<noteq> 0 then
       Slab (ucast (drop_bit 1 v AND 0xF))
         (slot_from_raw (ucast (drop_bit 5 v AND 0x3FF)))
         (ucast (drop_bit 15 v AND 0x3FF))
         (arena_index_from_raw (ucast (drop_bit 25 v AND 0x7FFFF)))
         (arena_index_from_raw (ucast (drop_bit 44 v AND 0x7FFFF)))
     else Buddy (v AND 2 \<noteq> 0) (ucast (drop_bit 2 v AND 0xF)))"

text \<open>An entry fits when each field fits the bits the packing gives it.\<close>

fun entry_fits :: "entry \<Rightarrow> bool" where
  "entry_fits (Buddy free order) \<longleftrightarrow> order < 16"
| "entry_fits (Slab cls free_head in_use next_partial prev_partial) \<longleftrightarrow>
    cls < 16 \<and> pred_option (\<lambda>s. s < 1023) free_head \<and> in_use < 1024
    \<and> pred_option (\<lambda>i. i < 524287) next_partial \<and> pred_option (\<lambda>i. i < 524287) prev_partial"

lemma field_masks:
  "(0xF :: u64) = mask 4" "(0x3FF :: u64) = mask 10" "(0x7FFFF :: u64) = mask 19"
  by (simp_all add: mask_eq_exp_minus_1)

lemma slab_fields:
  fixes c f u n p :: u64
  defines "v \<equiv> 1 OR push_bit 1 (c AND 0xF) OR push_bit 5 (f AND 0x3FF) OR push_bit 15 (u AND 0x3FF)
      OR push_bit 25 (n AND 0x7FFFF) OR push_bit 44 (p AND 0x7FFFF)"
  shows "drop_bit 1 v AND 0xF = take_bit 4 c" "drop_bit 5 v AND 0x3FF = take_bit 10 f"
    "drop_bit 15 v AND 0x3FF = take_bit 10 u" "drop_bit 25 v AND 0x7FFFF = take_bit 19 n"
    "drop_bit 44 v AND 0x7FFFF = take_bit 19 p" "v AND 1 = 1"
  unfolding v_def field_masks take_bit_eq_mask [symmetric] drop_bit_or take_bit_or
  by (simp_all add: field_simps_word del: push_bit_Suc One_nat_def)

lemma buddy_fields:
  fixes b :: bool and k :: u64
  defines "v \<equiv> 0 OR push_bit 1 (of_bool b) OR push_bit 2 (k AND 0xF)"
  shows "v AND 1 = 0" "v AND 2 \<noteq> 0 \<longleftrightarrow> b" "drop_bit 2 v AND 0xF = take_bit 4 k"
proof -
  show "v AND 1 = 0" "drop_bit 2 v AND 0xF = take_bit 4 k"
    unfolding v_def field_masks by (rule bit_word_eqI; auto simp: bit_simps)+
  have "v AND 2 = push_bit 1 (of_bool b)"
  proof -
    have two: "(2 :: u64) = push_bit 1 1" by simp
    show ?thesis unfolding v_def field_masks two
      by (rule bit_word_eqI) (auto simp: bit_simps)
  qed
  then show "v AND 2 \<noteq> 0 \<longleftrightarrow> b" by simp
qed

lemma ucast_field:
  fixes x :: "'a::len word"
  assumes "k \<le> 64" "unat x < 2 ^ k" "k < LENGTH('a)"
  shows "(ucast (take_bit k (ucast x :: u64)) :: 'a word) = x"
proof -
  have "take_bit k x = x"
    using assms(2) by (simp add: unsigned_take_bit_eq take_bit_nat_eq_self word_unat_eq_iff)
  moreover have "(ucast (take_bit k (ucast x :: u64)) :: 'a word) = take_bit k x"
    by (rule bit_word_eqI) (use assms in \<open>auto simp: bit_simps\<close>)
  ultimately show ?thesis by simp
qed

lemma slot_raw_roundtrip:
  "pred_option (\<lambda>s. s < 1023) v \<Longrightarrow> slot_from_raw (slot_to_raw v) = v"
  by (auto simp: slot_from_raw_def slot_to_raw_def slot_NONE_eq split: option.splits)

lemma arena_index_raw_roundtrip:
  "pred_option (\<lambda>i. i < 524287) v \<Longrightarrow> arena_index_from_raw (arena_index_to_raw v) = v"
  by (auto simp: arena_index_from_raw_def arena_index_to_raw_def arena_index_NONE_eq split: option.splits)

lemma slot_raw_lt: "pred_option (\<lambda>s. s < 1023) v \<Longrightarrow> unat (slot_to_raw v) < 2 ^ 10"
  by (auto simp: word_less_nat_alt slot_to_raw_def slot_NONE_eq split: option.splits)

lemma arena_index_raw_lt:
  "pred_option (\<lambda>i. i < 524287) v \<Longrightarrow> unat (arena_index_to_raw v) < 2 ^ 19"
  by (auto simp: word_less_nat_alt arena_index_to_raw_def arena_index_NONE_eq split: option.splits)

lemma entry_roundtrip: "entry_fits e \<Longrightarrow> entry_from_u64 (entry_to_u64 e) = e"
proof (cases e)
  case (Buddy free order)
  assume "entry_fits e"
  then have "(ucast (take_bit 4 (ucast order :: u64)) :: u8) = order"
    using Buddy by (intro ucast_field) (simp_all add: word_less_nat_alt)
  then show ?thesis
    unfolding Buddy entry_to_u64.simps entry_from_u64_def buddy_fields by simp
next
  case (Slab cls free_head in_use next_partial prev_partial)
  assume fits: "entry_fits e"
  have "(ucast (take_bit 4 (ucast cls :: u64)) :: u8) = cls"
    "(ucast (take_bit 10 (ucast in_use :: u64)) :: u16) = in_use"
    "(ucast (take_bit 10 (ucast (slot_to_raw free_head) :: u64)) :: u16) = slot_to_raw free_head"
    "(ucast (take_bit 19 (ucast (arena_index_to_raw next_partial) :: u64)) :: u32)
      = arena_index_to_raw next_partial"
    "(ucast (take_bit 19 (ucast (arena_index_to_raw prev_partial) :: u64)) :: u32)
      = arena_index_to_raw prev_partial"
    using fits Slab slot_raw_lt [of free_head] arena_index_raw_lt [of next_partial]
      arena_index_raw_lt [of prev_partial]
    by (intro ucast_field; simp add: word_less_nat_alt)+
  then show ?thesis
    using fits unfolding Slab entry_to_u64.simps entry_from_u64_def slab_fields
    by (simp add: slot_raw_roundtrip arena_index_raw_roundtrip)
qed

lemma entry_from_zero: "entry_from_u64 0 = Buddy False 0"
  by (simp add: entry_from_u64_def)

subsection \<open>The table in memory\<close>

record pages =
  pg_region :: region
  pg_base :: pfn
  pg_len :: usize

definition pages_empty :: pages where
  "pages_empty = \<lparr>pg_region = region_EMPTY, pg_base = pfn_ZERO, pg_len = 0\<rparr>"

definition required_size :: "region \<Rightarrow> usize" where
  "required_size arena = div_ceil (usize_mul (r_size arena div PAGE_SIZE) ENTRY_SIZE) PAGE_SIZE"

text \<open>\<open>Pages::new\<close>: the memory, the map and the result, each \<open>?\<close> an early \<open>None\<close>.\<close>

definition pages_new :: "mem \<Rightarrow> memory_map \<Rightarrow> mem \<times> memory_map \<times> pages option" where
  "pages_new m mm =
    (let arena = mm_arena mm;
         len = r_size arena div PAGE_SIZE
     in if len = 0 \<or> MAX_PAGES < len then (m, mm, None)
        else let needed = required_size arena in
        case find (\<lambda>run. needed \<le> pr_pages run) (unreserved mm) of
          None \<Rightarrow> (m, mm, None)
        | Some run \<Rightarrow>
            let region = \<lparr>r_base = to_addr (pr_start run), r_size = usize_mul needed PAGE_SIZE\<rparr>
            in if r_base region = 0 then (m, mm, None)
               else let m' = zero_fill m (r_base region) (r_size region) in
               case reserve mm region of
                 Inl Full \<Rightarrow> (m', mm, None)
               | Inr mm' \<Rightarrow> (m', mm', Some \<lparr>pg_region = region,
                   pg_base = from_addr_down (r_base arena), pg_len = len\<rparr>))"

definition index_of :: "pages \<Rightarrow> pfn \<Rightarrow> arena_index" where
  "index_of pg p = of_nat (index_from p (pg_base pg))"

definition pfn_of :: "pages \<Rightarrow> arena_index \<Rightarrow> pfn" where
  "pfn_of pg i = pfn_offset (pg_base pg) (unat i)"

definition covers :: "pages \<Rightarrow> page_range" where
  "covers pg = \<lparr>pr_start = pg_base pg, pr_end = pfn_offset (pg_base pg) (pg_len pg)\<rparr>"

definition pages_entry :: "pages \<Rightarrow> pfn \<Rightarrow> usize outcome" where
  "pages_entry pg p =
    obind (assert_that ''pfn is out of range for this Pages'' (pr_contains (covers pg) p)) (\<lambda>_.
    Inr (usize_add (r_base (pg_region pg)) (8 * index_from p (pg_base pg))))"

definition pages_read :: "pages \<Rightarrow> mem \<Rightarrow> pfn \<Rightarrow> entry outcome" where
  "pages_read pg m p = obind (pages_entry pg p) (\<lambda>a. Inr (entry_from_u64 (read_u64 m a)))"

definition pages_write :: "pages \<Rightarrow> mem \<Rightarrow> pfn \<Rightarrow> entry \<Rightarrow> mem outcome" where
  "pages_write pg m p e = obind (pages_entry pg p) (\<lambda>a. Inr (write_u64 m a (entry_to_u64 e)))"

subsection \<open>The table as a store of entries\<close>

definition meta_bytes :: "pages \<Rightarrow> usize set" where
  "meta_bytes pg = range_of (r_base (pg_region pg)) (8 * pg_len pg)"

definition covered :: "pages \<Rightarrow> pfn set" where
  "covered pg = {pg_base pg..<pg_base pg + pg_len pg}"

definition pages_wf :: "pages \<Rightarrow> bool" where
  "pages_wf pg \<longleftrightarrow> pg_base pg + pg_len pg < pfn_limit \<and> pg_len pg \<le> MAX_PAGES
    \<and> r_base (pg_region pg) + 8 * pg_len pg < usize_limit"

definition entry_addr :: "pages \<Rightarrow> pfn \<Rightarrow> usize" where
  "entry_addr pg p = r_base (pg_region pg) + 8 * (p - pg_base pg)"

definition entry_at :: "pages \<Rightarrow> mem \<Rightarrow> pfn \<Rightarrow> entry" where
  "entry_at pg m p = entry_from_u64 (read_u64 m (entry_addr pg p))"

definition set_entry :: "pages \<Rightarrow> mem \<Rightarrow> pfn \<Rightarrow> entry \<Rightarrow> mem" where
  "set_entry pg m p e = write_u64 m (entry_addr pg p) (entry_to_u64 e)"

lemma in_covered: "p \<in> covered pg \<longleftrightarrow> pg_base pg \<le> p \<and> p < pg_base pg + pg_len pg"
  by (simp add: covered_def)

lemma covers_covered: "pages_wf pg \<Longrightarrow> pr_contains (covers pg) p \<longleftrightarrow> p \<in> covered pg"
  by (simp add: covers_def pr_contains_def pages_wf_def pfn_offset_small in_covered)

lemma pages_entry_covered:
  "pages_wf pg \<Longrightarrow> p \<in> covered pg \<Longrightarrow> pages_entry pg p = Inr (entry_addr pg p)"
proof -
  assume pg: "pages_wf pg" "p \<in> covered pg"
  then have "r_base (pg_region pg) + 8 * (p - pg_base pg) < usize_limit"
    by (auto simp: in_covered pages_wf_def)
  with pg show ?thesis
    by (simp add: pages_entry_def covers_covered entry_addr_def in_covered index_from_small
        usize_add_small)
qed

lemma pages_entry_outside:
  "pages_wf pg \<Longrightarrow> p \<notin> covered pg \<Longrightarrow>
    pages_entry pg p = Inl (AssertFailed ''pfn is out of range for this Pages'')"
  by (simp add: pages_entry_def covers_covered)

lemma pages_read_covered:
  "pages_wf pg \<Longrightarrow> p \<in> covered pg \<Longrightarrow> pages_read pg m p = Inr (entry_at pg m p)"
  by (simp only: pages_read_def pages_entry_covered obind_Inr entry_at_def)

lemma pages_write_covered:
  "pages_wf pg \<Longrightarrow> p \<in> covered pg \<Longrightarrow> pages_write pg m p e = Inr (set_entry pg m p e)"
  by (simp only: pages_write_def pages_entry_covered obind_Inr set_entry_def)

interpretation entries: store "entry_at pg" "set_entry pg" "\<lambda>p. p \<in> covered pg" entry_fits
  for pg :: pages
proof
  show "entry_at pg (set_entry pg s k v) k = v" if "entry_fits v" for s k v
    using that by (simp add: entry_at_def set_entry_def entry_roundtrip)
next
  fix s :: mem and k k' v
  assume "k \<in> covered pg" "k' \<in> covered pg" "k' \<noteq> k"
  then have "range_of (entry_addr pg k) 8 \<inter> range_of (entry_addr pg k') 8 = {}"
    by (intro range_of_disjoint) (auto simp: entry_addr_def in_covered)
  then have "same_on (range_of (entry_addr pg k') 8) s (set_entry pg s k v)"
    unfolding set_entry_def by (rule write_u64_same_on)
  then show "entry_at pg (set_entry pg s k v) k' = entry_at pg s k'"
    unfolding entry_at_def by (simp only: read_u64_same_on)
qed

lemma entry_range: "p \<in> covered pg \<Longrightarrow> range_of (entry_addr pg p) 8 \<subseteq> meta_bytes pg"
  unfolding meta_bytes_def entry_addr_def by (rule range_of_mono) (auto simp: in_covered)

lemma entry_at_same_on:
  "same_on (meta_bytes pg) m m' \<Longrightarrow> p \<in> covered pg \<Longrightarrow> entry_at pg m' p = entry_at pg m p"
  by (simp add: entry_at_def read_u64_same_on [OF same_on_subset [OF _ entry_range]])

lemma set_entry_same_on:
  "p \<in> covered pg \<Longrightarrow> X \<inter> meta_bytes pg = {} \<Longrightarrow> same_on X m (set_entry pg m p e)"
  using entry_range [of p pg] by (auto simp: set_entry_def intro!: write_u64_same_on)

lemma set_entry_bytes: "p \<in> covered pg \<Longrightarrow> same_on (- meta_bytes pg) m (set_entry pg m p e)"
  by (rule set_entry_same_on) auto

lemma entry_at_zero: "(\<And>x. x \<in> meta_bytes pg \<Longrightarrow> m x = 0) \<Longrightarrow> p \<in> covered pg \<Longrightarrow> entry_at pg m p = Buddy False 0"
proof -
  assume z: "\<And>x. x \<in> meta_bytes pg \<Longrightarrow> m x = 0" and p: "p \<in> covered pg"
  have "load_bytes m (entry_addr pg p) 8 = replicate 8 0"
    using z entry_range [OF p] by (intro nth_equalityI) (auto simp: load_bytes_def subset_iff)
  then show ?thesis by (simp add: entry_at_def read_u64_def load_def entry_from_zero)
qed

lemma index_pfn_roundtrip:
  assumes "pages_wf pg" and "p \<in> covered pg"
  shows "pfn_of pg (index_of pg p) = p" and "index_of pg p < 524287"
proof -
  have "p - pg_base pg < 524287"
    using assms by (auto simp: pages_wf_def in_covered MAX_PAGES_eq)
  then have u: "unat (index_of pg p) = p - pg_base pg"
    using assms by (simp add: index_of_def in_covered index_from_small unat_of_nat del: of_nat_diff)
  then show "index_of pg p < 524287"
    using \<open>p - pg_base pg < 524287\<close> by (simp add: word_less_nat_alt)
  show "pfn_of pg (index_of pg p) = p"
    using assms u by (simp add: pfn_of_def in_covered pages_wf_def pfn_offset_small)
qed

lemma pages_new_Some:
  assumes "pages_new m mm = (m', mm', Some pg)"
  obtains run where
    "run \<in> set (unreserved mm)" "required_size (mm_arena mm) \<le> pr_pages run"
    "r_base (pg_region pg) = to_addr (pr_start run)" "r_base (pg_region pg) \<noteq> 0"
    "r_size (pg_region pg) = usize_mul (required_size (mm_arena mm)) PAGE_SIZE"
    "pg_base pg = from_addr_down (r_base (mm_arena mm))"
    "pg_len pg = r_size (mm_arena mm) div 4096" "0 < pg_len pg" "pg_len pg \<le> MAX_PAGES"
    "m' = zero_fill m (r_base (pg_region pg)) (r_size (pg_region pg))"
    "reserve mm (pg_region pg) = Inr mm'"
proof -
  let ?a = "mm_arena mm"
  have len: "0 < r_size ?a div 4096" "r_size ?a div 4096 \<le> MAX_PAGES"
    using assms by (auto simp: pages_new_def Let_def split: if_splits)
  obtain run where run: "find (\<lambda>run. required_size ?a \<le> pr_pages run) (unreserved mm) = Some run"
    using assms len by (auto simp: pages_new_def Let_def split: option.splits)
  from assms run len show thesis
    by (intro that [of run])
      (auto simp: pages_new_def Let_def dest: find_SomeD split: if_splits sum.splits full.splits)
qed

lemma required_size_bounds:
  assumes "map_wf mm"
  shows "required_size (mm_arena mm) \<le> r_size (mm_arena mm) div 4096"
    and "8 * (r_size (mm_arena mm) div 4096) \<le> required_size (mm_arena mm) * 4096"
proof -
  have "r_size (mm_arena mm) < usize_limit" using assms by (simp add: map_wf_def)
  then have req: "required_size (mm_arena mm) = div_ceil (8 * (r_size (mm_arena mm) div 4096)) 4096"
    by (simp add: required_size_def ENTRY_SIZE_def usize_mul_small mult.commute)
  show "required_size (mm_arena mm) \<le> r_size (mm_arena mm) div 4096"
    unfolding req by (simp add: div_ceil_le_iff)
  show "8 * (r_size (mm_arena mm) div 4096) \<le> required_size (mm_arena mm) * 4096"
    unfolding req by (rule le_div_ceil_mult) simp
qed

text \<open>
  What \<open>Pages::new\<close> sets up: a table for exactly the arena's pages, in whole pages of the arena that
  no region had reserved, now reserved themselves, with every entry zero (a page in use, order 0).
\<close>

lemma pages_new_region:
  assumes mm: "map_wf mm" and new: "pages_new m mm = (m', mm', Some pg)"
  shows "r_base (pg_region pg) mod 4096 = 0"
    and "r_size (pg_region pg) = required_size (mm_arena mm) * 4096"
    and "p \<in> arena_pages (pg_region pg) \<Longrightarrow> \<exists>run \<in> set (unreserved mm). p \<in> pr_set run"
    and "arena_pages (pg_region pg) \<subseteq> arena_pages (mm_arena mm)"
    and "r_base (pg_region pg) + r_size (pg_region pg) < usize_limit"
proof -
  let ?a = "mm_arena mm" and ?need = "required_size (mm_arena mm)"
  obtain run where run: "run \<in> set (unreserved mm)" "?need \<le> pr_pages run"
    and base: "r_base (pg_region pg) = to_addr (pr_start run)"
    and size: "r_size (pg_region pg) = usize_mul ?need PAGE_SIZE"
    using new by (rule pages_new_Some)
  have "pr_start run < pr_end run"
    using run(1) gaps_separated separated_nonempty unfolding unreserved_def by blast
  then have need: "pr_start run + ?need \<le> pr_end run"
    using run(2) by (simp add: pr_pages_small)
  have inrun: "p \<in> arena_pages ?a" if "p \<in> pr_set run" for p
    using that run(1) unreserved_pages [OF mm, of p] by blast
  have "pr_end run - 1 \<in> arena_pages ?a"
    using \<open>pr_start run < pr_end run\<close> by (intro inrun) (auto simp: in_pr_set)
  then have fin: "pr_end run * 4096 \<le> r_base ?a + r_size ?a"
    using \<open>pr_start run < pr_end run\<close> by (simp add: arena_pages_def) linarith
  moreover have "r_base ?a + r_size ?a < usize_limit" using mm by (simp add: map_wf_def)
  ultimately have lim: "pr_end run * 4096 < usize_limit" by simp
  have b: "r_base (pg_region pg) = pr_start run * 4096"
    using base lim need by (simp add: to_addr_def usize_mul_small)
  have s: "r_size (pg_region pg) = ?need * 4096"
    using size lim need by (simp add: usize_mul_small)
  show "r_base (pg_region pg) mod 4096 = 0" using b by simp
  show "r_size (pg_region pg) = ?need * 4096" by (rule s)
  have e: "r_base (pg_region pg) + r_size (pg_region pg) = (pr_start run + ?need) * 4096"
    using b s by simp
  show "r_base (pg_region pg) + r_size (pg_region pg) < usize_limit"
    using e lim need by simp
  have pages: "arena_pages (pg_region pg) = {pr_start run..<pr_start run + ?need}"
    unfolding arena_pages_def e using b by simp
  then have sub: "arena_pages (pg_region pg) \<subseteq> pr_set run"
    using need by (auto simp: in_pr_set)
  then show "arena_pages (pg_region pg) \<subseteq> arena_pages ?a" using inrun by blast
  show "\<exists>run \<in> set (unreserved mm). p \<in> pr_set run" if "p \<in> arena_pages (pg_region pg)"
    using that sub run(1) by blast
qed

lemma pages_new_wf:
  assumes mm: "map_wf mm" and new: "pages_new m mm = (m', mm', Some pg)"
  shows "pages_wf pg" and "covered pg = arena_pages (mm_arena mm)"
    and "meta_bytes pg \<subseteq> range_of (r_base (pg_region pg)) (r_size (pg_region pg))"
    and "map_wf mm'" and "mm_arena mm' = mm_arena mm" and "reserved mm' = reserved mm @ [pg_region pg]"
    and "p \<in> covered pg \<Longrightarrow> entry_at pg m' p = Buddy False 0"
    and "same_on (- range_of (r_base (pg_region pg)) (r_size (pg_region pg))) m m'"
proof -
  let ?a = "mm_arena mm"
  obtain run where base: "pg_base pg = from_addr_down (r_base ?a)"
    and len: "pg_len pg = r_size ?a div 4096" "pg_len pg \<le> MAX_PAGES"
    and m': "m' = zero_fill m (r_base (pg_region pg)) (r_size (pg_region pg))"
    and res: "reserve mm (pg_region pg) = Inr mm'"
    using new by (rule pages_new_Some)
  note reg = pages_new_region [OF mm new]
  have meta: "8 * pg_len pg \<le> r_size (pg_region pg)"
    using required_size_bounds(2) [OF mm] len reg(2) by simp
  then show sub: "meta_bytes pg \<subseteq> range_of (r_base (pg_region pg)) (r_size (pg_region pg))"
    unfolding meta_bytes_def by (intro range_of_mono) auto
  obtain b n where bn: "r_base ?a = 4096 * b" "r_size ?a = 4096 * n"
    using mm by (auto simp: map_wf_def elim!: dvdE)
  have e: "r_base ?a + r_size ?a = (b + n) * 4096" using bn by simp
  then have lim: "b + n < pfn_limit" using mm by (simp add: map_wf_def)
  have pg: "pg_base pg = b" "pg_len pg = n" using base len bn by (simp_all add: from_addr_down_def)
  show "pages_wf pg"
    using pg lim len meta reg(5) by (simp add: pages_wf_def)
  show "covered pg = arena_pages ?a"
    unfolding arena_pages_def e covered_def pg using bn by simp
  show "map_wf mm'" "mm_arena mm' = ?a" "reserved mm' = reserved mm @ [pg_region pg]"
    using reserved_reserve [OF mm res] by simp_all
  show "entry_at pg m' p = Buddy False 0" if "p \<in> covered pg"
    using that sub by (intro entry_at_zero) (auto simp: m' zero_fill_def subset_iff)
  show "same_on (- range_of (r_base (pg_region pg)) (r_size (pg_region pg))) m m'"
    unfolding m' by (rule zero_fill_same_on) auto
qed

end
