(* ===== verification/Frames.thy ===== *)
theory Frames
  imports FreeLists Pages
begin

text \<open>
  The buddy allocator (\<open>src/src/mm/frames/mod.rs\<close>). The definitions follow \<open>Frames::new\<close>, \<open>alloc\<close>,
  \<open>free\<close> and \<open>seed\<close>; each threads the memory, in which both the free-list links and the page
  metadata live. The invariant says which blocks the lists and the allocations stand for.
\<close>

record frames =
  fr_lists :: free_lists
  fr_total :: usize

definition frames_empty :: frames where
  "frames_empty = \<lparr>fr_lists = free_lists_empty, fr_total = 0\<rparr>"

definition frames_push :: "mem \<Rightarrow> pages \<Rightarrow> frames \<Rightarrow> pfn \<Rightarrow> nat \<Rightarrow> (mem \<times> frames) outcome" where
  "frames_push m pg fr p order =
    (case fl_push m (fr_lists fr) p order of (m1, fl) \<Rightarrow>
      obind (pages_write pg m1 p (Buddy True (of_nat order))) (\<lambda>m2.
      Inr (m2, fr\<lparr>fr_lists := fl\<rparr>)))"

text \<open>The loop \<open>while available_order > order\<close> of \<open>alloc\<close>.\<close>

fun frames_split :: "mem \<Rightarrow> pages \<Rightarrow> frames \<Rightarrow> pfn \<Rightarrow> nat \<Rightarrow> nat \<Rightarrow> (mem \<times> frames) outcome" where
  "frames_split m pg fr p 0 order = Inr (m, fr)"
| "frames_split m pg fr p (Suc available) order =
    (if order < Suc available then
       obind (frames_push m pg fr (pfn_offset p (usize_shl 1 available)) available) (\<lambda>(m', fr').
       frames_split m' pg fr' p available order)
     else Inr (m, fr))"

definition frames_alloc :: "mem \<Rightarrow> pages \<Rightarrow> frames \<Rightarrow> nat \<Rightarrow> (mem \<times> frames \<times> pfn option) outcome" where
  "frames_alloc m pg fr order =
    (case find (\<lambda>k. fl_head (fr_lists fr) k \<noteq> None) [order..<MAX_ORDER + 1] of
       None \<Rightarrow> Inr (m, fr, None)
     | Some available \<Rightarrow>
       (case fl_pop m (fr_lists fr) available of (m1, fl, popped) \<Rightarrow>
         let fr1 = fr\<lparr>fr_lists := fl\<rparr> in
         case popped of
           None \<Rightarrow> Inr (m1, fr1, None)
         | Some p \<Rightarrow>
             obind (frames_split m1 pg fr1 p available order) (\<lambda>(m2, fr2).
             obind (pages_write pg m2 p (Buddy False (of_nat order))) (\<lambda>m3.
             Inr (m3, fr2, Some p)))))"

text \<open>The loop \<open>while order < MAX_ORDER\<close> of \<open>free\<close>: the block the freed one ends up in.\<close>

function frames_merge :: "mem \<Rightarrow> pages \<Rightarrow> frames \<Rightarrow> pfn \<Rightarrow> nat \<Rightarrow> (mem \<times> frames \<times> pfn \<times> nat) outcome" where
  "frames_merge m pg fr p order =
    (if order < MAX_ORDER then
       (let b = buddy p order in
        if \<not> pr_contains (covers pg) b then Inr (m, fr, p, order)
        else obind (pages_read pg m b) (\<lambda>e.
          case e of
            Buddy free ord \<Rightarrow>
              if free \<and> ord = of_nat order then
                (case fl_unlink m (fr_lists fr) b order of (m', fl) \<Rightarrow>
                  frames_merge m' pg (fr\<lparr>fr_lists := fl\<rparr>) (min p b) (order + 1))
              else Inr (m, fr, p, order)
          | Slab _ _ _ _ _ \<Rightarrow> Inr (m, fr, p, order)))
     else Inr (m, fr, p, order))"
  by pat_completeness auto
termination
  by (relation "measure (\<lambda>(m, pg, fr, p, order). MAX_ORDER - order)") auto

declare frames_merge.simps [simp del]

definition frames_free :: "mem \<Rightarrow> pages \<Rightarrow> frames \<Rightarrow> pfn \<Rightarrow> (mem \<times> frames) outcome" where
  "frames_free m pg fr p =
    obind (pages_read pg m p) (\<lambda>e.
    obind (case e of
        Buddy free order \<Rightarrow>
          if free then Inl (Panicked ''freeing already freed pfn'') else Inr (unat order)
      | Slab _ _ _ _ _ \<Rightarrow> Inr 0) (\<lambda>order.
    obind (frames_merge m pg fr p order) (\<lambda>(m', fr', p', order').
    frames_push m' pg fr' p' order')))"

text \<open>
  \<open>seed\<close>. A run of \<open>n\<close> pages takes at most \<open>n\<close> blocks, so the inner loop is given the number of pages
  of the run as fuel; \<open>seed_run_enough\<close> below shows that it never runs out.
\<close>

definition ilog2 :: "usize \<Rightarrow> usize outcome" where
  "ilog2 n = (if n = 0 then Inl (Panicked ''argument of integer logarithm must be positive'')
    else Inr (log2_floor n))"

fun seed_run :: "nat \<Rightarrow> mem \<Rightarrow> pages \<Rightarrow> frames \<Rightarrow> pfn \<Rightarrow> pfn \<Rightarrow> (mem \<times> frames) outcome" where
  "seed_run fuel m pg fr blk fin =
    (if blk < fin then
       (case fuel of
          0 \<Rightarrow> Inl OutOfFuel
        | Suc fuel' \<Rightarrow>
            obind (ilog2 (pages_until blk fin)) (\<lambda>lg.
            let order = min (min MAX_ORDER (alignment_order blk)) lg in
            obind (frames_push m pg fr blk order) (\<lambda>(m', fr').
            seed_run fuel' m' pg fr' (pfn_offset blk (usize_shl 1 order)) fin)))
     else Inr (m, fr))"

declare seed_run.simps [simp del]

fun seed_runs :: "mem \<Rightarrow> pages \<Rightarrow> frames \<Rightarrow> page_range list \<Rightarrow> (mem \<times> frames) outcome" where
  "seed_runs m pg fr [] = Inr (m, fr)"
| "seed_runs m pg fr (run # runs) =
    obind (seed_run (pr_pages run) m pg fr (pr_start run) (pr_end run)) (\<lambda>(m', fr').
    seed_runs m' pg fr' runs)"

definition frames_seed :: "mem \<Rightarrow> memory_map \<Rightarrow> pages \<Rightarrow> frames \<Rightarrow> (mem \<times> frames) outcome" where
  "frames_seed m mm pg fr = seed_runs m pg fr (unreserved mm)"

definition frames_new :: "mem \<Rightarrow> memory_map \<Rightarrow> pages \<Rightarrow> (mem \<times> frames) outcome" where
  "frames_new m mm pg = frames_seed m mm pg \<lparr>fr_lists = free_lists_empty, fr_total = pg_len pg\<rparr>"

definition frames_free_blocks :: "mem \<Rightarrow> frames \<Rightarrow> nat \<Rightarrow> usize option" where
  "frames_free_blocks m fr order = fl_blocks m (fr_lists fr) order"

subsection \<open>Blocks\<close>

type_synonym blk = "pfn \<times> nat"

definition pages_in :: "blk set \<Rightarrow> pfn set" where
  "pages_in B = (\<Union>b \<in> B. block (fst b) (snd b))"

definition free_blocks :: "(nat \<Rightarrow> pfn list) \<Rightarrow> blk set" where
  "free_blocks L = {(p, k). k < ORDERS \<and> p \<in> set (L k)}"

definition free_pages :: "(nat \<Rightarrow> pfn list) \<Rightarrow> pfn set" where
  "free_pages L = pages_in (free_blocks L)"

definition disjoint_blocks :: "blk set \<Rightarrow> bool" where
  "disjoint_blocks B \<longleftrightarrow>
    (\<forall>b \<in> B. \<forall>c \<in> B. b \<noteq> c \<longrightarrow> block (fst b) (snd b) \<inter> block (fst c) (snd c) = {})"

definition block_ok :: "pages \<Rightarrow> blk \<Rightarrow> bool" where
  "block_ok pg b \<longleftrightarrow> snd b < ORDERS \<and> 2 ^ snd b dvd fst b \<and> block (fst b) (snd b) \<subseteq> covered pg
    \<and> bytes_of (block (fst b) (snd b)) \<inter> meta_bytes pg = {}"

text \<open>What the metadata of an allocated block says: in use at its order, or a slab page.\<close>

fun owned_entry :: "entry \<Rightarrow> nat \<Rightarrow> bool" where
  "owned_entry (Buddy free order) k \<longleftrightarrow> \<not> free \<and> order = of_nat k"
| "owned_entry (Slab _ _ _ _ _) k \<longleftrightarrow> k = 0"

fun free_entry :: "entry \<Rightarrow> bool" where
  "free_entry (Buddy free order) = free"
| "free_entry (Slab _ _ _ _ _) = False"

text \<open>
  The invariant. \<open>L\<close> is what the lists hold, \<open>A\<close> the blocks handed out, \<open>H\<close> the blocks that an
  operation has taken off a list and not yet put back or handed out. All of them are aligned, inside
  the arena, off the metadata, and disjoint; the metadata of a free block's first page says so, that
  of an allocated one says it is in use, and no page outside all blocks looks free. Nothing is said
  about the metadata of the inner pages of a block, which the code leaves stale.
\<close>

definition frames_core :: "mem \<Rightarrow> pages \<Rightarrow> frames \<Rightarrow> (nat \<Rightarrow> pfn list) \<Rightarrow> blk set \<Rightarrow> blk set \<Rightarrow> bool" where
  "frames_core m pg fr L A H \<longleftrightarrow> pages_wf pg \<and> fl_inv m (fr_lists fr) L
    \<and> (\<forall>b \<in> free_blocks L \<union> A \<union> H. block_ok pg b)
    \<and> disjoint_blocks (free_blocks L \<union> A \<union> H)
    \<and> free_blocks L \<inter> A = {} \<and> free_blocks L \<inter> H = {} \<and> A \<inter> H = {}
    \<and> (\<forall>b \<in> free_blocks L. entry_at pg m (fst b) = Buddy True (of_nat (snd b)))
    \<and> (\<forall>b \<in> A. owned_entry (entry_at pg m (fst b)) (snd b))
    \<and> (\<forall>p \<in> covered pg - pages_in (free_blocks L \<union> A \<union> H). \<not> free_entry (entry_at pg m p))"

text \<open>No two buddies of the same order are both free.\<close>

definition coalesced :: "(nat \<Rightarrow> pfn list) \<Rightarrow> bool" where
  "coalesced L \<longleftrightarrow> (\<forall>k < MAX_ORDER. \<forall>p \<in> set (L k). buddy p k \<notin> set (L k))"

definition frames_inv :: "mem \<Rightarrow> pages \<Rightarrow> frames \<Rightarrow> (nat \<Rightarrow> pfn list) \<Rightarrow> blk set \<Rightarrow> bool" where
  "frames_inv m pg fr L A \<longleftrightarrow> frames_core m pg fr L A {} \<and> coalesced L"

end
