(* ===== verification/FramesCorrect.thy ===== *)
theory FramesCorrect
  imports Frames
begin

text \<open>
  Correctness of the buddy allocator: every internal step of \<open>Frames\<close> preserves \<open>frames_core\<close>
  (taking a block off a list, splitting and merging held blocks, pushing one, handing one out), and
  \<open>alloc\<close>, \<open>free\<close> and \<open>seed\<close> are compositions of these steps.
\<close>

subsection \<open>Sets of blocks\<close>

lemma pages_in_simps [simp]:
  "pages_in {} = {}" "pages_in (insert b B) = block (fst b) (snd b) \<union> pages_in B"
  "pages_in (B \<union> C) = pages_in B \<union> pages_in C"
  by (auto simp: pages_in_def)

lemma in_pages_in: "x \<in> pages_in B \<longleftrightarrow> (\<exists>p k. (p, k) \<in> B \<and> x \<in> block p k)"
  by (force simp: pages_in_def)

lemma pages_in_mono: "B \<subseteq> C \<Longrightarrow> pages_in B \<subseteq> pages_in C"
  unfolding pages_in_def by blast

lemma disjoint_blocksD:
  "disjoint_blocks B \<Longrightarrow> b \<in> B \<Longrightarrow> c \<in> B \<Longrightarrow> x \<in> block (fst b) (snd b) \<Longrightarrow> x \<in> block (fst c) (snd c) \<Longrightarrow> b = c"
  by (auto simp: disjoint_blocks_def)

lemma disjoint_blocks_subset: "disjoint_blocks B \<Longrightarrow> C \<subseteq> B \<Longrightarrow> disjoint_blocks C"
  unfolding disjoint_blocks_def by blast

lemma disjoint_blocks_fst: "disjoint_blocks B \<Longrightarrow> b \<in> B \<Longrightarrow> c \<in> B \<Longrightarrow> fst b = fst c \<Longrightarrow> b = c"
  by (rule disjoint_blocksD [of B b c "fst b"]) auto

lemma disjoint_blocks_pages:
  assumes "disjoint_blocks (insert b B)" "b \<notin> B"
  shows "block (fst b) (snd b) \<inter> pages_in B = {}"
proof -
  have "x \<notin> pages_in B" if x: "x \<in> block (fst b) (snd b)" for x
  proof
    assume "x \<in> pages_in B"
    then obtain c where "c \<in> B" "x \<in> block (fst c) (snd c)" by (auto simp: pages_in_def)
    then show False using disjoint_blocksD [OF assms(1), of b c x] x assms(2) by auto
  qed
  then show ?thesis by blast
qed

lemma in_free_blocks [simp]: "(p, k) \<in> free_blocks L \<longleftrightarrow> k < ORDERS \<and> p \<in> set (L k)"
  by (simp add: free_blocks_def)

lemma free_blocks_push: "k < ORDERS \<Longrightarrow> free_blocks (L(k := p # L k)) = insert (p, k) (free_blocks L)"
  by (auto simp: free_blocks_def)

lemma free_blocks_remove:
  "distinct (L k) \<Longrightarrow> free_blocks (L(k := remove1 p (L k))) = free_blocks L - {(p, k)}"
  by (auto simp: free_blocks_def)

lemma heads_set_free_pages: "heads_set L \<subseteq> free_pages L"
proof
  fix x assume "x \<in> heads_set L"
  then obtain k where "k < ORDERS" "x \<in> set (L k)" by (auto simp: heads_set_def)
  then have "(x, k) \<in> free_blocks L" by simp
  then show "x \<in> free_pages L" unfolding free_pages_def in_pages_in using block_nonempty by blast
qed

lemma bytes_of_Un: "bytes_of (P \<union> Q) = bytes_of P \<union> bytes_of Q"
  by auto

lemma disjoint_blocks_insertI:
  assumes "disjoint_blocks B" and "block (fst b) (snd b) \<inter> pages_in B = {}"
  shows "disjoint_blocks (insert b B)"
proof -
  have "block (fst b) (snd b) \<inter> block (fst c) (snd c) = {}" if "c \<in> B" for c
    using assms(2) that unfolding pages_in_def by blast
  then show ?thesis
    using assms(1) by (auto simp: disjoint_blocks_def Int_commute)
qed

lemma disjoint_blocks_notin:
  assumes "disjoint_blocks B" "c \<in> B" "x \<in> block (fst c) (snd c)" "x \<in> block (fst b) (snd b)" "b \<noteq> c"
  shows "b \<notin> B"
  using disjoint_blocksD [OF assms(1) _ assms(2) assms(4) assms(3)] assms(5) by blast

lemma finite_free_blocks [simp]: "finite (free_blocks L)"
proof -
  have "free_blocks L = (\<Union>k<ORDERS. (\<lambda>p. (p, k)) ` set (L k))"
    by (auto simp: free_blocks_def)
  then show ?thesis by simp
qed

lemma finite_free_pages [simp]: "finite (free_pages L)"
  by (simp add: free_pages_def pages_in_def)

lemma total_pages_card:
  assumes "disjoint_blocks (free_blocks L)" and "\<And>k. k < ORDERS \<Longrightarrow> distinct (L k)"
  shows "total_pages L = card (free_pages L)"
proof -
  have "card (free_pages L) = (\<Sum>b \<in> free_blocks L. card (block (fst b) (snd b)))"
    unfolding free_pages_def pages_in_def
    using assms(1) by (intro card_UN_disjoint) (auto simp: disjoint_blocks_def)
  also have "\<dots> = (\<Sum>b \<in> free_blocks L. 2 ^ snd b)" by simp
  also have "\<dots> = (\<Sum>(k, p) \<in> Sigma {..<ORDERS} (\<lambda>k. set (L k)). 2 ^ k)"
    by (rule sum.reindex_bij_witness [where i = "\<lambda>(k, p). (p, k)" and j = "\<lambda>(p, k). (k, p)"]) auto
  also have "\<dots> = (\<Sum>k<ORDERS. \<Sum>p \<in> set (L k). 2 ^ k)"
    by (subst sum.Sigma) auto
  also have "\<dots> = total_pages L"
    using assms(2) by (auto simp: total_pages_def distinct_card intro!: sum.cong)
  finally show ?thesis by simp
qed

subsection \<open>Consequences of the invariant\<close>

lemma frames_coreD:
  assumes "frames_core m pg fr L A H"
  shows "pages_wf pg" and "fl_inv m (fr_lists fr) L"
    and "b \<in> free_blocks L \<union> A \<union> H \<Longrightarrow> block_ok pg b"
    and "disjoint_blocks (free_blocks L \<union> A \<union> H)"
    and "free_blocks L \<inter> A = {}" and "free_blocks L \<inter> H = {}" and "A \<inter> H = {}"
    and "b \<in> free_blocks L \<Longrightarrow> entry_at pg m (fst b) = Buddy True (of_nat (snd b))"
    and "b \<in> A \<Longrightarrow> owned_entry (entry_at pg m (fst b)) (snd b)"
    and "p \<in> covered pg \<Longrightarrow> p \<notin> pages_in (free_blocks L \<union> A \<union> H) \<Longrightarrow> \<not> free_entry (entry_at pg m p)"
  using assms by (auto simp: frames_core_def)

lemma block_okD:
  assumes "block_ok pg (p, k)"
  shows "k < ORDERS" and "2 ^ k dvd p" and "p \<in> covered pg" and "block p k \<subseteq> covered pg"
    and "bytes_of (block p k) \<inter> meta_bytes pg = {}" and "page_bytes p \<inter> meta_bytes pg = {}"
proof -
  show ok: "k < ORDERS" "2 ^ k dvd p" "block p k \<subseteq> covered pg"
    "bytes_of (block p k) \<inter> meta_bytes pg = {}"
    using assms by (auto simp: block_ok_def)
  have p: "p \<in> block p k" by simp
  then show "p \<in> covered pg" using ok(3) by blast
  have "page_bytes p \<subseteq> bytes_of (block p k)" using p by auto
  then show "page_bytes p \<inter> meta_bytes pg = {}" using ok(4) by blast
qed

lemma free_pages_covered: "frames_core m pg fr L A H \<Longrightarrow> free_pages L \<subseteq> covered pg"
  using frames_coreD(3) block_okD(4) unfolding free_pages_def in_pages_in subset_iff by blast

lemma free_bytes_meta: "frames_core m pg fr L A H \<Longrightarrow> bytes_of (free_pages L) \<inter> meta_bytes pg = {}"
proof -
  assume c: "frames_core m pg fr L A H"
  have "x \<notin> meta_bytes pg" if x: "x div 4096 \<in> free_pages L" for x
  proof -
    obtain p k where "(p, k) \<in> free_blocks L" "x div 4096 \<in> block p k"
      using x by (auto simp: free_pages_def in_pages_in)
    then show ?thesis using frames_coreD(3) [OF c, of "(p, k)"] block_okD(5) [of pg p k] by auto
  qed
  then show ?thesis by auto
qed

lemma covered_limit: "pages_wf pg \<Longrightarrow> p \<in> covered pg \<Longrightarrow> p < pfn_limit"
  by (auto simp: pages_wf_def in_covered)

text \<open>Holding different blocks of the same pages.\<close>

lemma core_retile:
  assumes c: "frames_core m pg fr L A H" and pages: "pages_in H' = pages_in H"
    and ok: "\<And>b. b \<in> H' \<Longrightarrow> block_ok pg b" and disj: "disjoint_blocks H'"
  shows "frames_core m pg fr L A H'"
proof -
  let ?B = "free_blocks L \<union> A"
  have sep: "x \<notin> block (fst b) (snd b)" if b: "b \<in> ?B" and p: "x \<in> pages_in H'" for b x
  proof
    assume x: "x \<in> block (fst b) (snd b)"
    have "x \<in> pages_in H" using p pages by simp
    then obtain h where h: "h \<in> H" "x \<in> block (fst h) (snd h)"
      by (auto simp: pages_in_def)
    then have "b = h"
      using disjoint_blocksD [OF frames_coreD(4) [OF c], of b h x] b x by auto
    then show False using h(1) b frames_coreD(6,7) [OF c] by auto
  qed
  have sub: "block (fst b) (snd b) \<subseteq> pages_in H'" if "b \<in> H'" for b
    using that by (auto simp: pages_in_def)
  have "disjoint_blocks (?B \<union> H')"
    using disj frames_coreD(4) [OF c] sep sub unfolding disjoint_blocks_def by blast
  moreover have "?B \<inter> H' = {}"
    using sep sub block_nonempty by blast
  ultimately show ?thesis
    using c ok pages by (auto simp: frames_core_def)
qed

lemma core_disown: "frames_core m pg fr L (insert b A) H \<Longrightarrow> b \<notin> A \<Longrightarrow> frames_core m pg fr L A (insert b H)"
  by (auto simp: frames_core_def)

lemma core_unlink:
  assumes c: "frames_core m pg fr L A H" and k: "k < ORDERS" and p: "p \<in> set (L k)"
    and u: "fl_unlink m (fr_lists fr) p k = (m', fl')"
  shows "frames_core m' pg (fr\<lparr>fr_lists := fl'\<rparr>) (L(k := remove1 p (L k))) A (insert (p, k) H)"
    and "same_on (- bytes_of (free_pages L)) m m'"
proof -
  note fi = frames_coreD(2) [OF c]
  note u' = fl_unlink_inv [OF fi k p u]
  have "bytes_of (heads_set L) \<subseteq> bytes_of (free_pages L)"
    using heads_set_free_pages [of L] by auto
  then show same: "same_on (- bytes_of (free_pages L)) m m'"
    by (intro same_on_subset [OF u'(2)]) blast
  have "same_on (meta_bytes pg) m m'"
    using free_bytes_meta [OF c] by (intro same_on_subset [OF same]) blast
  then have e: "entry_at pg m' x = entry_at pg m x" if "x \<in> covered pg" for x
    using that by (rule entry_at_same_on)
  have cov: "fst b \<in> covered pg" if "b \<in> free_blocks L \<union> A" for b
    using frames_coreD(3) [OF c, of b] that block_okD(3) [of pg "fst b" "snd b"] by auto
  have fb: "free_blocks (L(k := remove1 p (L k))) = free_blocks L - {(p, k)}"
    using fl_invD(2) [OF fi k] by (rule free_blocks_remove)
  have "(p, k) \<in> free_blocks L" using k p by simp
  then have un: "(free_blocks L - {(p, k)}) \<union> A \<union> insert (p, k) H = free_blocks L \<union> A \<union> H"
    by blast
  have "(p, k) \<notin> A" using \<open>(p, k) \<in> free_blocks L\<close> frames_coreD(5) [OF c] by blast
  then show "frames_core m' pg (fr\<lparr>fr_lists := fl'\<rparr>) (L(k := remove1 p (L k))) A (insert (p, k) H)"
    unfolding frames_core_def fb un
    using c u'(1) e cov
    by (auto simp: frames_core_def)
qed

lemma core_set_entry:
  assumes c: "frames_core m pg fr L A (insert (p, k) H)" and new: "(p, k) \<notin> H"
    and e: "entry_fits e" "owned_entry e k"
  shows "frames_core (set_entry pg m p e) pg fr L (insert (p, k) A) H"
    and "same_on (- meta_bytes pg) m (set_entry pg m p e)"
proof -
  have ok: "block_ok pg (p, k)" using frames_coreD(3) [OF c] by simp
  note okp = block_okD [OF ok]
  show same: "same_on (- meta_bytes pg) m (set_entry pg m p e)"
    using okp(3) by (rule set_entry_bytes)
  have "bytes_of (heads_set L) \<inter> meta_bytes pg = {}"
    using free_bytes_meta [OF c] heads_set_free_pages [of L] by (auto simp: disjoint_iff)
  then have fi: "fl_inv (set_entry pg m p e) (fr_lists fr) L"
    by (intro fl_inv_same_on [OF frames_coreD(2) [OF c]] same_on_subset [OF same]) blast
  have cov: "fst b \<in> covered pg" if "b \<in> free_blocks L \<union> A" for b
    using frames_coreD(3) [OF c, of b] that block_okD(3) [of pg "fst b" "snd b"] by auto
  have other: "entry_at pg (set_entry pg m p e) q = entry_at pg m q" if "q \<in> covered pg" "q \<noteq> p" for q
    using okp(3) that by (rule entries.rd_wr_other)
  have neq: "fst b \<noteq> p" if "b \<in> free_blocks L \<union> A" for b
  proof
    assume "fst b = p"
    then have "b = (p, k)"
      using disjoint_blocks_fst [OF frames_coreD(4) [OF c], of b "(p, k)"] that by auto
    then show False using that frames_coreD(6,7) [OF c] by blast
  qed
  have un: "free_blocks L \<union> insert (p, k) A \<union> H = free_blocks L \<union> A \<union> insert (p, k) H"
    by blast
  have "p \<in> pages_in (free_blocks L \<union> A \<union> insert (p, k) H)" by simp
  then have unheld: "\<not> free_entry (entry_at pg (set_entry pg m p e) q)"
    if "q \<in> covered pg - pages_in (free_blocks L \<union> A \<union> insert (p, k) H)" for q
    using that other [of q] frames_coreD(10) [OF c, of q] by (cases "q = p") auto
  have owned: "owned_entry (entry_at pg (set_entry pg m p e) (fst b)) (snd b)" if "b \<in> insert (p, k) A" for b
    using that e okp(3) entries.rd_wr_same [of p pg e m] other [of "fst b"] cov [of b] neq [of b]
      frames_coreD(9) [OF c, of b] by (cases "b = (p, k)") auto
  have free: "entry_at pg (set_entry pg m p e) (fst b) = Buddy True (of_nat (snd b))" if "b \<in> free_blocks L" for b
    using that other [of "fst b"] cov neq frames_coreD(8) [OF c, of b] by auto
  have sep: "free_blocks L \<inter> insert (p, k) A = {}" "insert (p, k) A \<inter> H = {}" "free_blocks L \<inter> H = {}"
    using frames_coreD(5,6,7) [OF c] new by auto
  show "frames_core (set_entry pg m p e) pg fr L (insert (p, k) A) H"
    unfolding frames_core_def un
    by (intro conjI ballI fi sep unheld owned free frames_coreD(1,3,4) [OF c])
qed

text \<open>What an operation on the pages \<open>P\<close> may write: their bytes and their metadata entries.\<close>

definition touched :: "pages \<Rightarrow> pfn set \<Rightarrow> usize set" where
  "touched pg P = bytes_of P \<union> (\<Union>p \<in> P. range_of (entry_addr pg p) 8)"

lemma touched_mono: "P \<subseteq> Q \<Longrightarrow> - touched pg Q \<subseteq> - touched pg P"
  by (auto simp: touched_def)

lemma bytes_of_touched: "bytes_of P \<subseteq> touched pg P"
  by (auto simp: touched_def)

lemma touched_subset: "P \<subseteq> covered pg \<Longrightarrow> touched pg P \<subseteq> bytes_of P \<union> meta_bytes pg"
  unfolding touched_def using entry_range by blast

lemma set_entry_touched: "p \<in> P \<Longrightarrow> same_on (- touched pg P) m (set_entry pg m p e)"
  unfolding set_entry_def touched_def by (rule write_u64_same_on) blast

lemma untouched_entry:
  assumes "same_on (- touched pg P) m m'" and P: "P \<subseteq> covered pg" "bytes_of P \<inter> meta_bytes pg = {}"
    and q: "q \<in> covered pg" "q \<notin> P"
  shows "entry_at pg m' q = entry_at pg m q"
proof -
  have "range_of (entry_addr pg q) 8 \<inter> range_of (entry_addr pg p) 8 = {}" if "p \<in> P" for p
  proof -
    have "p \<in> covered pg" "p \<noteq> q" using that P(1) q by blast+
    then show ?thesis
      using q(1) by (intro range_of_disjoint) (auto simp: entry_addr_def in_covered)
  qed
  then have "range_of (entry_addr pg q) 8 \<inter> touched pg P = {}"
    using entry_range [OF q(1)] P(2) unfolding touched_def by blast
  then have "same_on (range_of (entry_addr pg q) 8) m m'"
    by (intro same_on_subset [OF assms(1)]) blast
  then show ?thesis by (simp add: entry_at_def read_u64_same_on)
qed

text \<open>The lists hold no more pages than the arena has.\<close>

lemma core_free_total:
  assumes c: "frames_core m pg fr L A H"
  shows "total_pages L = card (free_pages L)" and "total_pages L \<le> 524287"
proof -
  have "disjoint_blocks (free_blocks L)"
    using frames_coreD(4) [OF c] by (rule disjoint_blocks_subset) blast
  then show t: "total_pages L = card (free_pages L)"
    using fl_invD(2) [OF frames_coreD(2) [OF c]] by (rule total_pages_card)
  have "card (free_pages L) \<le> card (covered pg)"
    using free_pages_covered [OF c] by (intro card_mono) (auto simp: covered_def)
  also have "card (covered pg) \<le> 524287"
    using frames_coreD(1) [OF c] by (simp add: pages_wf_def covered_def MAX_PAGES_eq)
  finally show "total_pages L \<le> 524287" using t by simp
qed

lemma order_entry_fits: "k < ORDERS \<Longrightarrow> entry_fits (Buddy free (of_nat k))"
  by (simp add: ORDERS_eq word_less_nat_alt unat_of_nat)

lemma core_push:
  assumes c: "frames_core m pg fr L A (insert (p, k) H)" and new: "(p, k) \<notin> H"
  obtains m' fr' where "frames_push m pg fr p k = Inr (m', fr')"
    and "frames_core m' pg fr' (L(k := p # L k)) A H"
    and "same_on (- touched pg (free_pages L \<union> block p k)) m m'"
    and "fr_total fr' = fr_total fr"
proof -
  have ok: "block_ok pg (p, k)" using frames_coreD(3) [OF c] by simp
  note okp = block_okD [OF ok]
  let ?e = "Buddy True (of_nat k)" and ?L = "L(k := p # L k)"
  obtain m1 fl where push: "fl_push m (fr_lists fr) p k = (m1, fl)" by fastforce
  define m2 where "m2 = set_entry pg m1 p ?e"
  have neq: "fst b \<noteq> p" if "b \<in> free_blocks L \<union> A" for b
  proof
    assume "fst b = p"
    then have "b = (p, k)"
      using disjoint_blocks_fst [OF frames_coreD(4) [OF c], of b "(p, k)"] that by auto
    then show False using that frames_coreD(6,7) [OF c] by blast
  qed
  have "p \<notin> heads_set L"
    using neq unfolding heads_set_def free_blocks_def by fastforce
  moreover have "(2::nat) ^ k \<le> 2 ^ 10"
    using okp(1) by (intro power_increasing) (simp_all add: ORDERS_eq)
  then have "total_pages L + 2 ^ k < usize_limit" using core_free_total(2) [OF c] by simp
  ultimately have fi: "fl_inv m1 fl ?L" and s1: "same_on (- bytes_of (insert p (heads_set L))) m m1"
    using fl_push_inv [OF frames_coreD(2) [OF c] okp(1) covered_limit [OF frames_coreD(1) [OF c] okp(3)] _ _ push]
    by blast+
  have sub: "bytes_of (insert p (heads_set L)) \<subseteq> bytes_of (free_pages L \<union> block p k)"
    using heads_set_free_pages [of L] by auto
  have meta: "bytes_of (free_pages L \<union> block p k) \<inter> meta_bytes pg = {}"
    using free_bytes_meta [OF c] okp(5) by (simp add: bytes_of_Un Int_Un_distrib2)
  have m1: "same_on (meta_bytes pg) m m1"
    by (rule same_on_subset [OF s1]) (use sub meta in blast)
  have s2: "same_on (- meta_bytes pg) m1 m2" unfolding m2_def using okp(3) by (rule set_entry_bytes)
  have fb: "free_blocks ?L = insert (p, k) (free_blocks L)"
    using okp(1) by (rule free_blocks_push)
  have "bytes_of (heads_set ?L) \<inter> meta_bytes pg = {}"
  proof -
    have "heads_set ?L \<subseteq> insert p (heads_set L)" using okp(1) by (auto simp: heads_set_def split: if_splits)
    then have "bytes_of (heads_set ?L) \<subseteq> bytes_of (insert p (heads_set L))" by auto
    then show ?thesis using sub meta by blast
  qed
  then have fi2: "fl_inv m2 fl ?L"
    by (intro fl_inv_same_on [OF fi] same_on_subset [OF s2]) blast
  have other: "entry_at pg m2 q = entry_at pg m q" if "q \<in> covered pg" "q \<noteq> p" for q
    using entries.rd_wr_other [OF okp(3) that, of m1 ?e] entry_at_same_on [OF m1 that(1)]
    by (simp add: m2_def)
  have self: "entry_at pg m2 p = ?e"
    unfolding m2_def using okp(3) order_entry_fits [OF okp(1)] by (rule entries.rd_wr_same)
  have cov: "fst b \<in> covered pg" if "b \<in> free_blocks L \<union> A" for b
    using frames_coreD(3) [OF c, of b] that block_okD(3) [of pg "fst b" "snd b"] by auto
  have un: "insert (p, k) (free_blocks L) \<union> A \<union> H = free_blocks L \<union> A \<union> insert (p, k) H"
    by blast
  have "p \<in> pages_in (free_blocks L \<union> A \<union> insert (p, k) H)" by simp
  then have unheld: "\<not> free_entry (entry_at pg m2 q)"
    if "q \<in> covered pg - pages_in (free_blocks L \<union> A \<union> insert (p, k) H)" for q
    using that other [of q] frames_coreD(10) [OF c, of q] by (cases "q = p") auto
  have owned: "owned_entry (entry_at pg m2 (fst b)) (snd b)" if "b \<in> A" for b
    using that other [of "fst b"] cov [of b] neq [of b] frames_coreD(9) [OF c, of b] by auto
  have free: "entry_at pg m2 (fst b) = Buddy True (of_nat (snd b))" if "b \<in> insert (p, k) (free_blocks L)" for b
    using that self other [of "fst b"] cov [of b] neq [of b] frames_coreD(8) [OF c, of b]
    by (cases "b = (p, k)") auto
  have sep: "insert (p, k) (free_blocks L) \<inter> A = {}" "insert (p, k) (free_blocks L) \<inter> H = {}" "A \<inter> H = {}"
    using frames_coreD(5,6,7) [OF c] new by auto
  have "frames_core m2 pg (fr\<lparr>fr_lists := fl\<rparr>) ?L A H"
    unfolding frames_core_def fb un
    using fi2 by (intro conjI ballI sep unheld owned free frames_coreD(1,3,4) [OF c]) simp_all
  moreover have "frames_push m pg fr p k = Inr (m2, fr\<lparr>fr_lists := fl\<rparr>)"
    using push frames_coreD(1) [OF c] okp(3) by (simp add: frames_push_def pages_write_covered m2_def)
  moreover have "same_on (- touched pg (free_pages L \<union> block p k)) m m2"
  proof (rule same_on_trans)
    show "same_on (- touched pg (free_pages L \<union> block p k)) m m1"
      by (rule same_on_subset [OF s1]) (use sub bytes_of_touched in blast)
    show "same_on (- touched pg (free_pages L \<union> block p k)) m1 m2"
      unfolding m2_def by (rule set_entry_touched) simp
  qed
  ultimately show thesis using that by simp
qed

subsection \<open>Splitting and joining held blocks\<close>

lemma core_held:
  assumes "frames_core m pg fr L A H"
  shows "disjoint_blocks H" and "b \<in> H \<Longrightarrow> block_ok pg b"
  using disjoint_blocks_subset [OF frames_coreD(4) [OF assms]] frames_coreD(3) [OF assms] by blast+

lemma block_ok_half:
  assumes "block_ok pg (p, Suc k)"
  shows "block_ok pg (p, k)" and "block_ok pg (p + 2 ^ k, k)"
proof -
  note ok = block_okD [OF assms]
  have "2 ^ k dvd p" using ok(2) by (metis dvd_mult_right power_Suc)
  moreover have "block p k \<union> block (p + 2 ^ k) k = block p (Suc k)" by (simp add: block_split)
  moreover from this have "bytes_of (block p k) \<subseteq> bytes_of (block p (Suc k))"
    "bytes_of (block (p + 2 ^ k) k) \<subseteq> bytes_of (block p (Suc k))"
    by auto
  ultimately show "block_ok pg (p, k)" "block_ok pg (p + 2 ^ k, k)"
    using ok(1,4,5) unfolding block_ok_def fst_conv snd_conv by auto
qed

lemma core_split:
  assumes c: "frames_core m pg fr L A (insert (p, Suc k) H)" and new: "(p, Suc k) \<notin> H"
  shows "frames_core m pg fr L A (insert (p + 2 ^ k, k) (insert (p, k) H))"
    and "(p + 2 ^ k, k) \<notin> insert (p, k) H" and "(p, k) \<notin> H"
proof -
  note held = core_held [OF c]
  have away: "block p (Suc k) \<inter> pages_in H = {}"
    using disjoint_blocks_pages [OF held(1) new] by simp
  have parts: "block p (Suc k) = block p k \<union> block (p + 2 ^ k) k" by (rule block_split)
  have dH: "disjoint_blocks H" using held(1) by (rule disjoint_blocks_subset) blast
  have d1: "disjoint_blocks (insert (p, k) H)"
    using dH away parts by (intro disjoint_blocks_insertI) auto
  have d2: "disjoint_blocks (insert (p + 2 ^ k, k) (insert (p, k) H))"
    by (rule disjoint_blocks_insertI [OF d1]) (use away parts block_split_disjoint [of p k] in auto)
  show "frames_core m pg fr L A (insert (p + 2 ^ k, k) (insert (p, k) H))"
    using block_ok_half [OF held(2) [of "(p, Suc k)"]] held(2)
    by (intro core_retile [OF c _ _ d2]) (auto simp: parts)
  have "x \<notin> pages_in H" if "x \<in> block p (Suc k)" for x using away that by blast
  moreover have "p \<in> block p (Suc k)" "p + 2 ^ k \<in> block p (Suc k)"
    by (simp_all add: in_block)
  moreover have "b \<in> H \<Longrightarrow> fst b \<in> pages_in H" for b
    unfolding pages_in_def using block_nonempty by blast
  ultimately show "(p + 2 ^ k, k) \<notin> insert (p, k) H" "(p, k) \<notin> H"
    by fastforce+
qed

lemma core_join:
  assumes c: "frames_core m pg fr L A (insert (p, k) (insert (buddy p k, k) H))"
    and new: "(p, k) \<notin> H" "(buddy p k, k) \<notin> H" and k: "k < MAX_ORDER"
  shows "frames_core m pg fr L A (insert (min p (buddy p k), Suc k) H)"
    and "(min p (buddy p k), Suc k) \<notin> H"
proof -
  let ?b = "buddy p k" and ?q = "min p (buddy p k)"
  note held = core_held [OF c]
  have ok: "block_ok pg (p, k)" "block_ok pg (?b, k)" using held(2) by simp_all
  have k64: "k < 64" using k by (simp add: MAX_ORDER_def)
  note bm = buddy_merge [OF block_okD(2) [OF ok(1)] k64]
  have dH: "disjoint_blocks H" "disjoint_blocks (insert (?b, k) H)" "disjoint_blocks (insert (p, k) H)"
    by (rule disjoint_blocks_subset [OF held(1)]; blast)+
  have away: "block ?q (Suc k) \<inter> pages_in H = {}"
    using disjoint_blocks_pages [OF dH(2) new(2)] disjoint_blocks_pages [OF dH(3) new(1)] bm(2) by auto
  then show "(?q, Suc k) \<notin> H"
    unfolding pages_in_def using block_nonempty [of ?q "Suc k"] by fastforce
  have "bytes_of (block ?q (Suc k)) = bytes_of (block p k) \<union> bytes_of (block ?b k)"
    by (simp add: bytes_of_Un flip: bm(2))
  then have "block_ok pg (?q, Suc k)"
    using bm(1,2) block_okD(4,5) [OF ok(1)] block_okD(4,5) [OF ok(2)] k
    unfolding block_ok_def fst_conv snd_conv ORDERS_def by (auto simp: Int_Un_distrib2)
  moreover have "disjoint_blocks (insert (?q, Suc k) H)"
    using dH(1) away by (intro disjoint_blocks_insertI) auto
  ultimately show "frames_core m pg fr L A (insert (?q, Suc k) H)"
    using held(2) bm(2) by (intro core_retile [OF c]) auto
qed

lemma free_pages_push: "k < ORDERS \<Longrightarrow> free_pages (L(k := p # L k)) = free_pages L \<union> block p k"
  unfolding free_pages_def by (simp add: free_blocks_push Un_commute)

lemma free_pages_remove:
  assumes "distinct (L k)" "k < ORDERS" "p \<in> set (L k)"
  shows "free_pages (L(k := remove1 p (L k))) \<union> block p k = free_pages L"
proof -
  have "free_blocks L = insert (p, k) (free_blocks (L(k := remove1 p (L k))))"
    using assms by (auto simp: free_blocks_remove)
  then have "free_pages L = pages_in (insert (p, k) (free_blocks (L(k := remove1 p (L k)))))"
    unfolding free_pages_def by (rule arg_cong)
  then show ?thesis by (simp add: free_pages_def Un_commute)
qed

text \<open>The upper halves that \<open>alloc\<close> pushes while it splits.\<close>

definition split_lists :: "(nat \<Rightarrow> pfn list) \<Rightarrow> pfn \<Rightarrow> nat \<Rightarrow> nat \<Rightarrow> nat \<Rightarrow> pfn list" where
  "split_lists L p order a = (\<lambda>j. if order \<le> j \<and> j < a then (p + 2 ^ j) # L j else L j)"

lemma split_lists_step:
  "order \<le> a \<Longrightarrow> split_lists (L(a := (p + 2 ^ a) # L a)) p order a = split_lists L p order (Suc a)"
  by (auto simp: split_lists_def fun_eq_iff)

lemma core_split_loop:
  assumes "frames_core m pg fr L A (insert (p, a) H)" and "(p, a) \<notin> H" and "order \<le> a"
  shows "\<exists>m' fr'. frames_split m pg fr p a order = Inr (m', fr')
    \<and> frames_core m' pg fr' (split_lists L p order a) A (insert (p, order) H) \<and> (p, order) \<notin> H
    \<and> same_on (- touched pg (free_pages L \<union> block p a)) m m'
    \<and> fr_total fr' = fr_total fr
    \<and> free_pages (split_lists L p order a) \<union> block p order = free_pages L \<union> block p a"
  using assms
proof (induction a arbitrary: m fr L)
  case 0
  then show ?case by (simp add: split_lists_def)
next
  case (Suc a)
  show ?case
  proof (cases "order = Suc a")
    case True
    have "split_lists L p (Suc a) (Suc a) = L" by (simp add: split_lists_def fun_eq_iff)
    then show ?thesis using Suc.prems True by simp
  next
    case False
    then have le: "order \<le> a" using Suc.prems(3) by simp
    note sp = core_split [OF Suc.prems(1,2)]
    obtain m1 fr1 where push: "frames_push m pg fr (p + 2 ^ a) a = Inr (m1, fr1)"
      and c1: "frames_core m1 pg fr1 (L(a := (p + 2 ^ a) # L a)) A (insert (p, a) H)"
      and s1: "same_on (- touched pg (free_pages L \<union> block (p + 2 ^ a) a)) m m1"
      and t1: "fr_total fr1 = fr_total fr"
      using core_push [OF sp(1,2)] by blast
    let ?L1 = "L(a := (p + 2 ^ a) # L a)"
    have ok: "block_ok pg (p, Suc a)" using core_held(2) [OF Suc.prems(1)] by simp
    have a: "a < ORDERS" "a < 64" using block_okD(1) [OF ok] by (simp_all add: ORDERS_eq)
    have "p + 2 ^ a \<in> covered pg" using block_okD(4) [OF ok] by (auto simp: in_block)
    then have "p + 2 ^ a < pfn_limit" using covered_limit frames_coreD(1) [OF Suc.prems(1)] by blast
    then have off: "pfn_offset p (usize_shl 1 a) = p + 2 ^ a"
      using usize_shl_order [OF a(1)] by (simp add: pfn_offset_small)
    have fp: "free_pages ?L1 = free_pages L \<union> block (p + 2 ^ a) a"
      using a(1) by (rule free_pages_push)
    then have all: "free_pages ?L1 \<union> block p a = free_pages L \<union> block p (Suc a)"
      by (auto simp: block_split)
    obtain m' fr' where rest: "frames_split m1 pg fr1 p a order = Inr (m', fr')"
      "frames_core m' pg fr' (split_lists ?L1 p order a) A (insert (p, order) H)" "(p, order) \<notin> H"
      "same_on (- touched pg (free_pages ?L1 \<union> block p a)) m1 m'"
      "fr_total fr' = fr_total fr1"
      "free_pages (split_lists ?L1 p order a) \<union> block p order = free_pages ?L1 \<union> block p a"
      using Suc.IH [OF c1 sp(3) le] by blast
    have "same_on (- touched pg (free_pages L \<union> block p (Suc a))) m m1"
      by (rule same_on_subset [OF s1 touched_mono]) (auto simp: block_split)
    then have "same_on (- touched pg (free_pages L \<union> block p (Suc a))) m m'"
      using rest(4) unfolding all by (rule same_on_trans)
    moreover have "frames_split m pg fr p (Suc a) order = Inr (m', fr')"
      using le push rest(1) by (simp add: off [unfolded One_nat_def])
    ultimately show ?thesis
      using rest(2,3,5,6) t1 unfolding all by (simp add: split_lists_step [OF le])
  qed
qed

subsection \<open>\<open>alloc\<close>\<close>

text \<open>
  Coalescing makes the search by order complete: an aligned run of free pages lies inside one free
  block, so there is a block to split whenever there is a run to hand out.
\<close>

lemma aligned_block_eq:
  assumes "2 ^ k dvd p" "2 ^ k dvd q" "x \<in> block p k" "x \<in> block q k"
  shows "p = q"
proof -
  have "block p k \<subseteq> block q k" "block q k \<subseteq> block p k"
    using aligned_block_nested [OF assms(1,2) _ assms(3,4)]
      aligned_block_nested [OF assms(2,1) _ assms(4,3)] by simp_all
  then show ?thesis using block_nonempty [of p k] block_nonempty [of q k]
    by (auto simp: in_block subset_iff intro: antisym)
qed

lemma coalesced_complete:
  assumes co: "coalesced L" and al: "\<And>p k. (p, k) \<in> free_blocks L \<Longrightarrow> 2 ^ k dvd p"
  shows "k \<le> MAX_ORDER \<Longrightarrow> 2 ^ k dvd b \<Longrightarrow> block b k \<subseteq> free_pages L \<Longrightarrow>
    \<exists>r j. (r, j) \<in> free_blocks L \<and> k \<le> j \<and> block b k \<subseteq> block r j"
proof (induction k arbitrary: b)
  case 0
  then have "b \<in> free_pages L" by auto
  then obtain r j where "(r, j) \<in> free_blocks L" "b \<in> block r j"
    unfolding free_pages_def in_pages_in by blast
  then show ?case using 0 by (intro exI [of _ r] exI [of _ j]) simp
next
  case (Suc k)
  have parts: "block b (Suc k) = block b k \<union> block (b + 2 ^ k) k" by (rule block_split)
  have k: "k \<le> MAX_ORDER" "k < MAX_ORDER" "k < 64" using Suc.prems(1) by (simp_all add: MAX_ORDER_def)
  have d: "2 ^ k dvd b" using Suc.prems(2) by (metis dvd_mult_right power_Suc)
  then have d': "2 ^ k dvd b + 2 ^ k" by simp
  obtain r j where r: "(r, j) \<in> free_blocks L" "k \<le> j" "block b k \<subseteq> block r j"
    using Suc.IH [OF k(1) d] Suc.prems(3) parts by auto
  obtain r' j' where r': "(r', j') \<in> free_blocks L" "k \<le> j'" "block (b + 2 ^ k) k \<subseteq> block r' j'"
    using Suc.IH [OF k(1) d'] Suc.prems(3) parts by auto
  have up: ?case if "(q, i) \<in> free_blocks L" "Suc k \<le> i" "x \<in> block b (Suc k)" "x \<in> block q i" for q i x
    using aligned_block_nested [OF Suc.prems(2) al [OF that(1)] that(2,3,4)] that(1,2) by blast
  have b: "b \<in> block b (Suc k)" "b \<in> block b k" "b + 2 ^ k \<in> block b (Suc k)"
    "b + 2 ^ k \<in> block (b + 2 ^ k) k"
    by (simp_all add: in_block)
  consider "Suc k \<le> j" | "Suc k \<le> j'" | "j = k" "j' = k" using r(2) r'(2) by linarith
  then show ?case
  proof cases
    case 1
    then show ?thesis using up [OF r(1) _ b(1)] r(3) b(2) by blast
  next
    case 2
    then show ?thesis using up [OF r'(1) _ b(3)] r'(3) b(4) by blast
  next
    case 3
    have "r = b" "r' = b + 2 ^ k"
      using aligned_block_eq [OF d al [OF r(1), unfolded 3] b(2)] r(3) b(2)
        aligned_block_eq [OF d' al [OF r'(1), unfolded 3] b(4)] r'(3) b(4) 3 by blast+
    moreover have "buddy b k = b + 2 ^ k" using buddy_cases [OF d k(3)] Suc.prems(2) by simp
    ultimately have "buddy b k \<in> set (L k)" "b \<in> set (L k)" using r(1) r'(1) 3 by simp_all
    then show ?thesis using co k(2) by (simp add: coalesced_def)
  qed
qed

lemma find_upt_Some:
  "find P [i..<n] = Some a \<Longrightarrow> i \<le> a \<and> a < n \<and> P a \<and> (\<forall>j. i \<le> j \<and> j < a \<longrightarrow> \<not> P j)"
proof -
  assume "find P [i..<n] = Some a"
  then obtain l where l: "l < n - i" "P (i + l)" "a = i + l" "\<forall>j<l. \<not> P (i + j)"
    by (auto simp: find_Some_iff)
  have "\<not> P j" if "i \<le> j" "j < a" for j
    using l(4) [rule_format, of "j - i"] that l(3) by simp
  then show ?thesis using l by auto
qed

lemma head_nonempty: "fl_inv m fl L \<Longrightarrow> k < ORDERS \<Longrightarrow> fl_head fl k \<noteq> None \<longleftrightarrow> L k \<noteq> []"
  using fl_invD(5) by simp

lemma coalesced_remove1: "coalesced L \<Longrightarrow> coalesced (L(k := remove1 p (L k)))"
  unfolding coalesced_def by (auto dest: notin_set_remove1)

lemma coalesced_split_lists:
  assumes co: "coalesced L" and p: "2 ^ a dvd p" and empty: "\<And>j. order \<le> j \<Longrightarrow> j < a \<Longrightarrow> L j = []"
  shows "coalesced (split_lists L p order a)"
  unfolding coalesced_def
proof (intro allI impI ballI)
  fix k q assume k: "k < MAX_ORDER" and q: "q \<in> set (split_lists L p order a k)"
  show "buddy q k \<notin> set (split_lists L p order a k)"
  proof (cases "order \<le> k \<and> k < a")
    case True
    then have s: "set (split_lists L p order a k) = {p + 2 ^ k}"
      using empty by (simp add: split_lists_def)
    have "2 ^ k dvd p" using True p power_le_dvd [of 2 a p k] by simp
    then show ?thesis
      using s q k buddy_neq [of k "p + 2 ^ k"] by (simp add: MAX_ORDER_def)
  next
    case False
    then show ?thesis using co q k by (auto simp: split_lists_def coalesced_def)
  qed
qed

lemma free_blocks_aligned: "frames_core m pg fr L A H \<Longrightarrow> (p, k) \<in> free_blocks L \<Longrightarrow> 2 ^ k dvd p"
  using frames_coreD(3) [of m pg fr L A H "(p, k)"] block_okD(2) by blast

text \<open>\<open>alloc\<close> finds no list: nothing changes, and no aligned run of that many pages is free.\<close>

lemma alloc_no_list:
  assumes inv: "frames_inv m pg fr L A" and none: "\<And>k. order \<le> k \<Longrightarrow> k < ORDERS \<Longrightarrow> L k = []"
  shows "frames_alloc m pg fr order = Inr (m, fr, None)"
    and "order \<le> MAX_ORDER \<Longrightarrow> 2 ^ order dvd b \<Longrightarrow> \<not> block b order \<subseteq> free_pages L"
proof -
  have c: "frames_core m pg fr L A {}" and co: "coalesced L" using inv by (simp_all add: frames_inv_def)
  have "find (\<lambda>k. fl_head (fr_lists fr) k \<noteq> None) [order..<MAX_ORDER + 1] = None"
    using none fl_invD(5) [OF frames_coreD(2) [OF c]] by (auto simp: find_None_iff ORDERS_def)
  then show "frames_alloc m pg fr order = Inr (m, fr, None)" by (simp add: frames_alloc_def)
  show "\<not> block b order \<subseteq> free_pages L" if o: "order \<le> MAX_ORDER" "2 ^ order dvd b"
  proof
    assume "block b order \<subseteq> free_pages L"
    then obtain r j where "(r, j) \<in> free_blocks L" "order \<le> j"
      using coalesced_complete [OF co free_blocks_aligned [OF c] o] by blast
    then show False using none [of j] by simp
  qed
qed

lemma alloc_list:
  assumes inv: "frames_inv m pg fr L A" and k: "order \<le> k" "k < ORDERS" "L k \<noteq> []"
  obtains m' fr' L' p where "frames_alloc m pg fr order = Inr (m', fr', Some p)"
    and "frames_inv m' pg fr' L' (insert (p, order) A)" and "(p, order) \<notin> A"
    and "block p order \<subseteq> free_pages L" and "free_pages L' = free_pages L - block p order"
    and "same_on (- touched pg (free_pages L)) m m'" and "fr_total fr' = fr_total fr"
    and "entry_at pg m' p = Buddy False (of_nat order)"
proof -
  have c: "frames_core m pg fr L A {}" and co: "coalesced L" using inv by (simp_all add: frames_inv_def)
  note fi = frames_coreD(2) [OF c]
  let ?P = "\<lambda>k. fl_head (fr_lists fr) k \<noteq> None"
  have P: "?P j \<longleftrightarrow> L j \<noteq> []" if "j < ORDERS" for j using head_nonempty [OF fi that] .
  obtain a where a: "find ?P [order..<MAX_ORDER + 1] = Some a"
  proof (cases "find ?P [order..<MAX_ORDER + 1]")
    case None
    moreover have "k \<in> set [order..<MAX_ORDER + 1]" using k by (auto simp: ORDERS_def)
    ultimately have "\<not> ?P k" by (simp only: find_None_iff_all) blast
    then show ?thesis using k(3) P [OF k(2)] by blast
  qed
  note a' = find_upt_Some [OF a]
  have aO: "a < ORDERS" using a' by (simp add: ORDERS_def)
  obtain p ps where ps: "L a = p # ps" using a' P [OF aO] by (cases "L a") auto
  have empty: "L j = []" if "order \<le> j" "j < a" for j using a' that P [of j] aO by auto
  obtain m1 fl where u: "fl_unlink m (fr_lists fr) p a = (m1, fl)" by fastforce
  have "fl_head (fr_lists fr) a = Some p" using fl_invD(5) [OF fi aO] ps by simp
  then have pop: "fl_pop m (fr_lists fr) a = (m1, fl, Some p)" using u by (simp add: fl_pop_def)
  have pin: "p \<in> set (L a)" using ps by simp
  let ?L1 = "L(a := remove1 p (L a))" and ?fr1 = "fr\<lparr>fr_lists := fl\<rparr>"
  note c1 = core_unlink [OF c aO pin u]
  have "order \<le> a" using a' by simp
  then obtain m2 fr2 where split: "frames_split m1 pg ?fr1 p a order = Inr (m2, fr2)"
    and c2: "frames_core m2 pg fr2 (split_lists ?L1 p order a) A (insert (p, order) {})"
    and s2: "same_on (- touched pg (free_pages ?L1 \<union> block p a)) m1 m2"
    and t2: "fr_total fr2 = fr_total ?fr1"
    and fp2: "free_pages (split_lists ?L1 p order a) \<union> block p order = free_pages ?L1 \<union> block p a"
    using core_split_loop [OF c1(1)] by blast
  have fpL: "free_pages ?L1 \<union> block p a = free_pages L"
    using fl_invD(2) [OF fi aO] aO pin by (rule free_pages_remove)
  let ?e = "Buddy False (of_nat order)"
  have ok: "block_ok pg (p, order)" using core_held(2) [OF c2] by simp
  note okp = block_okD [OF ok]
  have owned: "owned_entry ?e order" by simp
  note c3 = core_set_entry [OF c2 _ order_entry_fits [OF okp(1)] owned]
  let ?m3 = "set_entry pg m2 p ?e" and ?L' = "split_lists ?L1 p order a"
  have "coalesced ?L'"
  proof (rule coalesced_split_lists)
    show "coalesced ?L1" using co by (rule coalesced_remove1)
    show "2 ^ a dvd p" using free_blocks_aligned [OF c, of p a] aO pin by simp
    show "?L1 j = []" if "order \<le> j" "j < a" for j using empty [OF that] that by simp
  qed
  then have "frames_inv ?m3 pg fr2 ?L' (insert (p, order) A)"
    using c3(1) by (simp add: frames_inv_def)
  moreover have "frames_alloc m pg fr order = Inr (?m3, fr2, Some p)"
    using a pop split frames_coreD(1) [OF c] okp(3)
    by (simp add: frames_alloc_def pages_write_covered)
  moreover have "(p, order) \<notin> A" using frames_coreD(7) [OF c2] by blast
  moreover have "block p order \<subseteq> free_pages L" using fp2 fpL by blast
  moreover have "free_pages ?L' = free_pages L - block p order"
  proof -
    have "disjoint_blocks (insert (p, order) (free_blocks ?L'))"
      using frames_coreD(4) [OF c2] by (rule disjoint_blocks_subset) blast
    moreover have "(p, order) \<notin> free_blocks ?L'" using frames_coreD(6) [OF c2] by blast
    ultimately have "block p order \<inter> free_pages ?L' = {}"
      unfolding free_pages_def using disjoint_blocks_pages [of "(p, order)" "free_blocks ?L'"] by simp
    then show ?thesis using fp2 fpL by blast
  qed
  moreover have "same_on (- touched pg (free_pages L)) m ?m3"
  proof -
    have "same_on (- touched pg (free_pages L)) m m1"
      by (rule same_on_subset [OF c1(2)]) (auto simp: touched_def)
    moreover have "same_on (- touched pg (free_pages L)) m1 m2" using s2 unfolding fpL .
    moreover have "same_on (- touched pg (free_pages L)) m2 ?m3"
      by (rule set_entry_touched) (use fp2 fpL in \<open>auto simp: set_eq_iff\<close>)
    ultimately show ?thesis by (blast intro: same_on_trans)
  qed
  moreover have "entry_at pg ?m3 p = ?e"
    using okp(3) order_entry_fits [OF okp(1)] by (rule entries.rd_wr_same)
  ultimately show thesis using that t2 by simp
qed

subsection \<open>\<open>free\<close>\<close>

text \<open>
  The metadata of the buddy of a held block tells whether the buddy is free at that order: interior
  pages of larger blocks, whose entries are stale, cannot be the buddy of a held block.
\<close>

lemma buddy_free_entry:
  assumes c: "frames_core m pg fr L A {(p, k)}" and k: "k < MAX_ORDER"
  shows "buddy p k \<in> covered pg \<and> entry_at pg m (buddy p k) = Buddy True (of_nat k) \<longleftrightarrow>
    buddy p k \<in> set (L k)"
proof
  let ?b = "buddy p k"
  have ok: "block_ok pg (p, k)" using core_held(2) [OF c] by simp
  have k64: "k < 64" and kO: "k < ORDERS" using k by (simp_all add: MAX_ORDER_def ORDERS_eq)
  note bm = buddy_merge [OF block_okD(2) [OF ok] k64]
  assume b: "?b \<in> covered pg \<and> entry_at pg m ?b = Buddy True (of_nat k)"
  then have "?b \<in> pages_in (free_blocks L \<union> A \<union> {(p, k)})"
    using frames_coreD(10) [OF c, of ?b] by auto
  moreover have "?b \<notin> block p k" using bm(3) block_nonempty [of ?b k] by blast
  ultimately obtain q j where q: "(q, j) \<in> free_blocks L \<union> A" "?b \<in> block q j"
    by (auto simp: in_pages_in)
  have okq: "block_ok pg (q, j)" using frames_coreD(3) [OF c] q(1) by blast
  have neq: "(q, j) \<noteq> (p, k)" using q(1) frames_coreD(6,7) [OF c] by blast
  have "j \<le> k"
  proof (rule ccontr)
    assume "\<not> j \<le> k"
    then have j: "Suc k \<le> j" by simp
    have "block (min p ?b) (Suc k) \<subseteq> block q j"
      using aligned_block_nested [OF bm(1) block_okD(2) [OF okq] j _ q(2)] bm(2) block_nonempty [of ?b k]
      by blast
    then have "p \<in> block q j" using bm(2) block_nonempty [of p k] by blast
    moreover have "(q, j) \<in> free_blocks L \<union> A \<union> {(p, k)}" using q(1) by blast
    ultimately have "(q, j) = (p, k)"
      by (intro disjoint_blocksD [OF frames_coreD(4) [OF c], where x = p]) simp_all
    then show False using neq by blast
  qed
  then have "block q j \<subseteq> block ?b k"
    using aligned_block_nested [OF block_okD(2) [OF okq] bm(4) _ q(2)] by simp
  then have "q \<in> block ?b k" using block_nonempty [of q j] by blast
  then have "?b \<le> q" by (simp add: in_block)
  then have eq: "q = ?b" using q(2) by (simp add: in_block)
  have "(q, j) \<in> free_blocks L"
  proof (rule ccontr)
    assume "(q, j) \<notin> free_blocks L"
    then have "owned_entry (entry_at pg m q) j" using q(1) frames_coreD(9) [OF c, of "(q, j)"] by auto
    then show False using b eq by simp
  qed
  moreover from this have "(of_nat j :: u8) = of_nat k"
    using frames_coreD(8) [OF c, of "(q, j)"] b eq by simp
  then have "j = k"
    using block_okD(1) [OF okq] kO by (simp add: ORDERS_eq word_unat_eq_iff unat_of_nat)
  ultimately show "?b \<in> set (L k)" using eq by simp
next
  assume "buddy p k \<in> set (L k)"
  then have "(buddy p k, k) \<in> free_blocks L" using k by (simp add: ORDERS_def)
  then show "buddy p k \<in> covered pg \<and> entry_at pg m (buddy p k) = Buddy True (of_nat k)"
    using frames_coreD(3,8) [OF c, of "(buddy p k, k)"] block_okD(3) [of pg "buddy p k" k] by simp
qed

lemma core_merge_loop:
  assumes "frames_core m pg fr L A {(p, k)}" and "coalesced L"
  shows "\<exists>m' fr' q j L'. frames_merge m pg fr p k = Inr (m', fr', q, j)
    \<and> frames_core m' pg fr' L' A {(q, j)} \<and> coalesced L'
    \<and> (j < MAX_ORDER \<longrightarrow> buddy q j \<notin> set (L' j))
    \<and> same_on (- touched pg (free_pages L \<union> block p k)) m m'
    \<and> fr_total fr' = fr_total fr
    \<and> free_pages L' \<union> block q j = free_pages L \<union> block p k"
  using assms
proof (induction "MAX_ORDER - k" arbitrary: m fr L p k)
  case 0
  then have "\<not> k < MAX_ORDER" by simp
  then show ?case using "0.prems" by (subst frames_merge.simps) auto
next
  case (Suc n)
  then have k: "k < MAX_ORDER" and kO: "k < ORDERS" by (simp_all add: ORDERS_def)
  let ?b = "buddy p k"
  note pg = frames_coreD(1) [OF Suc.prems(1)] and fi = frames_coreD(2) [OF Suc.prems(1)]
  note iff = buddy_free_entry [OF Suc.prems(1) k]
  show ?case
  proof (cases "?b \<in> set (L k)")
    case False
    then have "frames_merge m pg fr p k = Inr (m, fr, p, k)"
      using k pg iff
      by (subst frames_merge.simps)
        (auto simp: Let_def covers_covered pages_read_covered split: entry.splits)
    then show ?thesis using Suc.prems False by auto
  next
    case True
    obtain m1 fl where u: "fl_unlink m (fr_lists fr) ?b k = (m1, fl)" by fastforce
    let ?fr1 = "fr\<lparr>fr_lists := fl\<rparr>" and ?L1 = "L(k := remove1 ?b (L k))"
    note c1 = core_unlink [OF Suc.prems(1) kO True u]
    have bH: "(?b, k) \<notin> {(p, k)}"
      using frames_coreD(6) [OF Suc.prems(1)] True kO by auto
    then have c1': "frames_core m1 pg ?fr1 ?L1 A (insert (p, k) (insert (?b, k) {}))"
      using c1(1) by (simp add: insert_commute)
    note c2 = core_join [OF c1' _ _ k]
    have step: "frames_merge m pg fr p k = frames_merge m1 pg ?fr1 (min p ?b) (Suc k)"
      using k pg iff True u
      by (subst frames_merge.simps) (auto simp: Let_def covers_covered pages_read_covered)
    have "2 ^ k dvd p" using core_held(2) [OF Suc.prems(1)] block_okD(2) by blast
    then have "block p k \<union> block ?b k = block (min p ?b) (Suc k)"
      using buddy_merge(2) [of k p] k by (simp add: MAX_ORDER_def)
    moreover have "free_pages ?L1 \<union> block ?b k = free_pages L"
      using fl_invD(2) [OF fi kO] kO True by (rule free_pages_remove)
    ultimately have all: "free_pages ?L1 \<union> block (min p ?b) (Suc k) = free_pages L \<union> block p k"
      by blast
    have "same_on (- touched pg (free_pages L \<union> block p k)) m m1"
      by (rule same_on_subset [OF c1(2)]) (auto simp: touched_def)
    moreover obtain m' fr' q j L' where
      "frames_merge m1 pg ?fr1 (min p ?b) (Suc k) = Inr (m', fr', q, j)"
      "frames_core m' pg fr' L' A {(q, j)}" "coalesced L'"
      "j < MAX_ORDER \<longrightarrow> buddy q j \<notin> set (L' j)"
      "same_on (- touched pg (free_pages ?L1 \<union> block (min p ?b) (Suc k))) m1 m'"
      "fr_total fr' = fr_total ?fr1"
      "free_pages ?L1 \<union> block (min p ?b) (Suc k) = free_pages L' \<union> block q j"
      using Suc.hyps(1) [of "Suc k" m1 ?fr1 ?L1 "min p ?b"] Suc.hyps(2) c2(1) coalesced_remove1 [OF Suc.prems(2)]
      by fastforce
    ultimately show ?thesis
      using step all by (intro exI [of _ m'] exI [of _ fr'] exI [of _ q] exI [of _ j] exI [of _ L'])
        (auto intro: same_on_trans)
  qed
qed

lemma coalesced_push:
  assumes co: "coalesced L" and b: "k < MAX_ORDER \<Longrightarrow> buddy p k \<notin> set (L k)"
    and al: "2 ^ k dvd p" "\<And>q. q \<in> set (L k) \<Longrightarrow> 2 ^ k dvd q"
  shows "coalesced (L(k := p # L k))"
proof -
  have "buddy q k \<noteq> p" if "k < MAX_ORDER" "q \<in> set (L k)" for q
    using b that buddy_buddy [of k q] al(2) by (auto simp: MAX_ORDER_def)
  moreover have "k < MAX_ORDER \<Longrightarrow> buddy p k \<noteq> p"
    using al(1) buddy_neq [of k p] by (simp add: MAX_ORDER_def)
  ultimately show ?thesis using co b by (auto simp: coalesced_def)
qed

lemma free_owned:
  assumes inv: "frames_inv m pg fr L A" and p: "(p, k) \<in> A"
  obtains m' fr' L' where "frames_free m pg fr p = Inr (m', fr')"
    and "frames_inv m' pg fr' L' (A - {(p, k)})" and "free_pages L' = free_pages L \<union> block p k"
    and "block p k \<inter> free_pages L = {}"
    and "same_on (- touched pg (free_pages L')) m m'" and "fr_total fr' = fr_total fr"
proof -
  have c: "frames_core m pg fr L A {}" and co: "coalesced L" using inv by (simp_all add: frames_inv_def)
  have ok: "block_ok pg (p, k)" using frames_coreD(3) [OF c, of "(p, k)"] p by simp
  note okp = block_okD [OF ok]
  let ?A = "A - {(p, k)}"
  have "frames_core m pg fr L ?A (insert (p, k) {})"
    using c p by (intro core_disown) (auto simp: insert_absorb)
  then have c1: "frames_core m pg fr L ?A {(p, k)}" .
  obtain m1 fr1 q j L1 where merge: "frames_merge m pg fr p k = Inr (m1, fr1, q, j)"
    and c2: "frames_core m1 pg fr1 L1 ?A {(q, j)}" and co2: "coalesced L1"
    and nb: "j < MAX_ORDER \<longrightarrow> buddy q j \<notin> set (L1 j)"
    and s: "same_on (- touched pg (free_pages L \<union> block p k)) m m1" and t: "fr_total fr1 = fr_total fr"
    and fp: "free_pages L1 \<union> block q j = free_pages L \<union> block p k"
    using core_merge_loop [OF c1 co] by blast
  obtain m2 fr2 where push: "frames_push m1 pg fr1 q j = Inr (m2, fr2)"
    and c3: "frames_core m2 pg fr2 (L1(j := q # L1 j)) ?A {}"
    and s2: "same_on (- touched pg (free_pages L1 \<union> block q j)) m1 m2"
    and t2: "fr_total fr2 = fr_total fr1"
    using core_push [OF c2] by blast
  have okq: "block_ok pg (q, j)" using core_held(2) [OF c2] by simp
  have "coalesced (L1(j := q # L1 j))"
  proof (rule coalesced_push [OF co2])
    show "2 ^ j dvd x" if "x \<in> set (L1 j)" for x
      using free_blocks_aligned [OF c2, of x j] that block_okD(1) [OF okq] by simp
  qed (use nb block_okD(2) [OF okq] in auto)
  then have "frames_inv m2 pg fr2 (L1(j := q # L1 j)) ?A" using c3 by (simp add: frames_inv_def)
  moreover have "free_pages (L1(j := q # L1 j)) = free_pages L \<union> block p k"
    using fp block_okD(1) [OF okq] by (simp add: free_pages_push)
  moreover have "frames_free m pg fr p = Inr (m2, fr2)"
  proof -
    have "owned_entry (entry_at pg m p) k" using frames_coreD(9) [OF c, of "(p, k)"] p by simp
    moreover have "unat (of_nat k :: u8) = k" using okp(1) by (simp add: ORDERS_eq unat_of_nat)
    ultimately show ?thesis
      using merge push frames_coreD(1) [OF c] okp(3)
      by (cases "entry_at pg m p") (auto simp: frames_free_def pages_read_covered)
  qed
  moreover have "block p k \<inter> free_pages L = {}"
  proof -
    have "disjoint_blocks (insert (p, k) (free_blocks L))"
      using frames_coreD(4) [OF c1] by (rule disjoint_blocks_subset) blast
    moreover have "(p, k) \<notin> free_blocks L" using frames_coreD(6) [OF c1] by blast
    ultimately show ?thesis
      unfolding free_pages_def using disjoint_blocks_pages [of "(p, k)" "free_blocks L"] by simp
  qed
  ultimately show thesis
    using that same_on_trans [OF s s2 [unfolded fp]] t t2 by simp
qed

subsection \<open>\<open>seed\<close>\<close>

lemma core_hold:
  assumes c: "frames_core m pg fr L A H" and ok: "block_ok pg b"
    and away: "block (fst b) (snd b) \<inter> pages_in (free_blocks L \<union> A \<union> H) = {}"
  shows "frames_core m pg fr L A (insert b H)" and "b \<notin> H"
proof -
  have notin: "b \<notin> free_blocks L \<union> A \<union> H"
    using away unfolding pages_in_def using block_nonempty [of "fst b" "snd b"] by blast
  then show "b \<notin> H" by blast
  have d: "disjoint_blocks (insert b (free_blocks L \<union> A \<union> H))"
    using frames_coreD(4) [OF c] away by (rule disjoint_blocks_insertI)
  have un: "free_blocks L \<union> A \<union> insert b H = insert b (free_blocks L \<union> A \<union> H)" by blast
  show "frames_core m pg fr L A (insert b H)"
    using c ok d notin unfolding frames_core_def un by auto
qed

text \<open>
  The blocks of a seeded list are as large as they can be: a block whose doubled size would still be
  aligned does not fit in the pages \<open>U\<close> being seeded.
\<close>

definition maximal :: "pfn set \<Rightarrow> (nat \<Rightarrow> pfn list) \<Rightarrow> bool" where
  "maximal U L \<longleftrightarrow> (\<forall>(q, k) \<in> free_blocks L. k < MAX_ORDER \<longrightarrow> 2 ^ Suc k dvd q \<longrightarrow> \<not> block q (Suc k) \<subseteq> U)"

lemma free_blocks_pages: "(p, k) \<in> free_blocks L \<Longrightarrow> block p k \<subseteq> free_pages L"
  unfolding free_pages_def in_pages_in subset_iff by blast

lemma maximal_coalesced:
  assumes m: "maximal U L" and sub: "free_pages L \<subseteq> U" and al: "\<And>p k. (p, k) \<in> free_blocks L \<Longrightarrow> 2 ^ k dvd p"
  shows "coalesced L"
  unfolding coalesced_def
proof (intro allI impI ballI notI)
  fix k p assume k: "k < MAX_ORDER" and p: "p \<in> set (L k)" and b: "buddy p k \<in> set (L k)"
  then have fb: "(p, k) \<in> free_blocks L" "(buddy p k, k) \<in> free_blocks L" by (simp_all add: ORDERS_def)
  have k64: "k < 64" using k by (simp add: MAX_ORDER_def)
  note bm = buddy_merge [OF al [OF fb(1)] k64]
  have "block p k \<subseteq> free_pages L" "block (buddy p k) k \<subseteq> free_pages L"
    using fb by (simp_all only: free_blocks_pages)
  then have "block (min p (buddy p k)) (Suc k) \<subseteq> U" using sub bm(2) by blast
  moreover have "(min p (buddy p k), k) \<in> free_blocks L" using fb by (simp add: min_def)
  ultimately show False using m k bm(1) by (auto simp: maximal_def)
qed

lemma maximal_push:
  "maximal U L \<Longrightarrow> k < ORDERS \<Longrightarrow> (k < MAX_ORDER \<Longrightarrow> 2 ^ Suc k dvd q \<Longrightarrow> \<not> block q (Suc k) \<subseteq> U) \<Longrightarrow>
    maximal U (L(k := q # L k))"
  unfolding maximal_def free_blocks_push by auto

text \<open>The order the seeding loop picks: aligned, inside the run, and not to be doubled inside it.\<close>

lemma seed_order:
  fixes blk fin :: nat
  assumes "blk < fin"
  defines "k \<equiv> min (min MAX_ORDER (alignment_order blk)) (log2_floor (fin - blk))"
  shows "k < ORDERS" and "2 ^ k dvd blk" and "blk + 2 ^ k \<le> fin"
    and "k < MAX_ORDER \<Longrightarrow> 2 ^ Suc k dvd blk \<Longrightarrow> fin \<in> block blk (Suc k)"
proof -
  show "k < ORDERS" by (simp add: k_def ORDERS_def)
  show "2 ^ k dvd blk" by (rule trailing_zeros_dvd) (simp add: k_def alignment_order_def)
  have fit: "2 ^ j \<le> fin - blk \<longleftrightarrow> j \<le> log2_floor (fin - blk)" for j
    using assms(1) by (intro log2_floor_le_iff) simp
  have "2 ^ k \<le> fin - blk" unfolding fit by (simp add: k_def)
  then show "blk + 2 ^ k \<le> fin" using assms(1) by simp
  show "fin \<in> block blk (Suc k)" if "k < MAX_ORDER" "2 ^ Suc k dvd blk"
  proof -
    have "Suc k \<le> alignment_order blk"
      unfolding alignment_order_def using that by (intro trailing_zeros_ge) (auto simp: MAX_ORDER_def)
    then have "k = log2_floor (fin - blk)" using that(1) by (simp add: k_def min_def split: if_splits)
    then have "\<not> 2 ^ Suc k \<le> fin - blk" unfolding fit by simp
    then show ?thesis using assms(1) by (simp add: in_block)
  qed
qed

lemma seed_run_core:
  assumes "frames_core m pg fr L {} {}" and "{blk..<fin} \<subseteq> covered pg"
    and "bytes_of {blk..<fin} \<inter> meta_bytes pg = {}" and "free_pages L \<inter> {blk..<fin} = {}"
    and "fin - blk \<le> fuel" and "maximal U L" and "fin \<notin> U"
  shows "\<exists>m' fr' L'. seed_run fuel m pg fr blk fin = Inr (m', fr')
    \<and> frames_core m' pg fr' L' {} {} \<and> free_pages L' = free_pages L \<union> {blk..<fin}
    \<and> maximal U L' \<and> same_on (- touched pg (free_pages L \<union> {blk..<fin})) m m' \<and> fr_total fr' = fr_total fr"
  using assms
proof (induction fuel arbitrary: m fr L blk)
  case 0
  then show ?case by (subst seed_run.simps) auto
next
  case (Suc fuel)
  show ?case
  proof (cases "blk < fin")
    case False
    then show ?thesis using Suc.prems by (subst seed_run.simps) auto
  next
    case True
    define k where "k = min (min MAX_ORDER (alignment_order blk)) (log2_floor (fin - blk))"
    note so = seed_order [OF True, folded k_def]
    have sub: "block blk k \<subseteq> {blk..<fin}" using so(3) by (auto simp: in_block)
    then have bsub: "bytes_of (block blk k) \<subseteq> bytes_of {blk..<fin}" by auto
    have "block_ok pg (blk, k)"
      using so(1,2) sub bsub Suc.prems(2,3) unfolding block_ok_def fst_conv snd_conv by blast
    moreover have "block blk k \<inter> pages_in (free_blocks L \<union> {} \<union> {}) = {}"
      using Suc.prems(4) sub by (auto simp: free_pages_def)
    ultimately have c1: "frames_core m pg fr L {} (insert (blk, k) {})"
      using core_hold(1) [OF Suc.prems(1), of "(blk, k)"] by simp
    obtain m1 fr1 where push: "frames_push m pg fr blk k = Inr (m1, fr1)"
      and c2: "frames_core m1 pg fr1 (L(k := blk # L k)) {} {}"
      and s1: "same_on (- touched pg (free_pages L \<union> block blk k)) m m1"
      and t1: "fr_total fr1 = fr_total fr"
      using core_push [OF c1] by blast
    let ?L1 = "L(k := blk # L k)"
    have fp: "free_pages ?L1 = free_pages L \<union> block blk k" using so(1) by (rule free_pages_push)
    have cut: "{blk..<fin} = block blk k \<union> {blk + 2 ^ k..<fin}"
      using so(3) by (auto simp: in_block)
    have max1: "maximal U ?L1"
      using Suc.prems(6) so(1)
    proof (rule maximal_push)
      show "\<not> block blk (Suc k) \<subseteq> U" if "k < MAX_ORDER" "2 ^ Suc k dvd blk"
        using so(4) [OF that] Suc.prems(7) by blast
    qed
    have "blk \<in> covered pg" using Suc.prems(2) True by auto
    then have "blk < pfn_limit" using covered_limit frames_coreD(1) [OF c1] by blast
    moreover have "(2::nat) ^ k \<le> 2 ^ 10"
      using so(1) by (intro power_increasing) (simp_all add: ORDERS_eq)
    ultimately have off: "pfn_offset blk (usize_shl 1 k) = blk + 2 ^ k"
      using usize_shl_order [OF so(1)] by (simp add: pfn_offset_small)
    have step: "seed_run (Suc fuel) m pg fr blk fin = seed_run fuel m1 pg fr1 (blk + 2 ^ k) fin"
      using True push off
      by (subst seed_run.simps) (simp add: ilog2_def pages_until_small Let_def k_def)
    have "\<exists>m' fr' L'. seed_run fuel m1 pg fr1 (blk + 2 ^ k) fin = Inr (m', fr')
      \<and> frames_core m' pg fr' L' {} {} \<and> free_pages L' = free_pages ?L1 \<union> {blk + 2 ^ k..<fin}
      \<and> maximal U L' \<and> same_on (- touched pg (free_pages ?L1 \<union> {blk + 2 ^ k..<fin})) m1 m'
      \<and> fr_total fr' = fr_total fr1"
    proof (rule Suc.IH [OF c2 _ _ _ _ max1 Suc.prems(7)])
      show "{blk + 2 ^ k..<fin} \<subseteq> covered pg" using Suc.prems(2) cut by blast
      have "bytes_of {blk + 2 ^ k..<fin} \<subseteq> bytes_of {blk..<fin}" by auto
      then show "bytes_of {blk + 2 ^ k..<fin} \<inter> meta_bytes pg = {}" using Suc.prems(3) by blast
      show "free_pages ?L1 \<inter> {blk + 2 ^ k..<fin} = {}"
        unfolding fp using Suc.prems(4) by (auto simp: in_block)
      have "1 \<le> (2::nat) ^ k" by simp
      then show "fin - (blk + 2 ^ k) \<le> fuel" using Suc.prems(5) True by linarith
    qed
    moreover have all: "free_pages ?L1 \<union> {blk + 2 ^ k..<fin} = free_pages L \<union> {blk..<fin}"
      unfolding fp cut by blast
    moreover have "same_on (- touched pg (free_pages L \<union> {blk..<fin})) m m1"
      by (rule same_on_subset [OF s1 touched_mono]) (use sub in blast)
    ultimately show ?thesis using step t1 unfolding all by (metis same_on_trans)
  qed
qed

lemma separated_end:
  assumes "separated rs" "r \<in> set rs" "q \<in> set rs"
  shows "pr_end r \<notin> pr_set q"
  using assms
proof (induction rs)
  case (Cons s rs)
  note tl = separated_tl [OF Cons.prems(1)]
  have "pr_end s < pr_start x" if "x \<in> set rs" for x
    using separated_hd_less [OF Cons.prems(1) that] .
  moreover have "pr_start x < pr_end x" if "x \<in> set (s # rs)" for x
    using separated_nonempty [OF Cons.prems(1) that] .
  ultimately show ?case
    using Cons.prems(2,3) Cons.IH [OF tl] by (fastforce simp: in_pr_set)
qed simp

lemma separated_disjoint: "separated (r # rs) \<Longrightarrow> q \<in> set rs \<Longrightarrow> pr_set r \<inter> pr_set q = {}"
  by (force simp: in_pr_set dest: separated_hd_less)

lemma pr_set_eq: "pr_set r = {pr_start r..<pr_end r}"
  by (auto simp: in_pr_set)

lemma seed_runs_core:
  assumes "frames_core m pg fr L {} {}" and "separated rs"
    and "\<And>r. r \<in> set rs \<Longrightarrow> pr_set r \<subseteq> covered pg"
    and "\<And>r. r \<in> set rs \<Longrightarrow> bytes_of (pr_set r) \<inter> meta_bytes pg = {}"
    and "\<And>r. r \<in> set rs \<Longrightarrow> free_pages L \<inter> pr_set r = {}"
    and "maximal U L" and "\<And>r. r \<in> set rs \<Longrightarrow> pr_end r \<notin> U"
  shows "\<exists>m' fr' L'. seed_runs m pg fr rs = Inr (m', fr') \<and> frames_core m' pg fr' L' {} {}
    \<and> free_pages L' = free_pages L \<union> (\<Union>r \<in> set rs. pr_set r) \<and> maximal U L'
    \<and> same_on (- touched pg (free_pages L \<union> (\<Union>r \<in> set rs. pr_set r))) m m'
    \<and> fr_total fr' = fr_total fr"
  using assms
proof (induction rs arbitrary: m fr L)
  case Nil
  then show ?case by auto
next
  case (Cons r rs)
  have r: "r \<in> set (r # rs)" by simp
  have "pr_start r < pr_end r" using separated_nonempty [OF Cons.prems(2) r] .
  then have fuel: "pr_end r - pr_start r \<le> pr_pages r" by (simp add: pr_pages_small)
  obtain m1 fr1 L1 where run: "seed_run (pr_pages r) m pg fr (pr_start r) (pr_end r) = Inr (m1, fr1)"
    and c1: "frames_core m1 pg fr1 L1 {} {}" and fp: "free_pages L1 = free_pages L \<union> pr_set r"
    and m1: "maximal U L1" and s1: "same_on (- touched pg (free_pages L \<union> pr_set r)) m m1"
    and t1: "fr_total fr1 = fr_total fr"
    using seed_run_core [OF Cons.prems(1) _ _ _ fuel Cons.prems(6) Cons.prems(7) [OF r]]
      Cons.prems(3-5) [OF r] unfolding pr_set_eq by blast
  have "\<exists>m' fr' L'. seed_runs m1 pg fr1 rs = Inr (m', fr') \<and> frames_core m' pg fr' L' {} {}
    \<and> free_pages L' = free_pages L1 \<union> (\<Union>r \<in> set rs. pr_set r) \<and> maximal U L'
    \<and> same_on (- touched pg (free_pages L1 \<union> (\<Union>r \<in> set rs. pr_set r))) m1 m'
    \<and> fr_total fr' = fr_total fr1"
  proof (rule Cons.IH [OF c1 separated_tl [OF Cons.prems(2)] _ _ _ m1])
    show "free_pages L1 \<inter> pr_set q = {}" if "q \<in> set rs" for q
      using Cons.prems(5) [of q] separated_disjoint [OF Cons.prems(2) that] that fp by auto
  qed (use Cons.prems(3,4,7) in auto)
  moreover have all: "free_pages L1 \<union> (\<Union>r \<in> set rs. pr_set r) = free_pages L \<union> (\<Union>r \<in> set (r # rs). pr_set r)"
    unfolding fp by auto
  moreover have "same_on (- touched pg (free_pages L \<union> (\<Union>r \<in> set (r # rs). pr_set r))) m m1"
    by (rule same_on_subset [OF s1 touched_mono]) auto
  ultimately show ?case using run t1 unfolding all by (fastforce intro: same_on_trans)
qed

text \<open>
  \<open>Frames::new\<close> over a fresh table: the free pages are exactly the unreserved pages of the map.
\<close>

definition unreserved_set :: "memory_map \<Rightarrow> pfn set" where
  "unreserved_set mm = (\<Union>r \<in> set (unreserved mm). pr_set r)"

lemma frames_core_empty:
  assumes "pages_wf pg" and "\<And>p. p \<in> covered pg \<Longrightarrow> entry_at pg m p = Buddy False 0"
    and "fr_lists fr = free_lists_empty"
  shows "frames_core m pg fr (\<lambda>_. []) {} {}"
  using assms fl_inv_empty by (simp add: frames_core_def free_blocks_def disjoint_blocks_def)

lemma frames_new_ok:
  assumes mm: "map_wf mm" and pg: "pages_wf pg" and cov: "covered pg = arena_pages (mm_arena mm)"
    and zero: "\<And>p. p \<in> covered pg \<Longrightarrow> entry_at pg m p = Buddy False 0"
    and res: "pg_region pg \<in> set (reserved mm)"
    and meta: "meta_bytes pg \<subseteq> {r_base (pg_region pg)..<region_end (pg_region pg)}"
  obtains m' fr L where "frames_new m mm pg = Inr (m', fr)" and "frames_inv m' pg fr L {}"
    and "free_pages L = unreserved_set mm" and "fr_total fr = pg_len pg"
    and "same_on (- touched pg (unreserved_set mm)) m m'"
proof -
  let ?rs = "unreserved mm" and ?fr = "\<lparr>fr_lists = free_lists_empty, fr_total = pg_len pg\<rparr>"
  have sep: "separated ?rs" unfolding unreserved_def by (rule gaps_separated)
  have c0: "frames_core m pg ?fr (\<lambda>_. []) {} {}"
    using pg zero by (intro frames_core_empty) auto
  have f0: "free_pages (\<lambda>_. []) = {}" by (simp add: free_pages_def free_blocks_def)
  have p: "p \<in> covered pg \<and> (\<forall>x \<in> page_bytes p. x \<notin> meta_bytes pg)" if r: "r \<in> set ?rs" "p \<in> pr_set r" for r p
  proof -
    have "\<exists>run \<in> set ?rs. p \<in> pr_set run" using r by blast
    then have "p \<in> arena_pages (mm_arena mm)"
      and free: "\<forall>r \<in> set (reserved mm). \<forall>x \<in> page_bytes p. \<not> (r_base r \<le> x \<and> x < region_end r)"
      unfolding unreserved_pages [OF mm] by blast+
    moreover have "\<forall>x \<in> page_bytes p. x \<notin> meta_bytes pg"
      using free res meta by (fastforce simp: subset_iff)
    ultimately show ?thesis using cov by simp
  qed
  have bytes: "bytes_of (pr_set r) \<inter> meta_bytes pg = {}" if "r \<in> set ?rs" for r
    using p [OF that] by auto
  have "pr_end r \<notin> unreserved_set mm" if "r \<in> set ?rs" for r
    using separated_end [OF sep that] by (auto simp: unreserved_set_def)
  moreover have "maximal (unreserved_set mm) (\<lambda>_. [])" by (simp add: maximal_def free_blocks_def)
  ultimately obtain m' fr' L' where s: "seed_runs m pg ?fr ?rs = Inr (m', fr')"
    and c: "frames_core m' pg fr' L' {} {}" and fp: "free_pages L' = unreserved_set mm"
    and mx: "maximal (unreserved_set mm) L'" and same: "same_on (- touched pg (unreserved_set mm)) m m'"
    and t: "fr_total fr' = pg_len pg"
    using seed_runs_core [OF c0 sep _ bytes, of "unreserved_set mm"] p f0
    unfolding unreserved_set_def by fastforce
  have "coalesced L'"
    using maximal_coalesced [OF mx _ free_blocks_aligned [OF c]] fp by simp
  then show thesis
    using that [of m' fr' L'] s c fp same t by (simp add: frames_new_def frames_seed_def frames_inv_def)
qed

end
