(* ===== verification/SmallMachine.thy ===== *)
theory SmallMachine
  imports FramesCorrect
begin

text \<open>
  A concrete machine for the examples: sixteen pages of memory from address \<open>0x10000\<close>, filled with
  ones, of which a region that starts and ends in the middle of a page is reserved. The examples run
  the boot sequence on it and apply the general theorems to the states it reaches.
\<close>

definition demo_memory :: region where
  "demo_memory = \<lparr>r_base = 65536, r_size = 65536\<rparr>"

definition demo_hole :: region where
  "demo_hole = \<lparr>r_base = 75776, r_size = 4096\<rparr>"

definition demo_table :: region where
  "demo_table = \<lparr>r_base = 65536, r_size = 4096\<rparr>"

definition demo_map :: memory_map where
  "demo_map = \<lparr>mm_arena = demo_memory,
    mm_reserved = (replicate RESERVED region_EMPTY)[0 := demo_hole], mm_len = 1\<rparr>"

definition demo_map' :: memory_map where
  "demo_map' = \<lparr>mm_arena = demo_memory,
    mm_reserved = (replicate RESERVED region_EMPTY)[0 := demo_hole, 1 := demo_table], mm_len = 2\<rparr>"

definition demo_mem :: mem where
  "demo_mem = (\<lambda>_. 255)"

definition demo_pages :: pages where
  "demo_pages = \<lparr>pg_region = demo_table, pg_base = 16, pg_len = 16\<rparr>"

lemmas demo_defs = demo_memory_def demo_hole_def demo_table_def

lemma demo_map_built:
  "memory_map_new demo_memory = Some (demo_map\<lparr>mm_reserved := replicate RESERVED region_EMPTY, mm_len := 0\<rparr>)"
  "reserve (demo_map\<lparr>mm_reserved := replicate RESERVED region_EMPTY, mm_len := 0\<rparr>) demo_hole = Inr demo_map"
  by (simp_all add: memory_map_new_def demo_map_def demo_defs align_up_page align_down_page
      region_end_def usize_add_def div_ceil_def reserve_def RESERVED_def)

lemma demo_map_wf: "map_wf demo_map"
  by (simp add: map_wf_def demo_map_def demo_defs RESERVED_def)

lemma demo_map_sel: "mm_arena demo_map = demo_memory" "mm_arena demo_map' = demo_memory"
  by (simp_all add: demo_map_def demo_map'_def)

lemma demo_reserved: "reserved demo_map = [demo_hole]" "reserved demo_map' = [demo_hole, demo_table]"
  by (simp_all add: reserved_def demo_map_def demo_map'_def RESERVED_def eval_nat_numeral)

lemma demo_reserve: "reserve demo_map demo_table = Inr demo_map'"
  by (simp add: reserve_def demo_map_def demo_map'_def RESERVED_def)

lemma demo_ranges: "ranges demo_memory [demo_hole] = [\<lparr>pr_start = 18, pr_end = 20\<rparr>]"
  by (simp add: ranges_def List.map_filter_def page_range_new_def demo_defs region_end_def usize_add_def
      from_addr_down_def from_addr_up_def div_ceil_def)

lemma demo_unreserved:
  "unreserved demo_map = [\<lparr>pr_start = 16, pr_end = 18\<rparr>, \<lparr>pr_start = 20, pr_end = 32\<rparr>]"
proof -
  let ?g = "gaps_from demo_memory [demo_hole]" and ?s = "gaps_skip demo_memory [demo_hole]"
  have con: "containing demo_memory [demo_hole] p = (if 18 \<le> p \<and> p < 20 then Some 20 else None)" for p
    by (simp add: containing_def demo_ranges pr_contains_def)
  have nxt: "next_base_above demo_memory [demo_hole] p = (if p < 18 then Some 18 else None)" for p
    by (simp add: next_base_above_def demo_ranges)
  have fin: "from_addr_down (region_end demo_memory) = 32"
    by (simp add: demo_defs region_end_def usize_add_def from_addr_down_def)
  have demo_from: "from_addr_up (r_base demo_memory) = 16"
    by (simp add: demo_memory_def from_addr_up_def)
  have sk: "?s 16 = 16" "?s 20 = 20" "?s 32 = 32"
    by (subst gaps_skip.simps, simp add: con)+
  then have sk18: "?s 18 = 20" by (subst gaps_skip.simps) (simp add: con)
  have "?g 32 = []" by (subst gaps_from.simps) (simp add: sk fin)
  then have "?g 18 = [\<lparr>pr_start = 20, pr_end = 32\<rparr>]"
    by (subst gaps_from.simps) (simp add: sk18 fin run_end_def nxt)
  then have "?g 16 = [\<lparr>pr_start = 16, pr_end = 18\<rparr>, \<lparr>pr_start = 20, pr_end = 32\<rparr>]"
    by (subst gaps_from.simps) (simp add: sk fin run_end_def nxt)
  then show ?thesis
    by (simp add: unreserved_def gaps_def demo_reserved demo_map_sel demo_from)
qed

lemma demo_pages_new: "pages_new demo_mem demo_map = (zero_fill demo_mem 65536 4096, demo_map', Some demo_pages)"
proof -
  have "required_size demo_memory = 1"
    by (simp add: required_size_def demo_defs ENTRY_SIZE_def usize_mul_def div_ceil_def)
  moreover have "\<lparr>r_base = to_addr 16, r_size = usize_mul 1 PAGE_SIZE\<rparr> = demo_table"
    by (simp add: demo_table_def to_addr_def usize_mul_def)
  moreover have "r_size demo_memory div PAGE_SIZE = 16" "from_addr_down (r_base demo_memory) = 16"
    "r_base demo_table = 65536" "r_size demo_table = 4096"
    by (simp_all add: demo_defs from_addr_down_def)
  ultimately show ?thesis
    unfolding pages_new_def Let_def demo_map_sel demo_unreserved
    by (simp add: demo_reserve demo_pages_def MAX_PAGES_eq pr_pages_def pages_until_def usize_sub_def)
qed

subsection \<open>The allocator of the machine, as it comes out of the boot\<close>

definition demo_boot :: "(mem \<times> frames) outcome" where
  "demo_boot = frames_new (zero_fill demo_mem 65536 4096) demo_map' demo_pages"

lemma demo_unreserved_set: "unreserved_set demo_map' = {17} \<union> {20..<32}"
proof -
  have "p \<in> unreserved_set demo_map' \<longleftrightarrow> p \<in> {17} \<union> {20..<32}" for p
    unfolding unreserved_set_def UN_iff unreserved_def gaps_pages demo_reserved demo_map_sel
    by (auto simp: taken_page_def page_touches_def demo_defs region_end_def usize_add_def from_addr_down_def)
  then show ?thesis by blast
qed

lemma demo_boot_ok:
  obtains m fr L where "demo_boot = Inr (m, fr)" and "frames_inv m demo_pages fr L {}"
    and "free_pages L = {17} \<union> {20..<32}"
proof -
  note new = pages_new_wf [OF demo_map_wf demo_pages_new]
  have res: "pg_region demo_pages \<in> set (reserved demo_map')"
    by (simp add: demo_reserved demo_pages_def)
  have meta: "meta_bytes demo_pages \<subseteq> {r_base (pg_region demo_pages)..<region_end (pg_region demo_pages)}"
    by (auto simp: meta_bytes_def demo_pages_def demo_table_def region_end_def usize_add_def)
  have cov: "covered demo_pages = arena_pages (mm_arena demo_map')" using new(2) by (simp add: demo_map_sel)
  obtain m fr L where "frames_new (zero_fill demo_mem 65536 4096) demo_map' demo_pages = Inr (m, fr)"
    "frames_inv m demo_pages fr L {}" "free_pages L = unreserved_set demo_map'"
    by (rule frames_new_ok [OF new(4,1) cov new(7) res meta])
  then show thesis using that [of m fr L] by (simp add: demo_boot_def demo_unreserved_set)
qed

end
