(* ===== verification/MemoryProperties.thy ===== *)
theory MemoryProperties
  imports SmallMachine
begin

text \<open>
  What the memory components promise: the theorems about the gap iterator, the memory map, the page
  table, the free lists and the buddy allocator, each with an example on the small machine.
\<close>

text \<open>
  C3. Allocation is correct and complete. In any state satisfying the invariant, \<open>Frames::alloc\<close> of an
  order up to \<open>MAX_ORDER\<close> returns a block exactly when some aligned run of that many pages is free. The
  block is aligned, was free, belongs to nobody else, and is now taken out of the free pages; the
  invariant holds again, no byte outside free pages and metadata changes, and the metadata of the
  block's first page records its order. Otherwise it returns \<open>None\<close> and changes nothing.
\<close>

theorem frames_alloc_correct:
  assumes inv: "frames_inv m pg fr L A" and order: "order \<le> MAX_ORDER"
  shows "if \<exists>b. 2 ^ order dvd b \<and> block b order \<subseteq> free_pages L
    then \<exists>m' fr' L' p. frames_alloc m pg fr order = Inr (m', fr', Some p)
      \<and> frames_inv m' pg fr' L' (insert (p, order) A) \<and> (p, order) \<notin> A
      \<and> 2 ^ order dvd p \<and> block p order \<subseteq> free_pages L
      \<and> free_pages L' = free_pages L - block p order
      \<and> same_on (- (bytes_of (free_pages L) \<union> meta_bytes pg)) m m'
      \<and> pages_read pg m' p = Inr (Buddy False (of_nat order))
    else frames_alloc m pg fr order = Inr (m, fr, None)"
proof (cases "\<exists>k. order \<le> k \<and> k < ORDERS \<and> L k \<noteq> []")
  case True
  then obtain k where k: "order \<le> k" "k < ORDERS" "L k \<noteq> []" by blast
  obtain m' fr' L' p where a: "frames_alloc m pg fr order = Inr (m', fr', Some p)"
    and i: "frames_inv m' pg fr' L' (insert (p, order) A)" and n: "(p, order) \<notin> A"
    and b: "block p order \<subseteq> free_pages L" and f: "free_pages L' = free_pages L - block p order"
    and s: "same_on (- touched pg (free_pages L)) m m'"
    and e: "entry_at pg m' p = Buddy False (of_nat order)"
    by (rule alloc_list [OF inv k])
  have c: "frames_core m' pg fr' L' (insert (p, order) A) {}" using i by (simp add: frames_inv_def)
  have cov: "free_pages L \<subseteq> covered pg" using free_pages_covered inv unfolding frames_inv_def by blast
  have ok: "block_ok pg (p, order)" using frames_coreD(3) [OF c] by simp
  have r: "pages_read pg m' p = Inr (Buddy False (of_nat order))"
    using frames_coreD(1) [OF c] block_okD(3) [OF ok] e by (simp add: pages_read_covered)
  have ex: "\<exists>b. 2 ^ order dvd b \<and> block b order \<subseteq> free_pages L"
    using b block_okD(2) [OF ok] by blast
  show ?thesis
    unfolding if_P [OF ex]
    by (intro exI conjI)
      (rule a, rule i, rule n, rule block_okD(2) [OF ok], rule b, rule f, rule s [THEN same_on_subset], rule Compl_anti_mono, rule touched_subset, rule cov, rule r)
next
  case False
  then have none: "L k = []" if "order \<le> k" "k < ORDERS" for k using that by blast
  have ex: "\<not> (\<exists>b. 2 ^ order dvd b \<and> block b order \<subseteq> free_pages L)"
    using alloc_no_list(2) [OF inv none order] by blast
  show ?thesis unfolding if_not_P [OF ex] using inv none by (rule alloc_no_list(1))
qed

theorem frames_alloc_correct_example:
  "case demo_boot of
     Inl e \<Rightarrow> False
   | Inr (m, fr) \<Rightarrow> (\<exists>m' fr' p. frames_alloc m demo_pages fr 3 = Inr (m', fr', Some p)
       \<and> block p 3 = {24..<32}) \<and> frames_alloc m demo_pages fr 4 = Inr (m, fr, None)"
proof -
  obtain m fr L where boot: "demo_boot = Inr (m, fr)" and inv: "frames_inv m demo_pages fr L {}"
    and free: "free_pages L = {17} \<union> {20..<32}"
    by (rule demo_boot_ok)
  have o: "(3::nat) \<le> MAX_ORDER" "(4::nat) \<le> MAX_ORDER" by (simp_all add: MAX_ORDER_def)
  have eight: "b = 24" if b: "2 ^ 3 dvd b" "block b 3 \<subseteq> {17} \<union> {20..<32}" for b :: nat
  proof -
    obtain c where "b = 8 * c" using b(1) by (auto elim: dvdE)
    moreover have "b \<in> {17} \<union> {20..<32}" "b + 7 \<in> {17} \<union> {20..<32}"
      by (rule subsetD [OF b(2)]; simp add: in_block)+
    ultimately show ?thesis by auto
  qed
  have sixteen: "\<not> block b 4 \<subseteq> {17} \<union> {20..<32}" if b: "2 ^ 4 dvd b" for b :: nat
  proof
    assume s: "block b 4 \<subseteq> {17} \<union> {20..<32}"
    obtain c where "b = 16 * c" using b by (auto elim: dvdE)
    moreover have "b \<in> {17} \<union> {20..<32}" "b + 15 \<in> {17} \<union> {20..<32}"
      by (rule subsetD [OF s]; simp add: in_block)+
    ultimately show False by auto
  qed
  have "block 24 3 \<subseteq> {17} \<union> {20..<32}" "(2::nat) ^ 3 dvd 24" by (auto simp: block_def)
  then have "\<exists>b. 2 ^ 3 dvd b \<and> block b 3 \<subseteq> free_pages L" unfolding free by blast
  then obtain m' fr' p where "frames_alloc m demo_pages fr 3 = Inr (m', fr', Some p)"
    "2 ^ 3 dvd p" "block p 3 \<subseteq> {17} \<union> {20..<32}"
    using frames_alloc_correct [OF inv o(1)] unfolding free by auto
  moreover from this have "block p 3 = {24..<32}" using eight [of p] by (simp add: block_def)
  moreover have "frames_alloc m demo_pages fr 4 = Inr (m, fr, None)"
    using frames_alloc_correct [OF inv o(2)] sixteen unfolding free by auto
  ultimately show ?thesis unfolding boot by auto
qed

text \<open>
  C4. Freeing is correct. \<open>Frames::free\<close> of the first page of an allocated block never panics; exactly the
  pages of the block become free, the other allocations are untouched, buddies are coalesced again,
  and no byte outside the free pages and the metadata changes.
\<close>

theorem frames_free_correct:
  assumes inv: "frames_inv m pg fr L A" and p: "(p, order) \<in> A"
  shows "\<exists>m' fr' L'. frames_free m pg fr p = Inr (m', fr')
    \<and> frames_inv m' pg fr' L' (A - {(p, order)})
    \<and> free_pages L' = free_pages L \<union> block p order \<and> block p order \<inter> free_pages L = {}
    \<and> same_on (- (bytes_of (free_pages L') \<union> meta_bytes pg)) m m'"
proof -
  obtain m' fr' L' where a: "frames_free m pg fr p = Inr (m', fr')"
    and i: "frames_inv m' pg fr' L' (A - {(p, order)})" and f: "free_pages L' = free_pages L \<union> block p order"
    and d: "block p order \<inter> free_pages L = {}" and s: "same_on (- touched pg (free_pages L')) m m'"
    by (rule free_owned [OF inv p])
  have cov: "free_pages L' \<subseteq> covered pg" using free_pages_covered i unfolding frames_inv_def by blast
  show ?thesis
    by (intro exI conjI) (rule a, rule i, rule f, rule d, rule s [THEN same_on_subset], rule Compl_anti_mono, rule touched_subset, rule cov)
qed

text \<open>Allocating on the small machine, for the examples.\<close>

lemma demo_alloc:
  obtains m fr L m1 fr1 L1 p where "demo_boot = Inr (m, fr)" and "frames_alloc m demo_pages fr 0 = Inr (m1, fr1, Some p)"
    and "frames_inv m demo_pages fr L {}" and "frames_inv m1 demo_pages fr1 L1 {(p, 0)}"
    and "p \<in> free_pages L" and "free_pages L1 = free_pages L - {p}"
    and "free_pages L = {17} \<union> {20..<32}"
proof -
  obtain m fr L where boot: "demo_boot = Inr (m, fr)" and inv: "frames_inv m demo_pages fr L {}"
    and free: "free_pages L = {17} \<union> {20..<32}"
    by (rule demo_boot_ok)
  have c: "frames_core m demo_pages fr L {} {}" using inv by (simp add: frames_inv_def)
  have "\<exists>k. k < ORDERS \<and> L k \<noteq> []"
  proof (rule ccontr)
    assume "\<not> ?thesis"
    then have "free_pages L = {}" by (auto simp: free_pages_def free_blocks_def pages_in_def)
    then show False using free by simp
  qed
  then obtain k where k: "0 \<le> k" "k < ORDERS" "L k \<noteq> []" by blast
  show thesis
    by (rule alloc_list [OF inv k]) (use that boot inv free in auto)
qed

theorem frames_free_correct_example:
  "\<exists>m fr m1 fr1 p m2 fr2. demo_boot = Inr (m, fr) \<and> frames_alloc m demo_pages fr 0 = Inr (m1, fr1, Some p)
    \<and> frames_free m1 demo_pages fr1 p = Inr (m2, fr2)"
proof -
  obtain m fr L m1 fr1 L1 p where d: "demo_boot = Inr (m, fr)"
    "frames_alloc m demo_pages fr 0 = Inr (m1, fr1, Some p)" "frames_inv m1 demo_pages fr1 L1 {(p, 0)}"
    by (rule demo_alloc)
  then show ?thesis using frames_free_correct [OF d(3), of p 0] by blast
qed

text \<open>
  C5. Freeing what was just allocated gives the pages back: the same pages are free as before, and the
  same blocks are allocated, whatever splitting and merging happened in between.
\<close>

theorem frames_alloc_free:
  assumes inv: "frames_inv m pg fr L A" and a: "frames_alloc m pg fr order = Inr (m1, fr1, Some p)"
  shows "\<exists>m2 fr2 L2. frames_free m1 pg fr1 p = Inr (m2, fr2) \<and> frames_inv m2 pg fr2 L2 A
    \<and> free_pages L2 = free_pages L"
proof -
  have "\<exists>k. order \<le> k \<and> k < ORDERS \<and> L k \<noteq> []"
  proof (rule ccontr)
    assume "\<not> ?thesis"
    then have none: "\<And>k. order \<le> k \<Longrightarrow> k < ORDERS \<Longrightarrow> L k = []" by blast
    show False using alloc_no_list(1) [OF inv none] a by simp
  qed
  then obtain k where k: "order \<le> k" "k < ORDERS" "L k \<noteq> []" by blast
  obtain L1 where i: "frames_inv m1 pg fr1 L1 (insert (p, order) A)" and n: "(p, order) \<notin> A"
    and b: "block p order \<subseteq> free_pages L" and f: "free_pages L1 = free_pages L - block p order"
    by (rule alloc_list [OF inv k]) (use a in auto)
  obtain m2 fr2 L2 where fr: "frames_free m1 pg fr1 p = Inr (m2, fr2)"
    and i2: "frames_inv m2 pg fr2 L2 (insert (p, order) A - {(p, order)})"
    and f2: "free_pages L2 = free_pages L1 \<union> block p order"
    by (rule free_owned [OF i, of p order]) auto
  have "insert (p, order) A - {(p, order)} = A" using n by blast
  moreover have "free_pages L2 = free_pages L" using f f2 b by blast
  ultimately show ?thesis using fr i2 by metis
qed

theorem frames_alloc_free_example:
  "\<exists>m fr m1 fr1 p m2 fr2 L2. demo_boot = Inr (m, fr) \<and> frames_alloc m demo_pages fr 0 = Inr (m1, fr1, Some p)
    \<and> frames_free m1 demo_pages fr1 p = Inr (m2, fr2) \<and> frames_inv m2 demo_pages fr2 L2 {}
    \<and> free_pages L2 = {17} \<union> {20..<32}"
proof -
  obtain m fr L m1 fr1 p where d: "demo_boot = Inr (m, fr)"
    "frames_alloc m demo_pages fr 0 = Inr (m1, fr1, Some p)" "frames_inv m demo_pages fr L {}"
    "free_pages L = {17} \<union> {20..<32}"
    by (rule demo_alloc)
  show ?thesis using frames_alloc_free [OF d(3,2)] d by metis
qed

text \<open>
  C6. The frame allocator after boot. When the page table could be built over a well-formed memory map,
  \<open>Frames::new\<close> returns (every loop ends, no block is pushed out of range), the invariant holds with
  nothing allocated, and a page is free exactly when it lies in the arena and holds no byte of any
  reserved region, the metadata table included.
\<close>

theorem frames_boot:
  assumes mm: "map_wf mm" and new: "pages_new m mm = (m1, mm1, Some pg)"
  shows "\<exists>m2 fr L. frames_new m1 mm1 pg = Inr (m2, fr) \<and> frames_inv m2 pg fr L {}
    \<and> free_pages L = {p \<in> arena_pages (mm_arena mm).
        \<forall>r \<in> set (reserved mm @ [pg_region pg]). \<forall>x \<in> page_bytes p. \<not> (r_base r \<le> x \<and> x < region_end r)}"
proof -
  note wf = pages_new_wf [OF mm new] and reg = pages_new_region [OF mm new]
  have res: "pg_region pg \<in> set (reserved mm1)" using wf(6) by simp
  have cov: "covered pg = arena_pages (mm_arena mm1)" using wf(2,5) by simp
  have "region_end (pg_region pg) = r_base (pg_region pg) + r_size (pg_region pg)"
    using reg(5) by (simp add: region_end_def usize_add_small)
  then have meta: "meta_bytes pg \<subseteq> {r_base (pg_region pg)..<region_end (pg_region pg)}"
    using wf(3) by (auto simp: range_of_def)
  obtain m2 fr L where f: "frames_new m1 mm1 pg = Inr (m2, fr)" and i: "frames_inv m2 pg fr L {}"
    and u: "free_pages L = unreserved_set mm1"
    by (rule frames_new_ok [OF wf(4,1) cov wf(7) res meta])
  have "unreserved_set mm1 = {p \<in> arena_pages (mm_arena mm).
      \<forall>r \<in> set (reserved mm @ [pg_region pg]). \<forall>x \<in> page_bytes p. \<not> (r_base r \<le> x \<and> x < region_end r)}"
    unfolding unreserved_set_def set_eq_iff UN_iff unreserved_pages [OF wf(4)] using wf(5,6) by auto
  with u have u': "free_pages L = {p \<in> arena_pages (mm_arena mm).
      \<forall>r \<in> set (reserved mm @ [pg_region pg]). \<forall>x \<in> page_bytes p. \<not> (r_base r \<le> x \<and> x < region_end r)}"
    by simp
  show ?thesis by (intro exI conjI) (rule f, rule i, rule u')
qed

theorem frames_boot_example:
  "\<exists>m2 fr L. frames_new (zero_fill demo_mem 65536 4096) demo_map' demo_pages = Inr (m2, fr)
    \<and> frames_inv m2 demo_pages fr L {} \<and> 17 \<in> free_pages L \<and> 18 \<notin> free_pages L"
proof -
  obtain m2 fr L where b: "frames_new (zero_fill demo_mem 65536 4096) demo_map' demo_pages = Inr (m2, fr)"
    "frames_inv m2 demo_pages fr L {}" and f: "free_pages L = {p \<in> arena_pages (mm_arena demo_map).
        \<forall>r \<in> set (reserved demo_map @ [pg_region demo_pages]). \<forall>x \<in> page_bytes p.
          \<not> (r_base r \<le> x \<and> x < region_end r)}"
    using frames_boot [OF demo_map_wf demo_pages_new] by blast
  have "75776 \<in> page_bytes 18" by simp
  then have "18 \<notin> free_pages L"
    unfolding f demo_reserved by (force simp: demo_defs region_end_def usize_add_def)
  moreover have "17 \<in> free_pages L"
    unfolding f demo_reserved
    by (auto simp: demo_map_sel demo_pages_def arena_pages_def demo_defs region_end_def usize_add_def)
  ultimately show ?thesis using b by blast
qed

text \<open>
  C7. What \<open>Frames::free\<close> rejects: the first page of a free block is reported as already freed, and a
  page outside the arena fails the bounds assertion of the metadata table; neither changes anything.
\<close>

theorem frames_free_rejects:
  assumes inv: "frames_inv m pg fr L A"
  shows "((p, k) \<in> free_blocks L \<longrightarrow> frames_free m pg fr p = Inl (Panicked ''freeing already freed pfn''))
    \<and> (q \<notin> covered pg \<longrightarrow>
      frames_free m pg fr q = Inl (AssertFailed ''pfn is out of range for this Pages''))"
proof (intro conjI impI)
  have c: "frames_core m pg fr L A {}" using inv by (simp add: frames_inv_def)
  note wf = frames_coreD(1) [OF c]
  assume "(p, k) \<in> free_blocks L"
  then show "frames_free m pg fr p = Inl (Panicked ''freeing already freed pfn'')"
  proof -
    assume b: "(p, k) \<in> free_blocks L"
    have "entry_at pg m p = Buddy True (of_nat k)" "block_ok pg (p, k)"
      using frames_coreD(3,8) [OF c, of "(p, k)"] b by simp_all
    then show ?thesis
      using wf block_okD(3) [of pg p k] by (simp add: frames_free_def pages_read_covered)
  qed
next
  assume "q \<notin> covered pg"
  moreover have "pages_wf pg" using inv by (simp add: frames_inv_def frames_core_def)
  ultimately show "frames_free m pg fr q = Inl (AssertFailed ''pfn is out of range for this Pages'')"
    by (simp add: frames_free_def pages_read_def pages_entry_outside)
qed

theorem frames_free_rejects_example:
  "\<exists>m fr p. demo_boot = Inr (m, fr) \<and> frames_free m demo_pages fr p = Inl (Panicked ''freeing already freed pfn'')
    \<and> frames_free m demo_pages fr 15 = Inl (AssertFailed ''pfn is out of range for this Pages'')"
proof -
  obtain m fr L where boot: "demo_boot = Inr (m, fr)" and inv: "frames_inv m demo_pages fr L {}"
    and free: "free_pages L = {17} \<union> {20..<32}"
    by (rule demo_boot_ok)
  have "17 \<in> free_pages L" using free by simp
  then obtain p k where b: "(p, k) \<in> free_blocks L" by (auto simp: free_pages_def in_pages_in)
  have "15 \<notin> covered demo_pages" by (simp add: covered_def demo_pages_def)
  then show ?thesis using boot frames_free_rejects [OF inv, of p k 15] b by blast
qed

text \<open>
  C8. The gap iterator is exact: for any arena and any regions, overlapping or not, a page is in one of the
  runs it yields exactly when it lies whole inside the arena and holds no byte of a region inside the
  arena. Termination of both loops is part of the definition.
\<close>

theorem gaps_exact:
  "(\<exists>run \<in> set (gaps arena taken). pr_contains run p) = (r_base arena \<le> p * 4096 \<and> p < region_end arena div 4096
    \<and> \<not> (\<exists>r \<in> set taken. \<exists>x. x div 4096 = p
        \<and> max (r_base r) (r_base arena) \<le> x \<and> x < min (region_end r) (region_end arena)))"
  using gaps_pages [of arena taken p]
  by (simp add: pr_set_def taken_page_def page_touches_byte from_addr_down_def)

text \<open>
  The runs come in address order, none is empty, and between two of them there is at least one taken
  page: each run is as long as it can be, which is what makes the seeded blocks coalesced.
\<close>

theorem gaps_ordered:
  "sorted_wrt (\<lambda>r s. pr_end r < pr_start s) (gaps arena taken) \<and> list_all (\<lambda>r. pr_start r < pr_end r) (gaps arena taken)"
proof -
  have "separated rs \<Longrightarrow> sorted_wrt (\<lambda>r s. pr_end r < pr_start s) rs \<and> list_all (\<lambda>r. pr_start r < pr_end r) rs" for rs
  proof (induction rs)
    case (Cons r rs)
    then show ?case
      using separated_hd_less [OF Cons.prems] separated_tl [OF Cons.prems]
        separated_nonempty [OF Cons.prems, of r] by simp
  qed simp
  then show ?thesis using gaps_separated by blast
qed

text \<open>
  A memory map built from what the device tree reports has an arena of whole pages inside the reported
  memory, rounded inward by less than a page at either end, and nothing reserved; it is refused exactly
  when rounding leaves no room.
\<close>

theorem memory_map_new_arena:
  assumes fits: "r_base memory + r_size memory + 4096 \<le> usize_limit"
  shows "case memory_map_new memory of
      None \<Rightarrow> (r_base memory + r_size memory) div 4096 * 4096 < div_ceil (r_base memory) 4096 * 4096
    | Some mm \<Rightarrow> map_wf mm \<and> reserved mm = []
        \<and> r_base memory \<le> r_base (mm_arena mm) \<and> r_base (mm_arena mm) < r_base memory + 4096
        \<and> r_base (mm_arena mm) + r_size (mm_arena mm) \<le> r_base memory + r_size memory
        \<and> r_base memory + r_size memory < r_base (mm_arena mm) + r_size (mm_arena mm) + 4096"
proof -
  let ?b = "r_base memory" and ?e = "r_base memory + r_size memory"
  have e: "region_end memory = ?e" "?e < usize_limit" using fits by (simp_all add: region_end_def usize_add_small)
  have up: "align_up ?b 4096 = div_ceil ?b 4096 * 4096" using fits by (simp add: align_up_page)
  have down: "align_down (region_end memory) 4096 = ?e div 4096 * 4096" using e by (simp add: align_down_page)
  have lo: "?b \<le> div_ceil ?b 4096 * 4096" by (rule le_div_ceil_mult) simp
  have hi: "div_ceil ?b 4096 * 4096 < ?b + 4096"
  proof -
    have "div_ceil ?b 4096 * 4096 = (?b + 4095) div 4096 * 4096" by (simp add: div_ceil_eq_div)
    also have "\<dots> \<le> ?b + 4095" by (rule div_times_less_eq_dividend)
    finally show ?thesis by simp
  qed
  have fin: "?e div 4096 * 4096 \<le> ?e" "?e < ?e div 4096 * 4096 + 4096"
    using dividend_less_div_times [of 4096 ?e] by simp_all
  show ?thesis
  proof (cases "div_ceil ?b 4096 * 4096 \<le> ?e div 4096 * 4096")
    case True
    then obtain mm where mm: "memory_map_new memory = Some mm" "mm_len mm = 0"
      "r_base (mm_arena mm) = div_ceil ?b 4096 * 4096"
      "r_size (mm_arena mm) = ?e div 4096 * 4096 - div_ceil ?b 4096 * 4096"
      by (auto simp: memory_map_new_def Let_def up down)
    moreover have "map_wf mm" using fits mm(1) by (intro map_wf_new) auto
    ultimately show ?thesis using True lo hi fin by (simp add: reserved_def)
  next
    case False
    then show ?thesis by (simp add: memory_map_new_def Let_def up down)
  qed
qed

theorem memory_map_new_arena_example:
  "case memory_map_new \<lparr>r_base = 4097, r_size = 12287\<rparr> of
     None \<Rightarrow> False | Some mm \<Rightarrow> map_wf mm \<and> mm_arena mm = \<lparr>r_base = 8192, r_size = 8192\<rparr>"
  using memory_map_new_arena [of "\<lparr>r_base = 4097, r_size = 12287\<rparr>"]
  by (simp add: memory_map_new_def align_up_page align_down_page region_end_def usize_add_def div_ceil_def)

text \<open>
  A map takes sixteen reservations and answers the seventeenth with the error \<open>Full\<close>, unchanged;
  otherwise the region is appended to those already there.
\<close>

theorem reserve_limit:
  assumes "map_wf mm"
  shows "case reserve mm r of
      Inl e \<Rightarrow> length (reserved mm) = 16
    | Inr mm' \<Rightarrow> length (reserved mm) < 16 \<and> map_wf mm' \<and> reserved mm' = reserved mm @ [r]
        \<and> mm_arena mm' = mm_arena mm"
proof (cases "mm_len mm = 16")
  case True
  then show ?thesis using reserve_cases [OF assms, of r] length_reserved [OF assms] by simp
next
  case False
  then obtain mm' where mm': "reserve mm r = Inr mm'" using reserve_cases [OF assms, of r] by simp
  have "mm_len mm < 16" using assms False by (simp add: map_wf_def RESERVED_def)
  then show ?thesis using mm' reserved_reserve [OF assms mm'] length_reserved [OF assms] by simp
qed

theorem reserve_limit_example:
  "(case reserve demo_map demo_table of Inl e \<Rightarrow> False | Inr mm \<Rightarrow> reserved mm = [demo_hole, demo_table])
   \<and> length (reserved demo_map) < 16"
  using reserve_limit [OF demo_map_wf, of demo_table] by (simp add: demo_reserve demo_reserved)

text \<open>
  C9. Building the page table: when \<open>Pages::new\<close> returns a table, it has one entry per page of the
  arena, lies in whole unreserved pages of the arena that are now reserved, every entry reads as a page in
  use of order 0, and no byte outside the table's pages changed.
\<close>

theorem pages_new_correct:
  assumes mm: "map_wf mm" and new: "pages_new m mm = (m', mm', Some pg)"
  shows "map_wf mm' \<and> mm_arena mm' = mm_arena mm \<and> reserved mm' = reserved mm @ [pg_region pg]
    \<and> (\<forall>p. pr_contains (covers pg) p = (p \<in> arena_pages (mm_arena mm)))
    \<and> (\<forall>p \<in> arena_pages (mm_arena mm). pages_read pg m' p = Inr (Buddy False 0))
    \<and> (\<forall>p \<in> arena_pages (pg_region pg). \<exists>run \<in> set (unreserved mm). pr_contains run p)
    \<and> (\<forall>x. x < r_base (pg_region pg) \<or> r_base (pg_region pg) + r_size (pg_region pg) \<le> x \<longrightarrow> m' x = m x)"
proof -
  note wf = pages_new_wf [OF mm new] and reg = pages_new_region [OF mm new]
  have "m' x = m x" if "x < r_base (pg_region pg) \<or> r_base (pg_region pg) + r_size (pg_region pg) \<le> x" for x
    using same_onD [OF wf(8), of x] that by auto
  moreover have "pages_read pg m' p = Inr (Buddy False 0)" if "p \<in> arena_pages (mm_arena mm)" for p
    using wf(1,2,7) that by (simp add: pages_read_covered)
  moreover have "pr_contains (covers pg) p = (p \<in> arena_pages (mm_arena mm))" for p
    using wf(1,2) by (simp add: covers_covered)
  ultimately show ?thesis using wf(4-6) reg(3) by (auto simp: pr_set_def)
qed

theorem pages_new_correct_example:
  "pages_new demo_mem demo_map = (zero_fill demo_mem 65536 4096, demo_map', Some demo_pages)
   \<and> pages_read demo_pages (zero_fill demo_mem 65536 4096) 31 = Inr (Buddy False 0)"
proof -
  have "31 \<in> arena_pages (mm_arena demo_map)" by (simp add: demo_map_sel arena_pages_def demo_memory_def)
  then show ?thesis using pages_new_correct [OF demo_map_wf demo_pages_new] demo_pages_new by blast
qed

text \<open>
  C10. Every entry whose fields fit their bits survives the packing into 64 bits and back, with both of
  its kinds told apart by the lowest bit.
\<close>

theorem entry_packing:
  assumes "entry_fits e"
  shows "entry_from_u64 (entry_to_u64 e) = e"
  using assms by (rule entry_roundtrip)

theorem entry_packing_example:
  "entry_from_u64 (entry_to_u64 (Slab 8 (Some 1) 1 None (Some 524286))) = Slab 8 (Some 1) 1 None (Some 524286)"
  by (rule entry_packing) simp

text \<open>
  The table is a store: within the arena a write is read back, every other page keeps its entry, and
  an access outside the arena fails the assertion instead of touching memory.
\<close>

theorem pages_read_write:
  assumes wf: "pages_wf pg" and p: "p \<in> covered pg" and e: "entry_fits e"
  shows "\<exists>m'. pages_write pg m p e = Inr m' \<and> pages_read pg m' p = Inr e
    \<and> (\<forall>q. q \<noteq> p \<longrightarrow> pages_read pg m' q = pages_read pg m q)
    \<and> same_on (- meta_bytes pg) m m'
    \<and> (\<forall>q. q \<notin> covered pg \<longrightarrow>
        pages_write pg m q e = Inl (AssertFailed ''pfn is out of range for this Pages''))"
proof -
  have "pages_read pg (set_entry pg m p e) q = pages_read pg m q" if "q \<noteq> p" for q
  proof (cases "q \<in> covered pg")
    case True
    then show ?thesis using wf p that entries.rd_wr_other [OF p, of q m e] by (simp add: pages_read_covered)
  next
    case False
    then show ?thesis using wf by (simp add: pages_read_def pages_entry_outside)
  qed
  then show ?thesis
    using wf p entries.rd_wr_same [OF p e, of m] set_entry_bytes [OF p, of m e]
    by (simp add: pages_write_covered pages_read_covered) (simp add: pages_write_def pages_entry_outside)
qed

theorem pages_read_write_example:
  "\<exists>m'. pages_write demo_pages demo_mem 20 (Buddy True 3) = Inr m' \<and> pages_read demo_pages m' 20 = Inr (Buddy True 3)"
proof -
  have "pages_wf demo_pages" "20 \<in> covered demo_pages"
    by (simp_all add: pages_wf_def demo_pages_def demo_table_def MAX_PAGES_eq covered_def)
  moreover have "entry_fits (Buddy True 3)" by simp
  ultimately show ?thesis using pages_read_write [of demo_pages 20 "Buddy True 3" demo_mem] by blast
qed

text \<open>
  C11. The free lists are lists: whatever the links in the free pages are, \<open>push\<close> is consing, \<open>unlink\<close>
  removes the page wherever it stands, \<open>pop\<close> takes the first page or reports an empty list, and the
  debugging walk returns the length.
\<close>

theorem free_lists_refine:
  assumes inv: "fl_inv m fl L" and k: "k < ORDERS"
  shows "(p < pfn_limit \<and> p \<notin> heads_set L \<and> total_pages L + 2 ^ k < usize_limit \<longrightarrow>
      (case fl_push m fl p k of (m', fl') \<Rightarrow> fl_inv m' fl' (L(k := p # L k))))
    \<and> (q \<in> set (L k) \<longrightarrow> (case fl_unlink m fl q k of (m', fl') \<Rightarrow> fl_inv m' fl' (L(k := remove1 q (L k)))))
    \<and> (case fl_pop m fl k of (m', fl', popped) \<Rightarrow>
      (case L k of [] \<Rightarrow> popped = None \<and> m' = m \<and> fl' = fl
       | x # xs \<Rightarrow> popped = Some x \<and> fl_inv m' fl' (L(k := xs))))
    \<and> fl_blocks m fl k = Some (length (L k) mod usize_limit)"
proof (intro conjI impI)
  assume "p < pfn_limit \<and> p \<notin> heads_set L \<and> total_pages L + 2 ^ k < usize_limit"
  then show "case fl_push m fl p k of (m', fl') \<Rightarrow> fl_inv m' fl' (L(k := p # L k))"
    using fl_push_inv(1) [OF inv k, of p] by (auto split: prod.split)
next
  assume "q \<in> set (L k)"
  then show "case fl_unlink m fl q k of (m', fl') \<Rightarrow> fl_inv m' fl' (L(k := remove1 q (L k)))"
    using fl_unlink_inv(1) [OF inv k, of q] by (auto split: prod.split)
next
  show "fl_blocks m fl k = Some (length (L k) mod usize_limit)" by (rule fl_blocks_length [OF inv k])
next
  show "case fl_pop m fl k of (m', fl', popped) \<Rightarrow>
      (case L k of [] \<Rightarrow> popped = None \<and> m' = m \<and> fl' = fl
       | x # xs \<Rightarrow> popped = Some x \<and> fl_inv m' fl' (L(k := xs)))"
  proof (cases "L k")
    case Nil
    then show ?thesis using fl_pop_empty [OF inv k] by simp
  next
    case (Cons x xs)
    then show ?thesis by (rule fl_pop_inv [OF inv k]) (simp add: Cons)
  qed
qed

theorem free_lists_refine_example:
  "case fl_push demo_mem free_lists_empty 5 2 of (m, fl) \<Rightarrow>
     (case fl_pop m fl 2 of (m', fl', popped) \<Rightarrow> popped = Some 5)"
proof -
  have k: "2 < ORDERS" by (simp add: ORDERS_eq)
  obtain m fl where p: "fl_push demo_mem free_lists_empty 5 2 = (m, fl)" by fastforce
  then have "fl_inv m fl ((\<lambda>_. [])(2 := [5]))"
    using free_lists_refine [OF fl_inv_empty k, of 5 demo_mem] by (simp add: total_pages_def)
  from free_lists_refine [OF this k, of 0 0] show ?thesis using p by (auto split: prod.splits)
qed

end
