(* ===== verification/Context.thy ===== *)
theory Context
  imports Memory
begin

text \<open>
  Task contexts (\<open>src/src/arch/aarch64/context.rs\<close>) and the register switch they are made for
  (\<open>src/src/arch/aarch64/switch.s\<close>): a context is a stack pointer to a frame of the twenty callee-saved
  registers. \<open>trampoline\<close> is used as an address only and is an argument.
\<close>

record switch_frame =
  x19 :: usize
  x20 :: usize
  x21 :: usize
  x22 :: usize
  x23 :: usize
  x24 :: usize
  x25 :: usize
  x26 :: usize
  x27 :: usize
  x28 :: usize
  x29 :: usize
  x30 :: usize
  d8 :: usize
  d9 :: usize
  d10 :: usize
  d11 :: usize
  d12 :: usize
  d13 :: usize
  d14 :: usize
  d15 :: usize

definition SWITCH_FRAME_SIZE :: usize where
  "SWITCH_FRAME_SIZE = 160"

text \<open>The \<open>repr(C)\<close> layout: the fields in order, eight bytes each.\<close>

definition frame_words :: "switch_frame \<Rightarrow> usize list" where
  "frame_words f = [x19 f, x20 f, x21 f, x22 f, x23 f, x24 f, x25 f, x26 f, x27 f, x28 f, x29 f, x30 f,
    d8 f, d9 f, d10 f, d11 f, d12 f, d13 f, d14 f, d15 f]"

definition frame_of_words :: "usize list \<Rightarrow> switch_frame" where
  "frame_of_words ws = \<lparr>x19 = ws ! 0, x20 = ws ! 1, x21 = ws ! 2, x22 = ws ! 3, x23 = ws ! 4, x24 = ws ! 5,
    x25 = ws ! 6, x26 = ws ! 7, x27 = ws ! 8, x28 = ws ! 9, x29 = ws ! 10, x30 = ws ! 11,
    d8 = ws ! 12, d9 = ws ! 13, d10 = ws ! 14, d11 = ws ! 15, d12 = ws ! 16, d13 = ws ! 17,
    d14 = ws ! 18, d15 = ws ! 19\<rparr>"

definition frame_default :: switch_frame where
  "frame_default = frame_of_words (replicate 20 0)"

fun write_words :: "mem \<Rightarrow> usize \<Rightarrow> usize list \<Rightarrow> mem" where
  "write_words m a [] = m"
| "write_words m a (w # ws) = write_words (write_usize m a w) (a + 8) ws"

fun read_words :: "mem \<Rightarrow> usize \<Rightarrow> nat \<Rightarrow> usize list" where
  "read_words m a 0 = []"
| "read_words m a (Suc n) = read_usize m a # read_words m (a + 8) n"

definition write_frame :: "mem \<Rightarrow> usize \<Rightarrow> switch_frame \<Rightarrow> mem" where
  "write_frame m a f = write_words m a (frame_words f)"

definition read_frame :: "mem \<Rightarrow> usize \<Rightarrow> switch_frame" where
  "read_frame m a = frame_of_words (read_words m a 20)"

record task_context =
  ctx_sp :: usize

definition context_running :: task_context where
  "context_running = \<lparr>ctx_sp = 0\<rparr>"

definition context_new :: "mem \<Rightarrow> usize \<Rightarrow> usize \<Rightarrow> usize \<Rightarrow> mem \<times> task_context" where
  "context_new m stack_top entry trampoline =
    (let frame_top = usize_sub stack_top SWITCH_FRAME_SIZE
     in (write_frame m frame_top (frame_default\<lparr>x30 := trampoline, x19 := entry\<rparr>), \<lparr>ctx_sp = frame_top\<rparr>))"

text \<open>
  \<open>switch\<close>: push the callee-saved registers, leave the stack pointer in the old context, take the one of
  the new context and pop its registers. \<open>ret\<close> then continues at the new \<open>x30\<close>.
\<close>

record regs =
  rg_frame :: switch_frame
  rg_sp :: usize

definition switch :: "mem \<Rightarrow> regs \<Rightarrow> task_context \<Rightarrow> mem \<times> task_context \<times> regs" where
  "switch m rg to =
    (let sp = usize_sub (rg_sp rg) SWITCH_FRAME_SIZE;
         m' = write_frame m sp (rg_frame rg)
     in (m', \<lparr>ctx_sp = sp\<rparr>,
         \<lparr>rg_frame = read_frame m' (ctx_sp to), rg_sp = usize_add (ctx_sp to) SWITCH_FRAME_SIZE\<rparr>))"

subsection \<open>Frames in memory\<close>

lemma write_words_same_on: "range_of a (8 * length ws) \<inter> X = {} \<Longrightarrow> same_on X m (write_words m a ws)"
proof (induction ws arbitrary: a m)
  case (Cons w ws)
  have "range_of a 8 \<inter> X = {}" "range_of (a + 8) (8 * length ws) \<inter> X = {}"
    using Cons.prems by (auto simp: disjoint_iff)
  then show ?case
    using Cons.IH [of "a + 8" "write_usize m a w"] write_usize_same_on [of a X m w]
    by (auto intro: same_on_trans)
qed simp

lemma read_words_same_on: "same_on (range_of a (8 * n)) m m' \<Longrightarrow> read_words m' a n = read_words m a n"
proof (induction n arbitrary: a)
  case (Suc n)
  have "same_on (range_of a 8) m m'" "same_on (range_of (a + 8) (8 * n)) m m'"
    by (rule same_on_subset [OF Suc.prems]; auto)+
  then show ?case using Suc.IH by (simp add: read_usize_same_on)
qed simp

lemma read_write_words: "\<forall>w \<in> set ws. w < usize_limit \<Longrightarrow> read_words (write_words m a ws) a (length ws) = ws"
proof (induction ws arbitrary: a m)
  case (Cons w ws)
  have "range_of (a + 8) (8 * length ws) \<inter> range_of a 8 = {}" by auto
  then have "read_usize (write_words (write_usize m a w) (a + 8) ws) a = read_usize (write_usize m a w) a"
    by (intro read_usize_same_on write_words_same_on)
  then show ?case using Cons by (simp add: read_write_usize)
qed simp

definition frame_fits :: "switch_frame \<Rightarrow> bool" where
  "frame_fits f \<longleftrightarrow> (\<forall>w \<in> set (frame_words f). w < usize_limit)"

lemma length_frame_words [simp]: "length (frame_words f) = 20"
  by (simp add: frame_words_def)

lemma frame_of_words_words [simp]: "frame_of_words (frame_words f) = f"
  by (simp add: frame_of_words_def frame_words_def)

lemma read_write_frame: "frame_fits f \<Longrightarrow> read_frame (write_frame m a f) a = f"
  using read_write_words [of "frame_words f" m a]
  by (simp add: read_frame_def write_frame_def frame_fits_def)

lemma write_frame_same_on: "range_of a 160 \<inter> X = {} \<Longrightarrow> same_on X m (write_frame m a f)"
  unfolding write_frame_def by (rule write_words_same_on) simp

lemma read_frame_same_on: "same_on (range_of a 160) m m' \<Longrightarrow> read_frame m' a = read_frame m a"
  using read_words_same_on [of a 20 m m'] by (simp add: read_frame_def)

lemma frame_new_fits: "entry < usize_limit \<Longrightarrow> t < usize_limit \<Longrightarrow> frame_fits (frame_default\<lparr>x30 := t, x19 := entry\<rparr>)"
  by (simp add: frame_fits_def frame_words_def frame_default_def frame_of_words_def)

subsection \<open>Switching\<close>

lemma switch_eq:
  assumes "160 \<le> rg_sp rg" "ctx_sp to + 160 < usize_limit"
  shows "switch m rg to = (write_frame m (rg_sp rg - 160) (rg_frame rg), \<lparr>ctx_sp = rg_sp rg - 160\<rparr>,
    \<lparr>rg_frame = read_frame (write_frame m (rg_sp rg - 160) (rg_frame rg)) (ctx_sp to), rg_sp = ctx_sp to + 160\<rparr>)"
  using assms by (simp add: switch_def SWITCH_FRAME_SIZE_def usize_sub_small usize_add_small Let_def)

text \<open>A frame that stays untouched brings every register back when it is switched to.\<close>

lemma switch_back:
  assumes rg: "160 \<le> rg_sp rg" "rg_sp rg < usize_limit" "frame_fits (rg_frame rg)"
    and away: "switch m rg to = (m1, from, rg1)"
    and kept: "same_on (range_of (ctx_sp from) 160) m1 m2"
    and apart: "range_of (usize_sub (rg_sp rg2) 160) 160 \<inter> range_of (ctx_sp from) 160 = {}"
    and ret: "switch m2 rg2 from = (m3, from2, rg3)"
  shows "rg3 = rg"
proof -
  have m1: "m1 = write_frame m (rg_sp rg - 160) (rg_frame rg)" and sp: "ctx_sp from = rg_sp rg - 160"
    using away rg(1) by (auto simp: switch_def SWITCH_FRAME_SIZE_def usize_sub_small Let_def)
  have m3: "m3 = write_frame m2 (usize_sub (rg_sp rg2) 160) (rg_frame rg2)"
    and r3: "rg3 = \<lparr>rg_frame = read_frame m3 (ctx_sp from), rg_sp = usize_add (ctx_sp from) 160\<rparr>"
    using ret by (auto simp: switch_def SWITCH_FRAME_SIZE_def Let_def)
  have "same_on (range_of (ctx_sp from) 160) m1 m3"
    unfolding m3 by (rule same_on_trans [OF kept write_frame_same_on [OF apart]])
  then have "read_frame m3 (ctx_sp from) = read_frame m1 (ctx_sp from)" by (rule read_frame_same_on)
  also have "\<dots> = rg_frame rg" unfolding m1 sp by (rule read_write_frame [OF rg(3)])
  finally show ?thesis using r3 sp rg by (simp add: usize_add_small)
qed

text \<open>A new context enters the trampoline with the entry point in \<open>x19\<close> and the whole stack free.\<close>

lemma context_new_enters:
  assumes lim: "160 \<le> stop" "stop < usize_limit" and vals: "entry < usize_limit" "trampoline < usize_limit"
    and new: "context_new m stop entry trampoline = (m1, ctx)"
    and kept: "same_on (range_of (stop - 160) 160) m1 m2"
    and apart: "range_of (usize_sub (rg_sp rg) 160) 160 \<inter> range_of (stop - 160) 160 = {}"
    and sw: "switch m2 rg ctx = (m3, from, rg')"
  shows "x30 (rg_frame rg') = trampoline" and "x19 (rg_frame rg') = entry" and "rg_sp rg' = stop"
proof -
  let ?f = "frame_default\<lparr>x30 := trampoline, x19 := entry\<rparr>"
  have m1: "m1 = write_frame m (stop - 160) ?f" and sp: "ctx_sp ctx = stop - 160"
    using new lim(1) by (auto simp: context_new_def SWITCH_FRAME_SIZE_def usize_sub_small Let_def)
  have m3: "m3 = write_frame m2 (usize_sub (rg_sp rg) 160) (rg_frame rg)"
    and r: "rg' = \<lparr>rg_frame = read_frame m3 (ctx_sp ctx), rg_sp = usize_add (ctx_sp ctx) 160\<rparr>"
    using sw by (auto simp: switch_def SWITCH_FRAME_SIZE_def Let_def)
  have "same_on (range_of (stop - 160) 160) m1 m3"
    unfolding m3 by (rule same_on_trans [OF kept write_frame_same_on [OF apart]])
  then have "read_frame m3 (stop - 160) = read_frame m1 (stop - 160)" by (rule read_frame_same_on)
  also have "\<dots> = ?f" unfolding m1 by (rule read_write_frame [OF frame_new_fits [OF vals]])
  finally have "rg_frame rg' = ?f" using r sp by simp
  then show "x30 (rg_frame rg') = trampoline" "x19 (rg_frame rg') = entry" by simp_all
  show "rg_sp rg' = stop" using r sp lim by (simp add: usize_add_small)
qed

end
