(* ===== verification/Slab.thy ===== *)
theory Slab
  imports FramesCorrect
begin

text \<open>
  One slab (\<open>src/src/mm/slab/mod.rs\<close>): a page cut into slots of one size class. The free slots form a
  list whose links are the first two bytes of the free slots; the head, the number of slots in use and
  the class live in the page's metadata entry. A \<open>Slab\<close> of the source is its page number.
\<close>

record layout =
  l_size :: usize
  l_align :: usize

definition CLASSES_COUNT :: usize where
  "CLASSES_COUNT = 9"

definition CLASSES :: "usize list" where
  "CLASSES = [8, 16, 32, 64, 128, 256, 512, 1024, 2048]"

definition SHIFTS :: "nat list" where
  "SHIFTS = map trailing_zeros CLASSES"

definition is_multiple_of_pow2 :: "usize \<Rightarrow> usize \<Rightarrow> bool" where
  "is_multiple_of_pow2 value multiple \<longleftrightarrow> value AND usize_sub multiple 1 = 0"

definition div_pow2 :: "usize \<Rightarrow> nat \<Rightarrow> usize" where
  "div_pow2 a b = usize_shr a b"

definition mul_pow2 :: "usize \<Rightarrow> nat \<Rightarrow> usize" where
  "mul_pow2 a b = usize_shl a b"

text \<open>The loop \<open>for (i, &c) in CLASSES.iter().enumerate()\<close>.\<close>

fun class_scan :: "layout \<Rightarrow> (nat \<times> usize) list \<Rightarrow> nat option" where
  "class_scan l [] = None"
| "class_scan l ((i, c) # cs) =
    (if c < l_size l then class_scan l cs
     else if \<not> is_multiple_of_pow2 c (l_align l) then class_scan l cs
     else Some i)"

definition class_of :: "layout \<Rightarrow> nat option" where
  "class_of l = class_scan l (enumerate 0 CLASSES)"

type_synonym slab = pfn

definition slab_at :: "pages \<Rightarrow> mem \<Rightarrow> pfn \<Rightarrow> slab option outcome" where
  "slab_at pg m p = obind (pages_read pg m p) (\<lambda>e. Inr (case e of
      Slab _ _ _ _ _ \<Rightarrow> Some p
    | Buddy _ _ \<Rightarrow> None))"

definition slab_from_addr :: "pages \<Rightarrow> mem \<Rightarrow> usize \<Rightarrow> slab option outcome" where
  "slab_from_addr pg m a = slab_at pg m (from_addr_down a)"

definition link_slots :: "mem \<Rightarrow> slab \<Rightarrow> nat \<Rightarrow> mem" where
  "link_slots m p shift =
    (let base = to_addr p;
         number_of_slots = div_pow2 PAGE_SIZE shift
     in fold (\<lambda>i m.
          let current_base = usize_add base (mul_pow2 i shift);
              next = (if i < usize_sub number_of_slots 1 then slot_new (i + 1) else None)
          in write_u16 m current_base (slot_to_raw next)) [0..<number_of_slots] m)"

definition slab_init :: "pages \<Rightarrow> mem \<Rightarrow> pfn \<Rightarrow> nat \<Rightarrow> (mem \<times> slab option) outcome" where
  "slab_init pg m p class_idx =
    (case get SHIFTS class_idx of
       None \<Rightarrow> Inr (m, None)
     | Some shift \<Rightarrow>
         obind (pages_write pg (link_slots m p shift) p (Slab (of_nat class_idx) (slot_new 0) 0 None None))
           (\<lambda>m'. Inr (m', Some p)))"

definition slab_alloc :: "pages \<Rightarrow> mem \<Rightarrow> slab \<Rightarrow> (mem \<times> usize option) outcome" where
  "slab_alloc pg m p = obind (pages_read pg m p) (\<lambda>e. case e of
      Buddy _ _ \<Rightarrow> Inr (m, None)
    | Slab cls free_head in_use next_partial prev_partial \<Rightarrow>
       (case free_head of
          None \<Rightarrow> Inr (m, None)
        | Some head \<Rightarrow>
          (case get SHIFTS (unat cls) of
             None \<Rightarrow> Inr (m, None)
           | Some shift \<Rightarrow>
             if div_pow2 PAGE_SIZE shift \<le> slot_index head then Inr (m, None)
             else
               let address = usize_add (to_addr p) (mul_pow2 (slot_index head) shift);
                   next_free_head = slot_from_raw (read_u16 m address)
               in obind (pages_write pg m p (Slab cls next_free_head (in_use + 1) next_partial prev_partial))
                   (\<lambda>m'. Inr (m', Some address)))))"

definition slab_free :: "pages \<Rightarrow> mem \<Rightarrow> slab \<Rightarrow> usize \<Rightarrow> mem outcome" where
  "slab_free pg m p address = obind (pages_read pg m p) (\<lambda>e. case e of
      Buddy _ _ \<Rightarrow> Inl (Panicked ''freeing an object on a page that is not a slab'')
    | Slab cls free_head in_use next_partial prev_partial \<Rightarrow>
       obind (expect ''slab page has an unknown size class'' (get SHIFTS (unat cls))) (\<lambda>shift.
       obind (assert_that ''freeing an object against the wrong page'' (from_addr_down address = p)) (\<lambda>_.
       let offset = usize_sub address (to_addr p) in
       obind (assert_that ''freeing the middle of an object instead of its start''
         (is_multiple_of_pow2 offset (usize_shl 1 shift))) (\<lambda>_.
       obind (expect ''slot index out of range'' (slot_new (div_pow2 offset shift))) (\<lambda>idx.
       obind (assert_that ''freeing an object from a slab that has none in use'' (in_use \<noteq> 0)) (\<lambda>_.
       obind (assert_that ''freeing the same object twice'' (Some idx \<noteq> free_head)) (\<lambda>_.
       pages_write pg (write_u16 m address (slot_to_raw free_head)) p
         (Slab cls (Some idx) (in_use - 1) next_partial prev_partial))))))))"

definition slab_class_idx :: "pages \<Rightarrow> mem \<Rightarrow> slab \<Rightarrow> usize outcome" where
  "slab_class_idx pg m p = obind (pages_read pg m p) (\<lambda>e. case e of
      Buddy _ _ \<Rightarrow> Inl (Panicked ''slab page cannot have buddy page entry'')
    | Slab cls _ _ _ _ \<Rightarrow>
       obind (assert_that ''slab page has an unknown size class'' (unat cls < CLASSES_COUNT)) (\<lambda>_.
       Inr (unat cls)))"

text \<open>\<open>.map(|index| pages.pfn_of(index)).and_then(|pfn| Slab::at(pages, pfn))\<close>.\<close>

definition slab_link :: "pages \<Rightarrow> mem \<Rightarrow> arena_index option \<Rightarrow> slab option outcome" where
  "slab_link pg m index = (case index of None \<Rightarrow> Inr None | Some i \<Rightarrow> slab_at pg m (pfn_of pg i))"

definition slab_links :: "pages \<Rightarrow> mem \<Rightarrow> slab \<Rightarrow> (slab option \<times> slab option) outcome" where
  "slab_links pg m p = obind (pages_read pg m p) (\<lambda>e. case e of
      Buddy _ _ \<Rightarrow> Inr (None, None)
    | Slab _ _ _ next_partial prev_partial \<Rightarrow>
       obind (slab_link pg m next_partial) (\<lambda>next.
       obind (slab_link pg m prev_partial) (\<lambda>prev.
       Inr (next, prev))))"

definition slab_set_next :: "pages \<Rightarrow> mem \<Rightarrow> slab \<Rightarrow> slab option \<Rightarrow> mem outcome" where
  "slab_set_next pg m p value = obind (pages_read pg m p) (\<lambda>e. case e of
      Buddy _ _ \<Rightarrow> Inr m
    | Slab cls free_head in_use _ prev_partial \<Rightarrow>
       pages_write pg m p (Slab cls free_head in_use (map_option (index_of pg) value) prev_partial))"

definition slab_set_prev :: "pages \<Rightarrow> mem \<Rightarrow> slab \<Rightarrow> slab option \<Rightarrow> mem outcome" where
  "slab_set_prev pg m p value = obind (pages_read pg m p) (\<lambda>e. case e of
      Buddy _ _ \<Rightarrow> Inr m
    | Slab cls free_head in_use next_partial _ \<Rightarrow>
       pages_write pg m p (Slab cls free_head in_use next_partial (map_option (index_of pg) value)))"

definition slab_is_full :: "pages \<Rightarrow> mem \<Rightarrow> slab \<Rightarrow> bool outcome" where
  "slab_is_full pg m p = obind (pages_read pg m p) (\<lambda>e. Inr (case e of
      Buddy _ _ \<Rightarrow> False
    | Slab _ free_head _ _ _ \<Rightarrow> free_head = None))"

definition slab_is_empty :: "pages \<Rightarrow> mem \<Rightarrow> slab \<Rightarrow> bool outcome" where
  "slab_is_empty pg m p = obind (pages_read pg m p) (\<lambda>e. Inr (case e of
      Buddy _ _ \<Rightarrow> False
    | Slab _ _ in_use _ _ \<Rightarrow> in_use = 0))"

subsection \<open>Size classes\<close>

definition class_size :: "nat \<Rightarrow> nat" where
  "class_size c = 2 ^ (c + 3)"

definition slab_slots :: "nat \<Rightarrow> nat" where
  "slab_slots c = 2 ^ (9 - c)"

lemma CLASSES_nth: "c < 9 \<Longrightarrow> CLASSES ! c = class_size c"
  by (auto simp: CLASSES_def class_size_def less_Suc_eq numeral_eq_Suc)

lemma length_CLASSES [simp]: "length CLASSES = 9"
  by (simp add: CLASSES_def)

lemma trailing_zeros_pow: "k < 64 \<Longrightarrow> trailing_zeros (2 ^ k) = k"
proof -
  assume k: "k < 64"
  have "k \<le> trailing_zeros (2 ^ k)" using k by (intro trailing_zeros_ge) auto
  moreover have "\<not> Suc k \<le> trailing_zeros (2 ^ k)"
    using trailing_zeros_dvd [of "Suc k" "2 ^ k"] power_dvd_imp_le [of "2::nat" "Suc k" k] by auto
  ultimately show ?thesis by simp
qed

lemma SHIFTS_get: "c < 9 \<Longrightarrow> get SHIFTS c = Some (c + 3)"
  by (simp add: SHIFTS_def get_def CLASSES_nth class_size_def trailing_zeros_pow del: power_add)

lemma SHIFTS_out: "9 \<le> c \<Longrightarrow> get SHIFTS c = None"
  by (simp add: SHIFTS_def)

lemma slots_size: "c < 9 \<Longrightarrow> slab_slots c * class_size c = 4096"
proof -
  assume "c < 9"
  then have "slab_slots c * class_size c = 2 ^ (9 - c + (c + 3))"
    unfolding slab_slots_def class_size_def by (simp only: power_add)
  also have "9 - c + (c + 3) = 12" using \<open>c < 9\<close> by simp
  finally show ?thesis by simp
qed

lemma slab_slots_bounds: "c < 9 \<Longrightarrow> 1 < slab_slots c \<and> slab_slots c \<le> 512"
proof -
  assume "c < 9"
  then have "(2::nat) ^ 1 \<le> 2 ^ (9 - c)" "(2::nat) ^ (9 - c) \<le> 2 ^ 9"
    by (intro power_increasing; simp)+
  then show ?thesis by (simp add: slab_slots_def)
qed

lemma class_size_bounds: "c < 9 \<Longrightarrow> 8 \<le> class_size c \<and> class_size c \<le> 2048"
proof -
  assume "c < 9"
  then have "(2::nat) ^ 3 \<le> 2 ^ (c + 3)" "(2::nat) ^ (c + 3) \<le> 2 ^ 11"
    by (intro power_increasing; simp)+
  then show ?thesis by (simp add: class_size_def)
qed

lemma div_pow2_page: "c < 9 \<Longrightarrow> div_pow2 4096 (c + 3) = slab_slots c"
proof -
  assume c: "c < 9"
  have "div_pow2 4096 (c + 3) = 4096 div class_size c"
    using c by (simp add: div_pow2_def usize_shr_def class_size_def)
  also have "\<dots> = slab_slots c"
    using slots_size [OF c] class_size_bounds [OF c] by (metis div_mult_self_is_m less_le_trans zero_less_numeral)
  finally show ?thesis .
qed

text \<open>Slot \<open>i\<close> of a page, and that it lies inside the page.\<close>

lemma slot_in_page:
  assumes "c < 9" and "i < slab_slots c"
  shows "i * class_size c + class_size c \<le> 4096"
proof -
  have "Suc i * class_size c \<le> slab_slots c * class_size c" using assms(2) by (intro mult_le_mono1) simp
  then show ?thesis using slots_size [OF assms(1)] by simp
qed

definition slot_addr :: "pfn \<Rightarrow> nat \<Rightarrow> nat \<Rightarrow> usize" where
  "slot_addr p c i = p * 4096 + i * class_size c"

lemma slot_addr_eq:
  assumes "p < pfn_limit" "c < 9" "i < slab_slots c"
  shows "usize_add (to_addr p) (mul_pow2 i (c + 3)) = slot_addr p c i"
proof -
  have s: "i * class_size c + class_size c \<le> 4096" by (rule slot_in_page [OF assms(2,3)])
  have "mul_pow2 i (c + 3) = i * class_size c"
    using s assms(2) class_size_bounds [OF assms(2)] by (simp add: mul_pow2_def usize_shl_def class_size_def)
  moreover have "p * 4096 + i * class_size c < usize_limit"
    using s assms(1) class_size_bounds [OF assms(2)] by linarith
  ultimately show ?thesis
    using assms(1) by (simp add: to_addr_small usize_add_small slot_addr_def)
qed

lemma slot_addr_page:
  assumes "c < 9" "i < slab_slots c"
  shows "range_of (slot_addr p c i) (class_size c) \<subseteq> page_bytes p"
  using slot_in_page [OF assms] unfolding page_bytes_def slot_addr_def by (intro range_of_mono) auto

lemma slot_addr_disjoint:
  assumes "i \<noteq> j"
  shows "range_of (slot_addr p c i) (class_size c) \<inter> range_of (slot_addr p c j) (class_size c) = {}"
proof (rule range_of_disjoint)
  consider "Suc i \<le> j" | "Suc j \<le> i" using assms by linarith
  then have "Suc i * class_size c \<le> j * class_size c \<or> Suc j * class_size c \<le> i * class_size c"
    by (metis mult_le_mono1)
  then show "slot_addr p c i + class_size c \<le> slot_addr p c j \<or> slot_addr p c j + class_size c \<le> slot_addr p c i"
    by (auto simp: slot_addr_def)
qed

subsection \<open>The free slots of a slab\<close>

text \<open>\<open>slot_chain m p c fs\<close>: the links in the free slots \<open>fs\<close> of the page lead from each to the next.\<close>

fun slot_chain :: "mem \<Rightarrow> pfn \<Rightarrow> nat \<Rightarrow> nat list \<Rightarrow> bool" where
  "slot_chain m p c [] = True"
| "slot_chain m p c (i # is) \<longleftrightarrow>
    slot_from_raw (read_u16 m (slot_addr p c i)) = (case is of [] \<Rightarrow> None | j # _ \<Rightarrow> Some (of_nat j))
    \<and> slot_chain m p c is"

definition slot_head :: "nat list \<Rightarrow> slot option" where
  "slot_head fs = (case fs of [] \<Rightarrow> None | i # _ \<Rightarrow> Some (of_nat i))"

definition slab_ok :: "pages \<Rightarrow> mem \<Rightarrow> pfn \<Rightarrow> nat \<Rightarrow> nat list \<Rightarrow> arena_index option \<Rightarrow> arena_index option \<Rightarrow> bool" where
  "slab_ok pg m p c fs nx pv \<longleftrightarrow> c < 9 \<and> p \<in> covered pg
    \<and> entry_at pg m p = Slab (of_nat c) (slot_head fs) (of_nat (slab_slots c - length fs)) nx pv
    \<and> distinct fs \<and> set fs \<subseteq> {..<slab_slots c} \<and> slot_chain m p c fs"

lemma slot_chain_cong:
  assumes "\<And>i. i \<in> set fs \<Longrightarrow> read_u16 m' (slot_addr p c i) = read_u16 m (slot_addr p c i)"
  shows "slot_chain m' p c fs = slot_chain m p c fs"
  using assms by (induction fs) (auto split: list.splits)

lemma slot_chain_same_on:
  assumes "same_on (page_bytes p) m m'" "c < 9" "set fs \<subseteq> {..<slab_slots c}"
  shows "slot_chain m' p c fs = slot_chain m p c fs"
proof (rule slot_chain_cong)
  fix i assume "i \<in> set fs"
  then have "range_of (slot_addr p c i) (class_size c) \<subseteq> page_bytes p"
    using assms(2,3) by (intro slot_addr_page) auto
  moreover have "range_of (slot_addr p c i) 2 \<subseteq> range_of (slot_addr p c i) (class_size c)"
    using class_size_bounds [OF assms(2)] by (intro range_of_mono) auto
  ultimately show "read_u16 m' (slot_addr p c i) = read_u16 m (slot_addr p c i)"
    by (intro read_u16_same_on same_on_subset [OF assms(1)]) blast
qed

lemma slot_roundtrip: "i < 1023 \<Longrightarrow> slot_new i = Some (of_nat i) \<and> slot_from_raw (of_nat i) = Some (of_nat i)"
  by (simp add: slot_new_def slot_from_raw_def slot_NONE_eq word_unat_eq_iff unat_of_nat)

lemma slot_index_of_nat: "i < 1023 \<Longrightarrow> slot_index (of_nat i) = i"
  by (simp add: slot_index_def unat_of_nat)

lemma slot_raw_None: "slot_from_raw (slot_to_raw None) = None"
  by (simp add: slot_from_raw_def slot_to_raw_def)

lemma slot_head_raw:
  assumes "set fs \<subseteq> {..<1023}"
  shows "slot_from_raw (slot_to_raw (slot_head fs)) = slot_head fs"
proof (cases fs)
  case (Cons i js)
  then have "i < 1023" using assms by simp
  then show ?thesis
    using Cons slot_roundtrip [of i] by (simp add: slot_head_def slot_to_raw_def)
qed (simp add: slot_head_def slot_raw_None)

lemma slot_write_disjoint:
  assumes "c < 9" "i < slab_slots c" "j < slab_slots c" "i \<noteq> j"
  shows "read_u16 (write_u16 m (slot_addr p c i) v) (slot_addr p c j) = read_u16 m (slot_addr p c j)"
proof (rule read_u16_same_on, rule write_u16_same_on)
  have sub: "range_of (slot_addr p c k) 2 \<subseteq> range_of (slot_addr p c k) (class_size c)" for k
    using class_size_bounds [OF assms(1)] by (intro range_of_mono) auto
  show "range_of (slot_addr p c i) 2 \<inter> range_of (slot_addr p c j) 2 = {}"
    using slot_addr_disjoint [OF assms(4), of p c] sub [of i] sub [of j] by blast
qed

lemma slot_write_page:
  assumes "c < 9" "i < slab_slots c"
  shows "same_on (- page_bytes p) m (write_u16 m (slot_addr p c i) v)"
proof (rule write_u16_same_on)
  have "range_of (slot_addr p c i) 2 \<subseteq> range_of (slot_addr p c i) (class_size c)"
    using class_size_bounds [OF assms(1)] by (intro range_of_mono) auto
  then show "range_of (slot_addr p c i) 2 \<inter> - page_bytes p = {}"
    using slot_addr_page [OF assms, of p] by blast
qed

subsection \<open>Making a slab\<close>

lemma link_slots_ok:
  assumes p: "p < pfn_limit" and c: "c < 9"
  shows "slot_chain (link_slots m p (c + 3)) p c [0..<slab_slots c]"
    and "same_on (- page_bytes p) m (link_slots m p (c + 3))"
proof -
  let ?n = "slab_slots c"
  let ?next = "\<lambda>i. if i < ?n - 1 then Some (of_nat (i + 1)) else None :: slot option"
  define step where "step = (\<lambda>i m. write_u16 m (slot_addr p c i) (slot_to_raw (?next i)))"
  have bound: "i < 1023" if "i < ?n" for i using slab_slots_bounds [OF c] that by simp
  have "link_slots m p (c + 3) = fold (\<lambda>i m.
      write_u16 m (usize_add (to_addr p) (mul_pow2 i (c + 3)))
        (slot_to_raw (if i < usize_sub ?n 1 then slot_new (i + 1) else None))) [0..<?n] m"
    using div_pow2_page [OF c] by (simp add: link_slots_def Let_def)
  also have "\<dots> = fold step [0..<?n] m"
  proof (rule fold_cong [OF refl refl])
    fix i assume "i \<in> set [0..<?n]"
    then have i: "i < ?n" by simp
    moreover have "usize_sub ?n 1 = ?n - 1" using slab_slots_bounds [OF c] by (simp add: usize_sub_small)
    moreover have "slot_new (i + 1) = Some (of_nat (i + 1))" if "i < ?n - 1"
      using slot_roundtrip [of "i + 1"] bound [of "i + 1"] that by simp
    ultimately show "(\<lambda>m. write_u16 m (usize_add (to_addr p) (mul_pow2 i (c + 3)))
        (slot_to_raw (if i < usize_sub ?n 1 then slot_new (i + 1) else None))) = step i"
      using slot_addr_eq [OF p c i] by (auto simp: step_def fun_eq_iff)
  qed
  finally have eq: "link_slots m p (c + 3) = fold step [0..<?n] m" .
  have inv: "k \<le> ?n \<Longrightarrow> (\<forall>i<k. slot_from_raw (read_u16 (fold step [0..<k] m) (slot_addr p c i)) = ?next i)
      \<and> same_on (- page_bytes p) m (fold step [0..<k] m)" for k
  proof (induction k)
    case (Suc k)
    let ?m = "fold step [0..<k] m"
    have "slot_from_raw (slot_to_raw (?next k)) = ?next k"
      using slot_roundtrip [of "k + 1"] bound [of "k + 1"]
      by (cases "k < ?n - 1") (simp_all add: slot_from_raw_def slot_to_raw_def)
    then have "slot_from_raw (read_u16 (step k ?m) (slot_addr p c i)) = ?next i" if "i < Suc k" for i
      using Suc slot_write_disjoint [OF c, of k i] that
      by (cases "i = k") (auto simp: step_def)
    moreover have "same_on (- page_bytes p) m (step k ?m)"
      using Suc slot_write_page [OF c, of k p ?m] by (auto simp: step_def intro: same_on_trans)
    ultimately show ?case by simp
  qed simp
  show "same_on (- page_bytes p) m (link_slots m p (c + 3))" using inv [of ?n] eq by simp
  have "slot_chain (fold step [0..<?n] m) p c [k..<?n]" if "k \<le> ?n" for k
    using that
  proof (induction "?n - k" arbitrary: k)
    case (Suc d)
    then have k: "k < ?n" by simp
    have "slot_from_raw (read_u16 (fold step [0..<?n] m) (slot_addr p c k)) = ?next k"
      using inv [of ?n] k by simp
    moreover have "(case [Suc k..<?n] of [] \<Rightarrow> None | j # _ \<Rightarrow> Some (of_nat j)) = ?next k"
      using k by (cases "Suc k < ?n") (auto simp: upt_conv_Cons)
    moreover have "slot_chain (fold step [0..<?n] m) p c [Suc k..<?n]"
      using Suc by (intro Suc.hyps(1)) auto
    ultimately show ?case using k by (simp add: upt_conv_Cons)
  qed simp
  from this [of 0] show "slot_chain (link_slots m p (c + 3)) p c [0..<?n]" unfolding eq by simp
qed

text \<open>Where a page of the arena keeps its slots is off the metadata table.\<close>

definition page_free_of_meta :: "pages \<Rightarrow> pfn \<Rightarrow> bool" where
  "page_free_of_meta pg p \<longleftrightarrow> pages_wf pg \<and> p \<in> covered pg \<and> page_bytes p \<inter> meta_bytes pg = {}"

lemma block_page_free_of_meta: "pages_wf pg \<Longrightarrow> block_ok pg (p, k) \<Longrightarrow> page_free_of_meta pg p"
  using block_okD(3,6) by (simp add: page_free_of_meta_def)

lemma page_entry_stable:
  assumes "page_free_of_meta pg p" and "same_on (- page_bytes p) m m'" and "q \<in> covered pg"
  shows "entry_at pg m' q = entry_at pg m q"
  using assms by (intro entry_at_same_on same_on_subset [OF assms(2)]) (auto simp: page_free_of_meta_def)

lemma slab_entry_fits:
  assumes "c < 9" and "set fs \<subseteq> {..<slab_slots c}" and "u \<le> slab_slots c"
    and "pred_option (\<lambda>i. i < 524287) nx" "pred_option (\<lambda>i. i < 524287) pv"
  shows "entry_fits (Slab (of_nat c) (slot_head fs) (of_nat u) nx pv)"
proof -
  note b = slab_slots_bounds [OF assms(1)]
  have "(of_nat c :: u8) < 16" using assms(1) by (simp add: word_less_nat_alt unat_of_nat)
  moreover have "(of_nat u :: u16) < 1024"
    using assms(3) b by (simp add: word_less_nat_alt unat_of_nat)
  moreover have "pred_option (\<lambda>s. s < 1023) (slot_head fs)"
    using assms(2) b by (cases fs) (auto simp: slot_head_def word_less_nat_alt unat_of_nat)
  ultimately show ?thesis using assms(4,5) by simp
qed

lemma slab_okD:
  assumes "slab_ok pg m p c fs nx pv"
  shows "c < 9" and "p \<in> covered pg"
    and "entry_at pg m p = Slab (of_nat c) (slot_head fs) (of_nat (slab_slots c - length fs)) nx pv"
    and "distinct fs" and "set fs \<subseteq> {..<slab_slots c}" and "slot_chain m p c fs"
    and "length fs \<le> slab_slots c"
proof -
  show "c < 9" "p \<in> covered pg"
    "entry_at pg m p = Slab (of_nat c) (slot_head fs) (of_nat (slab_slots c - length fs)) nx pv"
    and d: "distinct fs" "set fs \<subseteq> {..<slab_slots c}" and "slot_chain m p c fs"
    using assms by (auto simp: slab_ok_def)
  show "length fs \<le> slab_slots c"
    using card_mono [OF _ d(2)] d(1) by (simp add: distinct_card)
qed

lemma unat_class: "c < 9 \<Longrightarrow> unat (of_nat c :: u8) = c"
  by (simp add: unat_of_nat)

lemma slot_head_bounds: "set fs \<subseteq> {..<slab_slots c} \<Longrightarrow> c < 9 \<Longrightarrow> set fs \<subseteq> {..<1023}"
  using slab_slots_bounds [of c] by auto

lemma slab_init_ok:
  assumes page: "page_free_of_meta pg p" and c: "c < 9"
  obtains m' where "slab_init pg m p c = Inr (m', Some p)"
    and "slab_ok pg m' p c [0..<slab_slots c] None None" and "same_on (- touched pg {p}) m m'"
proof -
  let ?m1 = "link_slots m p (c + 3)" and ?fs = "[0..<slab_slots c]"
  let ?e = "Slab (of_nat c) (slot_head ?fs) 0 None None"
  have pg: "pages_wf pg" and p: "p \<in> covered pg" using page by (simp_all add: page_free_of_meta_def)
  have lim: "p < pfn_limit" using covered_limit [OF pg p] .
  note l = link_slots_ok [OF lim c, of m]
  note b = slab_slots_bounds [OF c]
  have head: "slot_head ?fs = slot_new 0"
    using b slot_roundtrip [of 0] by (simp add: slot_head_def upt_conv_Cons)
  have fits: "entry_fits ?e" using slab_entry_fits [OF c, of ?fs 0 None None] by (simp add: lessThan_atLeast0)
  have init: "slab_init pg m p c = Inr (set_entry pg ?m1 p ?e, Some p)"
    using SHIFTS_get [OF c] pg p head by (simp add: slab_init_def pages_write_covered)
  have s2: "same_on (- meta_bytes pg) ?m1 (set_entry pg ?m1 p ?e)" by (rule set_entry_bytes [OF p])
  have "slot_chain (set_entry pg ?m1 p ?e) p c ?fs"
    using l(1) slot_chain_same_on [OF same_on_subset [OF s2], of p c ?fs] page c
    by (auto simp: page_free_of_meta_def lessThan_atLeast0 disjoint_eq_subset_Compl)
  then have "slab_ok pg (set_entry pg ?m1 p ?e) p c ?fs None None"
    using c p entries.rd_wr_same [OF p fits, of ?m1] by (auto simp: slab_ok_def)
  moreover have "same_on (- touched pg {p}) m (set_entry pg ?m1 p ?e)"
  proof (rule same_on_trans)
    show "same_on (- touched pg {p}) m ?m1"
      by (rule same_on_subset [OF l(2)]) (auto simp: touched_def)
    show "same_on (- touched pg {p}) ?m1 (set_entry pg ?m1 p ?e)" by (rule set_entry_touched) simp
  qed
  ultimately show thesis using that init by blast
qed

subsection \<open>Taking a slot and giving it back\<close>

lemma slab_alloc_full:
  assumes "pages_wf pg" "slab_ok pg m p c [] nx pv"
  shows "slab_alloc pg m p = Inr (m, None)"
  using assms slab_okD(2,3) [OF assms(2)]
  by (simp add: slab_alloc_def pages_read_covered slot_head_def)

lemma slab_alloc_ok:
  assumes page: "page_free_of_meta pg p" and ok: "slab_ok pg m p c (i # js) nx pv"
    and links: "pred_option (\<lambda>i. i < 524287) nx" "pred_option (\<lambda>i. i < 524287) pv"
  obtains m' where "slab_alloc pg m p = Inr (m', Some (slot_addr p c i))"
    and "slab_ok pg m' p c js nx pv" and "same_on (- range_of (entry_addr pg p) 8) m m'"
proof -
  note d = slab_okD [OF ok]
  have pg: "pages_wf pg" and p: "p \<in> covered pg" using page by (simp_all add: page_free_of_meta_def)
  have lim: "p < pfn_limit" using covered_limit [OF pg p] .
  have i: "i < slab_slots c" "i < 1023" using d(5) slab_slots_bounds [OF d(1)] by auto
  have js: "set js \<subseteq> {..<slab_slots c}" using d(5) by simp
  let ?e = "Slab (of_nat c) (slot_head js) (of_nat (slab_slots c - length js)) nx pv"
  have nxt: "slot_from_raw (read_u16 m (slot_addr p c i)) = slot_head js"
    using d(6) by (simp add: slot_head_def)
  have count: "(of_nat (slab_slots c - length (i # js)) :: u16) + 1 = of_nat (slab_slots c - length js)"
  proof -
    have "slab_slots c - length js = Suc (slab_slots c - length (i # js))" using d(7) by simp
    then show ?thesis by (simp add: ac_simps)
  qed
  have fits: "entry_fits ?e" by (rule slab_entry_fits [OF d(1) js _ links]) simp
  have alloc: "slab_alloc pg m p = Inr (set_entry pg m p ?e, Some (slot_addr p c i))"
    using d(3) pg p SHIFTS_get [OF d(1)] unat_class [OF d(1)] slot_index_of_nat [OF i(2)] i(1)
      div_pow2_page [OF d(1)] slot_addr_eq [OF lim d(1) i(1)] nxt count
    by (simp add: slab_alloc_def pages_read_covered pages_write_covered slot_head_def [of "i # js"] Let_def)
  have s2: "same_on (- meta_bytes pg) m (set_entry pg m p ?e)" by (rule set_entry_bytes [OF p])
  have "slot_chain (set_entry pg m p ?e) p c js"
    using d(6) slot_chain_same_on [OF same_on_subset [OF s2], of p c js] page d(1) js
    by (auto simp: page_free_of_meta_def)
  then have "slab_ok pg (set_entry pg m p ?e) p c js nx pv"
    using d p js entries.rd_wr_same [OF p fits, of m] by (auto simp: slab_ok_def)
  moreover have "same_on (- range_of (entry_addr pg p) 8) m (set_entry pg m p ?e)"
    unfolding set_entry_def by (rule write_u64_same_on) blast
  ultimately show thesis using that alloc by blast
qed

lemma slot_offset:
  assumes "p < pfn_limit" "c < 9" "i < slab_slots c"
  shows "from_addr_down (slot_addr p c i) = p" and "usize_sub (slot_addr p c i) (to_addr p) = i * class_size c"
    and "is_multiple_of_pow2 (i * class_size c) (usize_shl 1 (c + 3))"
    and "div_pow2 (i * class_size c) (c + 3) = i"
proof -
  have s: "i * class_size c + class_size c \<le> 4096" by (rule slot_in_page [OF assms(2,3)])
  have pos: "0 < class_size c" by (simp add: class_size_def)
  then show "from_addr_down (slot_addr p c i) = p"
    using s by (simp add: from_addr_down_def slot_addr_def div_add1_eq)
  show "usize_sub (slot_addr p c i) (to_addr p) = i * class_size c"
    using assms(1) by (simp add: to_addr_small slot_addr_def usize_sub_small)
  have "usize_shl 1 (c + 3) = 2 ^ (c + 3)"
    using assms(2) class_size_bounds [OF assms(2)] by (simp add: usize_shl_def class_size_def)
  then have "is_multiple_of_pow2 (i * class_size c) (usize_shl 1 (c + 3)) \<longleftrightarrow>
      i * class_size c AND mask (c + 3) = 0"
    by (simp add: is_multiple_of_pow2_def usize_sub_small mask_eq_exp_minus_1)
  also have "\<dots> \<longleftrightarrow> i * class_size c mod 2 ^ (c + 3) = 0"
    by (simp add: take_bit_eq_mask [symmetric] take_bit_eq_mod)
  also have "\<dots>" by (simp add: class_size_def)
  finally show "is_multiple_of_pow2 (i * class_size c) (usize_shl 1 (c + 3))" by simp
  show "div_pow2 (i * class_size c) (c + 3) = i"
    using assms(2) by (simp add: div_pow2_def usize_shr_def class_size_def)
qed

lemma slot_of_nat_neq: "i < 1023 \<Longrightarrow> j < 1023 \<Longrightarrow> (of_nat i :: slot) = of_nat j \<longleftrightarrow> i = j"
  by (simp add: word_unat_eq_iff unat_of_nat)

lemma slab_free_ok:
  assumes page: "page_free_of_meta pg p" and ok: "slab_ok pg m p c fs nx pv"
    and links: "pred_option (\<lambda>i. i < 524287) nx" "pred_option (\<lambda>i. i < 524287) pv"
    and i: "i < slab_slots c" "i \<notin> set fs"
  obtains m' where "slab_free pg m p (slot_addr p c i) = Inr m'"
    and "slab_ok pg m' p c (i # fs) nx pv" and "same_on (- touched pg {p}) m m'"
    and "same_on (- (range_of (slot_addr p c i) 2 \<union> range_of (entry_addr pg p) 8)) m m'"
proof -
  note d = slab_okD [OF ok]
  have pg: "pages_wf pg" and p: "p \<in> covered pg" using page by (simp_all add: page_free_of_meta_def)
  have lim: "p < pfn_limit" using covered_limit [OF pg p] .
  note b = slab_slots_bounds [OF d(1)] and off = slot_offset [OF lim d(1) i(1)]
  have i': "i < 1023" using i b by simp
  have lt: "length fs < slab_slots c"
  proof -
    have "length (i # fs) \<le> slab_slots c"
      using card_mono [of "{..<slab_slots c}" "set (i # fs)"] d(4,5) i distinct_card [of "i # fs"] by simp
    then show ?thesis by simp
  qed
  let ?e = "Slab (of_nat c) (Some (of_nat i)) (of_nat (slab_slots c - length (i # fs))) nx pv"
  let ?m1 = "write_u16 m (slot_addr p c i) (slot_to_raw (slot_head fs))"
  have in_use: "(of_nat (slab_slots c - length fs) :: u16) \<noteq> 0"
  proof -
    have "0 < slab_slots c - length fs" "slab_slots c - length fs < 65536" using lt b by auto
    then show ?thesis by (simp add: word_unat_eq_iff unat_of_nat del: of_nat_diff)
  qed
  have count: "(of_nat (slab_slots c - length fs) :: u16) - 1 = of_nat (slab_slots c - length (i # fs))"
  proof -
    have "slab_slots c - length fs = Suc (slab_slots c - length (i # fs))" using lt by simp
    then show ?thesis by simp
  qed
  have twice: "Some (of_nat i) \<noteq> slot_head fs"
  proof (cases fs)
    case (Cons j js)
    then have "j < 1023" "j \<noteq> i" using d(5) b i by auto
    then show ?thesis using Cons slot_of_nat_neq [OF i', of j] by (simp add: slot_head_def)
  qed (simp add: slot_head_def)
  have fits: "entry_fits ?e"
    using slab_entry_fits [OF d(1), of "i # fs" "slab_slots c - length (i # fs)" nx pv] links d(5) i
    by (simp add: slot_head_def)
  have free: "slab_free pg m p (slot_addr p c i) = Inr (set_entry pg ?m1 p ?e)"
    using d(3) pg p SHIFTS_get [OF d(1)] unat_class [OF d(1)] off slot_roundtrip [OF i'] in_use twice count
    by (simp add: slab_free_def pages_read_covered pages_write_covered Let_def)
  have s1: "same_on (- page_bytes p) m ?m1" by (rule slot_write_page [OF d(1) i(1)])
  have s2: "same_on (- meta_bytes pg) ?m1 (set_entry pg ?m1 p ?e)" by (rule set_entry_bytes [OF p])
  have ifs: "set (i # fs) \<subseteq> {..<slab_slots c}" using d(5) i by simp
  have "slot_chain ?m1 p c fs = slot_chain m p c fs"
    using d(5) i slot_write_disjoint [OF d(1) i(1)] by (intro slot_chain_cong) fastforce
  moreover have "slot_from_raw (read_u16 ?m1 (slot_addr p c i)) = slot_head fs"
    using slot_head_raw [OF slot_head_bounds [OF d(5,1)]] by simp
  ultimately have "slot_chain ?m1 p c (i # fs)" using d(6) by (simp add: slot_head_def)
  then have "slot_chain (set_entry pg ?m1 p ?e) p c (i # fs)"
    using slot_chain_same_on [OF same_on_subset [OF s2] d(1) ifs, of p] page
    by (auto simp: page_free_of_meta_def)
  then have "slab_ok pg (set_entry pg ?m1 p ?e) p c (i # fs) nx pv"
    using d p i entries.rd_wr_same [OF p fits, of ?m1] by (auto simp: slab_ok_def slot_head_def)
  moreover have "same_on (- touched pg {p}) m (set_entry pg ?m1 p ?e)"
  proof (rule same_on_trans)
    show "same_on (- touched pg {p}) m ?m1"
      by (rule same_on_subset [OF s1]) (auto simp: touched_def)
    show "same_on (- touched pg {p}) ?m1 (set_entry pg ?m1 p ?e)" by (rule set_entry_touched) simp
  qed
  moreover have "same_on (- (range_of (slot_addr p c i) 2 \<union> range_of (entry_addr pg p) 8)) m (set_entry pg ?m1 p ?e)"
  proof (rule same_on_trans)
    show "same_on (- (range_of (slot_addr p c i) 2 \<union> range_of (entry_addr pg p) 8)) m ?m1"
      by (rule write_u16_same_on) blast
    show "same_on (- (range_of (slot_addr p c i) 2 \<union> range_of (entry_addr pg p) 8)) ?m1 (set_entry pg ?m1 p ?e)"
      unfolding set_entry_def by (rule write_u64_same_on) blast
  qed
  ultimately show thesis using that free by blast
qed

subsection \<open>Choosing a class\<close>

text \<open>What Rust guarantees of a \<open>Layout\<close>: the alignment is a power of two, and the size rounded up to it fits.\<close>

definition layout_ok :: "layout \<Rightarrow> bool" where
  "layout_ok l \<longleftrightarrow> (\<exists>a < 63. l_align l = 2 ^ a) \<and> l_size l + l_align l \<le> 2 ^ 63"

lemma multiple_of_pow2_dvd:
  assumes "a < 64"
  shows "is_multiple_of_pow2 v (2 ^ a) \<longleftrightarrow> 2 ^ a dvd v"
proof -
  have "is_multiple_of_pow2 v (2 ^ a) \<longleftrightarrow> v AND mask a = 0"
    by (simp add: is_multiple_of_pow2_def usize_sub_small mask_eq_exp_minus_1)
  also have "\<dots> \<longleftrightarrow> v mod 2 ^ a = 0"
    by (simp add: take_bit_eq_mask [symmetric] take_bit_eq_mod)
  finally show ?thesis by (simp add: dvd_eq_mod_eq_0)
qed

lemma class_scan_find:
  "class_scan l (map (\<lambda>i. (i, f i)) xs) = find (\<lambda>i. l_size l \<le> f i \<and> is_multiple_of_pow2 (f i) (l_align l)) xs"
  by (induction xs) auto

lemma class_of_find:
  "class_of l = find (\<lambda>i. l_size l \<le> CLASSES ! i \<and> is_multiple_of_pow2 (CLASSES ! i) (l_align l)) [0..<9]"
proof -
  have "enumerate 0 CLASSES = map (\<lambda>i. (i, CLASSES ! i)) [0..<9]"
    by (rule nth_equalityI) (simp_all add: nth_enumerate_eq)
  then show ?thesis by (simp add: class_of_def class_scan_find del: upt_rec_numeral)
qed

lemma class_fits_iff:
  assumes "layout_ok l" "c < 9"
  shows "l_size l \<le> CLASSES ! c \<and> is_multiple_of_pow2 (CLASSES ! c) (l_align l) \<longleftrightarrow>
    l_size l \<le> class_size c \<and> l_align l \<le> class_size c"
proof -
  obtain a where a: "a < 63" "l_align l = 2 ^ a" using assms(1) by (auto simp: layout_ok_def)
  have "is_multiple_of_pow2 (class_size c) (2 ^ a) \<longleftrightarrow> (2::nat) ^ a dvd 2 ^ (c + 3)"
    using multiple_of_pow2_dvd [of a "class_size c"] a(1) by (simp add: class_size_def)
  also have "\<dots> \<longleftrightarrow> a \<le> c + 3"
    using power_dvd_imp_le [of "2::nat" a "c + 3"] le_imp_power_dvd by auto
  also have "\<dots> \<longleftrightarrow> (2::nat) ^ a \<le> 2 ^ (c + 3)" by (simp del: power_add)
  finally show ?thesis using a assms(2) by (simp add: CLASSES_nth class_size_def)
qed

lemma class_size_mono: "c \<le> d \<Longrightarrow> class_size c \<le> class_size d"
  unfolding class_size_def by (intro power_increasing) auto

lemma class_of_Some:
  assumes l: "layout_ok l" and c: "class_of l = Some c"
  shows "c < 9" and "l_size l \<le> class_size c" and "l_align l \<le> class_size c"
    and "d < c \<Longrightarrow> \<not> (l_size l \<le> class_size d \<and> l_align l \<le> class_size d)"
proof -
  note f = find_upt_Some [OF c [unfolded class_of_find]]
  then show c9: "c < 9" by simp
  show "l_size l \<le> class_size c" "l_align l \<le> class_size c"
    using f class_fits_iff [OF l c9] by simp_all
  show "\<not> (l_size l \<le> class_size d \<and> l_align l \<le> class_size d)" if "d < c"
    using f class_fits_iff [OF l, of d] c9 that by auto
qed

lemma class_of_None:
  assumes l: "layout_ok l"
  shows "class_of l = None \<longleftrightarrow> 2048 < l_size l \<or> 2048 < l_align l"
proof -
  have top: "class_size 8 = 2048" by (simp add: class_size_def)
  have "class_of l = None \<longleftrightarrow> (\<forall>c \<in> {0..<9}. \<not> (l_size l \<le> class_size c \<and> l_align l \<le> class_size c))"
    unfolding class_of_find find_None_iff_all set_upt using class_fits_iff [OF l] by auto
  also have "\<dots> \<longleftrightarrow> \<not> (l_size l \<le> class_size 8 \<and> l_align l \<le> class_size 8)"
  proof
    assume all: "\<forall>c \<in> {0..<9}. \<not> (l_size l \<le> class_size c \<and> l_align l \<le> class_size c)"
    show "\<not> (l_size l \<le> class_size 8 \<and> l_align l \<le> class_size 8)" using all by simp
  next
    assume no: "\<not> (l_size l \<le> class_size 8 \<and> l_align l \<le> class_size 8)"
    show "\<forall>c \<in> {0..<9}. \<not> (l_size l \<le> class_size c \<and> l_align l \<le> class_size c)"
    proof
      fix c :: nat assume "c \<in> {0..<9}"
      then have "class_size c \<le> class_size 8" by (intro class_size_mono) auto
      then show "\<not> (l_size l \<le> class_size c \<and> l_align l \<le> class_size c)" using no by linarith
    qed
  qed
  finally show ?thesis unfolding top by auto
qed

text \<open>\<open>Slab::free\<close> on an arbitrary address: which of its assertions fails.\<close>

lemma slab_free_cases:
  assumes pg: "pages_wf pg" and ok: "slab_ok pg m p c fs nx pv"
  shows "from_addr_down a \<noteq> p \<Longrightarrow> slab_free pg m p a = Inl (AssertFailed ''freeing an object against the wrong page'')"
    and "from_addr_down a = p \<Longrightarrow> \<not> class_size c dvd a mod 4096 \<Longrightarrow>
      slab_free pg m p a = Inl (AssertFailed ''freeing the middle of an object instead of its start'')"
    and "i < slab_slots c \<Longrightarrow> length fs = slab_slots c \<Longrightarrow>
      slab_free pg m p (slot_addr p c i) = Inl (AssertFailed ''freeing an object from a slab that has none in use'')"
    and "i < slab_slots c \<Longrightarrow> length fs < slab_slots c \<Longrightarrow> fs = i # js \<Longrightarrow>
      slab_free pg m p (slot_addr p c i) = Inl (AssertFailed ''freeing the same object twice'')"
proof -
  note d = slab_okD [OF ok]
  note read = pages_read_covered [OF pg d(2), of m, unfolded d(3)]
  have lim: "p < pfn_limit" by (rule covered_limit [OF pg d(2)])
  note pre = slab_free_def read unat_class [OF d(1)] SHIFTS_get [OF d(1)] Let_def
  have count: "(of_nat (slab_slots c - length fs) :: u16) = 0 \<longleftrightarrow> length fs = slab_slots c"
  proof -
    have "slab_slots c - length fs < 65536" using slab_slots_bounds [OF d(1)] by auto
    then show ?thesis using d(7) by (auto simp: word_unat_eq_iff unat_of_nat simp del: of_nat_diff)
  qed
  show "slab_free pg m p a = Inl (AssertFailed ''freeing an object against the wrong page'')" if "from_addr_down a \<noteq> p"
    using that by (simp add: pre)
  show "slab_free pg m p a = Inl (AssertFailed ''freeing the middle of an object instead of its start'')"
    if a: "from_addr_down a = p" "\<not> class_size c dvd a mod 4096"
  proof -
    have "usize_sub a (to_addr p) = a mod 4096"
      using a(1) lim unfolding to_addr_small [OF lim] usize_sub_def from_addr_down_def
      by (simp add: minus_mult_div_eq_mod [symmetric] mult.commute div_times_less_eq_dividend)
    moreover have "usize_shl 1 (c + 3) = 2 ^ (c + 3)"
      using d(1) class_size_bounds [OF d(1)] by (simp add: usize_shl_def class_size_def)
    moreover have "\<not> is_multiple_of_pow2 (a mod 4096) (2 ^ (c + 3))"
      using multiple_of_pow2_dvd [of "c + 3" "a mod 4096"] d(1) a(2) by (simp add: class_size_def del: power_add)
    ultimately show ?thesis using a(1) by (simp add: pre)
  qed
  show "slab_free pg m p (slot_addr p c i) = Inl (AssertFailed ''freeing an object from a slab that has none in use'')"
    if i: "i < slab_slots c" "length fs = slab_slots c"
    using slot_offset [OF lim d(1) i(1)] slab_slots_bounds [OF d(1)] i count slot_roundtrip [of i] by (simp add: pre)
  show "slab_free pg m p (slot_addr p c i) = Inl (AssertFailed ''freeing the same object twice'')"
    if i: "i < slab_slots c" "length fs < slab_slots c" "fs = i # js"
    using slot_offset [OF lim d(1) i(1)] slab_slots_bounds [OF d(1)] i count slot_roundtrip [of i]
    by (simp add: pre slot_head_def)
qed

subsection \<open>Entries read from memory fit\<close>

lemma entry_from_u64_fits: "entry_fits (entry_from_u64 v)"
proof -
  have m: "unat (w AND 0xF) < 16" "unat (w AND 0x3FF) < 1024" "unat (w AND 0x7FFFF) < 524288" for w :: u64
    unfolding field_masks take_bit_eq_mask [symmetric]
    by (simp_all add: unsigned_take_bit_eq take_bit_nat_eq_self_iff order.strict_trans2 [OF take_bit_nat_less_exp])
  have c: "(ucast (w AND 0xF) :: u8) < 16" "(ucast (w AND 0x3FF) :: u16) < 1024"
    "(ucast (w AND 0x7FFFF) :: u32) < 524288" for w :: u64
    using m [of w] by (simp_all add: word_less_nat_alt unsigned_ucast_eq unsigned_take_bit_eq take_bit_nat_eq_self)
  have s: "pred_option (\<lambda>s. s < 1023) (slot_from_raw r)" if "r < 1024" for r
    using that by (auto simp: slot_from_raw_def slot_NONE_eq word_less_nat_alt word_unat_eq_iff)
  have a: "pred_option (\<lambda>i. i < 524287) (arena_index_from_raw r)" if "r < 524288" for r
    using that by (auto simp: arena_index_from_raw_def arena_index_NONE_eq word_less_nat_alt word_unat_eq_iff)
  show ?thesis unfolding entry_from_u64_def using c s a by simp
qed

lemma entry_at_fits: "entry_fits (entry_at pg m p)"
  by (simp add: entry_at_def entry_from_u64_fits)

end
