(* ===== verification/Cache.thy ===== *)
theory Cache
  imports Slab
begin

text \<open>
  The slab caches (\<open>src/src/mm/slab/cache.rs\<close>): per size class a doubly linked list of the slabs that
  have a free slot, threaded through the metadata entries of their pages. The list operations are
  the second instance of \<open>link_store\<close>, over the metadata table.
\<close>

record cache =
  ch_heads :: "slab option list"

definition cache_new :: cache where
  "cache_new = \<lparr>ch_heads = replicate CLASSES_COUNT None\<rparr>"

text \<open>\<open>self.heads[class_idx]\<close>, which panics when out of range.\<close>

definition cache_head :: "cache \<Rightarrow> nat \<Rightarrow> slab option outcome" where
  "cache_head ch c = (if c < length (ch_heads ch) then Inr (ch_heads ch ! c) else Inl IndexOutOfBounds)"

definition cache_set_head :: "cache \<Rightarrow> nat \<Rightarrow> slab option \<Rightarrow> cache outcome" where
  "cache_set_head ch c v =
    (if c < length (ch_heads ch) then Inr (ch\<lparr>ch_heads := (ch_heads ch)[c := v]\<rparr>) else Inl IndexOutOfBounds)"

definition cache_push :: "pages \<Rightarrow> mem \<Rightarrow> cache \<Rightarrow> nat \<Rightarrow> slab \<Rightarrow> (mem \<times> cache) outcome" where
  "cache_push pg m ch class_idx slab =
    obind (cache_head ch class_idx) (\<lambda>old_slab.
    obind (slab_set_next pg m slab old_slab) (\<lambda>m1.
    obind (slab_set_prev pg m1 slab None) (\<lambda>m2.
    obind (case old_slab of
        Some old \<Rightarrow> slab_set_prev pg m2 old (Some slab)
      | None \<Rightarrow> Inr m2) (\<lambda>m3.
    obind (cache_set_head ch class_idx (Some slab)) (\<lambda>ch'.
    Inr (m3, ch'))))))"

definition cache_unlink :: "pages \<Rightarrow> mem \<Rightarrow> cache \<Rightarrow> slab \<Rightarrow> (mem \<times> cache) outcome" where
  "cache_unlink pg m ch slab =
    obind (slab_class_idx pg m slab) (\<lambda>class_idx.
    obind (slab_links pg m slab) (\<lambda>(next, prev).
    obind (case prev of
        Some prev_slab \<Rightarrow> obind (slab_set_next pg m prev_slab next) (\<lambda>m'. Inr (m', ch))
      | None \<Rightarrow>
          obind (cache_head ch class_idx) (\<lambda>h.
          obind (assert_that ''slab is not on its class list'' (h = Some slab)) (\<lambda>_.
          obind (cache_set_head ch class_idx next) (\<lambda>ch'. Inr (m, ch'))))) (\<lambda>(m1, ch1).
    obind (case next of
        Some next_slab \<Rightarrow> slab_set_prev pg m1 next_slab prev
      | None \<Rightarrow> Inr m1) (\<lambda>m2.
    obind (slab_set_next pg m2 slab None) (\<lambda>m3.
    obind (slab_set_prev pg m3 slab None) (\<lambda>m4.
    Inr (m4, ch1)))))))"

definition cache_pop :: "pages \<Rightarrow> mem \<Rightarrow> cache \<Rightarrow> nat \<Rightarrow> (mem \<times> cache) outcome" where
  "cache_pop pg m ch class_idx =
    obind (cache_head ch class_idx) (\<lambda>h.
    obind (expect ''popping a class with no partial slab'' h) (\<lambda>head.
    cache_unlink pg m ch head))"

text \<open>
  \<open>alloc\<close> in two parts: finding the slab (\<open>match self.heads.get(class_idx)?\<close>, with the early
  \<open>None\<close> of each \<open>?\<close>), and taking a slot of it.
\<close>

definition cache_slab :: "pages \<Rightarrow> mem \<Rightarrow> frames \<Rightarrow> cache \<Rightarrow> nat \<Rightarrow> (mem \<times> frames \<times> cache \<times> slab option) outcome" where
  "cache_slab pg m fr ch class_idx =
    (case get (ch_heads ch) class_idx of
       None \<Rightarrow> Inr (m, fr, ch, None)
     | Some (Some slab) \<Rightarrow> Inr (m, fr, ch, Some slab)
     | Some None \<Rightarrow>
         obind (frames_alloc m pg fr 0) (\<lambda>(m1, fr1, page_pfn).
         case page_pfn of
           None \<Rightarrow> Inr (m1, fr1, ch, None)
         | Some p \<Rightarrow>
             obind (slab_init pg m1 p class_idx) (\<lambda>(m2, made).
             case made of
               None \<Rightarrow> Inr (m2, fr1, ch, None)
             | Some slab \<Rightarrow>
                 obind (cache_set_head ch class_idx (Some slab)) (\<lambda>ch1.
                 Inr (m2, fr1, ch1, Some slab)))))"

definition cache_take :: "pages \<Rightarrow> mem \<Rightarrow> cache \<Rightarrow> nat \<Rightarrow> slab \<Rightarrow> (mem \<times> cache \<times> usize option) outcome" where
  "cache_take pg m ch class_idx slab =
    obind (slab_alloc pg m slab) (\<lambda>(m1, address).
    case address of
      None \<Rightarrow> Inr (m1, ch, None)
    | Some a \<Rightarrow>
        obind (slab_is_full pg m1 slab) (\<lambda>full.
        obind (if full then cache_pop pg m1 ch class_idx else Inr (m1, ch)) (\<lambda>(m2, ch2).
        Inr (m2, ch2, Some a))))"

definition cache_alloc :: "pages \<Rightarrow> mem \<Rightarrow> frames \<Rightarrow> cache \<Rightarrow> nat \<Rightarrow> (mem \<times> frames \<times> cache \<times> usize option) outcome" where
  "cache_alloc pg m fr ch class_idx =
    obind (cache_slab pg m fr ch class_idx) (\<lambda>(m1, fr1, ch1, found).
    case found of
      None \<Rightarrow> Inr (m1, fr1, ch1, None)
    | Some slab \<Rightarrow>
        obind (cache_take pg m1 ch1 class_idx slab) (\<lambda>(m2, ch2, address).
        Inr (m2, fr1, ch2, address)))"

definition cache_free :: "pages \<Rightarrow> mem \<Rightarrow> frames \<Rightarrow> cache \<Rightarrow> usize \<Rightarrow> (mem \<times> frames \<times> cache) outcome" where
  "cache_free pg m fr ch address =
    obind (slab_from_addr pg m address) (\<lambda>found.
    obind (expect ''Cache::free: slab not found'' found) (\<lambda>slab.
    obind (slab_class_idx pg m slab) (\<lambda>class_idx.
    obind (slab_is_full pg m slab) (\<lambda>was_full.
    obind (slab_free pg m slab address) (\<lambda>m1.
    obind (if was_full then cache_push pg m1 ch class_idx slab else Inr (m1, ch)) (\<lambda>(m2, ch2).
    obind (slab_is_empty pg m2 slab) (\<lambda>empty.
    if empty then
      obind (cache_unlink pg m2 ch2 slab) (\<lambda>(m3, ch3).
      obind (frames_free m3 pg fr slab) (\<lambda>(m4, fr4).
      Inr (m4, fr4, ch3)))
    else Inr (m2, fr, ch2))))))))"

subsection \<open>The links of the metadata entries\<close>

definition entry_next :: "pages \<Rightarrow> entry \<Rightarrow> pfn option" where
  "entry_next pg e = (case e of Buddy _ _ \<Rightarrow> None | Slab _ _ _ nx _ \<Rightarrow> map_option (pfn_of pg) nx)"

definition entry_prev :: "pages \<Rightarrow> entry \<Rightarrow> pfn option" where
  "entry_prev pg e = (case e of Buddy _ _ \<Rightarrow> None | Slab _ _ _ _ pv \<Rightarrow> map_option (pfn_of pg) pv)"

interpretation elinks: link_store "entry_at pg" "set_entry pg" "\<lambda>p. p \<in> covered pg" entry_fits
    "entry_next pg" "entry_prev pg"
  for pg :: pages
  by unfold_locales

text \<open>What an entry says besides its links.\<close>

definition entry_body :: "entry \<Rightarrow> bool \<times> u8 + u8 \<times> slot option \<times> u16" where
  "entry_body e = (case e of Buddy f k \<Rightarrow> Inl (f, k) | Slab c h u _ _ \<Rightarrow> Inr (c, h, u))"

definition is_slab :: "entry \<Rightarrow> bool" where
  "is_slab e = (case e of Buddy _ _ \<Rightarrow> False | Slab _ _ _ _ _ \<Rightarrow> True)"

lemma is_slab_body: "entry_body e = entry_body e' \<Longrightarrow> is_slab e = is_slab e'"
  by (simp add: entry_body_def is_slab_def split: entry.splits)

definition relink_next :: "pages \<Rightarrow> entry \<Rightarrow> pfn option \<Rightarrow> entry" where
  "relink_next pg e v = (case e of Buddy f k \<Rightarrow> Buddy f k
    | Slab c h u _ pv \<Rightarrow> Slab c h u (map_option (index_of pg) v) pv)"

definition relink_prev :: "pages \<Rightarrow> entry \<Rightarrow> pfn option \<Rightarrow> entry" where
  "relink_prev pg e v = (case e of Buddy f k \<Rightarrow> Buddy f k
    | Slab c h u nx _ \<Rightarrow> Slab c h u nx (map_option (index_of pg) v))"

definition link_ok :: "pages \<Rightarrow> pfn option \<Rightarrow> bool" where
  "link_ok pg v \<longleftrightarrow> pred_option (\<lambda>p. p \<in> covered pg) v"

lemma index_of_ok: "pages_wf pg \<Longrightarrow> link_ok pg v \<Longrightarrow>
    pred_option (\<lambda>i. i < 524287) (map_option (index_of pg) v)
    \<and> map_option (pfn_of pg) (map_option (index_of pg) v) = v"
  using index_pfn_roundtrip by (cases v) (auto simp: link_ok_def)

lemma relink_next_props:
  assumes "pages_wf pg" "link_ok pg v" "is_slab e" "entry_fits e"
  shows "entry_fits (relink_next pg e v)" "entry_next pg (relink_next pg e v) = v"
    "entry_prev pg (relink_next pg e v) = entry_prev pg e" "entry_body (relink_next pg e v) = entry_body e"
    "is_slab (relink_next pg e v)"
  using assms index_of_ok [OF assms(1,2)]
  by (auto simp: relink_next_def entry_next_def entry_prev_def entry_body_def is_slab_def split: entry.splits)

lemma relink_prev_props:
  assumes "pages_wf pg" "link_ok pg v" "is_slab e" "entry_fits e"
  shows "entry_fits (relink_prev pg e v)" "entry_prev pg (relink_prev pg e v) = v"
    "entry_next pg (relink_prev pg e v) = entry_next pg e" "entry_body (relink_prev pg e v) = entry_body e"
    "is_slab (relink_prev pg e v)"
  using assms index_of_ok [OF assms(1,2)]
  by (auto simp: relink_prev_def entry_next_def entry_prev_def entry_body_def is_slab_def split: entry.splits)

lemma slab_set_next_eq:
  assumes "pages_wf pg" "p \<in> covered pg" "is_slab (entry_at pg m p)"
  shows "slab_set_next pg m p v = Inr (set_entry pg m p (relink_next pg (entry_at pg m p) v))"
  using assms
  by (auto simp: slab_set_next_def pages_read_covered pages_write_covered relink_next_def is_slab_def
      split: entry.splits)

lemma slab_set_prev_eq:
  assumes "pages_wf pg" "p \<in> covered pg" "is_slab (entry_at pg m p)"
  shows "slab_set_prev pg m p v = Inr (set_entry pg m p (relink_prev pg (entry_at pg m p) v))"
  using assms
  by (auto simp: slab_set_prev_def pages_read_covered pages_write_covered relink_prev_def is_slab_def
      split: entry.splits)

text \<open>Memory changed in the links of some entries only.\<close>

definition relinked :: "pages \<Rightarrow> mem \<Rightarrow> mem \<Rightarrow> bool" where
  "relinked pg m m' \<longleftrightarrow> same_on (- meta_bytes pg) m m'
    \<and> (\<forall>p \<in> covered pg. entry_body (entry_at pg m' p) = entry_body (entry_at pg m p))"

lemma relinked_refl [simp]: "relinked pg m m"
  by (simp add: relinked_def)

lemma relinked_trans: "relinked pg m m' \<Longrightarrow> relinked pg m' m'' \<Longrightarrow> relinked pg m m''"
  by (auto simp: relinked_def intro: same_on_trans)

lemma relinked_is_slab: "relinked pg m m' \<Longrightarrow> p \<in> covered pg \<Longrightarrow> is_slab (entry_at pg m' p) = is_slab (entry_at pg m p)"
  unfolding relinked_def using is_slab_body by blast

lemma relinked_set_entry:
  assumes "p \<in> covered pg" "entry_fits e" "entry_body e = entry_body (entry_at pg m p)"
  shows "relinked pg m (set_entry pg m p e)"
  unfolding relinked_def
proof (intro conjI ballI)
  show "same_on (- meta_bytes pg) m (set_entry pg m p e)" using assms(1) by (rule set_entry_bytes)
  show "entry_body (entry_at pg (set_entry pg m p e) q) = entry_body (entry_at pg m q)" if "q \<in> covered pg" for q
    using assms entries.rd_wr [OF assms(1) that assms(2), of m] by auto
qed

subsection \<open>Pushing and unlinking\<close>

lemma chain_slabs_head: "elinks.chain pg m h xs \<Longrightarrow> link_ok pg h"
  using elinks.chain_head [of pg m h xs] by (cases xs) (auto simp: link_ok_def elinks.chain_def)

lemma cache_push_ok:
  assumes pg: "pages_wf pg" and q: "q \<in> covered pg" "is_slab (entry_at pg m q)" "q \<notin> set xs"
    and c: "c < length (ch_heads ch)" and chain: "elinks.chain pg m (ch_heads ch ! c) xs"
    and slabs: "\<And>x. x \<in> set xs \<Longrightarrow> is_slab (entry_at pg m x)"
  obtains m' where "cache_push pg m ch c q = Inr (m', ch\<lparr>ch_heads := (ch_heads ch)[c := Some q]\<rparr>)"
    and "relinked pg m m'" and "elinks.chain pg m' (Some q) (q # xs)"
    and "\<forall>x \<in> covered pg - set (q # xs). entry_at pg m' x = entry_at pg m x"
proof -
  let ?old = "ch_heads ch ! c"
  define e1 where "e1 = relink_next pg (entry_at pg m q) ?old"
  define m1 where "m1 = set_entry pg m q e1"
  define e2 where "e2 = relink_prev pg e1 None"
  define m2 where "m2 = set_entry pg m1 q e2"
  have none: "link_ok pg None" and some: "link_ok pg (Some q)" using q(1) by (simp_all add: link_ok_def)
  note e1p = relink_next_props [OF pg chain_slabs_head [OF chain] q(2) entry_at_fits, folded e1_def]
  note e2p = relink_prev_props [OF pg none e1p(5,1), folded e2_def]
  have m1q: "entry_at pg m1 q = e1" unfolding m1_def by (rule entries.rd_wr_same [OF q(1) e1p(1)])
  have m2q: "entry_at pg m2 q = e2" unfolding m2_def by (rule entries.rd_wr_same [OF q(1) e2p(1)])
  have m2x: "entry_at pg m2 x = entry_at pg m x" "entry_at pg m1 x = entry_at pg m x"
    if "x \<in> covered pg" "x \<noteq> q" for x
    using that entries.rd_wr_other [OF q(1)] by (simp_all add: m1_def m2_def)
  have step1: "slab_set_next pg m q ?old = Inr m1"
    unfolding m1_def e1_def by (rule slab_set_next_eq [OF pg q(1,2)])
  have step2: "slab_set_prev pg m1 q None = Inr m2"
    using slab_set_prev_eq [OF pg q(1), of m1 None] e1p(5) by (simp add: m1q m2_def e2_def)
  have r1: "relinked pg m m1" unfolding m1_def by (rule relinked_set_entry [OF q(1) e1p(1,4)])
  have r2: "relinked pg m1 m2"
    unfolding m2_def by (rule relinked_set_entry [OF q(1) e2p(1)]) (simp add: m1q e2p(4))
  have chain1: "elinks.chain pg m1 ?old xs"
  proof -
    have "entry_at pg m1 x = entry_at pg m x" if "x \<in> set xs" for x
      using that chain q(3) m2x(2) by (auto simp: elinks.chain_def)
    then show ?thesis using chain elinks.chain_cong [of xs pg m1 m ?old] by simp
  qed
  show thesis
  proof (cases ?old)
    case None
    then have "xs = []" using elinks.chain_head [OF chain] by (simp split: if_splits)
    moreover have "elinks.chain pg m2 (Some q) [q]"
      unfolding m2_def using q(1) e2p e1p None by (intro elinks.chain_push_empty) simp_all
    moreover have "cache_push pg m ch c q = Inr (m2, ch\<lparr>ch_heads := (ch_heads ch)[c := Some q]\<rparr>)"
      using c step1 step2 None by (simp add: cache_push_def cache_head_def cache_set_head_def)
    ultimately show thesis
      using that [of m2] relinked_trans [OF r1 r2] m2x by auto
  next
    case (Some h)
    have h: "h \<in> set xs" using elinks.chain_head [OF chain] Some by (auto split: if_splits)
    then have hc: "h \<in> covered pg" and hq: "h \<noteq> q" using chain q(3) by (auto simp: elinks.chain_def)
    have hs: "is_slab (entry_at pg m2 h)" using slabs [OF h] m2x [OF hc hq] by simp
    define e3 where "e3 = relink_prev pg (entry_at pg m2 h) (Some q)"
    define m3 where "m3 = set_entry pg m2 h e3"
    note e3p = relink_prev_props [OF pg some hs entry_at_fits, folded e3_def]
    have step3: "slab_set_prev pg m2 h (Some q) = Inr m3"
      unfolding m3_def e3_def by (rule slab_set_prev_eq [OF pg hc hs])
    have r3: "relinked pg m2 m3" unfolding m3_def by (rule relinked_set_entry [OF hc e3p(1,4)])
    have "elinks.chain pg m3 (Some q) (q # xs)"
      unfolding m3_def m2_def
      using chain1 q(1,3) e2p e1p e3p m2x [OF hc hq] Some by (intro elinks.chain_push) simp_all
    moreover have "cache_push pg m ch c q = Inr (m3, ch\<lparr>ch_heads := (ch_heads ch)[c := Some q]\<rparr>)"
      using c step1 step2 step3 Some by (simp add: cache_push_def cache_head_def cache_set_head_def)
    moreover have "entry_at pg m3 x = entry_at pg m x" if "x \<in> covered pg" "x \<notin> set (q # xs)" for x
    proof -
      have "x \<noteq> h" using that h by auto
      then show ?thesis
        using that m2x [of x] entries.rd_wr_other [OF hc that(1), of m2 e3] by (simp add: m3_def)
    qed
    ultimately show thesis
      using that [of m3] relinked_trans [OF relinked_trans [OF r1 r2] r3] by auto
  qed
qed

lemma slab_link_eq:
  assumes "pages_wf pg" "map_option (pfn_of pg) i = v" "\<And>x. v = Some x \<Longrightarrow> x \<in> covered pg \<and> is_slab (entry_at pg m x)"
  shows "slab_link pg m i = Inr v"
  using assms
  by (auto simp: slab_link_def slab_at_def pages_read_covered is_slab_def split: option.splits entry.splits)

lemma slab_links_eq:
  assumes pg: "pages_wf pg" and q: "q \<in> covered pg" "is_slab (entry_at pg m q)"
    and nx: "\<And>x. entry_next pg (entry_at pg m q) = Some x \<Longrightarrow> x \<in> covered pg \<and> is_slab (entry_at pg m x)"
    and pv: "\<And>x. entry_prev pg (entry_at pg m q) = Some x \<Longrightarrow> x \<in> covered pg \<and> is_slab (entry_at pg m x)"
  shows "slab_links pg m q = Inr (entry_next pg (entry_at pg m q), entry_prev pg (entry_at pg m q))"
proof (cases "entry_at pg m q")
  case (Slab c h u ni pi)
  have "slab_link pg m ni = Inr (entry_next pg (entry_at pg m q))"
    by (rule slab_link_eq [OF pg _ nx]) (simp_all add: Slab entry_next_def)
  moreover have "slab_link pg m pi = Inr (entry_prev pg (entry_at pg m q))"
    by (rule slab_link_eq [OF pg _ pv]) (simp_all add: Slab entry_prev_def)
  ultimately show ?thesis using pg q(1) Slab by (simp add: slab_links_def pages_read_covered)
qed (use q in \<open>simp add: is_slab_def\<close>)

text \<open>
  The writes of \<open>unlink\<close>: the previous slab's next, the next slab's previous, then the slab's own links.
\<close>

lemma unlink_writes:
  assumes pg: "pages_wf pg" and q: "q \<in> covered pg" "is_slab (entry_at pg m q)"
    and pv: "\<And>x. pv = Some x \<Longrightarrow> x \<in> covered pg \<and> is_slab (entry_at pg m x) \<and> x \<noteq> q"
    and nx: "\<And>x. nx = Some x \<Longrightarrow> x \<in> covered pg \<and> is_slab (entry_at pg m x) \<and> x \<noteq> q"
  obtains m1 m2 m3 m4 where
    "(case pv of Some x \<Rightarrow> slab_set_next pg m x nx | None \<Rightarrow> Inr m) = Inr m1"
    "(case nx of Some x \<Rightarrow> slab_set_prev pg m1 x pv | None \<Rightarrow> Inr m1) = Inr m2"
    "slab_set_next pg m2 q None = Inr m3" "slab_set_prev pg m3 q None = Inr m4"
    "relinked pg m m4"
    "\<forall>x \<in> covered pg - {q}.
      entry_next pg (entry_at pg m4 x) = (if pv = Some x then nx else entry_next pg (entry_at pg m x))
      \<and> entry_prev pg (entry_at pg m4 x) = (if nx = Some x then pv else entry_prev pg (entry_at pg m x))"
    "\<forall>x \<in> covered pg - {q}. pv \<noteq> Some x \<longrightarrow> nx \<noteq> Some x \<longrightarrow> entry_at pg m4 x = entry_at pg m x"
proof -
  have ok: "link_ok pg pv" "link_ok pg nx" "link_ok pg None"
    using pv nx by (cases pv; cases nx; simp add: link_ok_def)+
  define ep where "ep = (\<lambda>x. relink_next pg (entry_at pg m x) nx)"
  define m1 where "m1 = (case pv of Some x \<Rightarrow> set_entry pg m x (ep x) | None \<Rightarrow> m)"
  have epp: "entry_fits (ep x) \<and> entry_next pg (ep x) = nx \<and> entry_prev pg (ep x) = entry_prev pg (entry_at pg m x)
      \<and> entry_body (ep x) = entry_body (entry_at pg m x) \<and> is_slab (ep x)" if "pv = Some x" for x
    unfolding ep_def using relink_next_props [OF pg ok(2)] pv [OF that] entry_at_fits by blast
  have s1: "(case pv of Some x \<Rightarrow> slab_set_next pg m x nx | None \<Rightarrow> Inr m) = Inr m1"
    using pv slab_set_next_eq [OF pg] by (auto simp: m1_def ep_def split: option.splits)
  have r1: "relinked pg m m1"
    using pv epp by (auto simp: m1_def split: option.splits intro: relinked_set_entry)
  have a1: "entry_at pg m1 x = (if pv = Some x then ep x else entry_at pg m x)" if "x \<in> covered pg" for x
    using that pv epp entries.rd_wr [of _ pg x _ m] by (auto simp: m1_def split: option.splits)
  define en where "en = (\<lambda>x. relink_prev pg (entry_at pg m1 x) pv)"
  define m2 where "m2 = (case nx of Some x \<Rightarrow> set_entry pg m1 x (en x) | None \<Rightarrow> m1)"
  have nx1: "x \<in> covered pg \<and> is_slab (entry_at pg m1 x) \<and> x \<noteq> q" if "nx = Some x" for x
    using nx [OF that] relinked_is_slab [OF r1] by blast
  have enp: "entry_fits (en x) \<and> entry_prev pg (en x) = pv \<and> entry_next pg (en x) = entry_next pg (entry_at pg m1 x)
      \<and> entry_body (en x) = entry_body (entry_at pg m1 x) \<and> is_slab (en x)" if "nx = Some x" for x
    unfolding en_def using relink_prev_props [OF pg ok(1)] nx1 [OF that] entry_at_fits by blast
  have s2: "(case nx of Some x \<Rightarrow> slab_set_prev pg m1 x pv | None \<Rightarrow> Inr m1) = Inr m2"
    using nx1 slab_set_prev_eq [OF pg] by (auto simp: m2_def en_def split: option.splits)
  have r2: "relinked pg m1 m2"
    using nx1 enp by (auto simp: m2_def split: option.splits intro: relinked_set_entry)
  have a2: "entry_at pg m2 x = (if nx = Some x then en x else entry_at pg m1 x)" if "x \<in> covered pg" for x
    using that nx1 enp entries.rd_wr [of _ pg x _ m1] by (auto simp: m2_def split: option.splits)
  have q2: "is_slab (entry_at pg m2 q)" using q relinked_is_slab [OF relinked_trans [OF r1 r2]] by blast
  define m3 where "m3 = set_entry pg m2 q (relink_next pg (entry_at pg m2 q) None)"
  note e3 = relink_next_props [OF pg ok(3) q2 entry_at_fits]
  have s3: "slab_set_next pg m2 q None = Inr m3" unfolding m3_def by (rule slab_set_next_eq [OF pg q(1) q2])
  have r3: "relinked pg m2 m3" unfolding m3_def by (rule relinked_set_entry [OF q(1) e3(1,4)])
  have q3: "is_slab (entry_at pg m3 q)" using q(1) q2 relinked_is_slab [OF r3] by blast
  define m4 where "m4 = set_entry pg m3 q (relink_prev pg (entry_at pg m3 q) None)"
  note e4 = relink_prev_props [OF pg ok(3) q3 entry_at_fits]
  have s4: "slab_set_prev pg m3 q None = Inr m4" unfolding m4_def by (rule slab_set_prev_eq [OF pg q(1) q3])
  have r4: "relinked pg m3 m4" unfolding m4_def by (rule relinked_set_entry [OF q(1) e4(1,4)])
  have a4: "entry_at pg m4 x = entry_at pg m2 x" if "x \<in> covered pg" "x \<noteq> q" for x
    unfolding m4_def m3_def using that q(1) by (simp add: entries.rd_wr_other)
  show thesis
  proof (rule that [OF s1 s2 s3 s4])
    show "relinked pg m m4" by (blast intro: relinked_trans r1 r2 r3 r4)
    show "\<forall>x \<in> covered pg - {q}.
      entry_next pg (entry_at pg m4 x) = (if pv = Some x then nx else entry_next pg (entry_at pg m x))
      \<and> entry_prev pg (entry_at pg m4 x) = (if nx = Some x then pv else entry_prev pg (entry_at pg m x))"
    proof
      fix x assume "x \<in> covered pg - {q}"
      then have x: "x \<in> covered pg" "x \<noteq> q" by simp_all
      have p1: "entry_prev pg (entry_at pg m1 x) = entry_prev pg (entry_at pg m x)"
        using a1 [OF x(1)] epp [of x] by simp
      show "entry_next pg (entry_at pg m4 x) = (if pv = Some x then nx else entry_next pg (entry_at pg m x))
        \<and> entry_prev pg (entry_at pg m4 x) = (if nx = Some x then pv else entry_prev pg (entry_at pg m x))"
        using a4 [OF x] a2 [OF x(1)] a1 [OF x(1)] enp [of x] epp [of x] p1 by auto
    qed
    show "\<forall>x \<in> covered pg - {q}. pv \<noteq> Some x \<longrightarrow> nx \<noteq> Some x \<longrightarrow> entry_at pg m4 x = entry_at pg m x"
      using a4 a2 a1 by simp
  qed
qed

lemma cache_unlink_ok:
  assumes pg: "pages_wf pg" and c: "c < length (ch_heads ch)" "slab_class_idx pg m q = Inr c"
    and chain: "elinks.chain pg m (ch_heads ch ! c) xs" and q: "q \<in> set xs"
    and slabs: "\<And>x. x \<in> set xs \<Longrightarrow> is_slab (entry_at pg m x)"
  obtains m' h where "cache_unlink pg m ch q = Inr (m', ch\<lparr>ch_heads := (ch_heads ch)[c := h]\<rparr>)"
    and "relinked pg m m'" and "elinks.chain pg m' h (remove1 q xs)"
    and "\<forall>x \<in> covered pg - set xs. entry_at pg m' x = entry_at pg m x"
proof -
  obtain as bs where split: "xs = as @ q # bs" using q by (meson split_list)
  let ?nx = "entry_next pg (entry_at pg m q)" and ?pv = "entry_prev pg (entry_at pg m q)"
  note ch' = chain [unfolded split]
  have dist: "distinct (as @ q # bs)" using ch' by (simp add: elinks.chain_def)
  have rem: "remove1 q xs = as @ bs" using dist by (simp add: split remove1_append)
  have cov: "x \<in> covered pg" if "x \<in> set xs" for x using chain that by (simp add: elinks.chain_def)
  have pvin: "x \<in> set as" if "?pv = Some x" for x using elinks.chain_neighbours(1) [OF ch' that] .
  have nxin: "x \<in> set bs" if "?nx = Some x" for x using elinks.chain_neighbours(2) [OF ch' that] .
  have pvok: "x \<in> covered pg \<and> is_slab (entry_at pg m x) \<and> x \<noteq> q" if "?pv = Some x" for x
    using pvin [OF that] cov slabs dist split by auto
  have nxok: "x \<in> covered pg \<and> is_slab (entry_at pg m x) \<and> x \<noteq> q" if "?nx = Some x" for x
    using nxin [OF that] cov slabs dist split by auto
  have links: "slab_links pg m q = Inr (?nx, ?pv)"
    by (rule slab_links_eq [OF pg cov [OF q] slabs [OF q]]) (use nxok pvok in blast)+
  obtain m1 m2 m3 m4 where w:
    "(case ?pv of Some x \<Rightarrow> slab_set_next pg m x ?nx | None \<Rightarrow> Inr m) = Inr m1"
    "(case ?nx of Some x \<Rightarrow> slab_set_prev pg m1 x ?pv | None \<Rightarrow> Inr m1) = Inr m2"
    "slab_set_next pg m2 q None = Inr m3" "slab_set_prev pg m3 q None = Inr m4"
    and rel: "relinked pg m m4"
    and upd: "\<forall>x \<in> covered pg - {q}.
      entry_next pg (entry_at pg m4 x) = (if ?pv = Some x then ?nx else entry_next pg (entry_at pg m x))
      \<and> entry_prev pg (entry_at pg m4 x) = (if ?nx = Some x then ?pv else entry_prev pg (entry_at pg m x))"
    and same: "\<forall>x \<in> covered pg - {q}. ?pv \<noteq> Some x \<longrightarrow> ?nx \<noteq> Some x \<longrightarrow>
      entry_at pg m4 x = entry_at pg m x"
  proof (rule unlink_writes [OF pg cov [OF q] slabs [OF q], of ?pv ?nx], goal_cases)
    case (3 m1 m2 m3 m4)
    show ?case by (rule 3(1) [OF 3(2-8)])
  qed (use pvok nxok in blast)+
  let ?h = "if ?pv = None then ?nx else ch_heads ch ! c"
  have "elinks.chain pg m4 ?h (as @ bs)"
  proof (rule elinks.chain_unlink [OF ch'])
    fix x assume "x \<in> set (as @ bs)"
    then have "x \<in> covered pg - {q}" using cov split dist by auto
    then show "entry_next pg (entry_at pg m4 x) = (if ?pv = Some x then ?nx else entry_next pg (entry_at pg m x))"
      "entry_prev pg (entry_at pg m4 x) = (if ?nx = Some x then ?pv else entry_prev pg (entry_at pg m x))"
      using upd by blast+
  qed
  moreover have "cache_unlink pg m ch q = Inr (m4, ch\<lparr>ch_heads := (ch_heads ch)[c := ?h]\<rparr>)"
  proof (cases ?pv)
    case None
    then have "as = []" using elinks.chain_links(1) [OF ch'] by (simp split: if_splits)
    then have "ch_heads ch ! c = Some q" using elinks.chain_head [OF ch'] by simp
    then show ?thesis
      using c links [unfolded None] w [unfolded None] None
      by (simp add: cache_unlink_def cache_head_def cache_set_head_def)
  next
    case (Some x)
    have "ch = ch\<lparr>ch_heads := (ch_heads ch)[c := ch_heads ch ! c]\<rparr>" by simp
    then show ?thesis using c links [unfolded Some] w [unfolded Some] Some by (simp add: cache_unlink_def)
  qed
  moreover have "entry_at pg m4 x = entry_at pg m x" if "x \<in> covered pg" "x \<notin> set xs" for x
    using that same pvin nxin split q by auto
  ultimately show thesis using that [of m4 ?h] rel rem by simp
qed

end
