(* ===== verification/CacheCorrect.thy ===== *)
theory CacheCorrect
  imports Cache
begin

text \<open>
  Correctness of the slab caches on top of the buddy allocator. The state is described by the blocks
  \<open>B\<close> handed out by the buddy allocator, the slabs \<open>S\<close> with the class and the free slots of each, and
  the lists \<open>P\<close> of partial slabs per class. Every step of \<open>Cache::alloc\<close> and \<open>Cache::free\<close> preserves the
  invariant \<open>heap_core\<close>, and none changes a byte of a live object.
\<close>

subsection \<open>Changing the entries of allocated pages\<close>

lemma frames_inv_entries:
  assumes inv: "frames_inv m pg fr L A" and bytes: "same_on (bytes_of (free_pages L)) m m'"
    and sim: "\<And>p. p \<in> covered pg \<Longrightarrow> entry_body (entry_at pg m' p) = entry_body (entry_at pg m p)
      \<or> (\<exists>k. (p, k) \<in> A \<and> owned_entry (entry_at pg m' p) k)"
  shows "frames_inv m' pg fr L A"
proof -
  have c: "frames_core m pg fr L A {}" and co: "coalesced L" using inv by (simp_all add: frames_inv_def)
  have body_free: "entry_body e = entry_body e' \<Longrightarrow> free_entry e = free_entry e'"
    and body_owned: "entry_body e = entry_body e' \<Longrightarrow> owned_entry e k = owned_entry e' k"
    and body_buddy: "entry_body e = entry_body (Buddy f j) \<Longrightarrow> e = Buddy f j" for e e' k f j
    by (cases e; cases e'; simp add: entry_body_def)+
  have cov: "fst b \<in> covered pg" if "b \<in> free_blocks L \<union> A" for b
    using frames_coreD(3) [OF c, of b] that block_okD(3) [of pg "fst b" "snd b"] by auto
  have same_start: "b = b'" if "b \<in> free_blocks L \<union> A" "b' \<in> free_blocks L \<union> A" "fst b = fst b'" for b b'
    using disjoint_blocks_fst [OF frames_coreD(4) [OF c]] that by auto
  have free: "entry_at pg m' (fst b) = Buddy True (of_nat (snd b))" if b: "b \<in> free_blocks L" for b
  proof -
    have "\<not> (\<exists>k. (fst b, k) \<in> A)"
    proof
      assume "\<exists>k. (fst b, k) \<in> A"
      then obtain k where "(fst b, k) \<in> A" by blast
      then have "b \<in> A" using same_start [of b "(fst b, k)"] b by auto
      then show False using b frames_coreD(5) [OF c] by blast
    qed
    then have "entry_body (entry_at pg m' (fst b)) = entry_body (entry_at pg m (fst b))"
      using sim [of "fst b"] cov [of b] b by blast
    then show ?thesis using frames_coreD(8) [OF c b] body_buddy by simp
  qed
  have owned: "owned_entry (entry_at pg m' (fst b)) (snd b)" if b: "b \<in> A" for b
  proof -
    have "b \<in> free_blocks L \<union> A" using b by blast
    from sim [OF cov [OF this]] show ?thesis
  proof
    assume "entry_body (entry_at pg m' (fst b)) = entry_body (entry_at pg m (fst b))"
    then show ?thesis using frames_coreD(9) [OF c b] body_owned by blast
  next
    assume "\<exists>k. (fst b, k) \<in> A \<and> owned_entry (entry_at pg m' (fst b)) k"
    then obtain k where k: "(fst b, k) \<in> A" "owned_entry (entry_at pg m' (fst b)) k" by blast
    then have "b = (fst b, k)" using same_start [of b "(fst b, k)"] b by auto
    then show ?thesis using k(2) by (metis snd_conv)
  qed
  qed
  have unheld: "\<not> free_entry (entry_at pg m' p)" if p: "p \<in> covered pg - pages_in (free_blocks L \<union> A \<union> {})" for p
  proof -
    have "(p, k) \<notin> A" for k
    proof
      assume "(p, k) \<in> A"
      then have "p \<in> pages_in (free_blocks L \<union> A \<union> {})" using block_nonempty unfolding in_pages_in by blast
      then show False using p by blast
    qed
    then have "entry_body (entry_at pg m' p) = entry_body (entry_at pg m p)" using sim [of p] p by blast
    moreover have "\<not> free_entry (entry_at pg m p)" using frames_coreD(10) [OF c, of p] p by blast
    ultimately show ?thesis using body_free by blast
  qed
  have "bytes_of (heads_set L) \<subseteq> bytes_of (free_pages L)" using heads_set_free_pages [of L] by auto
  then have "fl_inv m' (fr_lists fr) L"
    using fl_inv_same_on [OF frames_coreD(2) [OF c]] same_on_subset [OF bytes] by blast
  then have "frames_core m' pg fr L A {}"
    unfolding frames_core_def
    by (intro conjI ballI free owned unheld frames_coreD [OF c])
  then show ?thesis using co by (simp add: frames_inv_def)
qed

lemma relinked_frames_inv:
  assumes "frames_inv m pg fr L A" "relinked pg m m'"
  shows "frames_inv m' pg fr L A"
proof (rule frames_inv_entries [OF assms(1)])
  have "frames_core m pg fr L A {}" using assms(1) by (simp add: frames_inv_def)
  then have "bytes_of (free_pages L) \<inter> meta_bytes pg = {}" by (rule free_bytes_meta)
  then show "same_on (bytes_of (free_pages L)) m m'"
    using assms(2) by (auto simp: relinked_def intro: same_on_subset)
qed (use assms(2) in \<open>auto simp: relinked_def\<close>)

subsection \<open>The state of the caches\<close>

type_synonym slabs = "pfn \<Rightarrow> (nat \<times> nat list) option"

definition slab_blocks :: "slabs \<Rightarrow> blk set" where
  "slab_blocks S = {(p, k). p \<in> dom S \<and> k = 0}"

definition slab_state :: "pages \<Rightarrow> mem \<Rightarrow> pfn \<Rightarrow> nat \<Rightarrow> nat list \<Rightarrow> bool" where
  "slab_state pg m p c fs \<longleftrightarrow> (\<exists>nx pv. slab_ok pg m p c fs nx pv)"

definition cache_core :: "pages \<Rightarrow> mem \<Rightarrow> cache \<Rightarrow> slabs \<Rightarrow> (nat \<Rightarrow> slab list) \<Rightarrow> bool" where
  "cache_core pg m ch S P \<longleftrightarrow> length (ch_heads ch) = 9
    \<and> (\<forall>p c fs. S p = Some (c, fs) \<longrightarrow> slab_state pg m p c fs)
    \<and> (\<forall>c<9. elinks.chain pg m (ch_heads ch ! c) (P c) \<and> (\<forall>p \<in> set (P c). \<exists>fs. S p = Some (c, fs)))"

definition heap_core :: "mem \<Rightarrow> pages \<Rightarrow> frames \<Rightarrow> cache \<Rightarrow> (nat \<Rightarrow> pfn list) \<Rightarrow> blk set \<Rightarrow> slabs \<Rightarrow> (nat \<Rightarrow> slab list) \<Rightarrow> bool" where
  "heap_core m pg fr ch L B S P \<longleftrightarrow> frames_inv m pg fr L (B \<union> slab_blocks S) \<and> B \<inter> slab_blocks S = {}
    \<and> (\<forall>b \<in> B. entry_at pg m (fst b) = Buddy False (of_nat (snd b)))
    \<and> cache_core pg m ch S P"

text \<open>Between operations every slab has an object in use, and the lists hold exactly the slabs with a free slot.\<close>

definition caches_tidy :: "slabs \<Rightarrow> (nat \<Rightarrow> slab list) \<Rightarrow> bool" where
  "caches_tidy S P \<longleftrightarrow> (\<forall>p c fs. S p = Some (c, fs) \<longrightarrow> length fs < slab_slots c)
    \<and> (\<forall>c<9. set (P c) = {p. \<exists>fs. S p = Some (c, fs) \<and> fs \<noteq> []})"

text \<open>The bytes of the live objects: whole blocks, and the slots in use.\<close>

definition object_bytes :: "slabs \<Rightarrow> usize set" where
  "object_bytes S = {x. \<exists>p c fs i. S p = Some (c, fs) \<and> i < slab_slots c \<and> i \<notin> set fs
    \<and> x \<in> range_of (slot_addr p c i) (class_size c)}"

definition live_bytes :: "blk set \<Rightarrow> slabs \<Rightarrow> usize set" where
  "live_bytes B S = bytes_of (pages_in B) \<union> object_bytes S"

lemma in_slab_blocks [simp]: "(p, k) \<in> slab_blocks S \<longleftrightarrow> p \<in> dom S \<and> k = 0"
  by (simp add: slab_blocks_def)

lemma heap_coreD:
  assumes "heap_core m pg fr ch L B S P"
  shows "frames_inv m pg fr L (B \<union> slab_blocks S)" and "B \<inter> slab_blocks S = {}"
    and "b \<in> B \<Longrightarrow> entry_at pg m (fst b) = Buddy False (of_nat (snd b))"
    and "cache_core pg m ch S P" and "frames_core m pg fr L (B \<union> slab_blocks S) {}"
    and "pages_wf pg" and "b \<in> B \<union> slab_blocks S \<Longrightarrow> block_ok pg b"
    and "length (ch_heads ch) = 9"
    and "S p = Some (c, fs) \<Longrightarrow> slab_state pg m p c fs"
    and "c < 9 \<Longrightarrow> elinks.chain pg m (ch_heads ch ! c) (P c)"
    and "c < 9 \<Longrightarrow> p \<in> set (P c) \<Longrightarrow> \<exists>fs. S p = Some (c, fs)"
proof -
  show c: "frames_core m pg fr L (B \<union> slab_blocks S) {}" using assms by (simp add: heap_core_def frames_inv_def)
  show "pages_wf pg" by (rule frames_coreD(1) [OF c])
  show "b \<in> B \<union> slab_blocks S \<Longrightarrow> block_ok pg b" using frames_coreD(3) [OF c] by blast
qed (use assms in \<open>auto simp: heap_core_def cache_core_def\<close>)

lemma slab_page:
  assumes h: "heap_core m pg fr ch L B S P" and S: "S p = Some (c, fs)"
  shows "page_free_of_meta pg p" and "p \<in> covered pg" and "p \<notin> free_pages L" and "(p, 0) \<in> slab_blocks S"
    and "is_slab (entry_at pg m p)" and "c < 9"
proof -
  show b: "(p, 0) \<in> slab_blocks S" using S by auto
  have ok: "block_ok pg (p, 0)" using heap_coreD(7) [OF h] b by blast
  then show "page_free_of_meta pg p" using block_page_free_of_meta heap_coreD(6) [OF h] by blast
  then show "p \<in> covered pg" by (simp add: page_free_of_meta_def)
  note c = heap_coreD(5) [OF h]
  show "p \<notin> free_pages L"
  proof
    assume "p \<in> free_pages L"
    then obtain q k where q: "(q, k) \<in> free_blocks L" "p \<in> block q k" by (auto simp: free_pages_def in_pages_in)
    then have "(q, k) = (p, 0)"
      using b by (intro disjoint_blocksD [OF frames_coreD(4) [OF c], where x = p]) auto
    then show False using q(1) b frames_coreD(5) [OF c] by blast
  qed
  obtain nx pv where "slab_ok pg m p c fs nx pv" using heap_coreD(9) [OF h S] by (auto simp: slab_state_def)
  then show "is_slab (entry_at pg m p)" "c < 9" by (simp_all add: slab_ok_def is_slab_def)
qed

lemma slot_bytes_page: "c < 9 \<Longrightarrow> i < slab_slots c \<Longrightarrow> x \<in> range_of (slot_addr p c i) (class_size c) \<Longrightarrow> x div 4096 = p"
  using slot_addr_page [of c i p] by auto

lemma live_bytes_pages:
  assumes h: "heap_core m pg fr ch L B S P"
  shows "live_bytes B S \<subseteq> bytes_of (pages_in (B \<union> slab_blocks S))"
proof
  fix x assume "x \<in> live_bytes B S"
  then consider "x div 4096 \<in> pages_in B" | p c fs i where "S p = Some (c, fs)" "i < slab_slots c"
    "x \<in> range_of (slot_addr p c i) (class_size c)"
    by (auto simp: live_bytes_def object_bytes_def)
  then show "x \<in> bytes_of (pages_in (B \<union> slab_blocks S))"
  proof cases
    case 2
    have "x div 4096 = p" using slot_bytes_page [OF slab_page(6) [OF h 2(1)] 2(2,3)] .
    moreover have "p \<in> pages_in (slab_blocks S)"
      using slab_page(4) [OF h 2(1)] by (force simp: in_pages_in)
    ultimately show ?thesis by simp
  qed simp
qed

lemma live_bytes_apart:
  assumes h: "heap_core m pg fr ch L B S P"
  shows "live_bytes B S \<inter> meta_bytes pg = {}" and "live_bytes B S \<inter> touched pg (free_pages L) = {}"
proof -
  note c = heap_coreD(5) [OF h]
  have "bytes_of (pages_in (B \<union> slab_blocks S)) \<inter> meta_bytes pg = {}"
  proof -
    have "x \<notin> meta_bytes pg" if "x div 4096 \<in> pages_in (B \<union> slab_blocks S)" for x
    proof -
      obtain p k where "(p, k) \<in> B \<union> slab_blocks S" "x div 4096 \<in> block p k"
        using \<open>x div 4096 \<in> _\<close> unfolding in_pages_in by blast
      then show ?thesis using heap_coreD(7) [OF h, of "(p, k)"] block_okD(5) [of pg p k] by auto
    qed
    then show ?thesis by auto
  qed
  then show meta: "live_bytes B S \<inter> meta_bytes pg = {}" using live_bytes_pages [OF h] by blast
  have "pages_in (B \<union> slab_blocks S) \<inter> free_pages L = {}"
  proof -
    have False if p: "p \<in> pages_in (B \<union> slab_blocks S)" "p \<in> free_pages L" for p
    proof -
      obtain q k where q: "(q, k) \<in> B \<union> slab_blocks S" "p \<in> block q k" using p(1) unfolding in_pages_in by blast
      obtain r j where r: "(r, j) \<in> free_blocks L" "p \<in> block r j" using p(2) unfolding free_pages_def in_pages_in by blast
      have "(q, k) = (r, j)"
        using q r by (intro disjoint_blocksD [OF frames_coreD(4) [OF c], where x = p]) auto
      then show False using q(1) r(1) frames_coreD(5) [OF c] by blast
    qed
    then show ?thesis by blast
  qed
  then have "bytes_of (pages_in (B \<union> slab_blocks S)) \<inter> bytes_of (free_pages L) = {}" by auto
  then have "live_bytes B S \<inter> bytes_of (free_pages L) = {}" using live_bytes_pages [OF h] by blast
  moreover have "touched pg (free_pages L) \<subseteq> bytes_of (free_pages L) \<union> meta_bytes pg"
    by (rule touched_subset [OF free_pages_covered [OF c]])
  ultimately show "live_bytes B S \<inter> touched pg (free_pages L) = {}" using meta by blast
qed

subsection \<open>Steps\<close>

lemma slab_state_stable:
  assumes "slab_state pg m p c fs" and "entry_at pg m' p = entry_at pg m p" and "same_on (page_bytes p) m m'"
  shows "slab_state pg m' p c fs"
  using assms slot_chain_same_on [OF assms(3)] unfolding slab_state_def slab_ok_def by metis

lemma slab_state_relinked:
  assumes st: "slab_state pg m p c fs" and rel: "relinked pg m m'" and page: "page_free_of_meta pg p"
  shows "slab_state pg m' p c fs"
proof -
  obtain nx pv where ok: "slab_ok pg m p c fs nx pv" using st by (auto simp: slab_state_def)
  note d = slab_okD [OF ok]
  have "entry_body (entry_at pg m' p) = entry_body (entry_at pg m p)" using rel d(2) by (simp add: relinked_def)
  then obtain nx' pv' where "entry_at pg m' p = Slab (of_nat c) (slot_head fs) (of_nat (slab_slots c - length fs)) nx' pv'"
    using d(3) by (cases "entry_at pg m' p") (auto simp: entry_body_def)
  moreover have "same_on (page_bytes p) m m'"
    using rel page by (auto simp: relinked_def page_free_of_meta_def intro: same_on_subset)
  ultimately show ?thesis
    using d slot_chain_same_on [of p m m' c fs] unfolding slab_state_def slab_ok_def by blast
qed

lemma slab_class_idx_eq:
  assumes "pages_wf pg" "slab_state pg m p c fs"
  shows "slab_class_idx pg m p = Inr c"
proof -
  obtain nx pv where ok: "slab_ok pg m p c fs nx pv" using assms(2) by (auto simp: slab_state_def)
  show ?thesis
    using assms(1) slab_okD [OF ok] unat_class [of c]
    by (simp add: slab_class_idx_def pages_read_covered CLASSES_COUNT_def)
qed

lemma heap_core_relinked:
  assumes h: "heap_core m pg fr ch L B S P" and rel: "relinked pg m m'"
    and len: "length (ch_heads ch') = 9"
    and lists: "\<And>c. c < 9 \<Longrightarrow> elinks.chain pg m' (ch_heads ch' ! c) (P' c) \<and> (\<forall>p \<in> set (P' c). \<exists>fs. S p = Some (c, fs))"
  shows "heap_core m' pg fr ch' L B S P'" and "same_on (- meta_bytes pg) m m'"
proof -
  show "same_on (- meta_bytes pg) m m'" using rel by (simp add: relinked_def)
  have "entry_at pg m' (fst b) = Buddy False (of_nat (snd b))" if "b \<in> B" for b
  proof -
    have "fst b \<in> covered pg" using heap_coreD(7) [OF h, of b] that block_okD(3) [of pg "fst b" "snd b"] by simp
    then have "entry_body (entry_at pg m' (fst b)) = entry_body (Buddy False (of_nat (snd b)))"
      using rel heap_coreD(3) [OF h that] by (simp add: relinked_def)
    then show ?thesis by (cases "entry_at pg m' (fst b)") (simp_all add: entry_body_def)
  qed
  moreover have "slab_state pg m' p c fs" if "S p = Some (c, fs)" for p c fs
    using slab_state_relinked [OF heap_coreD(9) [OF h that] rel slab_page(1) [OF h that]] .
  ultimately show "heap_core m' pg fr ch' L B S P'"
    using heap_coreD(1,2) [OF h] relinked_frames_inv [OF _ rel] len lists
    by (auto simp: heap_core_def cache_core_def)
qed

lemma core_unlink_slab:
  assumes h: "heap_core m pg fr ch L B S P" and c: "c < 9" and q: "q \<in> set (P c)"
  obtains m' ch' where "cache_unlink pg m ch q = Inr (m', ch')"
    and "heap_core m' pg fr ch' L B S (P(c := remove1 q (P c)))" and "same_on (- meta_bytes pg) m m'"
proof -
  obtain fs where S: "S q = Some (c, fs)" using heap_coreD(11) [OF h c q] by blast
  have cls: "slab_class_idx pg m q = Inr c"
    by (rule slab_class_idx_eq [OF heap_coreD(6) [OF h] heap_coreD(9) [OF h S]])
  have slabs: "is_slab (entry_at pg m x)" if "x \<in> set (P c)" for x
    using heap_coreD(11) [OF h c that] slab_page(5) [OF h] by blast
  have lc: "c < length (ch_heads ch)" using heap_coreD(8) [OF h] c by simp
  obtain m' hd where u: "cache_unlink pg m ch q = Inr (m', ch\<lparr>ch_heads := (ch_heads ch)[c := hd]\<rparr>)"
    and rel: "relinked pg m m'" and chain: "elinks.chain pg m' hd (remove1 q (P c))"
    and same: "\<forall>x \<in> covered pg - set (P c). entry_at pg m' x = entry_at pg m x"
    by (rule cache_unlink_ok [OF heap_coreD(6) [OF h] lc cls heap_coreD(10) [OF h c] q slabs])
  let ?ch = "ch\<lparr>ch_heads := (ch_heads ch)[c := hd]\<rparr>" and ?P = "P(c := remove1 q (P c))"
  have lists: "elinks.chain pg m' (ch_heads ?ch ! d) (?P d) \<and> (\<forall>p \<in> set (?P d). \<exists>fs. S p = Some (d, fs))"
    if d: "d < 9" for d
  proof (cases "d = c")
    case True
    then show ?thesis using chain lc heap_coreD(11) [OF h c] by (auto dest: notin_set_remove1)
  next
    case False
    have "entry_at pg m' x = entry_at pg m x" if x: "x \<in> set (P d)" for x
    proof (rule same [rule_format], rule DiffI)
      show "x \<in> covered pg" using heap_coreD(11) [OF h d x] slab_page(2) [OF h] by blast
      show "x \<notin> set (P c)" using heap_coreD(11) [OF h d x] heap_coreD(11) [OF h c, of x] False by auto
    qed
    then have "elinks.chain pg m' (ch_heads ch ! d) (P d)"
      using heap_coreD(10) [OF h d] elinks.chain_cong [of "P d" pg m' m "ch_heads ch ! d"] by simp
    then show ?thesis using False heap_coreD(11) [OF h d] by simp
  qed
  have "length (ch_heads ?ch) = 9" using heap_coreD(8) [OF h] by simp
  then show thesis using that [OF u] heap_core_relinked [OF h rel _ lists] by blast
qed

lemma core_push_slab:
  assumes h: "heap_core m pg fr ch L B S P" and S: "S q = Some (c, fs)" and q: "q \<notin> set (P c)"
  obtains m' ch' where "cache_push pg m ch c q = Inr (m', ch')"
    and "heap_core m' pg fr ch' L B S (P(c := q # P c))" and "same_on (- meta_bytes pg) m m'"
proof -
  note c = slab_page(6) [OF h S]
  have slabs: "is_slab (entry_at pg m x)" if "x \<in> set (P c)" for x
    using heap_coreD(11) [OF h c that] slab_page(5) [OF h] by blast
  have lc: "c < length (ch_heads ch)" using heap_coreD(8) [OF h] c by simp
  obtain m' where u: "cache_push pg m ch c q = Inr (m', ch\<lparr>ch_heads := (ch_heads ch)[c := Some q]\<rparr>)"
    and rel: "relinked pg m m'" and chain: "elinks.chain pg m' (Some q) (q # P c)"
    and same: "\<forall>x \<in> covered pg - set (q # P c). entry_at pg m' x = entry_at pg m x"
    by (rule cache_push_ok [OF heap_coreD(6) [OF h] slab_page(2,5) [OF h S] q lc heap_coreD(10) [OF h c] slabs])
  let ?ch = "ch\<lparr>ch_heads := (ch_heads ch)[c := Some q]\<rparr>" and ?P = "P(c := q # P c)"
  have lists: "elinks.chain pg m' (ch_heads ?ch ! d) (?P d) \<and> (\<forall>p \<in> set (?P d). \<exists>fs. S p = Some (d, fs))"
    if d: "d < 9" for d
  proof (cases "d = c")
    case True
    then show ?thesis using chain lc heap_coreD(11) [OF h c] S by auto
  next
    case False
    have "entry_at pg m' x = entry_at pg m x" if x: "x \<in> set (P d)" for x
    proof (rule same [rule_format], rule DiffI)
      show "x \<in> covered pg" using heap_coreD(11) [OF h d x] slab_page(2) [OF h] by blast
      show "x \<notin> set (q # P c)" using heap_coreD(11) [OF h d x] heap_coreD(11) [OF h c, of x] False S by auto
    qed
    then have "elinks.chain pg m' (ch_heads ch ! d) (P d)"
      using heap_coreD(10) [OF h d] elinks.chain_cong [of "P d" pg m' m "ch_heads ch ! d"] by simp
    then show ?thesis using False heap_coreD(11) [OF h d] by simp
  qed
  have "length (ch_heads ?ch) = 9" using heap_coreD(8) [OF h] by simp
  then show thesis using that [OF u] heap_core_relinked [OF h rel _ lists] by blast
qed

text \<open>A change inside one slab that keeps its links.\<close>

lemma touched_single:
  assumes "page_free_of_meta pg q"
  shows "bytes_of {q} \<inter> meta_bytes pg = {}" and "touched pg {q} \<subseteq> page_bytes q \<union> meta_bytes pg"
proof -
  have "bytes_of {q} = page_bytes q" by auto
  then show "bytes_of {q} \<inter> meta_bytes pg = {}" using assms by (simp add: page_free_of_meta_def)
  show "touched pg {q} \<subseteq> page_bytes q \<union> meta_bytes pg"
    using touched_subset [of "{q}" pg] assms \<open>bytes_of {q} = page_bytes q\<close> by (simp add: page_free_of_meta_def)
qed

lemma heap_core_local:
  assumes h: "heap_core m pg fr ch L B S P" and S: "S q = Some (c, fs)"
    and same: "same_on (- touched pg {q}) m m'"
    and st: "slab_ok pg m q c fs nx pv" and st': "slab_ok pg m' q c fs' nx pv"
  shows "heap_core m' pg fr ch L B (S(q \<mapsto> (c, fs'))) P"
proof -
  note pq = slab_page [OF h S] and tq = touched_single [OF slab_page(1) [OF h S]]
  have cq: "{q} \<subseteq> covered pg" using pq(2) by simp
  have ent: "entry_at pg m' x = entry_at pg m x" if "x \<in> covered pg" "x \<noteq> q" for x
    using untouched_entry [OF same cq tq(1) that(1)] that(2) by simp
  have sb: "slab_blocks (S(q \<mapsto> (c, fs'))) = slab_blocks S" using S by (auto simp: slab_blocks_def)
  have "same_on (bytes_of (free_pages L)) m m'"
  proof (rule same_on_subset [OF same])
    have "page_bytes q \<inter> bytes_of (free_pages L) = {}" using pq(3) by auto
    then show "bytes_of (free_pages L) \<subseteq> - touched pg {q}"
      using tq(2) free_bytes_meta [OF heap_coreD(5) [OF h]] by blast
  qed
  then have inv: "frames_inv m' pg fr L (B \<union> slab_blocks S)"
  proof (rule frames_inv_entries [OF heap_coreD(1) [OF h]])
    fix x assume x: "x \<in> covered pg"
    show "entry_body (entry_at pg m' x) = entry_body (entry_at pg m x)
      \<or> (\<exists>k. (x, k) \<in> B \<union> slab_blocks S \<and> owned_entry (entry_at pg m' x) k)"
    proof (cases "x = q")
      case True
      have "owned_entry (entry_at pg m' q) 0" using slab_okD(3) [OF st'] by simp
      then show ?thesis using pq(4) True by blast
    qed (simp add: ent [OF x])
  qed
  have B: "entry_at pg m' (fst b) = Buddy False (of_nat (snd b))" if b: "b \<in> B" for b
  proof -
    have "fst b \<in> covered pg" using heap_coreD(7) [OF h, of b] b block_okD(3) [of pg "fst b" "snd b"] by simp
    moreover have "fst b \<noteq> q"
      using heap_coreD(3) [OF h b] slab_okD(3) [OF st] by auto
    ultimately show ?thesis using ent heap_coreD(3) [OF h b] by simp
  qed
  have states: "slab_state pg m' p d gs" if p: "(S(q \<mapsto> (c, fs'))) p = Some (d, gs)" for p d gs
  proof (cases "p = q")
    case True
    then show ?thesis using p st' by (auto simp: slab_state_def)
  next
    case False
    then have Sp: "S p = Some (d, gs)" using p by simp
    note pp = slab_page [OF h Sp]
    have "same_on (page_bytes p) m m'"
    proof (rule same_on_subset [OF same])
      have "page_bytes p \<inter> page_bytes q = {}" using False by auto
      then show "page_bytes p \<subseteq> - touched pg {q}" using tq(2) pp(1) by (auto simp: page_free_of_meta_def)
    qed
    then show ?thesis using slab_state_stable [OF heap_coreD(9) [OF h Sp] ent [OF pp(2) False]] by blast
  qed
  have links: "entry_next pg (entry_at pg m' x) = entry_next pg (entry_at pg m x)
      \<and> entry_prev pg (entry_at pg m' x) = entry_prev pg (entry_at pg m x)" if "x \<in> covered pg" for x
    using ent [OF that] slab_okD(3) [OF st] slab_okD(3) [OF st']
    by (cases "x = q") (simp_all add: entry_next_def entry_prev_def)
  have "elinks.chain pg m' (ch_heads ch ! d) (P d)" if "d < 9" for d
    using heap_coreD(10) [OF h that] elinks.chain_cong [of "P d" pg m' m "ch_heads ch ! d"] links
    by (auto simp: elinks.chain_def)
  moreover have "\<exists>gs. (S(q \<mapsto> (c, fs'))) p = Some (d, gs)" if "d < 9" "p \<in> set (P d)" for d p
    using heap_coreD(11) [OF h that] S by (cases "p = q") auto
  ultimately show ?thesis
    using inv B states heap_coreD(2,8) [OF h]
    unfolding heap_core_def cache_core_def sb by blast
qed

lemma link_bounds:
  assumes "slab_ok pg m q c fs nx pv"
  shows "pred_option (\<lambda>i. i < 524287) nx" "pred_option (\<lambda>i. i < 524287) pv"
  using entry_at_fits [of pg m q] slab_okD(3) [OF assms] by simp_all

lemma live_bytes_entry:
  assumes h: "heap_core m pg fr ch L B S P" and q: "q \<in> covered pg"
    and same: "same_on (- range_of (entry_addr pg q) 8) m m'"
  shows "same_on (live_bytes B S) m m'"
  by (rule same_on_subset [OF same]) (use live_bytes_apart(1) [OF h] entry_range [OF q] in blast)

lemma core_slab_alloc:
  assumes h: "heap_core m pg fr ch L B S P" and S: "S q = Some (c, i # js)"
  obtains m' where "slab_alloc pg m q = Inr (m', Some (slot_addr q c i))"
    and "heap_core m' pg fr ch L B (S(q \<mapsto> (c, js))) P"
    and "slab_is_full pg m' q = Inr (js = [])"
    and "same_on (live_bytes B S) m m'"
proof -
  obtain nx pv where st: "slab_ok pg m q c (i # js) nx pv"
    using heap_coreD(9) [OF h S] by (auto simp: slab_state_def)
  obtain m' where a: "slab_alloc pg m q = Inr (m', Some (slot_addr q c i))"
    and st': "slab_ok pg m' q c js nx pv" and same: "same_on (- range_of (entry_addr pg q) 8) m m'"
    by (rule slab_alloc_ok [OF slab_page(1) [OF h S] st link_bounds [OF st]])
  have "same_on (- touched pg {q}) m m'" by (rule same_on_subset [OF same]) (auto simp: touched_def)
  then have h': "heap_core m' pg fr ch L B (S(q \<mapsto> (c, js))) P"
    by (rule heap_core_local [OF h S _ st st'])
  have "slab_is_full pg m' q = Inr (js = [])"
    using heap_coreD(6) [OF h] slab_okD(2,3) [OF st']
    by (simp add: slab_is_full_def pages_read_covered slot_head_def split: list.split)
  then show thesis using that a h' live_bytes_entry [OF h slab_page(2) [OF h S] same] by blast
qed

lemma core_slab_free:
  assumes h: "heap_core m pg fr ch L B S P" and S: "S q = Some (c, fs)"
    and i: "i < slab_slots c" "i \<notin> set fs"
  obtains m' where "slab_free pg m q (slot_addr q c i) = Inr m'"
    and "heap_core m' pg fr ch L B (S(q \<mapsto> (c, i # fs))) P"
    and "slab_is_full pg m q = Inr (fs = [])"
    and "same_on (live_bytes B (S(q \<mapsto> (c, i # fs)))) m m'"
proof -
  obtain nx pv where st: "slab_ok pg m q c fs nx pv"
    using heap_coreD(9) [OF h S] by (auto simp: slab_state_def)
  note c = slab_page(6) [OF h S]
  obtain m' where a: "slab_free pg m q (slot_addr q c i) = Inr m'"
    and st': "slab_ok pg m' q c (i # fs) nx pv" and same: "same_on (- touched pg {q}) m m'"
    and same2: "same_on (- (range_of (slot_addr q c i) 2 \<union> range_of (entry_addr pg q) 8)) m m'"
    by (rule slab_free_ok [OF slab_page(1) [OF h S] st link_bounds [OF st] i])
  let ?S = "S(q \<mapsto> (c, i # fs))"
  have h': "heap_core m' pg fr ch L B ?S P" by (rule heap_core_local [OF h S same st st'])
  have "slab_is_full pg m q = Inr (fs = [])"
    using heap_coreD(6) [OF h] slab_okD(2,3) [OF st]
    by (simp add: slab_is_full_def pages_read_covered slot_head_def split: list.split)
  moreover have "same_on (live_bytes B ?S) m m'"
  proof (rule same_on_subset [OF same2])
    have "x \<notin> range_of (slot_addr q c i) (class_size c)" if x: "x \<in> live_bytes B ?S" for x
    proof
      assume xi: "x \<in> range_of (slot_addr q c i) (class_size c)"
      have xq: "x div 4096 = q" using slot_bytes_page [OF c i(1) xi] .
      have "x \<notin> bytes_of (pages_in B)"
      proof
        assume "x \<in> bytes_of (pages_in B)"
        then obtain p k where pk: "(p, k) \<in> B" "q \<in> block p k" using xq by (auto simp: in_pages_in)
        have "(p, k) = (q, 0)"
          using pk slab_page(4) [OF h S]
          by (intro disjoint_blocksD [OF frames_coreD(4) [OF heap_coreD(5) [OF h]], where x = q]) auto
        then show False using pk(1) slab_page(4) [OF h S] heap_coreD(2) [OF h] by blast
      qed
      then obtain p d gs j where o: "?S p = Some (d, gs)" "j < slab_slots d" "j \<notin> set gs"
        "x \<in> range_of (slot_addr p d j) (class_size d)"
        using x by (auto simp: live_bytes_def object_bytes_def)
      have "d < 9" using slab_page(6) [OF h' o(1)] .
      then have "p = q" using slot_bytes_page [OF _ o(2,4)] xq by simp
      then have "d = c" "j \<noteq> i" using o by auto
      then show False
        using o(4) xi slot_addr_disjoint [of j i q c] \<open>p = q\<close> by blast
    qed
    moreover have "range_of (slot_addr q c i) 2 \<subseteq> range_of (slot_addr q c i) (class_size c)"
      using class_size_bounds [OF c] by (intro range_of_mono) auto
    moreover have "live_bytes B ?S \<inter> range_of (entry_addr pg q) 8 = {}"
      using live_bytes_apart(1) [OF h'] entry_range [OF slab_page(2) [OF h S]] by blast
    ultimately show "live_bytes B ?S \<subseteq> - (range_of (slot_addr q c i) 2 \<union> range_of (entry_addr pg q) 8)"
      by blast
  qed
  ultimately show thesis using that a h' by blast
qed

text \<open>An operation of the buddy allocator on pages that no kept block or slab uses.\<close>

lemma heap_core_kept:
  assumes h: "heap_core m pg fr ch L B S P" and same: "same_on (- touched pg Q) m m'"
    and Q: "Q \<subseteq> covered pg" "bytes_of Q \<inter> meta_bytes pg = {}"
    and B0: "B0 \<subseteq> B" "Q \<inter> pages_in B0 = {}" and S0: "S0 \<subseteq>\<^sub>m S" "dom S0 \<inter> Q = {}"
    and inv: "frames_inv m' pg fr' L' (B1 \<union> B0 \<union> slab_blocks S0)" "(B1 \<union> B0) \<inter> slab_blocks S0 = {}"
    and B1: "\<And>b. b \<in> B1 \<Longrightarrow> entry_at pg m' (fst b) = Buddy False (of_nat (snd b))"
    and P: "\<And>c. c < 9 \<Longrightarrow> set (P c) \<subseteq> dom S0"
  shows "heap_core m' pg fr' ch L' (B1 \<union> B0) S0 P" and "same_on (live_bytes B0 S0) m m'"
proof -
  have ent: "entry_at pg m' x = entry_at pg m x" if "x \<in> covered pg" "x \<notin> Q" for x
    by (rule untouched_entry [OF same Q that])
  have S: "S p = Some (c, fs)" if "S0 p = Some (c, fs)" for p c fs
    using S0(1) that by (auto simp: map_le_def dom_def)
  have sub: "touched pg Q \<subseteq> bytes_of Q \<union> meta_bytes pg" by (rule touched_subset [OF Q(1)])
  have "entry_at pg m' (fst b) = Buddy False (of_nat (snd b))" if b: "b \<in> B1 \<union> B0" for b
  proof (cases "b \<in> B1")
    case False
    then have b0: "b \<in> B0" "b \<in> B" using b B0(1) by auto
    have "fst b \<in> covered pg"
      using heap_coreD(7) [OF h, of b] b0 block_okD(3) [of pg "fst b" "snd b"] by simp
    moreover have "fst b \<in> pages_in B0" using b0(1) unfolding pages_in_def by force
    then have "fst b \<notin> Q" using B0(2) by blast
    ultimately show ?thesis using ent heap_coreD(3) [OF h b0(2)] by simp
  qed (rule B1)
  moreover have "slab_state pg m' p c fs" if p: "S0 p = Some (c, fs)" for p c fs
  proof -
    note pp = slab_page [OF h S [OF p]]
    have pQ: "p \<notin> Q" using S0(2) p by blast
    have "same_on (page_bytes p) m m'"
    proof (rule same_on_subset [OF same])
      have "page_bytes p \<inter> bytes_of Q = {}" using pQ by auto
      then show "page_bytes p \<subseteq> - touched pg Q" using sub pp(1) by (auto simp: page_free_of_meta_def)
    qed
    then show ?thesis using slab_state_stable [OF heap_coreD(9) [OF h S [OF p]] ent [OF pp(2) pQ]] by blast
  qed
  moreover have "elinks.chain pg m' (ch_heads ch ! c) (P c) \<and> (\<forall>p \<in> set (P c). \<exists>fs. S0 p = Some (c, fs))" if c: "c < 9" for c
  proof
    show "\<forall>p \<in> set (P c). \<exists>fs. S0 p = Some (c, fs)"
    proof
      fix p assume p: "p \<in> set (P c)"
      then obtain d gs where d: "S0 p = Some (d, gs)" using P [OF c] by (auto simp: dom_def subset_iff)
      then show "\<exists>fs. S0 p = Some (c, fs)" using heap_coreD(11) [OF h c p] S [OF d] by auto
    qed
    have "entry_at pg m' p = entry_at pg m p" if p: "p \<in> set (P c)" for p
    proof (rule ent)
      show "p \<in> covered pg" using heap_coreD(11) [OF h c p] slab_page(2) [OF h] by blast
      show "p \<notin> Q" using P [OF c] p S0(2) by blast
    qed
    then show "elinks.chain pg m' (ch_heads ch ! c) (P c)"
      using heap_coreD(10) [OF h c] elinks.chain_cong [of "P c" pg m' m "ch_heads ch ! c"] by simp
  qed
  ultimately show "heap_core m' pg fr' ch L' (B1 \<union> B0) S0 P"
    using inv heap_coreD(8) [OF h] unfolding heap_core_def cache_core_def by blast
  show "same_on (live_bytes B0 S0) m m'"
  proof (rule same_on_subset [OF same])
    have live: "live_bytes B0 S0 \<subseteq> live_bytes B S"
      using B0(1) S pages_in_mono [OF B0(1)] unfolding live_bytes_def object_bytes_def by fastforce
    have "x \<notin> bytes_of Q" if x: "x \<in> live_bytes B0 S0" for x
    proof -
      consider "x div 4096 \<in> pages_in B0" | p c fs i where "S0 p = Some (c, fs)" "i < slab_slots c"
        "x \<in> range_of (slot_addr p c i) (class_size c)"
        using x by (auto simp: live_bytes_def object_bytes_def)
      then show ?thesis
      proof cases
        case 1
        then show ?thesis using B0(2) by auto
      next
        case 2
        then have "x div 4096 = p" using slot_bytes_page [OF slab_page(6) [OF h S [OF 2(1)]]] by blast
        then show ?thesis using S0(2) 2(1) by auto
      qed
    qed
    then show "live_bytes B0 S0 \<subseteq> - touched pg Q" using live live_bytes_apart(1) [OF h] sub by blast
  qed
qed

lemma heap_core_free_pages:
  assumes "heap_core m pg fr ch L B S P"
  shows "free_pages L \<subseteq> covered pg" and "bytes_of (free_pages L) \<inter> meta_bytes pg = {}"
    and "free_pages L \<inter> pages_in B = {}" and "dom S \<inter> free_pages L = {}"
proof -
  note c = heap_coreD(5) [OF assms]
  show "free_pages L \<subseteq> covered pg" by (rule free_pages_covered [OF c])
  show "bytes_of (free_pages L) \<inter> meta_bytes pg = {}" by (rule free_bytes_meta [OF c])
  have False if x: "x \<in> free_pages L" "x \<in> pages_in B" for x
  proof -
    obtain q k where q: "(q, k) \<in> free_blocks L" "x \<in> block q k"
      using x(1) unfolding free_pages_def in_pages_in by blast
    obtain r j where r: "(r, j) \<in> B" "x \<in> block r j" using x(2) unfolding in_pages_in by blast
    have "(q, k) = (r, j)"
      using q r by (intro disjoint_blocksD [OF frames_coreD(4) [OF c], where x = x]) auto
    then show False using q(1) r(1) frames_coreD(5) [OF c] by blast
  qed
  then show "free_pages L \<inter> pages_in B = {}" by blast
  show "dom S \<inter> free_pages L = {}" using slab_page(3) [OF assms] by fastforce
qed

lemma lists_dom: "heap_core m pg fr ch L B S P \<Longrightarrow> c < 9 \<Longrightarrow> set (P c) \<subseteq> dom S"
  using heap_coreD(11) by fastforce

lemma core_alloc_block:
  assumes h: "heap_core m pg fr ch L B S P" and k: "order \<le> k" "k < ORDERS" "L k \<noteq> []"
  obtains m' fr' L' p where "frames_alloc m pg fr order = Inr (m', fr', Some p)"
    and "heap_core m' pg fr' ch L' (insert (p, order) B) S P" and "(p, order) \<notin> B"
    and "block p order \<subseteq> free_pages L" and "free_pages L' = free_pages L - block p order"
    and "same_on (live_bytes B S) m m'" and "2 ^ order dvd p"
proof -
  obtain m' fr' L' p where a: "frames_alloc m pg fr order = Inr (m', fr', Some p)"
    and i: "frames_inv m' pg fr' L' (insert (p, order) (B \<union> slab_blocks S))" and n: "(p, order) \<notin> B \<union> slab_blocks S"
    and b: "block p order \<subseteq> free_pages L" and f: "free_pages L' = free_pages L - block p order"
    and s: "same_on (- touched pg (free_pages L)) m m'" and e: "entry_at pg m' p = Buddy False (of_nat order)"
    by (rule alloc_list [OF heap_coreD(1) [OF h] k])
  note fp = heap_core_free_pages [OF h]
  have i': "frames_inv m' pg fr' L' ({(p, order)} \<union> B \<union> slab_blocks S)" using i by simp
  have "heap_core m' pg fr' ch L' ({(p, order)} \<union> B) S P \<and> same_on (live_bytes B S) m m'"
    using heap_core_kept [OF h s fp(1,2) subset_refl fp(3) map_le_refl fp(4) i']
      n heap_coreD(2) [OF h] e lists_dom [OF h] by auto
  moreover have "2 ^ order dvd p"
  proof -
    have "frames_core m' pg fr' L' (insert (p, order) (B \<union> slab_blocks S)) {}" using i by (simp add: frames_inv_def)
    from frames_coreD(3) [OF this, of "(p, order)"] show ?thesis using block_okD(2) by simp
  qed
  moreover have "insert (p, order) B = {(p, order)} \<union> B" "(p, order) \<notin> B" using n by auto
  ultimately show thesis using that [OF a, of L'] b f by metis
qed

lemma core_release:
  assumes h: "heap_core m pg fr ch L B S P" and b: "(p, order) \<in> B \<union> slab_blocks S"
    and B0: "B0 \<subseteq> B" and S0: "S0 \<subseteq>\<^sub>m S" and A: "B \<union> slab_blocks S - {(p, order)} = B0 \<union> slab_blocks S0"
    and P: "\<And>c. c < 9 \<Longrightarrow> set (P c) \<subseteq> dom S0"
  obtains m' fr' L' where "frames_free m pg fr p = Inr (m', fr')"
    and "heap_core m' pg fr' ch L' B0 S0 P" and "free_pages L' = free_pages L \<union> block p order"
    and "same_on (live_bytes B0 S0) m m'"
proof -
  obtain m' fr' L' where a: "frames_free m pg fr p = Inr (m', fr')"
    and i: "frames_inv m' pg fr' L' (B \<union> slab_blocks S - {(p, order)})"
    and f: "free_pages L' = free_pages L \<union> block p order"
    and s: "same_on (- touched pg (free_pages L')) m m'"
    by (rule free_owned [OF heap_coreD(1) [OF h] b])
  have i': "frames_inv m' pg fr' L' ({} \<union> B0 \<union> slab_blocks S0)" using i unfolding A by simp
  then have c': "frames_core m' pg fr' L' ({} \<union> B0 \<union> slab_blocks S0) {}" by (simp add: frames_inv_def)
  note cov = free_pages_covered [OF c'] free_bytes_meta [OF c']
  have apart: "x \<notin> pages_in (B0 \<union> slab_blocks S0)" if x: "x \<in> free_pages L'" for x
  proof
    assume "x \<in> pages_in (B0 \<union> slab_blocks S0)"
    then obtain r j where r: "(r, j) \<in> {} \<union> B0 \<union> slab_blocks S0" "x \<in> block r j"
      unfolding in_pages_in by blast
    obtain q k where q: "(q, k) \<in> free_blocks L'" "x \<in> block q k"
      using x unfolding free_pages_def in_pages_in by blast
    have "(q, k) = (r, j)"
      using q r by (intro disjoint_blocksD [OF frames_coreD(4) [OF c'], where x = x]) auto
    then show False using q(1) r(1) frames_coreD(5) [OF c'] by blast
  qed
  have f2: "dom S0 \<inter> free_pages L' = {}"
  proof -
    have "x \<in> pages_in (slab_blocks S0)" if "x \<in> dom S0" for x using that by (force simp: in_pages_in)
    then show ?thesis using apart by auto
  qed
  have f1: "free_pages L' \<inter> pages_in B0 = {}" using apart by auto
  have d: "({} \<union> B0) \<inter> slab_blocks S0 = {}"
  proof -
    have "slab_blocks S0 \<subseteq> slab_blocks S"
      using map_le_implies_dom_le [OF S0] unfolding slab_blocks_def by blast
    then show ?thesis using heap_coreD(2) [OF h] B0 by blast
  qed
  note kept = heap_core_kept [OF h s cov B0 f1 S0 f2 i' d _ P]
  have "heap_core m' pg fr' ch L' B0 S0 P" using kept(1) by simp
  moreover have "same_on (live_bytes B0 S0) m m'" using kept(2) by simp
  ultimately show thesis using that [OF a] f by blast
qed

lemma core_free_block:
  assumes h: "heap_core m pg fr ch L B S P" and b: "(p, order) \<in> B"
  obtains m' fr' L' where "frames_free m pg fr p = Inr (m', fr')"
    and "heap_core m' pg fr' ch L' (B - {(p, order)}) S P" and "free_pages L' = free_pages L \<union> block p order"
    and "same_on (live_bytes (B - {(p, order)}) S) m m'"
proof (rule core_release [OF h, of p order "B - {(p, order)}" S])
  show "B \<union> slab_blocks S - {(p, order)} = B - {(p, order)} \<union> slab_blocks S"
    using b heap_coreD(2) [OF h] by blast
qed (use b lists_dom [OF h] that in auto)

lemma core_drop_slab:
  assumes h: "heap_core m pg fr ch L B S P" and S: "S q = Some (c, fs)" and q: "q \<notin> set (P c)"
  obtains m' fr' L' where "frames_free m pg fr q = Inr (m', fr')"
    and "heap_core m' pg fr' ch L' B (S(q := None)) P" and "free_pages L' = insert q (free_pages L)"
    and "same_on (live_bytes B (S(q := None))) m m'"
proof (rule core_release [OF h, of q 0 B "S(q := None)"])
  show "(q, 0) \<in> B \<union> slab_blocks S" using S by auto
  show "S(q := None) \<subseteq>\<^sub>m S" by (auto simp: map_le_def)
  show "B \<union> slab_blocks S - {(q, 0)} = B \<union> slab_blocks (S(q := None))"
    using slab_page(4) [OF h S] heap_coreD(2) [OF h] by (auto simp: slab_blocks_def)
  show "set (P d) \<subseteq> dom (S(q := None))" if "d < 9" for d
    using heap_coreD(11) [OF h that] S q by fastforce
qed (use that in auto)

lemma core_init_slab:
  assumes h: "heap_core m pg fr ch L (insert (p, 0) B) S P" and p: "(p, 0) \<notin> B"
    and c: "c < 9" "ch_heads ch ! c = None"
  obtains m' where "slab_init pg m p c = Inr (m', Some p)"
    and "heap_core m' pg fr (ch\<lparr>ch_heads := (ch_heads ch)[c := Some p]\<rparr>) L B (S(p \<mapsto> (c, [0..<slab_slots c]))) (P(c := [p]))"
    and "same_on (live_bytes B S) m m'"
proof -
  let ?S = "S(p \<mapsto> (c, [0..<slab_slots c]))" and ?P = "P(c := [p])"
  let ?ch = "ch\<lparr>ch_heads := (ch_heads ch)[c := Some p]\<rparr>"
  have ok: "block_ok pg (p, 0)" using heap_coreD(7) [OF h] by blast
  have page: "page_free_of_meta pg p" by (rule block_page_free_of_meta [OF heap_coreD(6) [OF h] ok])
  then have pc: "p \<in> covered pg" "{p} \<subseteq> covered pg" by (simp_all add: page_free_of_meta_def)
  obtain m' where a: "slab_init pg m p c = Inr (m', Some p)"
    and st: "slab_ok pg m' p c [0..<slab_slots c] None None" and same: "same_on (- touched pg {p}) m m'"
    by (rule slab_init_ok [OF page c(1)])
  note tp = touched_single [OF page]
  have ent: "entry_at pg m' x = entry_at pg m x" if "x \<in> covered pg" "x \<noteq> p" for x
    using untouched_entry [OF same pc(2) tp(1) that(1)] that(2) by simp
  have pS: "p \<notin> dom S" using heap_coreD(2) [OF h] by auto
  have A: "insert (p, 0) B \<union> slab_blocks S = B \<union> slab_blocks ?S" by (auto simp: slab_blocks_def)
  have pfree: "p \<notin> free_pages L" using heap_core_free_pages(3) [OF h] by auto
  have "same_on (bytes_of (free_pages L)) m m'"
  proof (rule same_on_subset [OF same])
    have "page_bytes p \<inter> bytes_of (free_pages L) = {}" using pfree by auto
    then show "bytes_of (free_pages L) \<subseteq> - touched pg {p}"
      using tp(2) heap_core_free_pages(2) [OF h] by blast
  qed
  then have inv: "frames_inv m' pg fr L (B \<union> slab_blocks ?S)"
    unfolding A [symmetric]
  proof (rule frames_inv_entries [OF heap_coreD(1) [OF h]])
    fix x assume x: "x \<in> covered pg"
    show "entry_body (entry_at pg m' x) = entry_body (entry_at pg m x)
      \<or> (\<exists>k. (x, k) \<in> insert (p, 0) B \<union> slab_blocks S \<and> owned_entry (entry_at pg m' x) k)"
    proof (cases "x = p")
      case True
      have "owned_entry (entry_at pg m' p) 0" using slab_okD(3) [OF st] by simp
      then show ?thesis using True by blast
    qed (simp add: ent [OF x])
  qed
  have away: "fst b \<noteq> p" if "b \<in> B" for b
  proof
    assume "fst b = p"
    then have "b = (p, 0)"
      using that by (intro disjoint_blocks_fst [OF frames_coreD(4) [OF heap_coreD(5) [OF h]]]) auto
    then show False using that p by blast
  qed
  have Bent: "entry_at pg m' (fst b) = Buddy False (of_nat (snd b))" if b: "b \<in> B" for b
  proof -
    have "fst b \<in> covered pg" using heap_coreD(7) [OF h, of b] b block_okD(3) [of pg "fst b" "snd b"] by simp
    then show ?thesis using ent away [OF b] heap_coreD(3) [OF h, of b] b by simp
  qed
  have stable: "entry_at pg m' x = entry_at pg m x \<and> same_on (page_bytes x) m m'" if Sx: "S x = Some (d, gs)" for x d gs
  proof -
    have xp: "x \<noteq> p" using pS Sx by auto
    note px = slab_page [OF h Sx]
    have "same_on (page_bytes x) m m'"
    proof (rule same_on_subset [OF same])
      have "page_bytes x \<inter> page_bytes p = {}" using xp by auto
      then show "page_bytes x \<subseteq> - touched pg {p}" using tp(2) px(1) by (auto simp: page_free_of_meta_def)
    qed
    then show ?thesis using ent [OF px(2) xp] by blast
  qed
  have states: "slab_state pg m' x d gs" if x: "?S x = Some (d, gs)" for x d gs
  proof (cases "x = p")
    case True
    then show ?thesis using x st by (auto simp: slab_state_def)
  next
    case False
    then have Sx: "S x = Some (d, gs)" using x by simp
    show ?thesis using slab_state_stable [OF heap_coreD(9) [OF h Sx]] stable [OF Sx] by blast
  qed
  have lists: "elinks.chain pg m' (ch_heads ?ch ! d) (?P d) \<and> (\<forall>x \<in> set (?P d). \<exists>fs. ?S x = Some (d, fs))"
    if d: "d < 9" for d
  proof (cases "d = c")
    case True
    have "elinks.chain pg m' (Some p) [p]"
      using pc(1) slab_okD(3) [OF st] by (simp add: elinks.chain_def entry_next_def entry_prev_def)
    then show ?thesis using True heap_coreD(8) [OF h] c(1) by simp
  next
    case False
    have mem: "\<exists>fs. S x = Some (d, fs)" if "x \<in> set (P d)" for x using heap_coreD(11) [OF h d that] .
    then have "elinks.chain pg m' (ch_heads ch ! d) (P d)"
      using heap_coreD(10) [OF h d] elinks.chain_cong [of "P d" pg m' m "ch_heads ch ! d"] stable by metis
    moreover have "\<exists>fs. ?S x = Some (d, fs)" if "x \<in> set (P d)" for x
      using mem [OF that] pS by auto
    ultimately show ?thesis using False by simp
  qed
  have "B \<inter> slab_blocks ?S = {}" using heap_coreD(2) [OF h] p by auto
  then have h': "heap_core m' pg fr ?ch L B ?S ?P"
    using inv Bent states lists heap_coreD(8) [OF h] unfolding heap_core_def cache_core_def by simp
  have "same_on (live_bytes B S) m m'"
  proof (rule same_on_subset [OF same])
    have "x div 4096 \<noteq> p" if x: "x \<in> live_bytes B S" for x
    proof -
      consider "x div 4096 \<in> pages_in B" | q d fs i where "S q = Some (d, fs)" "i < slab_slots d"
        "x \<in> range_of (slot_addr q d i) (class_size d)"
        using x by (auto simp: live_bytes_def object_bytes_def)
      then show ?thesis
      proof cases
        case 1
        then obtain q k where q: "(q, k) \<in> B" "x div 4096 \<in> block q k" unfolding in_pages_in by blast
        show ?thesis
        proof
          assume "x div 4096 = p"
          then have "(q, k) = (p, 0)"
            using q by (intro disjoint_blocksD [OF frames_coreD(4) [OF heap_coreD(5) [OF h]], where x = p]) auto
          then show False using q(1) p by blast
        qed
      next
        case 2
        then have "x div 4096 = q" using slot_bytes_page [OF slab_page(6) [OF h 2(1)]] by blast
        then show ?thesis using 2(1) pS by auto
      qed
    qed
    moreover have "live_bytes B S \<inter> meta_bytes pg = {}"
      using live_bytes_apart(1) [OF h] by (auto simp: live_bytes_def)
    ultimately show "live_bytes B S \<subseteq> - touched pg {p}" using tp(2) by auto
  qed
  then show thesis using that [OF a h'] by blast
qed

subsection \<open>\<open>alloc\<close>\<close>

text \<open>The objects in use: a slab, its class, and a slot of it.\<close>

definition objects :: "slabs \<Rightarrow> (pfn \<times> nat \<times> nat) set" where
  "objects S = {(p, c, i). \<exists>fs. S p = Some (c, fs) \<and> i < slab_slots c \<and> i \<notin> set fs}"

definition lists_exact :: "slabs \<Rightarrow> (nat \<Rightarrow> slab list) \<Rightarrow> bool" where
  "lists_exact S P \<longleftrightarrow> (\<forall>c<9. set (P c) = {p. \<exists>fs. S p = Some (c, fs) \<and> fs \<noteq> []})"

definition busy_but :: "slabs \<Rightarrow> pfn set \<Rightarrow> bool" where
  "busy_but S X \<longleftrightarrow> (\<forall>p c fs. S p = Some (c, fs) \<longrightarrow> p \<notin> X \<longrightarrow> length fs < slab_slots c)"

lemma caches_tidy_iff: "caches_tidy S P \<longleftrightarrow> busy_but S {} \<and> lists_exact S P"
  by (simp add: caches_tidy_def busy_but_def lists_exact_def)

lemma objects_take:
  assumes "S q = Some (c, i # js)" and "i < slab_slots c" and "i \<notin> set js"
  shows "objects (S(q \<mapsto> (c, js))) = insert (q, c, i) (objects S)" and "(q, c, i) \<notin> objects S"
  using assms by (auto simp: objects_def split: if_splits)

lemma cache_take_ok:
  assumes h: "heap_core m pg fr ch L B S P" and busy: "busy_but S {q}" and exact: "lists_exact S P"
    and S: "S q = Some (c, i # js)" and P: "P c = q # qs"
  obtains m' ch' P' where "cache_take pg m ch c q = Inr (m', ch', Some (slot_addr q c i))"
    and "heap_core m' pg fr ch' L B (S(q \<mapsto> (c, js))) P'" and "caches_tidy (S(q \<mapsto> (c, js))) P'"
    and "same_on (live_bytes B S) m m'" and "i < slab_slots c" and "i \<notin> set js"
proof -
  let ?S = "S(q \<mapsto> (c, js))"
  note c = slab_page(6) [OF h S]
  obtain nx pv where st: "slab_ok pg m q c (i # js) nx pv"
    using heap_coreD(9) [OF h S] by (auto simp: slab_state_def)
  have i: "i < slab_slots c" "i \<notin> set js" using slab_okD(4,5) [OF st] by auto
  have room: "length js < slab_slots c" using slab_okD(7) [OF st] by simp
  obtain m1 where a: "slab_alloc pg m q = Inr (m1, Some (slot_addr q c i))"
    and h1: "heap_core m1 pg fr ch L B ?S P" and full: "slab_is_full pg m1 q = Inr (js = [])"
    and s1: "same_on (live_bytes B S) m m1"
    by (rule core_slab_alloc [OF h S])
  have busy': "busy_but ?S {}" using busy room by (auto simp: busy_but_def)
  have others: "p \<noteq> q" if "p \<in> set (P d)" "d \<noteq> c" "d < 9" for p d
    using heap_coreD(11) [OF h that(3,1)] S that(2) by auto
  show thesis
  proof (cases "js = []")
    case False
    have "lists_exact ?S P" using exact S False by (auto simp: lists_exact_def split: if_splits)
    moreover have "cache_take pg m ch c q = Inr (m1, ch, Some (slot_addr q c i))"
      using a full False by (simp add: cache_take_def)
    ultimately show thesis using that [of m1 ch P] h1 busy' s1 i by (simp add: caches_tidy_iff)
  next
    case True
    have qP: "q \<in> set (P c)" using P by simp
    obtain m2 ch2 where u: "cache_unlink pg m1 ch q = Inr (m2, ch2)"
      and h2: "heap_core m2 pg fr ch2 L B ?S (P(c := remove1 q (P c)))" and s2: "same_on (- meta_bytes pg) m1 m2"
      by (rule core_unlink_slab [OF h1 c qP])
    have hd: "ch_heads ch ! c = Some q"
      using heap_coreD(10) [OF h c] P elinks.chain_head [of pg m "ch_heads ch ! c" "P c"] by simp
    have "cache_take pg m ch c q = Inr (m2, ch2, Some (slot_addr q c i))"
      using a full True u hd heap_coreD(8) [OF h] c by (simp add: cache_take_def cache_pop_def cache_head_def)
    moreover have "lists_exact ?S (P(c := remove1 q (P c)))"
    proof -
      have "distinct (P c)" using heap_coreD(10) [OF h c] by (simp add: elinks.chain_def)
      then have "set (remove1 q (P c)) = {p. \<exists>fs. ?S p = Some (c, fs) \<and> fs \<noteq> []}"
        using exact c True by (auto simp: lists_exact_def)
      moreover have "set (P d) = {p. \<exists>fs. ?S p = Some (d, fs) \<and> fs \<noteq> []}" if "d < 9" "d \<noteq> c" for d
        using exact that S by (auto simp: lists_exact_def)
      ultimately show ?thesis by (simp add: lists_exact_def)
    qed
    moreover have "same_on (live_bytes B S) m1 m2"
      by (rule same_on_subset [OF s2]) (use live_bytes_apart(1) [OF h] in blast)
    ultimately show thesis
      using that [of m2 ch2 "P(c := remove1 q (P c))"] h2 busy' i same_on_trans [OF s1]
      by (simp add: caches_tidy_iff)
  qed
qed

lemma cache_alloc_ok:
  assumes h: "heap_core m pg fr ch L B S P" and tidy: "caches_tidy S P" and c: "c < 9"
    and avail: "P c \<noteq> [] \<or> (\<exists>k<ORDERS. L k \<noteq> [])"
  obtains m' fr' ch' L' S' P' q i where "cache_alloc pg m fr ch c = Inr (m', fr', ch', Some (slot_addr q c i))"
    and "heap_core m' pg fr' ch' L' B S' P'" and "caches_tidy S' P'"
    and "objects S' = insert (q, c, i) (objects S)" and "(q, c, i) \<notin> objects S"
    and "same_on (live_bytes B S) m m'" and "free_pages L' \<union> dom S' = free_pages L \<union> dom S"
proof -
  have busy: "busy_but S {}" and exact: "lists_exact S P" using tidy by (simp_all add: caches_tidy_iff)
  have len: "c < length (ch_heads ch)" using heap_coreD(8) [OF h] c by simp
  show thesis
  proof (cases "P c")
    case (Cons q qs)
    have "q \<in> set (P c)" using Cons by simp
    then obtain fs where fs: "S q = Some (c, fs)" "fs \<noteq> []" using exact c by (auto simp: lists_exact_def)
    then obtain i js where S: "S q = Some (c, i # js)" by (cases fs) auto
    have "ch_heads ch ! c = Some q"
      using heap_coreD(10) [OF h c] Cons elinks.chain_head [of pg m "ch_heads ch ! c" "P c"] by simp
    then have found: "cache_slab pg m fr ch c = Inr (m, fr, ch, Some q)" using len by (simp add: cache_slab_def)
    have "busy_but S {q}" using busy by (simp add: busy_but_def)
    then obtain m' ch' P' where t: "cache_take pg m ch c q = Inr (m', ch', Some (slot_addr q c i))"
      and h': "heap_core m' pg fr ch' L B (S(q \<mapsto> (c, js))) P'" and ti: "caches_tidy (S(q \<mapsto> (c, js))) P'"
      and s: "same_on (live_bytes B S) m m'" and i: "i < slab_slots c" "i \<notin> set js"
      by (rule cache_take_ok [OF h _ exact S Cons])
    have "cache_alloc pg m fr ch c = Inr (m', fr, ch', Some (slot_addr q c i))"
      using found t by (simp add: cache_alloc_def)
    moreover have "free_pages L \<union> dom (S(q \<mapsto> (c, js))) = free_pages L \<union> dom S" using S by auto
    ultimately show thesis using that h' ti objects_take [of S q c i js, OF S i] s by blast
  next
    case Nil
    then have none: "ch_heads ch ! c = None"
      using heap_coreD(10) [OF h c] elinks.chain_head [of pg m "ch_heads ch ! c" "P c"] by simp
    obtain k where k: "0 \<le> k" "k < ORDERS" "L k \<noteq> []" using avail Nil by blast
    obtain m1 fr1 L1 p where fa: "frames_alloc m pg fr 0 = Inr (m1, fr1, Some p)"
      and h1: "heap_core m1 pg fr1 ch L1 (insert (p, 0) B) S P" and pB: "(p, 0) \<notin> B"
      and fb: "block p 0 \<subseteq> free_pages L" and fL: "free_pages L1 = free_pages L - block p 0"
      and s1: "same_on (live_bytes B S) m m1"
      by (rule core_alloc_block [OF h k])
    let ?fs = "[0..<slab_slots c]" and ?ch = "ch\<lparr>ch_heads := (ch_heads ch)[c := Some p]\<rparr>"
    obtain m2 where si: "slab_init pg m1 p c = Inr (m2, Some p)"
      and h2: "heap_core m2 pg fr1 ?ch L1 B (S(p \<mapsto> (c, ?fs))) (P(c := [p]))"
      and s2: "same_on (live_bytes B S) m1 m2"
      by (rule core_init_slab [OF h1 pB c none])
    have pS: "p \<notin> dom S" using heap_coreD(2) [OF h1] by auto
    have found: "cache_slab pg m fr ch c = Inr (m2, fr1, ?ch, Some p)"
      using len none fa si by (simp add: cache_slab_def cache_set_head_def)
    have upt: "?fs = 0 # [Suc 0..<slab_slots c]" using slab_slots_bounds [OF c] by (simp add: upt_conv_Cons)
    have S2: "(S(p \<mapsto> (c, ?fs))) p = Some (c, 0 # [Suc 0..<slab_slots c])" using upt by simp
    have busy2: "busy_but (S(p \<mapsto> (c, ?fs))) {p}" using busy by (simp add: busy_but_def)
    have exact2: "lists_exact (S(p \<mapsto> (c, ?fs))) (P(c := [p]))"
    proof -
      have "S q = Some (c, fs) \<Longrightarrow> fs = []" for q fs using exact c Nil by (auto simp: lists_exact_def)
      then show ?thesis
        using exact pS slab_slots_bounds [OF c] by (auto simp: lists_exact_def)
    qed
    obtain m' ch' P' where t: "cache_take pg m2 ?ch c p = Inr (m', ch', Some (slot_addr p c 0))"
      and h': "heap_core m' pg fr1 ch' L1 B (S(p \<mapsto> (c, ?fs), p \<mapsto> (c, [Suc 0..<slab_slots c]))) P'"
      and ti: "caches_tidy (S(p \<mapsto> (c, ?fs), p \<mapsto> (c, [Suc 0..<slab_slots c]))) P'"
      and s: "same_on (live_bytes B (S(p \<mapsto> (c, ?fs)))) m2 m'"
      by (rule cache_take_ok [OF h2 busy2 exact2 S2]) simp
    have ob: "objects (S(p \<mapsto> (c, [Suc 0..<slab_slots c]))) = insert (p, c, 0) (objects S)" "(p, c, 0) \<notin> objects S"
      using pS slab_slots_bounds [OF c] by (auto simp: objects_def split: if_splits)
    have "live_bytes B S \<subseteq> live_bytes B (S(p \<mapsto> (c, ?fs)))"
      using pS by (fastforce simp: live_bytes_def object_bytes_def dom_def)
    then have "same_on (live_bytes B S) m m'"
      using same_on_trans [OF same_on_trans [OF s1 s2]] same_on_subset [OF s] by blast
    moreover have "cache_alloc pg m fr ch c = Inr (m', fr1, ch', Some (slot_addr p c 0))"
      using found t by (simp add: cache_alloc_def)
    moreover have "free_pages L1 \<union> dom (S(p \<mapsto> (c, [Suc 0..<slab_slots c]))) = free_pages L \<union> dom S"
      using fb fL by auto
    ultimately show thesis using that [OF _ h' ti] ob by simp
  qed
qed

lemma cache_alloc_none:
  assumes h: "heap_core m pg fr ch L B S P" and c: "c < 9" and none: "P c = []" "\<And>k. k < ORDERS \<Longrightarrow> L k = []"
  shows "cache_alloc pg m fr ch c = Inr (m, fr, ch, None)"
proof -
  have "ch_heads ch ! c = None"
    using heap_coreD(10) [OF h c] elinks.chain_head [of pg m "ch_heads ch ! c" "P c"] none(1) by simp
  moreover have "frames_alloc m pg fr 0 = Inr (m, fr, None)"
    by (rule alloc_no_list(1) [OF heap_coreD(1) [OF h]]) (simp add: none)
  ultimately show ?thesis
    using heap_coreD(8) [OF h] c by (simp add: cache_alloc_def cache_slab_def)
qed

subsection \<open>\<open>free\<close>\<close>

lemma slab_is_empty_eq:
  assumes h: "heap_core m pg fr ch L B S P" and S: "S q = Some (c, fs)"
  shows "slab_is_empty pg m q = Inr (length fs = slab_slots c)"
proof -
  obtain nx pv where st: "slab_ok pg m q c fs nx pv"
    using heap_coreD(9) [OF h S] by (auto simp: slab_state_def)
  note d = slab_okD [OF st]
  have "slab_slots c - length fs < 65536" using slab_slots_bounds [OF d(1)] by auto
  then have "(of_nat (slab_slots c - length fs) :: u16) = 0 \<longleftrightarrow> slab_slots c - length fs = 0"
    by (simp add: word_unat_eq_iff unat_of_nat del: of_nat_diff)
  then show ?thesis
    using heap_coreD(6) [OF h] d(2,3,7) by (auto simp: slab_is_empty_def pages_read_covered simp del: of_nat_diff)
qed

lemma slab_from_addr_eq:
  assumes h: "heap_core m pg fr ch L B S P" and S: "S q = Some (c, fs)" and i: "i < slab_slots c"
  shows "slab_from_addr pg m (slot_addr q c i) = Inr (Some q)"
proof -
  have "q < pfn_limit" using covered_limit [OF heap_coreD(6) [OF h] slab_page(2) [OF h S]] .
  then have "from_addr_down (slot_addr q c i) = q" using slot_offset(1) slab_page(6) [OF h S] i by blast
  then show ?thesis
    using heap_coreD(6) [OF h] slab_page(2,5) [OF h S]
    by (auto simp: slab_from_addr_def slab_at_def pages_read_covered is_slab_def split: entry.splits)
qed

lemma cache_free_ok:
  assumes h: "heap_core m pg fr ch L B S P" and tidy: "caches_tidy S P" and o: "(q, c, i) \<in> objects S"
  obtains m' fr' ch' L' S' P' where "cache_free pg m fr ch (slot_addr q c i) = Inr (m', fr', ch')"
    and "heap_core m' pg fr' ch' L' B S' P'" and "caches_tidy S' P'"
    and "objects S' = objects S - {(q, c, i)}" and "same_on (live_bytes B S') m m'"
    and "free_pages L' \<union> dom S' = free_pages L \<union> dom S"
proof -
  have busy: "busy_but S {}" and exact: "lists_exact S P" using tidy by (simp_all add: caches_tidy_iff)
  obtain fs where S: "S q = Some (c, fs)" and i: "i < slab_slots c" "i \<notin> set fs"
    using o by (auto simp: objects_def)
  note c = slab_page(6) [OF h S]
  let ?S1 = "S(q \<mapsto> (c, i # fs))"
  obtain m1 where sf: "slab_free pg m q (slot_addr q c i) = Inr m1" and h1: "heap_core m1 pg fr ch L B ?S1 P"
    and full: "slab_is_full pg m q = Inr (fs = [])" and s1: "same_on (live_bytes B ?S1) m m1"
    by (rule core_slab_free [OF h S i])
  have S1: "?S1 q = Some (c, i # fs)" by simp
  obtain m2 ch2 P2 where push: "(if fs = [] then cache_push pg m1 ch c q else Inr (m1, ch)) = Inr (m2, ch2)"
    and h2: "heap_core m2 pg fr ch2 L B ?S1 P2" and s2: "same_on (- meta_bytes pg) m1 m2"
    and exact2: "lists_exact ?S1 P2"
  proof (cases "fs = []")
    case True
    have "q \<notin> set (P c)" using exact c S True by (auto simp: lists_exact_def)
    then obtain m2 ch2 where "cache_push pg m1 ch c q = Inr (m2, ch2)"
      "heap_core m2 pg fr ch2 L B ?S1 (P(c := q # P c))" "same_on (- meta_bytes pg) m1 m2"
      by (rule core_push_slab [OF h1 S1])
    moreover have "lists_exact ?S1 (P(c := q # P c))"
      using exact S c by (auto simp: lists_exact_def split: if_splits)
    ultimately show thesis using that True by simp
  next
    case False
    have "lists_exact ?S1 P" using exact S False by (auto simp: lists_exact_def split: if_splits)
    then show thesis using that [of m1 ch P] h1 False by simp
  qed
  have empty: "slab_is_empty pg m2 q = Inr (length (i # fs) = slab_slots c)"
    by (rule slab_is_empty_eq [OF h2 S1])
  note found = slab_from_addr_eq [OF h S i(1)] slab_class_idx_eq [OF heap_coreD(6) [OF h] heap_coreD(9) [OF h S]]
  have s12: "same_on (live_bytes B ?S1) m m2"
    by (rule same_on_trans [OF s1 same_on_subset [OF s2]]) (use live_bytes_apart(1) [OF h1] in blast)
  show thesis
  proof (cases "length (i # fs) = slab_slots c")
    case False
    obtain nx pv where st: "slab_ok pg m1 q c (i # fs) nx pv"
      using heap_coreD(9) [OF h1 S1] by (auto simp: slab_state_def)
    have "length (i # fs) \<le> slab_slots c" by (rule slab_okD(7) [OF st])
    then have "busy_but ?S1 {}" using busy False by (auto simp: busy_but_def)
    moreover have "objects ?S1 = objects S - {(q, c, i)}"
      using S i by (auto simp: objects_def split: if_splits)
    moreover have "cache_free pg m fr ch (slot_addr q c i) = Inr (m2, fr, ch2)"
      using found full sf push empty False by (simp add: cache_free_def)
    moreover have "free_pages L \<union> dom ?S1 = free_pages L \<union> dom S" using S by auto
    ultimately show thesis using that [of m2 fr ch2 L ?S1 P2] h2 exact2 s12 by (simp add: caches_tidy_iff)
  next
    case True
    have qP: "q \<in> set (P2 c)" using exact2 c by (simp add: lists_exact_def)
    obtain m3 ch3 where u: "cache_unlink pg m2 ch2 q = Inr (m3, ch3)"
      and h3: "heap_core m3 pg fr ch3 L B ?S1 (P2(c := remove1 q (P2 c)))" and s3: "same_on (- meta_bytes pg) m2 m3"
      by (rule core_unlink_slab [OF h2 c qP])
    let ?P3 = "P2(c := remove1 q (P2 c))" and ?S3 = "S(q := None)"
    have "distinct (P2 c)" using heap_coreD(10) [OF h2 c] by (simp add: elinks.chain_def)
    then have qn: "q \<notin> set (?P3 c)" by simp
    have SS: "?S1(q := None) = ?S3" by simp
    obtain m4 fr4 L4 where fr: "frames_free m3 pg fr q = Inr (m4, fr4)"
      and h4: "heap_core m4 pg fr4 ch3 L4 B (?S1(q := None)) ?P3"
      and f4: "free_pages L4 = insert q (free_pages L)" and s4: "same_on (live_bytes B (?S1(q := None))) m3 m4"
      by (rule core_drop_slab [OF h3 S1 qn])
    have sub: "live_bytes B ?S3 \<subseteq> live_bytes B ?S1"
      by (fastforce simp: live_bytes_def object_bytes_def split: if_splits)
    have "same_on (live_bytes B ?S3) m2 m3"
      by (rule same_on_subset [OF s3]) (use live_bytes_apart(1) [OF h2] sub in blast)
    then have same: "same_on (live_bytes B ?S3) m m4"
      using same_on_subset [OF s12 sub] s4 unfolding SS by (blast intro: same_on_trans)
    have "lists_exact ?S3 ?P3"
    proof -
      have "set (remove1 q (P2 c)) = {p. \<exists>fs. ?S3 p = Some (c, fs) \<and> fs \<noteq> []}"
        using exact2 c \<open>distinct (P2 c)\<close> by (auto simp: lists_exact_def split: if_splits)
      moreover have "set (P2 d) = {p. \<exists>fs. ?S3 p = Some (d, fs) \<and> fs \<noteq> []}" if "d < 9" "d \<noteq> c" for d
        using exact2 that by (auto simp: lists_exact_def split: if_splits)
      ultimately show ?thesis by (simp add: lists_exact_def)
    qed
    moreover have "busy_but ?S3 {}" using busy by (simp add: busy_but_def)
    moreover have "objects ?S3 = objects S - {(q, c, i)}"
    proof -
      have all: "set (i # fs) = {..<slab_slots c}"
      proof -
        obtain nx pv where st: "slab_ok pg m2 q c (i # fs) nx pv"
          using heap_coreD(9) [OF h2 S1] by (auto simp: slab_state_def)
        have "card (set (i # fs)) = card {..<slab_slots c}"
          using slab_okD(4) [OF st] True by (simp add: distinct_card [symmetric])
        then show ?thesis using slab_okD(5) [OF st] by (intro card_subset_eq) auto
      qed
      have "j = i" if "j < slab_slots c" "j \<notin> set fs" for j using all that by auto
      then show ?thesis using S by (auto simp: objects_def split: if_splits)
    qed
    moreover have "cache_free pg m fr ch (slot_addr q c i) = Inr (m4, fr4, ch3)"
      using found full sf push empty True u fr by (simp add: cache_free_def)
    moreover have "free_pages L4 \<union> dom ?S3 = free_pages L \<union> dom S" using f4 S by auto
    ultimately show thesis using that [of m4 fr4 ch3 L4 ?S3 ?P3] h4 same unfolding SS by (simp add: caches_tidy_iff)
  qed
qed

end
