(* ===== verification/Heap.thy ===== *)
theory Heap
  imports CacheCorrect
begin

text \<open>
  The kernel heap (\<open>src/src/mm/heap.rs\<close>, \<open>src/src/mm/mod.rs\<close>, \<open>src/src/mm/image.rs\<close>): small layouts go to
  the slab caches, large ones to the buddy allocator, and the page metadata tells \<open>dealloc\<close> which of
  the two an address came from. The global heap is locked around each call, so one call is one step
  of the model.
\<close>

record heap =
  hp_pages :: pages
  hp_frames :: frames
  hp_cache :: cache

definition heap_empty :: heap where
  "heap_empty = \<lparr>hp_pages = pages_empty, hp_frames = frames_empty, hp_cache = cache_new\<rparr>"

definition heap_init :: "mem \<Rightarrow> heap \<Rightarrow> memory_map \<Rightarrow> (mem \<times> heap \<times> memory_map) outcome" where
  "heap_init m h mm =
    (if pg_len (hp_pages h) \<noteq> 0 then Inr (m, h, mm)
     else case pages_new m mm of (m1, mm1, found) \<Rightarrow>
       (case found of
          None \<Rightarrow> Inl (Panicked ''Failed to initialize heap pages'')
        | Some pg \<Rightarrow>
            obind (frames_new m1 mm1 pg) (\<lambda>(m2, fr).
            Inr (m2, \<lparr>hp_pages = pg, hp_frames = fr, hp_cache = cache_new\<rparr>, mm1))))"

text \<open>\<open>usize::next_power_of_two\<close>, which wraps to zero in a release build.\<close>

definition next_power_of_two :: "usize \<Rightarrow> usize" where
  "next_power_of_two n = (if n \<le> 1 then 1 else 2 ^ Suc (log2_floor (n - 1)) mod usize_limit)"

definition heap_alloc_pages :: "mem \<Rightarrow> heap \<Rightarrow> nat \<Rightarrow> (mem \<times> heap \<times> usize option) outcome" where
  "heap_alloc_pages m h order =
    obind (frames_alloc m (hp_pages h) (hp_frames h) order) (\<lambda>(m', fr, page_pfn).
    Inr (m', h\<lparr>hp_frames := fr\<rparr>, map_option to_addr page_pfn))"

definition heap_free_pages :: "mem \<Rightarrow> heap \<Rightarrow> usize \<Rightarrow> (mem \<times> heap) outcome" where
  "heap_free_pages m h address =
    obind (frames_free m (hp_pages h) (hp_frames h) (from_addr_down address)) (\<lambda>(m', fr).
    Inr (m', h\<lparr>hp_frames := fr\<rparr>))"

definition heap_slab_alloc :: "mem \<Rightarrow> heap \<Rightarrow> nat \<Rightarrow> (mem \<times> heap \<times> usize option) outcome" where
  "heap_slab_alloc m h class_idx =
    obind (cache_alloc (hp_pages h) m (hp_frames h) (hp_cache h) class_idx) (\<lambda>(m', fr, ch, address).
    Inr (m', h\<lparr>hp_frames := fr, hp_cache := ch\<rparr>, address))"

definition heap_slab_free :: "mem \<Rightarrow> heap \<Rightarrow> usize \<Rightarrow> (mem \<times> heap) outcome" where
  "heap_slab_free m h address =
    obind (cache_free (hp_pages h) m (hp_frames h) (hp_cache h) address) (\<lambda>(m', fr, ch).
    Inr (m', h\<lparr>hp_frames := fr, hp_cache := ch\<rparr>))"

definition alloc_layout :: "mem \<Rightarrow> heap \<Rightarrow> layout \<Rightarrow> (mem \<times> heap \<times> usize option) outcome" where
  "alloc_layout m h l =
    (case class_of l of
       Some class_idx \<Rightarrow> heap_slab_alloc m h class_idx
     | None \<Rightarrow>
         let size_pages = div_ceil (l_size l) PAGE_SIZE;
             align_pages = div_ceil (l_align l) PAGE_SIZE
         in obind (ilog2 (next_power_of_two (max size_pages align_pages))) (\<lambda>order.
            heap_alloc_pages m h order))"

definition free_layout :: "mem \<Rightarrow> heap \<Rightarrow> usize \<Rightarrow> layout \<Rightarrow> (mem \<times> heap) outcome" where
  "free_layout m h address l =
    obind (pages_read (hp_pages h) m (from_addr_down address)) (\<lambda>entry.
    obind (assert_that ''free with a layout that does not match the page it points at''
      ((class_of l \<noteq> None) = is_slab entry)) (\<lambda>_.
    case entry of
      Slab _ _ _ _ _ \<Rightarrow> heap_slab_free m h address
    | Buddy _ _ \<Rightarrow> heap_free_pages m h address))"

text \<open>\<open>GlobalAlloc::alloc\<close> and \<open>dealloc\<close>: a failed allocation is the null pointer.\<close>

definition global_alloc :: "mem \<Rightarrow> heap \<Rightarrow> layout \<Rightarrow> (mem \<times> heap \<times> usize) outcome" where
  "global_alloc m h l = obind (alloc_layout m h l) (\<lambda>(m', h', address).
    Inr (m', h', case address of Some a \<Rightarrow> a | None \<Rightarrow> 0))"

definition global_dealloc :: "mem \<Rightarrow> heap \<Rightarrow> usize \<Rightarrow> layout \<Rightarrow> (mem \<times> heap) outcome" where
  "global_dealloc m h ptr l = free_layout m h ptr l"

subsection \<open>The kernel image\<close>

text \<open>The addresses the linker script defines (\<open>linker.ld\<close>).\<close>

record linker_symbols =
  ld_image_start :: usize
  ld_exec_end :: usize
  ld_rodata_end :: usize
  ld_stack_guard_start :: usize
  ld_stack_bottom :: usize
  ld_stack_top :: usize

definition between :: "usize \<Rightarrow> usize \<Rightarrow> region" where
  "between start fin = \<lparr>r_base = start, r_size = usize_sub fin start\<rparr>"

definition image :: "linker_symbols \<Rightarrow> region" where
  "image ld = between (ld_image_start ld) (ld_stack_top ld)"

definition executable :: "linker_symbols \<Rightarrow> region" where
  "executable ld = between (ld_image_start ld) (ld_exec_end ld)"

definition rodata :: "linker_symbols \<Rightarrow> region" where
  "rodata ld = between (ld_exec_end ld) (ld_rodata_end ld)"

definition writable_data :: "linker_symbols \<Rightarrow> region" where
  "writable_data ld = between (ld_rodata_end ld) (ld_stack_guard_start ld)"

definition stack_guard :: "linker_symbols \<Rightarrow> region" where
  "stack_guard ld = between (ld_stack_guard_start ld) (ld_stack_bottom ld)"

definition stack :: "linker_symbols \<Rightarrow> region" where
  "stack ld = between (ld_stack_bottom ld) (ld_stack_top ld)"

subsection \<open>Bringing the memory up\<close>

text \<open>
  \<open>mm::init\<close>: an \<open>Err\<close> of the source is \<open>Inl\<close> of its message inside the outcome; printing is left out.
\<close>

definition mm_init :: "mem \<Rightarrow> heap \<Rightarrow> linker_symbols \<Rightarrow> region \<Rightarrow> region \<Rightarrow> (string + mem \<times> heap \<times> memory_map) outcome" where
  "mm_init m h ld memory dtb =
    (case memory_map_new memory of
       None \<Rightarrow> Inr (Inl ''The device tree reported no usable memory'')
     | Some mm \<Rightarrow>
       (case reserve mm (image ld) of
          Inl Full \<Rightarrow> Inr (Inl ''No room to reserve the kernel image and the device tree'')
        | Inr mm1 \<Rightarrow>
          (case reserve mm1 dtb of
             Inl Full \<Rightarrow> Inr (Inl ''No room to reserve the kernel image and the device tree'')
           | Inr mm2 \<Rightarrow> obind (heap_init m h mm2) (\<lambda>r. Inr (Inr r)))))"

subsection \<open>The order of a large layout\<close>

definition layout_order :: "layout \<Rightarrow> nat" where
  "layout_order l = (let n = max (div_ceil (l_size l) 4096) (div_ceil (l_align l) 4096)
    in if n \<le> 1 then 0 else Suc (log2_floor (n - 1)))"

lemma layout_pages_small:
  assumes "layout_ok l"
  shows "max (div_ceil (l_size l) 4096) (div_ceil (l_align l) 4096) \<le> 2 ^ 51"
    and "0 < max (div_ceil (l_size l) 4096) (div_ceil (l_align l) 4096)"
proof -
  obtain a where a: "a < 63" "l_align l = 2 ^ a" "l_size l + l_align l \<le> 2 ^ 63" using assms by (auto simp: layout_ok_def)
  have "div_ceil (l_size l) 4096 \<le> 2 ^ 51" "div_ceil (l_align l) 4096 \<le> 2 ^ 51"
    using a by (simp_all add: div_ceil_le_iff)
  then show "max (div_ceil (l_size l) 4096) (div_ceil (l_align l) 4096) \<le> 2 ^ 51" by simp
  have "0 < l_align l" using a by simp
  then have "0 < div_ceil (l_align l) 4096" by (subst less_div_ceil_iff) simp_all
  then show "0 < max (div_ceil (l_size l) 4096) (div_ceil (l_align l) 4096)" by simp
qed

lemma layout_order_fits:
  assumes "layout_ok l"
  shows "max (div_ceil (l_size l) 4096) (div_ceil (l_align l) 4096) \<le> 2 ^ layout_order l"
    and "layout_order l \<le> 51"
    and "ilog2 (next_power_of_two (max (div_ceil (l_size l) 4096) (div_ceil (l_align l) 4096))) = Inr (layout_order l)"
proof -
  define n where "n = max (div_ceil (l_size l) 4096) (div_ceil (l_align l) 4096)"
  have n: "n \<le> 2 ^ 51" "0 < n" using layout_pages_small [OF assms] by (simp_all add: n_def)
  have ord: "layout_order l = (if n \<le> 1 then 0 else Suc (log2_floor (n - 1)))" by (simp add: layout_order_def n_def Let_def)
  have "n \<le> 2 ^ layout_order l \<and> layout_order l \<le> 51
    \<and> ilog2 (next_power_of_two n) = Inr (layout_order l)"
  proof (cases "n \<le> 1")
    case True
    then show ?thesis using n ord log2_floor_pow [of 0] by (simp add: next_power_of_two_def ilog2_def)
  next
    case False
    have fit: "2 ^ j \<le> n - 1 \<longleftrightarrow> j \<le> log2_floor (n - 1)" for j
      using False by (intro log2_floor_le_iff) simp
    have "n - 1 < 2 ^ Suc (log2_floor (n - 1))" using fit [of "Suc (log2_floor (n - 1))"] by simp
    moreover have le: "log2_floor (n - 1) < 51"
    proof (rule ccontr)
      assume "\<not> log2_floor (n - 1) < 51"
      then have "2 ^ 51 \<le> n - 1" using fit [of 51] by simp
      then show False using n by simp
    qed
    moreover have "(2::nat) ^ Suc (log2_floor (n - 1)) < usize_limit"
    proof -
      have "(2::nat) ^ Suc (log2_floor (n - 1)) \<le> 2 ^ 51" using le by (intro power_increasing) auto
      then show ?thesis by simp
    qed
    moreover have "log2_floor (2 ^ Suc (log2_floor (n - 1))) = Suc (log2_floor (n - 1))" by (rule log2_floor_pow)
    ultimately show ?thesis using False ord by (simp add: next_power_of_two_def ilog2_def)
  qed
  then show "max (div_ceil (l_size l) 4096) (div_ceil (l_align l) 4096) \<le> 2 ^ layout_order l"
    "layout_order l \<le> 51"
    "ilog2 (next_power_of_two (max (div_ceil (l_size l) 4096) (div_ceil (l_align l) 4096))) = Inr (layout_order l)"
    by (simp_all add: n_def)
qed

end
