(* ===== verification/HeapCorrect.thy ===== *)
theory HeapCorrect
  imports Heap
begin

text \<open>
  Correctness of the heap. A live allocation is an address with the layout it was made with; behind it
  stands an owner, a block of the buddy allocator or a slot of a slab. The invariant \<open>heap_inv\<close> says
  that the live allocations are exactly the owners, and that free pages, blocks and slabs make up the
  pages \<open>U\<close> the heap started with.
\<close>

type_synonym owner = "blk + (pfn \<times> nat \<times> nat)"

fun owner_addr :: "owner \<Rightarrow> usize" where
  "owner_addr (Inl (p, k)) = p * 4096"
| "owner_addr (Inr (q, c, i)) = slot_addr q c i"

fun owner_size :: "owner \<Rightarrow> nat" where
  "owner_size (Inl (p, k)) = 2 ^ k * 4096"
| "owner_size (Inr (q, c, i)) = class_size c"

fun owner_matches :: "layout \<Rightarrow> owner \<Rightarrow> bool" where
  "owner_matches l (Inl (p, k)) \<longleftrightarrow> class_of l = None \<and> k = layout_order l"
| "owner_matches l (Inr (q, c, i)) \<longleftrightarrow> class_of l = Some c"

definition owner_bytes :: "owner \<Rightarrow> usize set" where
  "owner_bytes w = range_of (owner_addr w) (owner_size w)"

definition owners :: "blk set \<Rightarrow> slabs \<Rightarrow> owner set" where
  "owners B S = Inl ` B \<union> Inr ` objects S"

type_synonym live = "usize \<Rightarrow> layout option"

definition tracks :: "live \<Rightarrow> owner set \<Rightarrow> bool" where
  "tracks live W \<longleftrightarrow> dom live = owner_addr ` W
    \<and> (\<forall>w \<in> W. \<forall>l. live (owner_addr w) = Some l \<longrightarrow> layout_ok l \<and> owner_matches l w)"

definition heap_inv :: "mem \<Rightarrow> heap \<Rightarrow> pfn set \<Rightarrow> pfn set \<Rightarrow> live \<Rightarrow> bool" where
  "heap_inv m h U F live \<longleftrightarrow> (\<exists>L B S P. heap_core m (hp_pages h) (hp_frames h) (hp_cache h) L B S P
    \<and> caches_tidy S P \<and> tracks live (owners B S)
    \<and> F = free_pages L \<and> F \<union> pages_in B \<union> dom S = U)"

subsection \<open>Owners\<close>

lemma block_bytes: "range_of (p * 4096) (2 ^ k * 4096) = bytes_of (block p k)"
  by (auto simp: in_block div_less_iff_less_mult less_eq_div_iff_mult_less_eq algebra_simps)

lemma live_bytes_owners: "live_bytes B S = (\<Union>w \<in> owners B S. owner_bytes w)"
proof -
  have "owner_bytes (Inl b) = bytes_of (block (fst b) (snd b))" for b
    by (cases b) (simp add: owner_bytes_def block_bytes del: in_range_of)
  then have "bytes_of (pages_in B) = (\<Union>b \<in> B. owner_bytes (Inl b))"
    unfolding set_eq_iff in_bytes_of in_pages_in UN_iff by force
  moreover have "object_bytes S = (\<Union>w \<in> objects S. owner_bytes (Inr w))"
    by (fastforce simp: object_bytes_def objects_def owner_bytes_def)
  ultimately show ?thesis by (simp add: live_bytes_def owners_def UN_Un)
qed

lemma class_size_pos: "0 < class_size c"
  by (simp add: class_size_def)

lemma owner_addr_in: "owner_addr w \<in> owner_bytes w"
  by (cases w) (auto simp: owner_bytes_def class_size_pos)

lemma owner_page:
  assumes h: "heap_core m pg fr ch L B S P" and w: "w \<in> owners B S" and x: "x \<in> owner_bytes w"
  obtains p k where "(p, k) \<in> B \<union> slab_blocks S" and "x div 4096 \<in> block p k"
    and "(case w of Inl b \<Rightarrow> (p, k) = b | Inr (q, c, i) \<Rightarrow> (p, k) = (q, 0))"
proof (cases w)
  case (Inl b)
  obtain p k where b: "b = (p, k)" by fastforce
  have "x div 4096 \<in> block p k" using x Inl b by (simp add: owner_bytes_def block_bytes)
  then show thesis using that [of p k] w Inl b by (auto simp: owners_def)
next
  case (Inr y)
  obtain q c i where y: "y = (q, c, i)" by (cases y)
  obtain fs where S: "S q = Some (c, fs)" and i: "i < slab_slots c" using w Inr y by (auto simp: owners_def objects_def)
  have "x div 4096 = q"
    using slot_bytes_page [OF slab_page(6) [OF h S] i] x Inr y by (simp add: owner_bytes_def)
  then show thesis using that [of q 0] slab_page(4) [OF h S] Inr y by simp
qed

lemma owners_disjoint:
  assumes h: "heap_core m pg fr ch L B S P" and w: "w \<in> owners B S" "w' \<in> owners B S" "w \<noteq> w'"
  shows "owner_bytes w \<inter> owner_bytes w' = {}"
proof (rule ccontr)
  assume "owner_bytes w \<inter> owner_bytes w' \<noteq> {}"
  then obtain x where x: "x \<in> owner_bytes w" "x \<in> owner_bytes w'" by blast
  obtain p k where a: "(p, k) \<in> B \<union> slab_blocks S" "x div 4096 \<in> block p k"
    "(case w of Inl b \<Rightarrow> (p, k) = b | Inr (q, c, i) \<Rightarrow> (p, k) = (q, 0))" by (rule owner_page [OF h w(1) x(1)])
  obtain p' k' where a': "(p', k') \<in> B \<union> slab_blocks S" "x div 4096 \<in> block p' k'"
    "(case w' of Inl b \<Rightarrow> (p', k') = b | Inr (q, c, i) \<Rightarrow> (p', k') = (q, 0))" by (rule owner_page [OF h w(2) x(2)])
  have eq: "(p, k) = (p', k')"
    using a a' by (intro disjoint_blocksD [OF frames_coreD(4) [OF heap_coreD(5) [OF h]], where x = "x div 4096"]) auto
  have notboth: "\<not> (b \<in> B \<and> b \<in> slab_blocks S)" for b using heap_coreD(2) [OF h] by blast
  have slabin: "(q, 0) \<in> slab_blocks S" if "Inr (q, c, i) \<in> owners B S" for q c i
    using that by (auto simp: owners_def objects_def)
  show False
  proof (cases w; cases w')
    fix b b' assume "w = Inl b" "w' = Inl b'"
    then show False using a a' eq w(3) by simp
  next
    fix b y assume ww: "w = Inl b" "w' = Inr y"
    obtain q c i where y: "y = (q, c, i)" by (cases y)
    have "b = (q, 0)" using a(3) a'(3) eq ww y by simp
    then show False using notboth [of b] slabin [of q c i] w(1,2) ww y by (auto simp: owners_def)
  next
    fix b y assume ww: "w' = Inl b" "w = Inr y"
    obtain q c i where y: "y = (q, c, i)" by (cases y)
    have "b = (q, 0)" using a(3) a'(3) eq ww y by simp
    then show False using notboth [of b] slabin [of q c i] w(1,2) ww y by (auto simp: owners_def)
  next
    fix y y' assume ww: "w = Inr y" "w' = Inr y'"
    obtain q c i where y: "y = (q, c, i)" by (cases y)
    obtain q' c' i' where y': "y' = (q', c', i')" by (cases y')
    have "q = q'" using a(3) a'(3) eq ww y y' by simp
    moreover have "\<exists>fs. S q = Some (c, fs)" "\<exists>fs. S q' = Some (c', fs)"
      using w(1,2) ww y y' by (auto simp: owners_def objects_def)
    ultimately have "q = q'" "c = c'" "i \<noteq> i'" using w(3) ww y y' by auto
    then show False
      using slot_addr_disjoint [of i i' q c] x ww y y' by (auto simp: owner_bytes_def simp del: in_range_of)
  qed
qed

lemma owner_addr_inj:
  assumes "heap_core m pg fr ch L B S P" "w \<in> owners B S" "w' \<in> owners B S" "owner_addr w = owner_addr w'"
  shows "w = w'"
  using owners_disjoint [OF assms(1-3)] owner_addr_in [of w] owner_addr_in [of w'] assms(4) by auto

lemma owners_arena:
  assumes h: "heap_core m pg fr ch L B S P" and w: "w \<in> owners B S"
  shows "owner_bytes w \<subseteq> bytes_of (covered pg)" and "owner_bytes w \<inter> meta_bytes pg = {}"
    and "owner_addr w + owner_size w \<le> usize_limit"
proof -
  show arena: "owner_bytes w \<subseteq> bytes_of (covered pg)"
  proof
    fix x assume "x \<in> owner_bytes w"
    then obtain p k where "(p, k) \<in> B \<union> slab_blocks S" "x div 4096 \<in> block p k" by (rule owner_page [OF h w])
    then show "x \<in> bytes_of (covered pg)" using heap_coreD(7) [OF h] block_okD(4) by fastforce
  qed
  show "owner_bytes w \<inter> meta_bytes pg = {}"
    using live_bytes_apart(1) [OF h] w unfolding live_bytes_owners by blast
  have pos: "0 < owner_size w" by (cases w) (auto simp: class_size_pos)
  then have "owner_addr w + owner_size w - 1 \<in> owner_bytes w" by (auto simp: owner_bytes_def)
  then have "(owner_addr w + owner_size w - 1) div 4096 \<in> covered pg" using arena by auto
  then have "(owner_addr w + owner_size w - 1) div 4096 < pfn_limit" by (rule covered_limit [OF heap_coreD(6) [OF h]])
  then have "owner_addr w + owner_size w - 1 < usize_limit" by (simp add: div_less_iff_less_mult)
  then show "owner_addr w + owner_size w \<le> usize_limit" using pos by linarith
qed

text \<open>An owner that matches a layout is large enough and aligned for it.\<close>

lemma owner_fits:
  assumes l: "layout_ok l" and m: "owner_matches l w" and b: "\<And>p k. w = Inl (p, k) \<Longrightarrow> 2 ^ k dvd p"
    and s: "\<And>q c i. w = Inr (q, c, i) \<Longrightarrow> c < 9"
  shows "l_size l \<le> owner_size w" and "l_align l dvd owner_addr w"
proof -
  obtain a where a: "l_align l = 2 ^ a" using l by (auto simp: layout_ok_def)
  have "l_size l \<le> owner_size w \<and> l_align l dvd owner_addr w"
  proof (cases w)
    case (Inl y)
    obtain p k where y: "y = (p, k)" by fastforce
    have k: "k = layout_order l" using m Inl y by simp
    have fit: "div_ceil (l_size l) 4096 \<le> 2 ^ k" "div_ceil (l_align l) 4096 \<le> 2 ^ k"
      using layout_order_fits(1) [OF l] k by simp_all
    then have "l_size l \<le> 2 ^ k * 4096" "l_align l \<le> 2 ^ k * 4096" by (simp_all add: div_ceil_le_iff)
    moreover have "(2::nat) ^ k * 4096 = 2 ^ (k + 12)" by (simp add: power_add)
    ultimately have "a \<le> k + 12" using a by simp
    then have "l_align l dvd 2 ^ (k + 12)" using a by (simp add: le_imp_power_dvd)
    also have "2 ^ (k + 12) dvd p * 4096" using b [of p k] Inl y by (simp add: power_add mult_dvd_mono)
    finally show ?thesis using \<open>l_size l \<le> 2 ^ k * 4096\<close> Inl y by simp
  next
    case (Inr y)
    obtain q c i where y: "y = (q, c, i)" by (cases y)
    have c: "class_of l = Some c" using m Inr y by simp
    note co = class_of_Some [OF l c]
    have "(2::nat) ^ a \<le> 2 ^ (c + 3)" using co(3) a by (simp add: class_size_def)
    then have "a \<le> c + 3" by simp
    then have al: "l_align l dvd class_size c" using a by (simp add: class_size_def le_imp_power_dvd)
    have "class_size c dvd 4096" using slots_size [OF co(1)] by (metis dvd_triv_right)
    then have "class_size c dvd slot_addr q c i" by (simp add: slot_addr_def)
    then show ?thesis using al co(2) Inr y by (auto intro: dvd_trans)
  qed
  then show "l_size l \<le> owner_size w" "l_align l dvd owner_addr w" by simp_all
qed


lemma owner_fits_core:
  assumes h: "heap_core m pg fr ch L B S P" and w: "w \<in> owners B S" and l: "layout_ok l" and m: "owner_matches l w"
  shows "l_size l \<le> owner_size w" and "l_align l dvd owner_addr w"
proof -
  have "2 ^ k dvd p" if "w = Inl (p, k)" for p k
    using block_okD(2) [of pg p k] heap_coreD(7) [OF h, of "(p, k)"] w that by (auto simp: owners_def)
  moreover have "c < 9" if "w = Inr (q, c, i)" for q c i
    using slab_page(6) [OF h] w that by (auto simp: owners_def objects_def)
  ultimately show "l_size l \<le> owner_size w" "l_align l dvd owner_addr w"
    using owner_fits [OF l m] by blast+
qed

subsection \<open>Live allocations\<close>

text \<open>The bytes the clients of the heap asked for.\<close>

definition live_area :: "live \<Rightarrow> usize set" where
  "live_area live = {x. \<exists>a l. live a = Some l \<and> x \<in> range_of a (l_size l)}"

lemma tracks_owner:
  assumes "tracks live W" "live a = Some l"
  obtains w where "w \<in> W" "owner_addr w = a" "layout_ok l" "owner_matches l w"
  using assms unfolding tracks_def by (metis (no_types, lifting) domI imageE)

lemma tracks_insert:
  assumes "tracks live W" "owner_addr w \<notin> owner_addr ` W" "layout_ok l" "owner_matches l w"
  shows "tracks (live(owner_addr w \<mapsto> l)) (insert w W)" and "live (owner_addr w) = None"
  using assms by (auto simp: tracks_def image_iff domIff)

lemma tracks_remove:
  assumes "tracks live W" "inj_on owner_addr W" "w \<in> W"
  shows "tracks (live(owner_addr w := None)) (W - {w})"
  using assms by (auto simp: tracks_def inj_on_def)

lemma live_area_owners:
  assumes h: "heap_core m pg fr ch L B S P" and t: "tracks live (owners B S)"
  shows "live_area live \<subseteq> live_bytes B S"
proof
  fix x assume "x \<in> live_area live"
  then obtain a l where al: "live a = Some l" "x \<in> range_of a (l_size l)" by (auto simp: live_area_def)
  obtain w where w: "w \<in> owners B S" "owner_addr w = a" "layout_ok l" "owner_matches l w"
    by (rule tracks_owner [OF t al(1)])
  have "l_size l \<le> owner_size w" by (rule owner_fits_core(1) [OF h w(1,3,4)])
  then have "x \<in> owner_bytes w" using al(2) w(2) by (auto simp: owner_bytes_def)
  then show "x \<in> live_bytes B S" using w(1) unfolding live_bytes_owners by blast
qed

lemma live_area_remove: "live_area (live(a := None)) \<subseteq> live_area live"
  by (auto simp: live_area_def split: if_splits)

lemma owners_inj: "heap_core m pg fr ch L B S P \<Longrightarrow> inj_on owner_addr (owners B S)"
  using owner_addr_inj unfolding inj_on_def by blast

subsection \<open>Allocation\<close>

lemma heap_alloc_block:
  assumes h: "heap_core m (hp_pages hp) (hp_frames hp) (hp_cache hp) L B S P"
    and t: "tracks live (owners B S)" "caches_tidy S P"
    and U: "free_pages L \<union> pages_in B \<union> dom S = U"
    and k: "layout_order l \<le> k" "k < ORDERS" "L k \<noteq> []" and l: "layout_ok l" "class_of l = None"
  obtains m' hp' a F' where "heap_alloc_pages m hp (layout_order l) = Inr (m', hp', Some a)"
    and "live a = None" and "heap_inv m' hp' U F' (live(a \<mapsto> l))" and "F' \<subseteq> free_pages L"
    and "same_on (live_area live) m m'" and "hp_pages hp' = hp_pages hp"
proof -
  let ?o = "layout_order l"
  obtain m' fr' L' p where a: "frames_alloc m (hp_pages hp) (hp_frames hp) ?o = Inr (m', fr', Some p)"
    and h': "heap_core m' (hp_pages hp) fr' (hp_cache hp) L' (insert (p, ?o) B) S P" and n: "(p, ?o) \<notin> B"
    and b: "block p ?o \<subseteq> free_pages L" and f: "free_pages L' = free_pages L - block p ?o"
    and s: "same_on (live_bytes B S) m m'"
    by (rule core_alloc_block [OF h k])
  let ?w = "Inl (p, ?o) :: owner"
  have W: "owners (insert (p, ?o) B) S = insert ?w (owners B S)" by (simp add: owners_def)
  have "?w \<notin> owners B S" using n by (auto simp: owners_def)
  then have new: "owner_addr ?w \<notin> owner_addr ` owners B S"
    using owners_inj [OF h'] unfolding W inj_on_def by blast
  note tr = tracks_insert [OF t(1) new, where l = l, OF l(1)]
  have "p < pfn_limit"
    using covered_limit [OF heap_coreD(6) [OF h']] block_okD(3) [of "hp_pages hp" p ?o] heap_coreD(7) [OF h', of "(p, ?o)"] by simp
  then have "heap_alloc_pages m hp ?o = Inr (m', hp\<lparr>hp_frames := fr'\<rparr>, Some (p * 4096))"
    using a by (simp add: heap_alloc_pages_def to_addr_small)
  moreover have "free_pages L' \<union> pages_in (insert (p, ?o) B) \<union> dom S = U"
    using b f U by auto
  then have "heap_inv m' (hp\<lparr>hp_frames := fr'\<rparr>) U (free_pages L') (live(p * 4096 \<mapsto> l))"
    unfolding heap_inv_def
    by (intro exI [of _ L'] exI [of _ "insert (p, ?o) B"] exI [of _ S] exI [of _ P])
      (use h' t(2) tr(1) l W in simp)
  moreover have "live (p * 4096) = None" using tr(2) l by simp
  moreover have "same_on (live_area live) m m'" by (rule same_on_subset [OF s live_area_owners [OF h t(1)]])
  ultimately show thesis using that f by auto
qed

lemma heap_alloc_slot:
  assumes h: "heap_core m (hp_pages hp) (hp_frames hp) (hp_cache hp) L B S P"
    and t: "tracks live (owners B S)" "caches_tidy S P"
    and U: "free_pages L \<union> pages_in B \<union> dom S = U"
    and avail: "P c \<noteq> [] \<or> (\<exists>k<ORDERS. L k \<noteq> [])" and l: "layout_ok l" "class_of l = Some c"
  obtains m' hp' a F' where "heap_slab_alloc m hp c = Inr (m', hp', Some a)"
    and "live a = None" and "heap_inv m' hp' U F' (live(a \<mapsto> l))"
    and "same_on (live_area live) m m'" and "hp_pages hp' = hp_pages hp"
proof -
  have c: "c < 9" by (rule class_of_Some(1) [OF l])
  obtain m' fr' ch' L' S' P' q i where a: "cache_alloc (hp_pages hp) m (hp_frames hp) (hp_cache hp) c
      = Inr (m', fr', ch', Some (slot_addr q c i))"
    and h': "heap_core m' (hp_pages hp) fr' ch' L' B S' P'" and ti: "caches_tidy S' P'"
    and o: "objects S' = insert (q, c, i) (objects S)" and n: "(q, c, i) \<notin> objects S"
    and s: "same_on (live_bytes B S) m m'" and f: "free_pages L' \<union> dom S' = free_pages L \<union> dom S"
    by (rule cache_alloc_ok [OF h t(2) c avail])
  let ?w = "Inr (q, c, i) :: owner" and ?hp = "hp\<lparr>hp_frames := fr', hp_cache := ch'\<rparr>"
  have W: "owners B S' = insert ?w (owners B S)" by (auto simp: owners_def o)
  have "?w \<notin> owners B S" using n by (auto simp: owners_def)
  then have new: "owner_addr ?w \<notin> owner_addr ` owners B S"
    using owners_inj [OF h'] unfolding W inj_on_def by blast
  note tr = tracks_insert [OF t(1) new, where l = l, OF l(1)]
  have "heap_slab_alloc m hp c = Inr (m', ?hp, Some (slot_addr q c i))" using a by (simp add: heap_slab_alloc_def)
  moreover have "free_pages L' \<union> pages_in B \<union> dom S' = U" using f U by blast
  then have "heap_inv m' ?hp U (free_pages L') (live(slot_addr q c i \<mapsto> l))"
    unfolding heap_inv_def
    by (intro exI [of _ L'] exI [of _ B] exI [of _ S'] exI [of _ P']) (use h' ti tr(1) l W in simp)
  moreover have "live (slot_addr q c i) = None" using tr(2) l by simp
  moreover have "same_on (live_area live) m m'" by (rule same_on_subset [OF s live_area_owners [OF h t(1)]])
  ultimately show thesis using that by auto
qed

lemma alloc_layout_large:
  "layout_ok l \<Longrightarrow> class_of l = None \<Longrightarrow> alloc_layout m h l = heap_alloc_pages m h (layout_order l)"
  using layout_order_fits(3) [of l] by (simp add: alloc_layout_def PAGE_SIZE_def Let_def)

text \<open>The order of the run of pages an allocation needs when its class has no free slot.\<close>

definition fallback_order :: "layout \<Rightarrow> nat" where
  "fallback_order l = (if class_of l = None then layout_order l else 0)"

lemma alloc_layout_cases:
  assumes inv: "heap_inv m h U F live" and l: "layout_ok l"
  obtains m' h' a F' where "alloc_layout m h l = Inr (m', h', Some a)" and "live a = None"
      and "heap_inv m' h' U F' (live(a \<mapsto> l))" and "same_on (live_area live) m m'" and "hp_pages h' = hp_pages h"
  | "alloc_layout m h l = Inr (m, h, None)"
      and "\<forall>b. 2 ^ fallback_order l dvd b \<longrightarrow> fallback_order l \<le> MAX_ORDER \<longrightarrow> \<not> block b (fallback_order l) \<subseteq> F"
proof -
  obtain L B S P where c: "heap_core m (hp_pages h) (hp_frames h) (hp_cache h) L B S P" "caches_tidy S P"
    "tracks live (owners B S)" "F = free_pages L" "F \<union> pages_in B \<union> dom S = U"
    using inv unfolding heap_inv_def by blast
  note U = c(5) [unfolded c(4)]
  show thesis
  proof (cases "class_of l")
    case None
    note al = alloc_layout_large [OF l None, of m h]
    show thesis
    proof (cases "\<exists>k. layout_order l \<le> k \<and> k < ORDERS \<and> L k \<noteq> []")
      case True
      then obtain k where "layout_order l \<le> k" "k < ORDERS" "L k \<noteq> []" by blast
      then show thesis using heap_alloc_block [OF c(1,3,2) U _ _ _ l None] that(1) unfolding al by metis
    next
      case False
      then have none: "\<And>k. layout_order l \<le> k \<Longrightarrow> k < ORDERS \<Longrightarrow> L k = []" by blast
      note no = alloc_no_list [OF heap_coreD(1) [OF c(1)] none]
      have "alloc_layout m h l = Inr (m, h, None)" using no(1) by (simp add: al heap_alloc_pages_def)
      then show thesis using that(2) no(2) None c(4) by (auto simp: fallback_order_def)
    qed
  next
    case (Some d)
    have d: "d < 9" by (rule class_of_Some(1) [OF l Some])
    have al: "alloc_layout m h l = heap_slab_alloc m h d" using Some by (simp add: alloc_layout_def)
    show thesis
    proof (cases "P d \<noteq> [] \<or> (\<exists>k<ORDERS. L k \<noteq> [])")
      case True
      then show thesis using heap_alloc_slot [OF c(1,3,2) U _ l Some] that(1) unfolding al by metis
    next
      case False
      then have none: "P d = []" "\<And>k. k < ORDERS \<Longrightarrow> L k = []" by blast+
      have "alloc_layout m h l = Inr (m, h, None)"
        using cache_alloc_none [OF c(1) d none] by (simp add: al heap_slab_alloc_def)
      then show thesis
        using that(2) Some c(4) none(2) alloc_no_list(2) [OF heap_coreD(1) [OF c(1)], of 0]
        by (auto simp: fallback_order_def)
    qed
  qed
qed

subsection \<open>Deallocation\<close>

lemma free_layout_block:
  assumes h: "heap_core m (hp_pages hp) (hp_frames hp) (hp_cache hp) L B S P"
    and t: "tracks live (owners B S)" "caches_tidy S P"
    and U: "free_pages L \<union> pages_in B \<union> dom S = U"
    and b: "(p, k) \<in> B" and l: "class_of l = None"
  obtains m' hp' F' where "free_layout m hp (p * 4096) l = Inr (m', hp')"
    and "heap_inv m' hp' U F' (live(p * 4096 := None))"
    and "same_on (live_area (live(p * 4096 := None))) m m'" and "hp_pages hp' = hp_pages hp"
proof -
  obtain m' fr' L' where a: "frames_free m (hp_pages hp) (hp_frames hp) p = Inr (m', fr')"
    and h': "heap_core m' (hp_pages hp) fr' (hp_cache hp) L' (B - {(p, k)}) S P"
    and f: "free_pages L' = free_pages L \<union> block p k" and s: "same_on (live_bytes (B - {(p, k)}) S) m m'"
    by (rule core_free_block [OF h b])
  have ok: "block_ok (hp_pages hp) (p, k)" using heap_coreD(7) [OF h] b by blast
  have "p \<in> covered (hp_pages hp)" by (rule block_okD(3) [OF ok])
  moreover have "from_addr_down (p * 4096) = p" by (simp add: from_addr_down_def)
  ultimately have "free_layout m hp (p * 4096) l = Inr (m', hp\<lparr>hp_frames := fr'\<rparr>)"
    using heap_coreD(6) [OF h] heap_coreD(3) [OF h b] l a
    by (simp add: free_layout_def pages_read_covered is_slab_def heap_free_pages_def)
  moreover have "Inl (p, k) \<in> owners B S" using b by (simp add: owners_def)
  note tr = tracks_remove [OF t(1) owners_inj [OF h] this]
  have W: "owners B S - {Inl (p, k)} = owners (B - {(p, k)}) S" by (auto simp: owners_def)
  have "free_pages L' \<union> pages_in (B - {(p, k)}) \<union> dom S = U"
    using f U b unfolding set_eq_iff Un_iff in_pages_in by fastforce
  then have "heap_inv m' (hp\<lparr>hp_frames := fr'\<rparr>) U (free_pages L') (live(p * 4096 := None))"
    unfolding heap_inv_def
    by (intro exI [of _ L'] exI [of _ "B - {(p, k)}"] exI [of _ S] exI [of _ P])
      (use h' t(2) tr W in simp)
  moreover have "same_on (live_area (live(p * 4096 := None))) m m'"
    by (rule same_on_subset [OF s live_area_owners [OF h']]) (use tr W in simp)
  ultimately show thesis using that by auto
qed

lemma free_layout_slot:
  assumes h: "heap_core m (hp_pages hp) (hp_frames hp) (hp_cache hp) L B S P"
    and t: "tracks live (owners B S)" "caches_tidy S P"
    and U: "free_pages L \<union> pages_in B \<union> dom S = U"
    and o: "(q, c, i) \<in> objects S" and l: "class_of l \<noteq> None"
  obtains m' hp' F' where "free_layout m hp (slot_addr q c i) l = Inr (m', hp')"
    and "heap_inv m' hp' U F' (live(slot_addr q c i := None))"
    and "same_on (live_area (live(slot_addr q c i := None))) m m'" and "hp_pages hp' = hp_pages hp"
proof -
  obtain m' fr' ch' L' S' P' where a: "cache_free (hp_pages hp) m (hp_frames hp) (hp_cache hp) (slot_addr q c i) = Inr (m', fr', ch')"
    and h': "heap_core m' (hp_pages hp) fr' ch' L' B S' P'" and ti: "caches_tidy S' P'"
    and o': "objects S' = objects S - {(q, c, i)}" and s: "same_on (live_bytes B S') m m'"
    and f: "free_pages L' \<union> dom S' = free_pages L \<union> dom S"
    by (rule cache_free_ok [OF h t(2) o])
  let ?hp = "hp\<lparr>hp_frames := fr', hp_cache := ch'\<rparr>" and ?live = "live(slot_addr q c i := None)"
  obtain fs where S: "S q = Some (c, fs)" "i < slab_slots c" using o by (auto simp: objects_def)
  note pg = slab_page(2,5,6) [OF h S(1)]
  have "from_addr_down (slot_addr q c i) = q"
    by (rule slot_offset(1) [OF covered_limit [OF heap_coreD(6) [OF h] pg(1)] pg(3) S(2)])
  then have "free_layout m hp (slot_addr q c i) l = Inr (m', ?hp)"
    using heap_coreD(6) [OF h] pg l a
    by (auto simp: free_layout_def pages_read_covered is_slab_def heap_slab_free_def split: entry.splits)
  moreover have "Inr (q, c, i) \<in> owners B S" using o by (simp add: owners_def)
  note tr = tracks_remove [OF t(1) owners_inj [OF h] this]
  have W: "owners B S - {Inr (q, c, i)} = owners B S'" by (auto simp: owners_def o')
  have "free_pages L' \<union> pages_in B \<union> dom S' = U" using f U by blast
  then have "heap_inv m' ?hp U (free_pages L') ?live"
    unfolding heap_inv_def
    by (intro exI [of _ L'] exI [of _ B] exI [of _ S'] exI [of _ P']) (use h' ti tr W in simp)
  moreover have "same_on (live_area ?live) m m'"
    by (rule same_on_subset [OF s live_area_owners [OF h']]) (use tr W in simp)
  ultimately show thesis using that by auto
qed

lemma free_layout_ok:
  assumes inv: "heap_inv m h U F live" and l: "live a = Some l"
  obtains m' h' F' where "free_layout m h a l = Inr (m', h')" and "heap_inv m' h' U F' (live(a := None))"
    and "same_on (live_area (live(a := None))) m m'" and "hp_pages h' = hp_pages h"
proof -
  obtain L B S P where c: "heap_core m (hp_pages h) (hp_frames h) (hp_cache h) L B S P" "caches_tidy S P"
    "tracks live (owners B S)" "F = free_pages L" "F \<union> pages_in B \<union> dom S = U"
    using inv unfolding heap_inv_def by blast
  note U = c(5) [unfolded c(4)]
  obtain w where w: "w \<in> owners B S" "owner_addr w = a" "owner_matches l w"
    by (rule tracks_owner [OF c(3) l])
  show thesis
  proof (cases w)
    case (Inl b)
    obtain p k where b: "b = (p, k)" by fastforce
    have "(p, k) \<in> B" "class_of l = None" "a = p * 4096" using w Inl b by (auto simp: owners_def)
    then show thesis using free_layout_block [OF c(1,3,2) U] that by metis
  next
    case (Inr y)
    obtain q d i where y: "y = (q, d, i)" by (cases y)
    have "(q, d, i) \<in> objects S" "class_of l \<noteq> None" "a = slot_addr q d i" using w Inr y by (auto simp: owners_def)
    then show thesis using free_layout_slot [OF c(1,3,2) U] that by metis
  qed
qed

subsection \<open>Clients writing to their allocations\<close>

lemma free_slot_apart:
  assumes h: "heap_core m pg fr ch L B S P" and S: "S q = Some (c, fs)" and i: "i \<in> set fs"
  shows "range_of (slot_addr q c i) (class_size c) \<inter> live_bytes B S = {}"
proof -
  obtain nx pv where "slab_ok pg m q c fs nx pv" using heap_coreD(9) [OF h S] by (auto simp: slab_state_def)
  then have i': "i < slab_slots c" using i by (auto simp: slab_ok_def)
  note c = slab_page(6) [OF h S]
  have False if x: "x \<in> range_of (slot_addr q c i) (class_size c)" "x \<in> live_bytes B S" for x
  proof -
    have q: "x div 4096 = q" by (rule slot_bytes_page [OF c i' x(1)])
    have "q \<notin> pages_in B"
    proof
      assume "q \<in> pages_in B"
      then obtain p k where p: "(p, k) \<in> B" "q \<in> block p k" unfolding in_pages_in by blast
      then have "(p, k) = (q, 0)"
        using slab_page(4) [OF h S]
        by (intro disjoint_blocksD [OF frames_coreD(4) [OF heap_coreD(5) [OF h]], where x = q]) auto
      then show False using p(1) slab_page(4) [OF h S] heap_coreD(2) [OF h] by blast
    qed
    then have "x \<in> object_bytes S" using x(2) q by (simp add: live_bytes_def)
    then obtain q' c' fs' j where o: "S q' = Some (c', fs')" "j < slab_slots c'" "j \<notin> set fs'"
      "x \<in> range_of (slot_addr q' c' j) (class_size c')" by (auto simp: object_bytes_def simp del: in_range_of)
    have "q' = q" using slot_bytes_page [OF slab_page(6) [OF h o(1)] o(2,4)] q by simp
    then have "c' = c" "j \<noteq> i" using o S i by auto
    then show False using slot_addr_disjoint [of i j q c] x(1) o(4) \<open>q' = q\<close> by blast
  qed
  then show ?thesis by blast
qed

lemma heap_core_client_write:
  assumes h: "heap_core m pg fr ch L B S P"
    and s: "same_on (bytes_of (free_pages L \<union> dom S) \<union> meta_bytes pg - live_bytes B S) m m'"
  shows "heap_core m' pg fr ch L B S P"
proof -
  have meta: "same_on (meta_bytes pg) m m'" by (rule same_on_subset [OF s]) (use live_bytes_apart(1) [OF h] in blast)
  note entry = entry_at_same_on [OF meta]
  have cov: "fst b \<in> covered pg" if "b \<in> B \<union> slab_blocks S" for b
    using block_okD(3) [of pg "fst b" "snd b"] heap_coreD(7) [OF h that] by simp
  have "bytes_of (free_pages L) \<subseteq> touched pg (free_pages L)" by (rule bytes_of_touched)
  then have "same_on (bytes_of (free_pages L)) m m'"
    using live_bytes_apart(2) [OF h] by (intro same_on_subset [OF s]) (auto simp: bytes_of_Un)
  then have "frames_inv m' pg fr L (B \<union> slab_blocks S)"
    by (rule frames_inv_entries [OF heap_coreD(1) [OF h]]) (simp add: entry)
  moreover have "entry_at pg m' (fst b) = Buddy False (of_nat (snd b))" if "b \<in> B" for b
    using heap_coreD(3) [OF h that] entry [OF cov] that by simp
  moreover have "slab_state pg m' q c fs" if S: "S q = Some (c, fs)" for q c fs
  proof -
    note c = slab_page(6) [OF h S]
    have "read_u16 m' (slot_addr q c i) = read_u16 m (slot_addr q c i)" if i: "i \<in> set fs" for i
    proof (rule read_u16_same_on, rule same_on_subset [OF s])
      have "range_of (slot_addr q c i) 2 \<subseteq> range_of (slot_addr q c i) (class_size c)"
        using class_size_bounds [OF c] by (intro range_of_mono) auto
      moreover have "range_of (slot_addr q c i) (class_size c) \<subseteq> bytes_of (dom S)"
      proof -
        obtain nx pv where "slab_ok pg m q c fs nx pv" using heap_coreD(9) [OF h S] by (auto simp: slab_state_def)
        then have "i < slab_slots c" using i by (auto simp: slab_ok_def)
        then show ?thesis using slot_bytes_page [OF c] S by fastforce
      qed
      ultimately show "range_of (slot_addr q c i) 2 \<subseteq> bytes_of (free_pages L \<union> dom S) \<union> meta_bytes pg - live_bytes B S"
        using free_slot_apart [OF h S i] bytes_of_Un by blast
    qed
    then have "slot_chain m' q c fs = slot_chain m q c fs" by (rule slot_chain_cong)
    then show ?thesis
      using heap_coreD(9) [OF h S] entry [OF slab_page(2) [OF h S]] unfolding slab_state_def slab_ok_def by metis
  qed
  moreover have "elinks.chain pg m' (ch_heads ch ! c) (P c)" if c: "c < 9" for c
  proof -
    have "x \<in> covered pg" if "x \<in> set (P c)" for x
      using slab_page(2) [OF h] heap_coreD(11) [OF h c that] by blast
    then have "elinks.chain pg m' (ch_heads ch ! c) (P c) = elinks.chain pg m (ch_heads ch ! c) (P c)"
      by (intro elinks.chain_cong) (simp add: entry)
    then show ?thesis using heap_coreD(10) [OF h c] by simp
  qed
  ultimately show ?thesis
    using heap_coreD(2,8,11) [OF h] unfolding heap_core_def cache_core_def by blast
qed

text \<open>The heap depends on the bytes of its own pages and of its table, less the bytes clients own.\<close>

lemma heap_inv_outside:
  assumes inv: "heap_inv m h U F live" and s: "same_on (bytes_of U \<union> meta_bytes (hp_pages h) - live_area live) m m'"
  shows "heap_inv m' h U F live"
proof -
  obtain L B S P where c: "heap_core m (hp_pages h) (hp_frames h) (hp_cache h) L B S P" "caches_tidy S P"
    "tracks live (owners B S)" "F = free_pages L" "F \<union> pages_in B \<union> dom S = U"
    using inv unfolding heap_inv_def by blast
  have "bytes_of (free_pages L \<union> dom S) \<subseteq> bytes_of U" using c(4,5) by auto
  then have "same_on (bytes_of (free_pages L \<union> dom S) \<union> meta_bytes (hp_pages h) - live_bytes B S) m m'"
    by (intro same_on_subset [OF s]) (use live_area_owners [OF c(1,3)] in blast)
  then have "heap_core m' (hp_pages h) (hp_frames h) (hp_cache h) L B S P" by (rule heap_core_client_write [OF c(1)])
  then show ?thesis unfolding heap_inv_def using c(2-5) by blast
qed

lemma heap_inv_client_write:
  assumes "heap_inv m h U F live" and "same_on (- live_area live) m m'"
  shows "heap_inv m' h U F live"
  by (rule heap_inv_outside [OF assms(1) same_on_subset [OF assms(2)]]) blast

subsection \<open>What the invariant gives a client\<close>

lemma heap_inv_live:
  assumes inv: "heap_inv m h U F live" and l: "live a = Some l"
  shows "layout_ok l" and "l_align l dvd a" and "range_of a (l_size l) \<inter> meta_bytes (hp_pages h) = {}"
    and "range_of a (l_size l) \<subseteq> bytes_of (covered (hp_pages h))" and "a + l_size l \<le> usize_limit"
    and "range_of a (l_size l) \<inter> bytes_of F = {}"
proof -
  obtain L B S P where c: "heap_core m (hp_pages h) (hp_frames h) (hp_cache h) L B S P"
    "tracks live (owners B S)" "F = free_pages L"
    using inv unfolding heap_inv_def by blast
  obtain w where w: "w \<in> owners B S" "owner_addr w = a" "layout_ok l" "owner_matches l w"
    by (rule tracks_owner [OF c(2) l])
  note fit = owner_fits_core [OF c(1) w(1,3,4)]
  have sub: "range_of a (l_size l) \<subseteq> owner_bytes w"
    unfolding owner_bytes_def using fit(1) w(2) by (intro range_of_mono) auto
  have live: "owner_bytes w \<subseteq> live_bytes B S" using w(1) unfolding live_bytes_owners by blast
  show "layout_ok l" "l_align l dvd a" using w fit by auto
  show "range_of a (l_size l) \<inter> meta_bytes (hp_pages h) = {}" "range_of a (l_size l) \<subseteq> bytes_of (covered (hp_pages h))"
    "a + l_size l \<le> usize_limit"
    using owners_arena [OF c(1) w(1)] sub w(2) fit(1) by auto
  show "range_of a (l_size l) \<inter> bytes_of F = {}"
    using live_bytes_apart(2) [OF c(1)] bytes_of_touched [of "free_pages L" "hp_pages h"] c(3) sub live by blast
qed

lemma heap_inv_disjoint:
  assumes inv: "heap_inv m h U F live" and l: "live a = Some l" "live a' = Some l'" "a \<noteq> a'"
  shows "range_of a (l_size l) \<inter> range_of a' (l_size l') = {}"
proof -
  obtain L B S P where c: "heap_core m (hp_pages h) (hp_frames h) (hp_cache h) L B S P" "tracks live (owners B S)"
    using inv unfolding heap_inv_def by blast
  obtain w where w: "w \<in> owners B S" "owner_addr w = a" "layout_ok l" "owner_matches l w"
    by (rule tracks_owner [OF c(2) l(1)])
  obtain w' where w': "w' \<in> owners B S" "owner_addr w' = a'" "layout_ok l'" "owner_matches l' w'"
    by (rule tracks_owner [OF c(2) l(2)])
  have "range_of a (l_size l) \<subseteq> owner_bytes w" "range_of a' (l_size l') \<subseteq> owner_bytes w'"
    unfolding owner_bytes_def
    using owner_fits_core(1) [OF c(1) w(1,3,4)] owner_fits_core(1) [OF c(1) w'(1,3,4)] w(2) w'(2)
    by (simp_all add: range_of_mono)
  moreover have "owner_bytes w \<inter> owner_bytes w' = {}"
    by (rule owners_disjoint [OF c(1) w(1) w'(1)]) (use w w' l in auto)
  ultimately show ?thesis by blast
qed

text \<open>When nothing is live, every page the heap started with is free again.\<close>

lemma heap_inv_no_leak:
  assumes inv: "heap_inv m h U F Map.empty"
  shows "F = U"
proof -
  obtain L B S P where c: "caches_tidy S P" "tracks Map.empty (owners B S)" "F \<union> pages_in B \<union> dom S = U"
    and h: "heap_core m (hp_pages h) (hp_frames h) (hp_cache h) L B S P"
    using inv unfolding heap_inv_def by blast
  have none: "owners B S = {}" using c(2) by (simp add: tracks_def)
  have "S q = None" for q
  proof (rule ccontr)
    assume "S q \<noteq> None"
    then obtain d fs where S: "S q = Some (d, fs)" by auto
    then have "length fs < slab_slots d" using c(1) by (auto simp: caches_tidy_def)
    then have "card (set fs) < card {..<slab_slots d}" using card_length [of fs] by simp
    then have "\<not> {..<slab_slots d} \<subseteq> set fs" using card_mono [of "set fs" "{..<slab_slots d}"] by auto
    then obtain i where "i < slab_slots d" "i \<notin> set fs" by auto
    then have "Inr (q, d, i) \<in> owners B S" using S by (auto simp: owners_def objects_def)
    then show False using none by simp
  qed
  then have "dom S = {}" by auto
  moreover have "B = {}" using none by (auto simp: owners_def)
  ultimately show ?thesis using c(3) by auto
qed

text \<open>Every live byte lies in the pages the heap started with.\<close>

lemma heap_inv_live_pages:
  assumes inv: "heap_inv m h U F live" and l: "live a = Some l"
  shows "range_of a (l_size l) \<subseteq> bytes_of U"
proof -
  obtain L B S P where c: "heap_core m (hp_pages h) (hp_frames h) (hp_cache h) L B S P"
    "tracks live (owners B S)" "F \<union> pages_in B \<union> dom S = U"
    using inv unfolding heap_inv_def by blast
  have sub: "pages_in (B \<union> slab_blocks S) \<subseteq> U"
  proof
    fix x assume "x \<in> pages_in (B \<union> slab_blocks S)"
    then obtain p k where x: "(p, k) \<in> B \<union> slab_blocks S" "x \<in> block p k" unfolding in_pages_in by blast
    then consider "x \<in> pages_in B" | "p \<in> dom S" "k = 0" by (auto simp: in_pages_in)
    then show "x \<in> U" using c(3) x(2) by cases (auto simp: in_block)
  qed
  have "range_of a (l_size l) \<subseteq> live_area live" unfolding live_area_def using l by blast
  also have "\<dots> \<subseteq> live_bytes B S" by (rule live_area_owners [OF c(1,2)])
  also have "\<dots> \<subseteq> bytes_of (pages_in (B \<union> slab_blocks S))" by (rule live_bytes_pages [OF c(1)])
  also have "\<dots> \<subseteq> bytes_of U" using sub by auto
  finally show ?thesis .
qed

end
