(* ===== verification/HeapRuns.thy ===== *)
theory HeapRuns
  imports HeapCorrect
begin

text \<open>
  The heap over its life: it comes up in \<open>mm::init\<close>, and from then on clients allocate, free and write
  into what they hold, in any order. Each call runs under the heap's lock, so it is one step. The
  invariant \<open>heap_inv\<close> holds in every state reached.
\<close>

subsection \<open>Boot\<close>

definition boot_pages :: "memory_map \<Rightarrow> pfn set" where
  "boot_pages mm = {p \<in> arena_pages (mm_arena mm).
    \<forall>r \<in> set (reserved mm). \<forall>x \<in> page_bytes p. \<not> (r_base r \<le> x \<and> x < region_end r)}"

lemma unreserved_boot_pages: "map_wf mm \<Longrightarrow> unreserved_set mm = boot_pages mm"
  unfolding unreserved_set_def boot_pages_def set_eq_iff UN_iff using unreserved_pages by blast

lemma heap_inv_start:
  assumes "frames_inv m pg fr L {}"
  shows "heap_inv m \<lparr>hp_pages = pg, hp_frames = fr, hp_cache = cache_new\<rparr> (free_pages L) (free_pages L) Map.empty"
proof -
  have "slab_blocks Map.empty = {}" by (auto simp: slab_blocks_def)
  then have "heap_core m pg fr cache_new L {} Map.empty (\<lambda>_. [])"
    using assms by (simp add: heap_core_def cache_core_def cache_new_def CLASSES_COUNT_def)
  moreover have "caches_tidy Map.empty (\<lambda>_. [])" by (simp add: caches_tidy_def)
  moreover have "tracks Map.empty (owners {} Map.empty)" by (simp add: tracks_def owners_def objects_def)
  ultimately show ?thesis
    unfolding heap_inv_def
    by (intro exI [of _ L] exI [of _ "{}"] exI [of _ Map.empty] exI [of _ "\<lambda>_. []"]) simp
qed

lemma heap_init_ok:
  assumes mm: "map_wf mm" and new: "pages_new m mm = (m1, mm1, Some pg)" and h: "pg_len (hp_pages h) = 0"
  obtains m' h' where "heap_init m h mm = Inr (m', h', mm1)" and "hp_pages h' = pg"
    and "heap_inv m' h' (boot_pages mm1) (boot_pages mm1) Map.empty"
proof -
  note wf = pages_new_wf [OF mm new] and reg = pages_new_region [OF mm new]
  have res: "pg_region pg \<in> set (reserved mm1)" using wf(6) by simp
  have cov: "covered pg = arena_pages (mm_arena mm1)" using wf(2,5) by simp
  have "region_end (pg_region pg) = r_base (pg_region pg) + r_size (pg_region pg)"
    using reg(5) by (simp add: region_end_def usize_add_small)
  then have meta: "meta_bytes pg \<subseteq> {r_base (pg_region pg)..<region_end (pg_region pg)}"
    using wf(3) by (auto simp: range_of_def)
  obtain m' fr L where f: "frames_new m1 mm1 pg = Inr (m', fr)" and i: "frames_inv m' pg fr L {}"
    and u: "free_pages L = unreserved_set mm1"
    by (rule frames_new_ok [OF wf(4,1) cov wf(7) res meta])
  let ?h = "\<lparr>hp_pages = pg, hp_frames = fr, hp_cache = cache_new\<rparr>"
  have "heap_init m h mm = Inr (m', ?h, mm1)" using new f h by (simp add: heap_init_def)
  moreover have "heap_inv m' ?h (boot_pages mm1) (boot_pages mm1) Map.empty"
    using heap_inv_start [OF i] u unreserved_boot_pages [OF wf(4)] by simp
  ultimately show thesis using that [of m' ?h] by simp
qed

lemma heap_init_none:
  "pages_new m mm = (m1, mm1, None) \<Longrightarrow> pg_len (hp_pages h) = 0 \<Longrightarrow>
    heap_init m h mm = Inl (Panicked ''Failed to initialize heap pages'')"
  by (simp add: heap_init_def)

lemma heap_init_again: "pg_len (hp_pages h) \<noteq> 0 \<Longrightarrow> heap_init m h mm = Inr (m, h, mm)"
  by (simp add: heap_init_def)

lemma mm_init_maps:
  assumes size: "r_base memory + 4096 \<le> usize_limit"
  shows "memory_map_new memory = None \<or> (\<exists>mm mm1 mm2. memory_map_new memory = Some mm
    \<and> reserve mm (image ld) = Inr mm1 \<and> reserve mm1 dtb = Inr mm2 \<and> map_wf mm2
    \<and> mm_arena mm2 = mm_arena mm \<and> reserved mm2 = [image ld, dtb])"
proof (cases "memory_map_new memory")
  case (Some mm)
  have wf: "map_wf mm" by (rule map_wf_new [OF size Some])
  have len: "mm_len mm = 0" using Some by (auto simp: memory_map_new_def Let_def split: if_splits)
  then have r0: "reserved mm = []" by (simp add: reserved_def)
  obtain mm1 where m1: "reserve mm (image ld) = Inr mm1" "mm_len mm1 = 1"
    using reserve_cases [OF wf, of "image ld"] len by simp
  note s1 = reserved_reserve [OF wf m1(1)]
  obtain mm2 where m2: "reserve mm1 dtb = Inr mm2"
    using reserve_cases [OF s1(2), of dtb] m1(2) by simp
  show ?thesis using Some m1(1) m2 reserved_reserve [OF s1(2) m2] s1 r0 by auto
qed simp

subsection \<open>Steps\<close>

type_synonym heap_state = "mem \<times> heap \<times> live"

text \<open>
  \<open>Alloc\<close> and \<open>Free\<close> are calls of the global allocator; the safety contract of \<open>GlobalAlloc\<close> is in the
  guards: layouts are well formed, and only a live allocation is freed, with the layout it was made
  with. \<open>Write\<close> is any number of stores by clients into bytes they asked for.
\<close>

inductive heap_step :: "heap_state \<Rightarrow> heap_state \<Rightarrow> bool" where
  Alloc: "layout_ok l \<Longrightarrow> global_alloc m h l = Inr (m', h', a) \<Longrightarrow>
    heap_step (m, h, live) (m', h', if a = 0 then live else live(a \<mapsto> l))"
| Free: "live a = Some l \<Longrightarrow> global_dealloc m h a l = Inr (m', h') \<Longrightarrow>
    heap_step (m, h, live) (m', h', live(a := None))"
| Write: "same_on (- live_area live) m m' \<Longrightarrow> heap_step (m, h, live) (m', h, live)"

inductive heap_runs :: "heap_state \<Rightarrow> heap_state \<Rightarrow> bool" for s :: heap_state where
  start: "heap_runs s s"
| run_step: "heap_runs s s' \<Longrightarrow> heap_step s' s'' \<Longrightarrow> heap_runs s s''"

text \<open>
  The arena does not contain page zero: the null pointer stands for failure, so a heap that owned
  page zero would lose it. \<open>Pages::new\<close> rejects only a table at zero; the board's memory starts above.
\<close>

definition heap_good :: "pages \<Rightarrow> pfn set \<Rightarrow> heap_state \<Rightarrow> bool" where
  "heap_good pg U s \<longleftrightarrow> (case s of (m, h, live) \<Rightarrow>
    hp_pages h = pg \<and> 0 \<notin> covered pg \<and> (\<exists>F. heap_inv m h U F live))"

lemma heap_good_nonzero:
  assumes "heap_inv m h U F live" "0 \<notin> covered (hp_pages h)" "live a = Some l"
  shows "a \<noteq> 0"
proof -
  obtain L B S P where c: "heap_core m (hp_pages h) (hp_frames h) (hp_cache h) L B S P" "tracks live (owners B S)"
    using assms(1) unfolding heap_inv_def by blast
  obtain w where w: "w \<in> owners B S" "owner_addr w = a" by (rule tracks_owner [OF c(2) assms(3)])
  have "a \<in> bytes_of (covered (hp_pages h))" using owners_arena(1) [OF c(1) w(1)] owner_addr_in [of w] w(2) by blast
  then show ?thesis using assms(2) by (cases "a = 0") auto
qed

lemma heap_step_good:
  assumes "heap_step s s'" "heap_good pg U s"
  shows "heap_good pg U s'"
  using assms
proof (induction rule: heap_step.induct)
  case (Alloc l m h m' h' a live)
  obtain F where inv: "heap_inv m h U F live" and pg: "hp_pages h = pg" "0 \<notin> covered pg"
    using Alloc.prems by (auto simp: heap_good_def)
  show ?case
  proof (rule alloc_layout_cases [OF inv Alloc.hyps(1)])
    fix m1 h1 b F' assume a: "alloc_layout m h l = Inr (m1, h1, Some b)" "hp_pages h1 = hp_pages h"
      and i: "heap_inv m1 h1 U F' (live(b \<mapsto> l))"
    have "b \<noteq> 0" by (rule heap_good_nonzero [OF i]) (use a pg in auto)
    then show ?thesis using Alloc.hyps(2) a pg i by (auto simp: global_alloc_def heap_good_def)
  next
    assume "alloc_layout m h l = Inr (m, h, None)"
    then show ?thesis using Alloc.hyps(2) Alloc.prems by (auto simp: global_alloc_def)
  qed
next
  case (Free live a l m h m' h')
  obtain F where inv: "heap_inv m h U F live" using Free.prems by (auto simp: heap_good_def)
  obtain m1 h1 F' where "free_layout m h a l = Inr (m1, h1)" "heap_inv m1 h1 U F' (live(a := None))" "hp_pages h1 = hp_pages h"
    by (rule free_layout_ok [OF inv Free.hyps(1)])
  then show ?case using Free.hyps(2) Free.prems by (auto simp: global_dealloc_def heap_good_def)
next
  case (Write live m m' h)
  then show ?case using heap_inv_client_write by (fastforce simp: heap_good_def)
qed

lemma heap_runs_good: "heap_runs s s' \<Longrightarrow> heap_good pg U s \<Longrightarrow> heap_good pg U s'"
  by (induction rule: heap_runs.induct) (blast intro: heap_step_good)+

end
