(* ===== verification/Task.thy ===== *)
theory Task
  imports Context HeapRuns
begin

text \<open>
  Tasks (\<open>src/src/kernel/task.rs\<close>): an identifier, a context, the stack it owns, and a state. The stack is
  a heap allocation that \<open>Drop\<close> gives back.
\<close>

record context_stack =
  cs_base :: usize
  cs_size :: usize

definition CONTEXT_STACK_SIZE :: usize where
  "CONTEXT_STACK_SIZE = 16 * 1024"

definition CONTEXT_STACK_LAYOUT :: layout where
  "CONTEXT_STACK_LAYOUT = \<lparr>l_size = CONTEXT_STACK_SIZE, l_align = PAGE_SIZE\<rparr>"

definition context_stack_new :: "mem \<Rightarrow> heap \<Rightarrow> (mem \<times> heap \<times> context_stack option) outcome" where
  "context_stack_new m h = obind (alloc_layout m h CONTEXT_STACK_LAYOUT) (\<lambda>(m', h', p).
    Inr (m', h', map_option (\<lambda>ptr. \<lparr>cs_base = ptr, cs_size = CONTEXT_STACK_SIZE\<rparr>) p))"

definition context_stack_top :: "context_stack \<Rightarrow> usize" where
  "context_stack_top s = usize_add (cs_base s) (cs_size s)"

definition context_stack_drop :: "mem \<Rightarrow> heap \<Rightarrow> context_stack \<Rightarrow> (mem \<times> heap) outcome" where
  "context_stack_drop m h s = free_layout m h (cs_base s) CONTEXT_STACK_LAYOUT"

datatype task_state = Ready | Blocked | Dead

record task =
  tk_id :: usize
  tk_context :: task_context
  tk_stack :: "context_stack option"
  tk_ticks :: usize
  tk_state :: task_state

definition task_new :: "mem \<Rightarrow> heap \<Rightarrow> usize \<Rightarrow> usize \<Rightarrow> usize \<Rightarrow> (mem \<times> heap \<times> task option) outcome" where
  "task_new m h tid entry trampoline = obind (context_stack_new m h) (\<lambda>(m1, h1, found).
    case found of
      None \<Rightarrow> Inr (m1, h1, None)
    | Some st \<Rightarrow> (case context_new m1 (context_stack_top st) entry trampoline of (m2, ctx) \<Rightarrow>
        Inr (m2, h1, Some \<lparr>tk_id = tid, tk_context = ctx, tk_stack = Some st, tk_ticks = 0, tk_state = Ready\<rparr>)))"

definition task_boot :: "usize \<Rightarrow> task" where
  "task_boot tid = \<lparr>tk_id = tid, tk_context = context_running, tk_stack = None, tk_ticks = 0, tk_state = Ready\<rparr>"

definition task_tick :: "task \<Rightarrow> task" where
  "task_tick t = t\<lparr>tk_ticks := usize_add (tk_ticks t) 1\<rparr>"

definition set_state :: "task \<Rightarrow> task_state \<Rightarrow> task" where
  "set_state t st = t\<lparr>tk_state := st\<rparr>"

text \<open>Dropping a task drops the stack it owns.\<close>

definition task_drop :: "mem \<Rightarrow> heap \<Rightarrow> task \<Rightarrow> (mem \<times> heap) outcome" where
  "task_drop m h t = (case tk_stack t of None \<Rightarrow> Inr (m, h) | Some s \<Rightarrow> context_stack_drop m h s)"

subsection \<open>Stacks are live allocations\<close>

definition stack_live :: "live \<Rightarrow> task \<Rightarrow> bool" where
  "stack_live live t \<longleftrightarrow> (case tk_stack t of None \<Rightarrow> True
    | Some c \<Rightarrow> live (cs_base c) = Some CONTEXT_STACK_LAYOUT \<and> cs_size c = CONTEXT_STACK_SIZE)"

lemma stack_layout_ok [simp]: "layout_ok CONTEXT_STACK_LAYOUT"
  by (auto simp: layout_ok_def CONTEXT_STACK_LAYOUT_def CONTEXT_STACK_SIZE_def PAGE_SIZE_def intro: exI [of _ 12])

lemma stack_layout_size [simp]: "l_size CONTEXT_STACK_LAYOUT = 16384"
  by (simp add: CONTEXT_STACK_LAYOUT_def CONTEXT_STACK_SIZE_def)

lemma heap_inv_stack:
  assumes inv: "heap_inv m h U F live" and s: "live b = Some CONTEXT_STACK_LAYOUT"
  shows "b + 16384 \<le> usize_limit" and "range_of b 16384 \<subseteq> live_area live"
proof -
  show "b + 16384 \<le> usize_limit" using heap_inv_live(5) [OF inv s] by simp
  show "range_of b 16384 \<subseteq> live_area live"
    using s unfolding live_area_def by (metis (mono_tags, lifting) mem_Collect_eq stack_layout_size subsetI)
qed

text \<open>A stack comes from the buddy allocator, as a block of four pages.\<close>

lemma stack_fallback: "fallback_order CONTEXT_STACK_LAYOUT = 2"
proof -
  have "class_of CONTEXT_STACK_LAYOUT = None" by (subst class_of_None [OF stack_layout_ok]) simp
  moreover have "div_ceil 16384 4096 = 4" "div_ceil PAGE_SIZE 4096 = 1" by (simp_all add: div_ceil_def PAGE_SIZE_def)
  moreover have "log2_floor 3 = 1" by (simp add: log2_floor.simps)
  ultimately show ?thesis
    by (simp add: fallback_order_def layout_order_def CONTEXT_STACK_LAYOUT_def CONTEXT_STACK_SIZE_def Let_def)
qed

text \<open>The arena stops short of the last page of the address space, so no stack ends at its very top.\<close>

definition arena_below :: "pages \<Rightarrow> bool" where
  "arena_below pg \<longleftrightarrow> pfn_limit - 1 \<notin> covered pg"

lemma heap_inv_below:
  assumes inv: "heap_inv m h U F live" and s: "live b = Some CONTEXT_STACK_LAYOUT" and pg: "arena_below (hp_pages h)"
  shows "b + 16384 < usize_limit"
proof -
  have "b + 16383 \<in> range_of b (l_size CONTEXT_STACK_LAYOUT)" by simp
  then have c: "(b + 16383) div 4096 \<in> covered (hp_pages h)" using heap_inv_live(4) [OF inv s] by fastforce
  have le: "b + 16384 \<le> usize_limit" by (rule heap_inv_stack(1) [OF inv s])
  show ?thesis
  proof (rule ccontr)
    assume "\<not> b + 16384 < usize_limit"
    then have "b + 16383 = usize_limit - 1" using le by simp
    then have "(b + 16383) div 4096 = pfn_limit - 1" by simp
    then show False using c pg by (simp add: arena_below_def)
  qed
qed

lemma task_new_ok:
  assumes inv: "heap_inv m h U F live" and vals: "entry < usize_limit" "trampoline < usize_limit"
    and below: "arena_below (hp_pages h)"
  obtains m' h' F' c where "task_new m h tid entry trampoline = Inr (m', h', Some \<lparr>tk_id = tid,
      tk_context = \<lparr>ctx_sp = cs_base c + 16224\<rparr>, tk_stack = Some c, tk_ticks = 0, tk_state = Ready\<rparr>)"
      and "live (cs_base c) = None" and "cs_size c = CONTEXT_STACK_SIZE"
      and "heap_inv m' h' U F' (live(cs_base c \<mapsto> CONTEXT_STACK_LAYOUT))" and "hp_pages h' = hp_pages h"
      and "same_on (live_area live) m m'" and "cs_base c + 16384 < usize_limit"
      and "read_frame m' (cs_base c + 16224) = frame_default\<lparr>x30 := trampoline, x19 := entry\<rparr>"
  | "task_new m h tid entry trampoline = Inr (m, h, None)" and "\<forall>b. 4 dvd b \<longrightarrow> \<not> block b 2 \<subseteq> F"
proof (rule alloc_layout_cases [OF inv stack_layout_ok])
  fix m1 h1 a F' assume al: "alloc_layout m h CONTEXT_STACK_LAYOUT = Inr (m1, h1, Some a)" "live a = None"
    "heap_inv m1 h1 U F' (live(a \<mapsto> CONTEXT_STACK_LAYOUT))" "same_on (live_area live) m m1" "hp_pages h1 = hp_pages h"
  let ?c = "\<lparr>cs_base = a, cs_size = CONTEXT_STACK_SIZE\<rparr>" and ?live = "live(a \<mapsto> CONTEXT_STACK_LAYOUT)"
  let ?f = "frame_default\<lparr>x30 := trampoline, x19 := entry\<rparr>" and ?m2 = "write_frame m1 (a + 16224) (frame_default\<lparr>x30 := trampoline, x19 := entry\<rparr>)"
  have la: "?live a = Some CONTEXT_STACK_LAYOUT" by simp
  have lim: "a + 16384 < usize_limit" by (rule heap_inv_below [OF al(3) la]) (simp add: al(5) below)
  have "context_stack_top ?c = a + 16384" using lim by (simp add: context_stack_top_def CONTEXT_STACK_SIZE_def usize_add_small)
  then have ctx: "context_new m1 (context_stack_top ?c) entry trampoline = (?m2, \<lparr>ctx_sp = a + 16224\<rparr>)"
    by (simp add: context_new_def SWITCH_FRAME_SIZE_def usize_sub_small Let_def add.commute)
  have home: "range_of (a + 16224) 160 \<subseteq> range_of a 16384" by (rule range_of_mono) simp_all
  have "range_of (a + 16224) 160 \<inter> - live_area ?live = {}"
    using heap_inv_stack(2) [OF al(3) la] home by blast
  then have i2: "heap_inv ?m2 h1 U F' ?live"
    by (intro heap_inv_client_write [OF al(3)] write_frame_same_on)
  have "range_of a (l_size CONTEXT_STACK_LAYOUT) \<inter> range_of b (l_size l) = {}" if "live b = Some l" for b l
    by (rule heap_inv_disjoint [OF al(3) la]) (use that al(2) in auto)
  then have "range_of a 16384 \<inter> live_area live = {}"
    unfolding live_area_def stack_layout_size by blast
  then have "same_on (live_area live) m1 ?m2" using home by (intro write_frame_same_on) blast
  then have same: "same_on (live_area live) m ?m2" by (rule same_on_trans [OF al(4)])
  have rd: "read_frame ?m2 (a + 16224) = ?f" by (rule read_write_frame [OF frame_new_fits [OF vals]])
  show thesis
    by (rule that(1) [of ?m2 h1 ?c F'])
      (use al(1,2,5) ctx i2 same lim rd in \<open>simp_all add: task_new_def context_stack_new_def\<close>)
next
  assume none: "alloc_layout m h CONTEXT_STACK_LAYOUT = Inr (m, h, None)"
    and run: "\<forall>b. 2 ^ fallback_order CONTEXT_STACK_LAYOUT dvd b \<longrightarrow> fallback_order CONTEXT_STACK_LAYOUT \<le> MAX_ORDER
      \<longrightarrow> \<not> block b (fallback_order CONTEXT_STACK_LAYOUT) \<subseteq> F"
  have "\<forall>b. 4 dvd b \<longrightarrow> \<not> block b 2 \<subseteq> F"
    using run by (simp add: stack_fallback MAX_ORDER_def)
  then show thesis using that(2) none by (simp add: task_new_def context_stack_new_def)
qed

lemma task_drop_ok:
  assumes inv: "heap_inv m h U F live" and live: "stack_live live t"
  obtains m' h' F' where "task_drop m h t = Inr (m', h')" and "hp_pages h' = hp_pages h"
    and "heap_inv m' h' U F' (case tk_stack t of None \<Rightarrow> live | Some c \<Rightarrow> live(cs_base c := None))"
    and "same_on (live_area (case tk_stack t of None \<Rightarrow> live | Some c \<Rightarrow> live(cs_base c := None))) m m'"
proof (cases "tk_stack t")
  case None
  then show thesis using that inv by (simp add: task_drop_def)
next
  case (Some c)
  then have l: "live (cs_base c) = Some CONTEXT_STACK_LAYOUT" using live by (simp add: stack_live_def)
  show thesis
    by (rule free_layout_ok [OF inv l]) (use that Some in \<open>simp add: task_drop_def context_stack_drop_def\<close>)
qed

end
