(* ===== verification/Sched.thy ===== *)
theory Sched
  imports Task
begin

text \<open>
  The scheduler (\<open>src/src/kernel/sched/mod.rs\<close>) and the wait queues on it (\<open>src/src/kernel/sched/wait.rs\<close>). Every
  operation takes the scheduler's spin lock with interrupts masked on the one core, so it is one step
  on the kernel state: the memory, the heap, the task table, the reschedule flag, and the registers of
  the code that runs.
\<close>

definition TASKS_COUNT :: usize where
  "TASKS_COUNT = 4"

definition BOOT_TASK_ID :: usize where
  "BOOT_TASK_ID = 0"

definition IDLE_TASK_ID :: usize where
  "IDLE_TASK_ID = 1"

record scheduler =
  sd_tasks :: "task option list"
  sd_current :: usize

definition scheduler_new :: scheduler where
  "scheduler_new = \<lparr>sd_tasks = replicate TASKS_COUNT None, sd_current = 0\<rparr>"

record kernel =
  kn_mem :: mem
  kn_heap :: heap
  kn_sched :: scheduler
  kn_resched :: bool
  kn_regs :: regs

text \<open>\<open>task_table[i]\<close> and its \<open>as_mut().unwrap()\<close>, read and written.\<close>

definition table_get :: "scheduler \<Rightarrow> usize \<Rightarrow> task option outcome" where
  "table_get s i = (if i < length (sd_tasks s) then Inr (sd_tasks s ! i) else Inl IndexOutOfBounds)"

definition table_set :: "scheduler \<Rightarrow> usize \<Rightarrow> task option \<Rightarrow> scheduler outcome" where
  "table_set s i t =
    (if i < length (sd_tasks s) then Inr (s\<lparr>sd_tasks := (sd_tasks s)[i := t]\<rparr>) else Inl IndexOutOfBounds)"

definition table_task :: "scheduler \<Rightarrow> usize \<Rightarrow> task outcome" where
  "table_task s i = obind (table_get s i) unwrap"

definition table_update :: "(task \<Rightarrow> task) \<Rightarrow> scheduler \<Rightarrow> usize \<Rightarrow> scheduler outcome" where
  "table_update f s i = obind (table_task s i) (\<lambda>t. table_set s i (Some (f t)))"

subsection \<open>Operations\<close>

text \<open>\<open>prune\<close>: assigning \<open>None\<close> drops the dead task, and with it its stack.\<close>

definition prune_slot :: "usize \<Rightarrow> kernel \<Rightarrow> kernel outcome" where
  "prune_slot i k = obind (table_get (kn_sched k) i) (\<lambda>slot. case slot of
      None \<Rightarrow> Inr k
    | Some t \<Rightarrow>
        if tk_state t = Dead \<and> i \<noteq> sd_current (kn_sched k)
        then obind (task_drop (kn_mem k) (kn_heap k) t) (\<lambda>(m, h).
             obind (table_set (kn_sched k) i None) (\<lambda>s.
             Inr (k\<lparr>kn_mem := m, kn_heap := h, kn_sched := s\<rparr>)))
        else Inr k)"

fun prune_slots :: "usize list \<Rightarrow> kernel \<Rightarrow> kernel outcome" where
  "prune_slots [] k = Inr k"
| "prune_slots (i # is) k = obind (prune_slot i k) (prune_slots is)"

definition prune :: "kernel \<Rightarrow> kernel outcome" where
  "prune k = prune_slots [0..<TASKS_COUNT] k"

definition runnable :: "scheduler \<Rightarrow> usize \<Rightarrow> bool" where
  "runnable s i = (case sd_tasks s ! i of Some t \<Rightarrow> tk_state t = Ready \<and> tk_id t \<noteq> IDLE_TASK_ID | None \<Rightarrow> False)"

definition next_idx :: "scheduler \<Rightarrow> usize option" where
  "next_idx s = find (runnable s) (map (\<lambda>i. usize_add (usize_add (sd_current s) i) 1 mod TASKS_COUNT) [0..<TASKS_COUNT])"

definition free_id :: "scheduler \<Rightarrow> usize option" where
  "free_id s = find (\<lambda>i. sd_tasks s ! i = None) [0..<length (sd_tasks s)]"

datatype spawn_error = RanOutOfIds | RanOutOfMemory

definition spawn :: "usize \<Rightarrow> usize \<Rightarrow> kernel \<Rightarrow> (kernel \<times> (spawn_error + unit)) outcome" where
  "spawn trampoline entry k = (case free_id (kn_sched k) of
      None \<Rightarrow> Inr (k, Inl RanOutOfIds)
    | Some empty_idx \<Rightarrow>
        obind (task_new (kn_mem k) (kn_heap k) empty_idx entry trampoline) (\<lambda>(m, h, found). case found of
          None \<Rightarrow> Inr (k\<lparr>kn_mem := m, kn_heap := h\<rparr>, Inl RanOutOfMemory)
        | Some t \<Rightarrow> obind (table_set (kn_sched k) empty_idx (Some t)) (\<lambda>s.
            Inr (k\<lparr>kn_mem := m, kn_heap := h, kn_sched := s\<rparr>, Inr ()))))"

definition sched_init :: "usize \<Rightarrow> usize \<Rightarrow> kernel \<Rightarrow> kernel outcome" where
  "sched_init trampoline idle k =
    obind (table_set (kn_sched k) 0 (Some (task_boot BOOT_TASK_ID))) (\<lambda>s1.
    obind (task_new (kn_mem k) (kn_heap k) IDLE_TASK_ID idle trampoline) (\<lambda>(m, h, found).
    obind (unwrap found) (\<lambda>idle_task.
    obind (table_set s1 1 (Some idle_task)) (\<lambda>s2.
    Inr (k\<lparr>kn_mem := m, kn_heap := h, kn_sched := s2\<rparr>)))))"

definition sched_tick :: "kernel \<Rightarrow> kernel outcome" where
  "sched_tick k =
    obind (table_update task_tick (kn_sched k) (sd_current (kn_sched k))) (\<lambda>s.
    Inr (k\<lparr>kn_resched := True, kn_sched := s\<rparr>))"

text \<open>
  \<open>schedule_inner\<close>: the flag says whether it switched. When it did, the registers are those of the task
  switched to, which goes on where it was switched away from or at the trampoline.
\<close>

definition schedule_inner :: "kernel \<Rightarrow> (kernel \<times> bool) outcome" where
  "schedule_inner k0 = obind (prune k0) (\<lambda>k.
    let s = kn_sched k; current = sd_current s;
        next = (case next_idx s of Some i \<Rightarrow> i | None \<Rightarrow> IDLE_TASK_ID)
    in if current = next then Inr (k, False)
       else obind (table_task s current) (\<lambda>from_task.
            obind (table_task s next) (\<lambda>to_task.
            case switch (kn_mem k) (kn_regs k) (tk_context to_task) of (m, ctx, rg) \<Rightarrow>
            obind (table_set s current (Some (from_task\<lparr>tk_context := ctx\<rparr>))) (\<lambda>s'.
            Inr (k\<lparr>kn_mem := m, kn_sched := s'\<lparr>sd_current := next\<rparr>, kn_regs := rg\<rparr>, True)))))"

definition schedule :: "kernel \<Rightarrow> (kernel \<times> bool) outcome" where
  "schedule k = schedule_inner k"

definition preempt :: "kernel \<Rightarrow> (kernel \<times> bool) outcome" where
  "preempt k = (if kn_resched k then schedule (k\<lparr>kn_resched := False\<rparr>) else Inr (k, False))"

definition task_exit :: "kernel \<Rightarrow> kernel outcome" where
  "task_exit k =
    obind (table_update (\<lambda>t. set_state t Dead) (kn_sched k) (sd_current (kn_sched k))) (\<lambda>s.
    obind (schedule (k\<lparr>kn_sched := s\<rparr>)) (\<lambda>(k', switched).
    if switched then Inr k' else Inl (Panicked ''internal error: entered unreachable code'')))"

subsection \<open>Wait queues\<close>

type_synonym wait_queue = u32

definition wait_queue_new :: wait_queue where
  "wait_queue_new = 0"

definition wq_prepare :: "wait_queue \<Rightarrow> scheduler \<Rightarrow> (wait_queue \<times> scheduler) outcome" where
  "wq_prepare slots s = (let current = sd_current s; slots' = slots OR push_bit current 1
    in obind (table_update (\<lambda>t. set_state t Blocked) s current) (\<lambda>s'. Inr (slots', s')))"

definition wq_finish :: "wait_queue \<Rightarrow> scheduler \<Rightarrow> (wait_queue \<times> scheduler) outcome" where
  "wq_finish slots s = (let current = sd_current s; slots' = slots AND NOT (push_bit current 1)
    in obind (table_update (\<lambda>t. set_state t Ready) s current) (\<lambda>s'. Inr (slots', s')))"

fun wake_slots :: "usize list \<Rightarrow> u32 \<Rightarrow> scheduler \<Rightarrow> scheduler outcome" where
  "wake_slots [] waiters s = Inr s"
| "wake_slots (i # is) waiters s =
    obind (if waiters AND push_bit i 1 \<noteq> 0 then table_update (\<lambda>t. set_state t Ready) s i else Inr s)
      (wake_slots is waiters)"

text \<open>\<open>wake_all\<close> gives the emptied queue, the scheduler, and whether it asked for a reschedule.\<close>

definition wq_wake_all :: "wait_queue \<Rightarrow> scheduler \<Rightarrow> (wait_queue \<times> scheduler \<times> bool) outcome" where
  "wq_wake_all slots s = (let waiters = slots in
    if waiters = 0 then Inr (0, s, False)
    else obind (wake_slots [0..<TASKS_COUNT] waiters s) (\<lambda>s'. Inr (0, s', True)))"

end
