(* ===== verification/SchedCorrect.thy ===== *)
theory SchedCorrect
  imports Sched
begin

text \<open>
  Correctness of the scheduler over the heap: which tasks the table holds, whose stacks are live, and
  what is parked on the stack of each task that does not run. \<open>saved\<close> is a ghost: the registers each
  parked task had when it was switched away from.
\<close>

definition stack_base :: "task \<Rightarrow> usize option" where
  "stack_base t = map_option cs_base (tk_stack t)"

definition dead_at :: "scheduler \<Rightarrow> usize \<Rightarrow> bool" where
  "dead_at s i \<longleftrightarrow> (\<exists>t. sd_tasks s ! i = Some t \<and> tk_state t = Dead)"

definition tasks_inv :: "live \<Rightarrow> scheduler \<Rightarrow> bool" where
  "tasks_inv live s \<longleftrightarrow> length (sd_tasks s) = 4 \<and> sd_current s < 4 \<and> sd_tasks s ! sd_current s \<noteq> None
    \<and> sd_tasks s ! 1 \<noteq> None \<and> \<not> dead_at s 1
    \<and> (\<forall>i<4. \<forall>t. sd_tasks s ! i = Some t \<longrightarrow> tk_id t = i \<and> stack_live live t)
    \<and> (\<forall>i<4. \<forall>j<4. \<forall>t u b. sd_tasks s ! i = Some t \<longrightarrow> sd_tasks s ! j = Some u \<longrightarrow> i \<noteq> j \<longrightarrow>
        stack_base t = Some b \<longrightarrow> stack_base u \<noteq> Some b)"

definition parked :: "mem \<Rightarrow> task \<Rightarrow> regs \<Rightarrow> bool" where
  "parked m t rg \<longleftrightarrow> (case tk_stack t of None \<Rightarrow> True | Some c \<Rightarrow>
    cs_base c \<le> ctx_sp (tk_context t) \<and> ctx_sp (tk_context t) + 160 \<le> cs_base c + 16384
    \<and> read_frame m (ctx_sp (tk_context t)) = rg_frame rg \<and> rg_sp rg = ctx_sp (tk_context t) + 160)"

definition kernel_inv :: "pfn set \<Rightarrow> live \<Rightarrow> (usize \<Rightarrow> regs) \<Rightarrow> kernel \<Rightarrow> bool" where
  "kernel_inv U live saved k \<longleftrightarrow> (\<exists>F. heap_inv (kn_mem k) (kn_heap k) U F live)
    \<and> arena_below (hp_pages (kn_heap k)) \<and> tasks_inv live (kn_sched k)
    \<and> (\<forall>i<4. i \<noteq> sd_current (kn_sched k) \<longrightarrow>
        (\<forall>t. sd_tasks (kn_sched k) ! i = Some t \<longrightarrow> parked (kn_mem k) t (saved i)))"

text \<open>The running task has room for one more frame, on its own stack or, at boot, outside the arena.\<close>

definition running_ok :: "pfn set \<Rightarrow> kernel \<Rightarrow> bool" where
  "running_ok U k \<longleftrightarrow> 160 \<le> rg_sp (kn_regs k) \<and> rg_sp (kn_regs k) < usize_limit \<and> frame_fits (rg_frame (kn_regs k))
    \<and> (\<forall>t. sd_tasks (kn_sched k) ! sd_current (kn_sched k) = Some t \<longrightarrow> (case tk_stack t of
        Some c \<Rightarrow> cs_base c + 160 \<le> rg_sp (kn_regs k) \<and> rg_sp (kn_regs k) \<le> cs_base c + 16384
      | None \<Rightarrow> range_of (rg_sp (kn_regs k) - 160) 160 \<inter> (bytes_of U \<union> meta_bytes (hp_pages (kn_heap k))) = {}))"

subsection \<open>Memory changes around parked tasks\<close>

lemma stack_area:
  assumes inv: "heap_inv m h U F live" and t: "stack_live live t" "tk_stack t = Some c"
  shows "range_of (cs_base c) 16384 \<subseteq> live_area live" and "range_of (cs_base c) 16384 \<subseteq> bytes_of U"
    and "cs_base c + 16384 \<le> usize_limit"
proof -
  have l: "live (cs_base c) = Some CONTEXT_STACK_LAYOUT" using t by (simp add: stack_live_def)
  show "range_of (cs_base c) 16384 \<subseteq> live_area live" by (rule heap_inv_stack(2) [OF inv l])
  show "range_of (cs_base c) 16384 \<subseteq> bytes_of U" using heap_inv_live_pages [OF inv l] by simp
  show "cs_base c + 16384 \<le> usize_limit" by (rule heap_inv_stack(1) [OF inv l])
qed

lemma stack_areas_disjoint:
  assumes inv: "heap_inv m h U F live" and t: "stack_live live t" "tk_stack t = Some c"
    and u: "stack_live live u" "tk_stack u = Some d" "cs_base c \<noteq> cs_base d"
  shows "range_of (cs_base c) 16384 \<inter> range_of (cs_base d) 16384 = {}"
proof -
  have "live (cs_base c) = Some CONTEXT_STACK_LAYOUT" "live (cs_base d) = Some CONTEXT_STACK_LAYOUT"
    using t u by (simp_all add: stack_live_def)
  from heap_inv_disjoint [OF inv this u(3)] show ?thesis by simp
qed

lemma parked_same_on:
  assumes p: "parked m t rg" and s: "\<And>c. tk_stack t = Some c \<Longrightarrow> same_on (range_of (cs_base c) 16384) m m'"
  shows "parked m' t rg"
proof (cases "tk_stack t")
  case (Some c)
  let ?a = "ctx_sp (tk_context t)"
  have "range_of ?a 160 \<subseteq> range_of (cs_base c) 16384" using p Some by (intro range_of_mono) (auto simp: parked_def)
  then have "read_frame m' ?a = read_frame m ?a"
    by (intro read_frame_same_on same_on_subset [OF s [OF Some]])
  then show ?thesis using p by (simp add: parked_def Some)
qed (simp add: parked_def)

lemma parked_live_area:
  assumes "parked m t rg" "heap_inv m' h U F live" "stack_live live t" "same_on (live_area live) m m'"
  shows "parked m' t rg"
  by (rule parked_same_on [OF assms(1)]) (use stack_area(1) [OF assms(2,3)] same_on_subset [OF assms(4)] in blast)

lemma live_area_mono:
  assumes "live' \<subseteq>\<^sub>m live"
  shows "live_area live' \<subseteq> live_area live"
proof
  fix x assume "x \<in> live_area live'"
  then obtain a l where a: "live' a = Some l" "x \<in> range_of a (l_size l)" unfolding live_area_def by blast
  then have "live a = Some l" using assms unfolding map_le_def by (metis domI)
  then show "x \<in> live_area live" using a(2) unfolding live_area_def by blast
qed

text \<open>
  What the rest of the kernel holds on the heap: the allocations \<open>keep\<close> are live and none is the stack of a task.
  \<open>keeps\<close> says of a step that it leaves every such set of allocations alone, and each byte of them.
\<close>

definition kept :: "live \<Rightarrow> live \<Rightarrow> scheduler \<Rightarrow> bool" where
  "kept keep live s \<longleftrightarrow> keep \<subseteq>\<^sub>m live
    \<and> (\<forall>i<4. \<forall>t b. sd_tasks s ! i = Some t \<longrightarrow> stack_base t = Some b \<longrightarrow> b \<notin> dom keep)"

definition keeps :: "live \<Rightarrow> kernel \<Rightarrow> live \<Rightarrow> kernel \<Rightarrow> bool" where
  "keeps live k live' k' \<longleftrightarrow> (\<forall>keep. kept keep live (kn_sched k) \<longrightarrow>
    kept keep live' (kn_sched k') \<and> same_on (live_area keep) (kn_mem k) (kn_mem k'))"

lemma keeps_refl [intro]: "keeps live k live k"
  by (simp add: keeps_def)

lemma keeps_trans: "keeps l1 k1 l2 k2 \<Longrightarrow> keeps l2 k2 l3 k3 \<Longrightarrow> keeps l1 k1 l3 k3"
  unfolding keeps_def using same_on_trans by blast

lemma keepsI:
  assumes "\<And>keep. keep \<subseteq>\<^sub>m live \<Longrightarrow> kept keep live (kn_sched k) \<Longrightarrow> keep \<subseteq>\<^sub>m live' \<and> same_on (live_area keep) (kn_mem k) (kn_mem k')"
    and "\<And>i t b. i < 4 \<Longrightarrow> sd_tasks (kn_sched k') ! i = Some t \<Longrightarrow> stack_base t = Some b \<Longrightarrow>
      live b = None \<or> (\<exists>u. sd_tasks (kn_sched k) ! i = Some u \<and> stack_base u = Some b)"
  shows "keeps live k live' k'"
  unfolding keeps_def
proof (intro allI impI conjI)
  fix keep assume k: "kept keep live (kn_sched k)"
  then have sub: "keep \<subseteq>\<^sub>m live" by (simp add: kept_def)
  show "same_on (live_area keep) (kn_mem k) (kn_mem k')" using assms(1) [OF sub k] by blast
  have "b \<notin> dom keep" if "i < 4" "sd_tasks (kn_sched k') ! i = Some t" "stack_base t = Some b" for i t b
  proof (cases "live b")
    case None
    then show ?thesis using sub unfolding map_le_def by (metis domIff)
  next
    case (Some l)
    from assms(2) [OF that] Some obtain u where "sd_tasks (kn_sched k) ! i = Some u" "stack_base u = Some b" by auto
    then show ?thesis using k that(1) unfolding kept_def by blast
  qed
  then show "kept keep live' (kn_sched k')" using assms(1) [OF sub k] unfolding kept_def by blast
qed

text \<open>A step that changes neither memory nor who has which stack.\<close>

lemma keeps_same_stacks:
  assumes "kn_mem k' = kn_mem k" and "\<And>i. i < 4 \<Longrightarrow> map_option tk_stack (sd_tasks (kn_sched k') ! i) = map_option tk_stack (sd_tasks (kn_sched k) ! i)"
  shows "keeps live k live k'"
proof (rule keepsI)
  fix i t b assume "i < 4" "sd_tasks (kn_sched k') ! i = Some t" "stack_base t = Some b"
  then show "live b = None \<or> (\<exists>u. sd_tasks (kn_sched k) ! i = Some u \<and> stack_base u = Some b)"
    using assms(2) [of i] by (cases "sd_tasks (kn_sched k) ! i") (auto simp: stack_base_def)
qed (use assms(1) in simp)

subsection \<open>\<open>prune\<close>\<close>

lemma tasks_inv_remove:
  assumes inv: "tasks_inv live s" and i: "i < 4" "i \<noteq> sd_current s" "i \<noteq> 1" and t: "sd_tasks s ! i = Some t"
  shows "tasks_inv (case tk_stack t of None \<Rightarrow> live | Some c \<Rightarrow> live(cs_base c := None)) (s\<lparr>sd_tasks := (sd_tasks s)[i := None]\<rparr>)"
proof -
  have slot: "(sd_tasks s)[i := None] ! j = (if j = i then None else sd_tasks s ! j)" for j
    using inv i(1) by (simp add: tasks_inv_def nth_list_update)
  have apart: "cs_base c \<noteq> cs_base d"
    if "j < 4" "j \<noteq> i" "sd_tasks s ! j = Some u" "tk_stack t = Some c" "tk_stack u = Some d" for j u c d
  proof -
    have "\<forall>t' u' b. sd_tasks s ! i = Some t' \<longrightarrow> sd_tasks s ! j = Some u' \<longrightarrow> i \<noteq> j \<longrightarrow> stack_base t' = Some b \<longrightarrow> stack_base u' \<noteq> Some b"
      using inv i(1) that(1) unfolding tasks_inv_def by blast
    then show ?thesis using t that by (auto simp: stack_base_def)
  qed
  have live: "stack_live (case tk_stack t of None \<Rightarrow> live | Some c \<Rightarrow> live(cs_base c := None)) u"
    if u: "j < 4" "j \<noteq> i" "sd_tasks s ! j = Some u" for j u
  proof -
    have "stack_live live u" using inv u unfolding tasks_inv_def by blast
    moreover have "\<forall>c d. tk_stack t = Some c \<longrightarrow> tk_stack u = Some d \<longrightarrow> cs_base c \<noteq> cs_base d"
      using apart [OF u] by blast
    ultimately show ?thesis by (cases "tk_stack t"; cases "tk_stack u") (auto simp: stack_live_def)
  qed
  have len: "length (sd_tasks s) = 4" "sd_current s < 4" "sd_tasks s ! sd_current s \<noteq> None" "sd_tasks s ! 1 \<noteq> None" "\<not> dead_at s 1"
    and ids: "\<And>j u. j < 4 \<Longrightarrow> sd_tasks s ! j = Some u \<Longrightarrow> tk_id u = j"
    and dis: "\<And>j l u v b. j < 4 \<Longrightarrow> l < 4 \<Longrightarrow> sd_tasks s ! j = Some u \<Longrightarrow> sd_tasks s ! l = Some v \<Longrightarrow> j \<noteq> l \<Longrightarrow>
      stack_base u = Some b \<Longrightarrow> stack_base v \<noteq> Some b"
    using inv unfolding tasks_inv_def by blast+
  show ?thesis
    unfolding tasks_inv_def
  proof (intro conjI allI impI)
    show "\<not> dead_at (s\<lparr>sd_tasks := (sd_tasks s)[i := None]\<rparr>) 1" using len(5) i(3) by (simp add: dead_at_def slot)
    fix j u assume j: "j < 4" "sd_tasks (s\<lparr>sd_tasks := (sd_tasks s)[i := None]\<rparr>) ! j = Some u"
    then have ju: "j \<noteq> i" "sd_tasks s ! j = Some u" by (simp_all add: slot split: if_splits)
    show "tk_id u = j" by (rule ids [OF j(1) ju(2)])
    show "stack_live (case tk_stack t of None \<Rightarrow> live | Some c \<Rightarrow> live(cs_base c := None)) u" by (rule live [OF j(1) ju])
    fix l v b assume l: "l < 4" "sd_tasks (s\<lparr>sd_tasks := (sd_tasks s)[i := None]\<rparr>) ! l = Some v" "j \<noteq> l" "stack_base u = Some b"
    then have "sd_tasks s ! l = Some v" by (simp add: slot split: if_splits)
    then show "stack_base v \<noteq> Some b" using dis [OF j(1) l(1) ju(2) _ l(3,4)] by blast
  qed (use len i in \<open>simp_all add: slot\<close>)
qed

lemma prune_slot_ok:
  assumes inv: "kernel_inv U live saved k" and i: "i < 4"
  obtains k' live' where "prune_slot i k = Inr k'" and "kernel_inv U live' saved k'"
    and "kn_sched k' = (if dead_at (kn_sched k) i \<and> i \<noteq> sd_current (kn_sched k)
      then (kn_sched k)\<lparr>sd_tasks := (sd_tasks (kn_sched k))[i := None]\<rparr> else kn_sched k)"
    and "kn_regs k' = kn_regs k" and "kn_resched k' = kn_resched k" and "hp_pages (kn_heap k') = hp_pages (kn_heap k)"
    and "live' \<subseteq>\<^sub>m live" and "same_on (live_area live') (kn_mem k) (kn_mem k')" and "keeps live k live' k'"
proof -
  let ?s = "kn_sched k"
  obtain F where h: "heap_inv (kn_mem k) (kn_heap k) U F live" and ti: "tasks_inv live ?s"
    and below: "arena_below (hp_pages (kn_heap k))"
    using inv unfolding kernel_inv_def by blast
  have len: "length (sd_tasks ?s) = 4" using ti by (simp add: tasks_inv_def)
  show thesis
  proof (cases "dead_at ?s i \<and> i \<noteq> sd_current ?s")
    case False
    then have "prune_slot i k = Inr k"
      using len i by (auto simp: prune_slot_def table_get_def dead_at_def split: option.splits)
    then show thesis using that [of k live] inv False keeps_refl by auto
  next
    case True
    then obtain t where t: "sd_tasks ?s ! i = Some t" "tk_state t = Dead" by (auto simp: dead_at_def)
    have i1: "i \<noteq> 1" using True ti unfolding tasks_inv_def by blast
    have sl: "stack_live live t" using ti t i unfolding tasks_inv_def by blast
    let ?live = "case tk_stack t of None \<Rightarrow> live | Some c \<Rightarrow> live(cs_base c := None)"
    let ?s' = "?s\<lparr>sd_tasks := (sd_tasks ?s)[i := None]\<rparr>"
    obtain m' h' F' where d: "task_drop (kn_mem k) (kn_heap k) t = Inr (m', h')" "hp_pages h' = hp_pages (kn_heap k)"
      and h': "heap_inv m' h' U F' ?live" and s: "same_on (live_area ?live) (kn_mem k) m'"
      by (rule task_drop_ok [OF h sl])
    let ?k' = "k\<lparr>kn_mem := m', kn_heap := h', kn_sched := ?s'\<rparr>"
    have step: "prune_slot i k = Inr ?k'"
      using t True d(1) i len by (simp add: prune_slot_def table_get_def table_set_def)
    have ti': "tasks_inv ?live ?s'" by (rule tasks_inv_remove [OF ti i _ i1 t(1)]) (use True in simp)
    have "parked m' u (saved j)" if j: "j < 4" "j \<noteq> sd_current ?s" "sd_tasks ?s' ! j = Some u" for j u
    proof -
      have ju: "sd_tasks ?s ! j = Some u" using j(3) i len by (simp add: nth_list_update split: if_splits)
      then have "parked (kn_mem k) u (saved j)" using inv j unfolding kernel_inv_def by blast
      moreover have "stack_live ?live u" using ti' j(1,3) unfolding tasks_inv_def by blast
      ultimately show ?thesis using parked_live_area [OF _ h' _ s] by blast
    qed
    then have "kernel_inv U ?live saved ?k'"
      using h' ti' below d(2) unfolding kernel_inv_def by auto
    moreover have "?live \<subseteq>\<^sub>m live" by (auto simp: map_le_def split: option.splits)
    moreover have "keeps live k ?live ?k'"
    proof (rule keepsI)
      fix keep assume keep: "keep \<subseteq>\<^sub>m live" "kept keep live ?s"
      then have "\<forall>c. tk_stack t = Some c \<longrightarrow> cs_base c \<notin> dom keep" using t(1) i unfolding kept_def stack_base_def by auto
      then have sub: "keep \<subseteq>\<^sub>m ?live" using keep(1) by (auto simp: map_le_def split: option.splits)
      then show "keep \<subseteq>\<^sub>m ?live \<and> same_on (live_area keep) (kn_mem k) (kn_mem ?k')"
        using same_on_subset [OF s live_area_mono [OF sub]] by simp
    qed (use len i in \<open>auto simp: nth_list_update split: if_splits\<close>)
    ultimately show thesis using that [of ?k' ?live] step True s d(2) by simp
  qed
qed

lemma prune_slots_ok:
  assumes "kernel_inv U live saved k" and "set is \<subseteq> {..<4}"
  shows "\<exists>k' live'. prune_slots is k = Inr k' \<and> kernel_inv U live' saved k'
    \<and> sd_current (kn_sched k') = sd_current (kn_sched k)
    \<and> (\<forall>j<4. sd_tasks (kn_sched k') ! j =
        (if j \<in> set is \<and> dead_at (kn_sched k) j \<and> j \<noteq> sd_current (kn_sched k) then None else sd_tasks (kn_sched k) ! j))
    \<and> kn_regs k' = kn_regs k \<and> kn_resched k' = kn_resched k \<and> hp_pages (kn_heap k') = hp_pages (kn_heap k)
    \<and> live' \<subseteq>\<^sub>m live \<and> same_on (live_area live') (kn_mem k) (kn_mem k') \<and> keeps live k live' k'"
  using assms
proof (induction "is" arbitrary: k live)
  case Nil
  then show ?case using keeps_refl by (intro exI [of _ k] exI [of _ live]) simp
next
  case (Cons i js)
  have i: "i < 4" using Cons.prems(2) by simp
  obtain k1 live1 where a: "prune_slot i k = Inr k1" and i1: "kernel_inv U live1 saved k1"
    and sc: "kn_sched k1 = (if dead_at (kn_sched k) i \<and> i \<noteq> sd_current (kn_sched k)
      then (kn_sched k)\<lparr>sd_tasks := (sd_tasks (kn_sched k))[i := None]\<rparr> else kn_sched k)"
    and same: "kn_regs k1 = kn_regs k" "kn_resched k1 = kn_resched k" "hp_pages (kn_heap k1) = hp_pages (kn_heap k)"
    and l1: "live1 \<subseteq>\<^sub>m live" and s1: "same_on (live_area live1) (kn_mem k) (kn_mem k1)" and kp1: "keeps live k live1 k1"
    by (rule prune_slot_ok [OF Cons.prems(1) i])
  obtain k' live' where b: "prune_slots js k1 = Inr k'" "kernel_inv U live' saved k'"
    "sd_current (kn_sched k') = sd_current (kn_sched k1)"
    and tab: "\<forall>j<4. sd_tasks (kn_sched k') ! j =
        (if j \<in> set js \<and> dead_at (kn_sched k1) j \<and> j \<noteq> sd_current (kn_sched k1) then None else sd_tasks (kn_sched k1) ! j)"
    and same': "kn_regs k' = kn_regs k1" "kn_resched k' = kn_resched k1" "hp_pages (kn_heap k') = hp_pages (kn_heap k1)"
    and l2: "live' \<subseteq>\<^sub>m live1" and s2: "same_on (live_area live') (kn_mem k1) (kn_mem k')" and kp2: "keeps live1 k1 live' k'"
    using Cons.IH [OF i1] Cons.prems(2) by auto
  have len: "length (sd_tasks (kn_sched k)) = 4" using Cons.prems(1) by (simp add: kernel_inv_def tasks_inv_def)
  have "sd_tasks (kn_sched k') ! j = (if j \<in> set (i # js) \<and> dead_at (kn_sched k) j \<and> j \<noteq> sd_current (kn_sched k)
      then None else sd_tasks (kn_sched k) ! j)" if "j < 4" for j
    using tab that sc len i by (auto simp: dead_at_def nth_list_update split: if_splits)
  moreover have "live' \<subseteq>\<^sub>m live" using l1 l2 by (rule map_le_trans [rotated])
  moreover have "live_area live' \<subseteq> live_area live1"
    by (rule live_area_mono [OF l2])
  then have "same_on (live_area live') (kn_mem k) (kn_mem k')"
    using same_on_trans [OF same_on_subset [OF s1] s2] by blast
  moreover have "sd_current (kn_sched k1) = sd_current (kn_sched k)" using sc by simp
  moreover have "keeps live k live' k'" by (rule keeps_trans [OF kp1 kp2])
  ultimately show ?case
    using a b same same' by (intro exI [of _ k'] exI [of _ live']) simp
qed

lemma prune_ok:
  assumes "kernel_inv U live saved k"
  obtains k' live' where "prune k = Inr k'" and "kernel_inv U live' saved k'"
    and "sd_current (kn_sched k') = sd_current (kn_sched k)"
    and "\<forall>j<4. sd_tasks (kn_sched k') ! j =
        (if dead_at (kn_sched k) j \<and> j \<noteq> sd_current (kn_sched k) then None else sd_tasks (kn_sched k) ! j)"
    and "kn_regs k' = kn_regs k" and "kn_resched k' = kn_resched k" and "hp_pages (kn_heap k') = hp_pages (kn_heap k)"
    and "live' \<subseteq>\<^sub>m live" and "same_on (live_area live') (kn_mem k) (kn_mem k')" and "keeps live k live' k'"
proof -
  have "set [0..<TASKS_COUNT] \<subseteq> {..<4}" by (auto simp: TASKS_COUNT_def)
  from prune_slots_ok [OF assms this] show thesis
    using that unfolding prune_def by (auto simp: TASKS_COUNT_def)
qed

subsection \<open>Choosing the next task\<close>

definition turn_dist :: "scheduler \<Rightarrow> usize \<Rightarrow> nat" where
  "turn_dist s j = (j + 3 - sd_current s) mod 4"

lemma below_four: "(n::nat) < 4 \<Longrightarrow> n = 0 \<or> n = 1 \<or> n = 2 \<or> n = 3"
  by linarith

lemma turn_dist_idx:
  assumes "c < 4" "i < 4"
  shows "((c + i + 1) mod 4 + 3 - c) mod 4 = (i::nat)"
  using below_four [OF assms(1)] below_four [OF assms(2)] by (elim disjE) simp_all

lemma turn_idx_dist:
  assumes "c < 4" "j < 4"
  shows "(c + (j + 3 - c) mod 4 + 1) mod 4 = (j::nat)"
  using below_four [OF assms(1)] below_four [OF assms(2)] by (elim disjE) simp_all

lemma next_idx_eq:
  assumes "sd_current s < 4"
  shows "next_idx s = find (runnable s) (map (\<lambda>i. (sd_current s + i + 1) mod 4) [0..<4])"
proof -
  have "usize_add (usize_add (sd_current s) i) 1 mod 4 = (sd_current s + i + 1) mod 4" if "i < 4" for i
    using assms that by (simp add: usize_add_small)
  then have "map (\<lambda>i. usize_add (usize_add (sd_current s) i) 1 mod 4) [0..<4] = map (\<lambda>i. (sd_current s + i + 1) mod 4) [0..<4]"
    by (intro map_cong) auto
  then show ?thesis by (simp only: next_idx_def TASKS_COUNT_def)
qed

lemma next_idx_Some:
  assumes c: "sd_current s < 4" and n: "next_idx s = Some j"
  shows "j < 4" and "runnable s j" and "l < 4 \<Longrightarrow> runnable s l \<Longrightarrow> turn_dist s j \<le> turn_dist s l"
proof -
  let ?f = "\<lambda>i. (sd_current s + i + 1) mod 4"
  obtain i where i: "i < 4" "j = ?f i" "runnable s j" and first: "\<And>i'. i' < i \<Longrightarrow> \<not> runnable s (?f i')"
    using n unfolding next_idx_eq [OF c] find_Some_iff by (auto simp del: upt_rec_numeral)
  show "j < 4" "runnable s j" using i by simp_all
  show "turn_dist s j \<le> turn_dist s l" if l: "l < 4" "runnable s l"
  proof (rule ccontr)
    assume "\<not> turn_dist s j \<le> turn_dist s l"
    then have "turn_dist s l < i" using turn_dist_idx [OF c i(1)] i(2) by (simp add: turn_dist_def)
    then have "\<not> runnable s (?f (turn_dist s l))" by (rule first)
    then show False using turn_idx_dist [OF c l(1)] l(2) by (simp add: turn_dist_def)
  qed
qed

lemma next_idx_None:
  assumes c: "sd_current s < 4" and n: "next_idx s = None" and l: "l < 4"
  shows "\<not> runnable s l"
proof -
  have "\<forall>i<4. \<not> runnable s ((sd_current s + i + 1) mod 4)"
    using n unfolding next_idx_eq [OF c] find_None_iff by (auto simp del: upt_rec_numeral)
  moreover have "turn_dist s l < 4" by (simp add: turn_dist_def)
  ultimately show ?thesis using turn_idx_dist [OF c l] by (metis turn_dist_def)
qed

lemma next_idx_cong:
  assumes "sd_current s = sd_current s'" "sd_current s < 4" "\<And>j. j < 4 \<Longrightarrow> runnable s j = runnable s' j"
  shows "next_idx s = next_idx s'"
  unfolding next_idx_eq [OF assms(2)] next_idx_eq [OF assms(2) [unfolded assms(1)]] assms(1)
  by (rule find_cong) (auto simp: assms(3))

lemma turn_dist_less:
  assumes "(c::nat) < 4" "i < 4" "j < 4" "i \<noteq> j" "(i + 3 - c) mod 4 \<le> (j + 3 - c) mod 4"
  shows "(j + 3 - i) mod 4 < (j + 3 - c) mod 4"
  using below_four [OF assms(1)] below_four [OF assms(2)] below_four [OF assms(3)] assms(4,5)
  by (elim disjE) simp_all

definition turn :: "scheduler \<Rightarrow> usize" where
  "turn s = (case next_idx s of Some i \<Rightarrow> i | None \<Rightarrow> 1)"

text \<open>Each turn that goes to another task brings a runnable one nearer.\<close>

lemma turn_dist_step:
  assumes c: "sd_current s < 4" and cur: "sd_current s' = turn s" and j: "runnable s j" "j < 4" "turn s \<noteq> j"
  shows "turn_dist s' j < turn_dist s j"
proof -
  obtain i where i: "next_idx s = Some i" using next_idx_None [OF c _ j(2)] j(1) by (cases "next_idx s") auto
  note n = next_idx_Some [OF c i]
  have "sd_current s' = i" "i \<noteq> j" using cur j(3) i by (simp_all add: turn_def)
  then show ?thesis using turn_dist_less [OF c n(1) j(2)] n(3) [OF j(2,1)] by (simp add: turn_dist_def)
qed

lemma turn_task:
  assumes ti: "tasks_inv live s"
  shows "turn s < 4" and "sd_tasks s ! turn s \<noteq> None" and "\<not> dead_at s (turn s)"
proof -
  have c: "sd_current s < 4" "sd_tasks s ! 1 \<noteq> None" "\<not> dead_at s 1" using ti by (simp_all add: tasks_inv_def)
  show "turn s < 4" "sd_tasks s ! turn s \<noteq> None" "\<not> dead_at s (turn s)"
    using c next_idx_Some(1,2) [OF c(1)]
    by (auto simp: turn_def runnable_def dead_at_def split: option.splits)
qed

subsection \<open>\<open>schedule\<close>\<close>

lemma tasks_inv_update:
  assumes inv: "tasks_inv live s" and i: "i < 4" and t: "sd_tasks s ! i = Some t"
    and t': "tk_id t' = tk_id t" "tk_stack t' = tk_stack t" "i = 1 \<longrightarrow> tk_state t' \<noteq> Dead"
  shows "tasks_inv live (s\<lparr>sd_tasks := (sd_tasks s)[i := Some t']\<rparr>)"
proof -
  have len: "length (sd_tasks s) = 4" "sd_current s < 4" "sd_tasks s ! sd_current s \<noteq> None" "sd_tasks s ! 1 \<noteq> None" "\<not> dead_at s 1"
    and ids: "\<And>j u. j < 4 \<Longrightarrow> sd_tasks s ! j = Some u \<Longrightarrow> tk_id u = j \<and> stack_live live u"
    and dis: "\<And>j l u v b. j < 4 \<Longrightarrow> l < 4 \<Longrightarrow> sd_tasks s ! j = Some u \<Longrightarrow> sd_tasks s ! l = Some v \<Longrightarrow> j \<noteq> l \<Longrightarrow>
      stack_base u = Some b \<Longrightarrow> stack_base v \<noteq> Some b"
    using inv unfolding tasks_inv_def by blast+
  let ?s = "s\<lparr>sd_tasks := (sd_tasks s)[i := Some t']\<rparr>"
  have slot: "(sd_tasks s)[i := Some t'] ! j = (if j = i then Some t' else sd_tasks s ! j)" for j
    using len(1) i by (simp add: nth_list_update)
  have old: "\<exists>v. sd_tasks s ! j = Some v \<and> tk_id u = tk_id v \<and> tk_stack u = tk_stack v" if "sd_tasks ?s ! j = Some u" for j u
    using that t t'(1,2) by (auto simp: slot split: if_splits)
  show ?thesis
    unfolding tasks_inv_def
  proof (intro conjI allI impI)
    show "\<not> dead_at ?s 1" using len(5) t'(3) by (auto simp: dead_at_def slot)
    fix j u assume j: "j < 4" "sd_tasks ?s ! j = Some u"
    obtain u0 where u0: "sd_tasks s ! j = Some u0" "tk_id u = tk_id u0" "tk_stack u = tk_stack u0" using old [OF j(2)] by blast
    show "tk_id u = j" "stack_live live u" using ids [OF j(1) u0(1)] u0 by (simp_all add: stack_live_def)
    fix l v b assume l: "l < 4" "sd_tasks ?s ! l = Some v" "j \<noteq> l" "stack_base u = Some b"
    obtain v0 where v0: "sd_tasks s ! l = Some v0" "tk_stack v = tk_stack v0" using old [OF l(2)] by blast
    have "stack_base u0 = Some b" using l(4) u0(3) by (simp add: stack_base_def)
    then show "stack_base v \<noteq> Some b" using dis [OF j(1) l(1) u0(1) v0(1) l(3)] v0(2) by (simp add: stack_base_def)
  qed (use len i in \<open>simp_all add: slot\<close>)
qed

lemma tasks_inv_current:
  assumes "tasks_inv live s" "n < 4" "sd_tasks s ! n \<noteq> None"
  shows "tasks_inv live (s\<lparr>sd_current := n\<rparr>)"
  using assms unfolding tasks_inv_def dead_at_def by simp

lemma live_area_pages:
  assumes "heap_inv m h U F live"
  shows "live_area live \<subseteq> bytes_of U"
  using heap_inv_live_pages [OF assms] unfolding live_area_def by blast

lemma kept_apart:
  assumes inv: "heap_inv m h U F live" and kept: "kept keep live s"
    and t: "i < 4" "sd_tasks s ! i = Some t" "tk_stack t = Some c" and sl: "stack_live live t"
  shows "range_of (cs_base c) 16384 \<inter> live_area keep = {}"
proof -
  have c: "live (cs_base c) = Some CONTEXT_STACK_LAYOUT" using sl t(3) by (simp add: stack_live_def)
  have "range_of (cs_base c) 16384 \<inter> range_of a (l_size l) = {}" if a: "keep a = Some l" for a l
  proof -
    have "live a = Some l" using kept a unfolding kept_def map_le_def by (metis domI)
    moreover have "cs_base c \<noteq> a" using kept t a unfolding kept_def stack_base_def by fastforce
    ultimately show ?thesis using heap_inv_disjoint [OF inv c] by simp
  qed
  then show ?thesis unfolding live_area_def by blast
qed

lemma running_write:
  assumes inv: "kernel_inv U live saved k" and run: "running_ok U k"
    and t: "sd_tasks (kn_sched k) ! sd_current (kn_sched k) = Some t"
  defines "m' \<equiv> write_frame (kn_mem k) (rg_sp (kn_regs k) - 160) (rg_frame (kn_regs k))"
  shows "\<exists>F. heap_inv m' (kn_heap k) U F live"
    and "j < 4 \<Longrightarrow> j \<noteq> sd_current (kn_sched k) \<Longrightarrow> sd_tasks (kn_sched k) ! j = Some u \<Longrightarrow> parked m' u (saved j)"
    and "parked m' (t\<lparr>tk_context := \<lparr>ctx_sp = rg_sp (kn_regs k) - 160\<rparr>\<rparr>) (kn_regs k)"
    and "kept keep live (kn_sched k) \<Longrightarrow> same_on (live_area keep) (kn_mem k) m'"
proof -
  let ?sp = "rg_sp (kn_regs k)" and ?s = "kn_sched k"
  obtain F where h: "heap_inv (kn_mem k) (kn_heap k) U F live" and ti: "tasks_inv live ?s"
    using inv unfolding kernel_inv_def by blast
  have c: "sd_current ?s < 4" using ti by (simp add: tasks_inv_def)
  have sl: "stack_live live t" using ti c t unfolding tasks_inv_def by blast
  have sp: "160 \<le> ?sp" and fits: "frame_fits (rg_frame (kn_regs k))" using run by (simp_all add: running_ok_def)
  have own: "tk_stack t = Some d \<Longrightarrow> cs_base d + 160 \<le> ?sp \<and> ?sp \<le> cs_base d + 16384"
    and boot: "tk_stack t = None \<Longrightarrow> range_of (?sp - 160) 160 \<inter> (bytes_of U \<union> meta_bytes (hp_pages (kn_heap k))) = {}" for d
    using run t by (auto simp: running_ok_def simp del: in_range_of)
  have home: "tk_stack t = Some d \<Longrightarrow> range_of (?sp - 160) 160 \<subseteq> range_of (cs_base d) 16384" for d
    using own by (intro range_of_mono) (auto simp: sp)
  have "range_of (?sp - 160) 160 \<inter> (bytes_of U \<union> meta_bytes (hp_pages (kn_heap k)) - live_area live) = {}"
  proof (cases "tk_stack t")
    case None
    then show ?thesis using boot by blast
  next
    case (Some d)
    then show ?thesis using home stack_area(1) [OF h sl Some] by blast
  qed
  then have "heap_inv m' (kn_heap k) U F live"
    unfolding m'_def by (intro heap_inv_outside [OF h] write_frame_same_on)
  then show "\<exists>F. heap_inv m' (kn_heap k) U F live" by blast
  show "parked m' u (saved j)" if j: "j < 4" "j \<noteq> sd_current ?s" "sd_tasks ?s ! j = Some u"
  proof (rule parked_same_on)
    show "parked (kn_mem k) u (saved j)" using inv j unfolding kernel_inv_def by blast
    have su: "stack_live live u" using ti j unfolding tasks_inv_def by blast
    fix d assume d: "tk_stack u = Some d"
    have "range_of (?sp - 160) 160 \<inter> range_of (cs_base d) 16384 = {}"
    proof (cases "tk_stack t")
      case None
      then show ?thesis using boot stack_area(2) [OF h su d] by blast
    next
      case (Some e)
      have "stack_base t = Some b \<Longrightarrow> stack_base u \<noteq> Some b" for b using ti c t j unfolding tasks_inv_def by metis
      then have "cs_base e \<noteq> cs_base d" using Some d by (auto simp: stack_base_def)
      then show ?thesis using home [OF Some] stack_areas_disjoint [OF h sl Some su d] by blast
    qed
    then show "same_on (range_of (cs_base d) 16384) (kn_mem k) m'"
      unfolding m'_def by (rule write_frame_same_on)
  qed
  show "same_on (live_area keep) (kn_mem k) m'" if "kept keep live ?s"
  proof -
    have "range_of (?sp - 160) 160 \<inter> live_area keep = {}"
    proof (cases "tk_stack t")
      case None
      then show ?thesis using boot live_area_pages [OF h] live_area_mono that unfolding kept_def by blast
    next
      case (Some d)
      then show ?thesis using home [OF Some] kept_apart [OF h that c t Some sl] by blast
    qed
    then show ?thesis unfolding m'_def by (rule write_frame_same_on)
  qed
  show "parked m' (t\<lparr>tk_context := \<lparr>ctx_sp = ?sp - 160\<rparr>\<rparr>) (kn_regs k)"
    using own sp read_write_frame [OF fits] unfolding parked_def m'_def by (auto split: option.splits)
qed

lemma turn_cong:
  assumes "sd_current s = sd_current s'" "sd_current s < 4" "\<And>j. j < 4 \<Longrightarrow> runnable s j = runnable s' j"
  shows "turn s = turn s'"
  using next_idx_cong [OF assms] by (simp add: turn_def)

text \<open>The switch itself, from the running task to a task that is parked.\<close>

lemma switch_ok:
  assumes inv: "kernel_inv U live saved k" and run: "running_ok U k"
    and n: "n < 4" "n \<noteq> sd_current (kn_sched k)" "sd_tasks (kn_sched k) ! n = Some to_task"
    and t: "sd_tasks (kn_sched k) ! sd_current (kn_sched k) = Some t"
    and sw: "switch (kn_mem k) (kn_regs k) (tk_context to_task) = (m', ctx, rg)"
  defines "s' \<equiv> (kn_sched k)\<lparr>sd_tasks := (sd_tasks (kn_sched k))[sd_current (kn_sched k) := Some (t\<lparr>tk_context := ctx\<rparr>)], sd_current := n\<rparr>"
  shows "kernel_inv U live (saved(sd_current (kn_sched k) := kn_regs k)) (k\<lparr>kn_mem := m', kn_sched := s', kn_regs := rg\<rparr>)"
    and "tk_stack to_task \<noteq> None \<Longrightarrow> rg = saved n"
    and "keeps live k live (k\<lparr>kn_mem := m', kn_sched := s', kn_regs := rg\<rparr>)"
proof -
  let ?s = "kn_sched k" and ?sp = "rg_sp (kn_regs k)" and ?c = "sd_current (kn_sched k)"
  let ?t = "t\<lparr>tk_context := ctx\<rparr>" and ?saved = "saved(sd_current (kn_sched k) := kn_regs k)"
  obtain F where h: "heap_inv (kn_mem k) (kn_heap k) U F live" and ti: "tasks_inv live ?s"
    and below: "arena_below (hp_pages (kn_heap k))"
    using inv unfolding kernel_inv_def by blast
  have sp: "160 \<le> ?sp" using run by (simp add: running_ok_def)
  have c: "?c < 4" "length (sd_tasks ?s) = 4" using ti by (simp_all add: tasks_inv_def)
  have m': "m' = write_frame (kn_mem k) (?sp - 160) (rg_frame (kn_regs k))" and ctx: "ctx = \<lparr>ctx_sp = ?sp - 160\<rparr>"
    and rg: "rg = \<lparr>rg_frame = read_frame m' (ctx_sp (tk_context to_task)), rg_sp = usize_add (ctx_sp (tk_context to_task)) 160\<rparr>"
    using sw sp by (auto simp: switch_def SWITCH_FRAME_SIZE_def usize_sub_small Let_def)
  note w = running_write [OF inv run t, folded m']
  have "?c = 1 \<longrightarrow> tk_state ?t \<noteq> Dead"
  proof
    assume "?c = 1"
    then show "tk_state ?t \<noteq> Dead" using ti t unfolding tasks_inv_def dead_at_def by auto
  qed
  then have "tasks_inv live (?s\<lparr>sd_tasks := (sd_tasks ?s)[?c := Some ?t]\<rparr>)"
    by (intro tasks_inv_update [OF ti c(1) t]) simp_all
  then have "tasks_inv live (?s\<lparr>sd_tasks := (sd_tasks ?s)[?c := Some ?t]\<rparr>\<lparr>sd_current := n\<rparr>)"
    by (rule tasks_inv_current [OF _ n(1)]) (use n(2,3) in simp)
  then have ti': "tasks_inv live s'" by (simp add: s'_def)
  have slot: "sd_tasks s' ! j = (if j = ?c then Some ?t else sd_tasks ?s ! j)" for j
    using c by (simp add: s'_def nth_list_update)
  have "parked m' u (?saved j)" if j: "j < 4" "sd_tasks s' ! j = Some u" for j u
  proof (cases "j = ?c")
    case True
    then show ?thesis using w(3) ctx slot [of j] j(2) by simp
  next
    case False
    then show ?thesis using w(2) j slot [of j] by simp
  qed
  then show "kernel_inv U live ?saved (k\<lparr>kn_mem := m', kn_sched := s', kn_regs := rg\<rparr>)"
    using w(1) below ti' unfolding kernel_inv_def by simp
  show "keeps live k live (k\<lparr>kn_mem := m', kn_sched := s', kn_regs := rg\<rparr>)"
    by (rule keepsI) (use w(4) t in \<open>auto simp: slot stack_base_def split: if_splits\<close>)
  show "rg = saved n" if ne: "tk_stack to_task \<noteq> None"
  proof -
    obtain d where d: "tk_stack to_task = Some d" using ne by blast
    have p: "parked m' to_task (saved n)" by (rule w(2) [OF n])
    have "stack_live live to_task" using ti n unfolding tasks_inv_def by blast
    then have "cs_base d + 16384 \<le> usize_limit" by (rule stack_area(3) [OF h _ d])
    moreover have "cs_base d + 16384 \<noteq> usize_limit"
    proof -
      have "live (cs_base d) = Some CONTEXT_STACK_LAYOUT" using \<open>stack_live live to_task\<close> d by (simp add: stack_live_def)
      then show ?thesis using heap_inv_below [OF h _ below] by fastforce
    qed
    ultimately have "usize_add (ctx_sp (tk_context to_task)) 160 = ctx_sp (tk_context to_task) + 160"
      using p d by (intro usize_add_small) (auto simp: parked_def)
    then show ?thesis using p d rg by (simp add: parked_def)
  qed
qed

lemma schedule_ok:
  assumes inv: "kernel_inv U live saved k" and run: "running_ok U k"
  obtains k' sw live' where "schedule k = Inr (k', sw)"
    and "kernel_inv U live' (if sw then saved(sd_current (kn_sched k) := kn_regs k) else saved) k'"
    and "sd_current (kn_sched k') = turn (kn_sched k)" and "sw \<longleftrightarrow> turn (kn_sched k) \<noteq> sd_current (kn_sched k)"
    and "\<not> sw \<Longrightarrow> kn_regs k' = kn_regs k"
    and "\<And>t. sw \<Longrightarrow> sd_tasks (kn_sched k) ! turn (kn_sched k) = Some t \<Longrightarrow> tk_stack t \<noteq> None \<Longrightarrow>
      kn_regs k' = saved (turn (kn_sched k))"
    and "live' \<subseteq>\<^sub>m live" and "\<And>j. j < 4 \<Longrightarrow> dead_at (kn_sched k) j \<Longrightarrow> j \<noteq> sd_current (kn_sched k) \<Longrightarrow>
      sd_tasks (kn_sched k') ! j = None"
    and "\<And>j. j < 4 \<Longrightarrow> \<not> dead_at (kn_sched k) j \<or> j = sd_current (kn_sched k) \<Longrightarrow>
      map_option tk_state (sd_tasks (kn_sched k') ! j) = map_option tk_state (sd_tasks (kn_sched k) ! j)"
    and "kn_resched k' = kn_resched k" and "keeps live k live' k'"
proof -
  let ?s = "kn_sched k" and ?c = "sd_current (kn_sched k)"
  obtain k1 live1 where p: "prune k = Inr k1" and i1: "kernel_inv U live1 saved k1"
    and cur: "sd_current (kn_sched k1) = ?c"
    and tab: "\<forall>j<4. sd_tasks (kn_sched k1) ! j = (if dead_at ?s j \<and> j \<noteq> ?c then None else sd_tasks ?s ! j)"
    and rg: "kn_regs k1 = kn_regs k" and rs: "kn_resched k1 = kn_resched k" and pg: "hp_pages (kn_heap k1) = hp_pages (kn_heap k)"
    and l1: "live1 \<subseteq>\<^sub>m live" and kp: "keeps live k live1 k1"
    by (rule prune_ok [OF inv])
  let ?s1 = "kn_sched k1"
  have ti: "tasks_inv live ?s" and ti1: "tasks_inv live1 ?s1" using inv i1 unfolding kernel_inv_def by blast+
  have c4: "?c < 4" using ti by (simp add: tasks_inv_def)
  have "runnable ?s1 j = runnable ?s j" if "j < 4" for j
    using tab that by (auto simp: runnable_def dead_at_def split: option.splits)
  then have tn: "turn ?s1 = turn ?s" by (intro turn_cong) (simp_all add: cur c4)
  note tt = turn_task [OF ti1, unfolded tn]
  have nx: "(case next_idx ?s1 of Some i \<Rightarrow> i | None \<Rightarrow> IDLE_TASK_ID) = turn ?s"
    using tn by (simp add: turn_def IDLE_TASK_ID_def split: option.splits)
  have states: "map_option tk_state (sd_tasks ?s1 ! j) = map_option tk_state (sd_tasks ?s ! j)" if "j < 4" "\<not> dead_at ?s j \<or> j = ?c" for j
    using tab that by auto
  have gone: "sd_tasks ?s1 ! j = None" if "j < 4" "dead_at ?s j" "j \<noteq> ?c" for j using tab that by simp
  show thesis
  proof (cases "turn ?s = ?c")
    case True
    then have "schedule k = Inr (k1, False)"
      using p nx cur by (simp add: schedule_def schedule_inner_def Let_def)
    then show thesis using that [of k1 False live1] i1 cur True rg l1 gone states rs kp by simp
  next
    case False
    obtain t where t: "sd_tasks ?s1 ! ?c = Some t" using ti1 cur by (auto simp: tasks_inv_def)
    obtain u where u: "sd_tasks ?s1 ! turn ?s = Some u" using tt(2) by blast
    obtain m' ctx rg' where sw: "switch (kn_mem k1) (kn_regs k1) (tk_context u) = (m', ctx, rg')" by (metis surj_pair)
    have run1: "running_ok U k1" using run t tab c4 rg pg cur by (simp add: running_ok_def cong: option.case_cong)
    let ?s' = "?s1\<lparr>sd_tasks := (sd_tasks ?s1)[?c := Some (t\<lparr>tk_context := ctx\<rparr>)], sd_current := turn ?s\<rparr>"
    let ?k' = "k1\<lparr>kn_mem := m', kn_sched := ?s', kn_regs := rg'\<rparr>"
    note ok = switch_ok [OF i1 run1 tt(1) _ u _ sw, unfolded cur, OF False t]
    have len: "length (sd_tasks ?s1) = 4" using ti1 by (simp add: tasks_inv_def)
    have "schedule k = Inr (?k', True)"
      using p nx cur False t u tt(1) c4 len sw
      by (simp add: schedule_def schedule_inner_def Let_def table_task_def table_get_def table_set_def)
    moreover have "kernel_inv U live1 (if True then saved(?c := kn_regs k) else saved) ?k'"
      using ok(1) rg by simp
    moreover have "rg' = saved (turn ?s)" if "sd_tasks ?s ! turn ?s = Some v" "tk_stack v \<noteq> None" for v
      using ok(2) tab tt(1) u that by (simp split: if_splits)
    moreover have "sd_tasks ?s' ! j = None" if "j < 4" "dead_at ?s j" "j \<noteq> ?c" for j
      using gone [OF that] len that by (simp add: nth_list_update)
    moreover have "map_option tk_state (sd_tasks ?s' ! j) = map_option tk_state (sd_tasks ?s ! j)" if "j < 4" "\<not> dead_at ?s j \<or> j = ?c" for j
      using states [OF that] len t that c4 by (auto simp: nth_list_update)
    moreover have "keeps live k live1 ?k'" by (rule keeps_trans [OF kp ok(3)])
    ultimately show thesis using that [of ?k' True live1] False l1 rs by simp
  qed
qed

lemma kernel_inv_resched: "kernel_inv U live saved (k\<lparr>kn_resched := b\<rparr>) = kernel_inv U live saved k"
  by (simp add: kernel_inv_def)

lemma running_ok_resched: "running_ok U (k\<lparr>kn_resched := b\<rparr>) = running_ok U k"
  by (simp add: running_ok_def cong: option.case_cong)

subsection \<open>\<open>spawn\<close>\<close>

lemma free_id_Some: "free_id s = Some i \<Longrightarrow> i < length (sd_tasks s) \<and> sd_tasks s ! i = None"
  by (auto simp: free_id_def find_Some_iff)

lemma free_id_None: "free_id s = None \<Longrightarrow> i < length (sd_tasks s) \<Longrightarrow> sd_tasks s ! i \<noteq> None"
  by (auto simp: free_id_def find_None_iff)

lemma tasks_inv_insert:
  assumes inv: "tasks_inv live s" and i: "i < 4" "sd_tasks s ! i = None"
    and c: "live (cs_base c) = None" "cs_size c = CONTEXT_STACK_SIZE"
    and t: "tk_id t = i" "tk_stack t = Some c"
  shows "tasks_inv (live(cs_base c \<mapsto> CONTEXT_STACK_LAYOUT)) (s\<lparr>sd_tasks := (sd_tasks s)[i := Some t]\<rparr>)"
proof -
  have len: "length (sd_tasks s) = 4" "sd_current s < 4" "sd_tasks s ! sd_current s \<noteq> None" "sd_tasks s ! 1 \<noteq> None" "\<not> dead_at s 1"
    and ids: "\<And>j u. j < 4 \<Longrightarrow> sd_tasks s ! j = Some u \<Longrightarrow> tk_id u = j \<and> stack_live live u"
    and dis: "\<And>j l u v b. j < 4 \<Longrightarrow> l < 4 \<Longrightarrow> sd_tasks s ! j = Some u \<Longrightarrow> sd_tasks s ! l = Some v \<Longrightarrow> j \<noteq> l \<Longrightarrow>
      stack_base u = Some b \<Longrightarrow> stack_base v \<noteq> Some b"
    using inv unfolding tasks_inv_def by blast+
  let ?s = "s\<lparr>sd_tasks := (sd_tasks s)[i := Some t]\<rparr>" and ?live = "live(cs_base c \<mapsto> CONTEXT_STACK_LAYOUT)"
  have slot: "(sd_tasks s)[i := Some t] ! j = (if j = i then Some t else sd_tasks s ! j)" for j
    using len(1) i by (simp add: nth_list_update)
  have i1: "i \<noteq> 1" "i \<noteq> sd_current s" using len i by auto
  have old: "stack_live ?live u \<and> stack_base u \<noteq> Some (cs_base c)" if "j < 4" "sd_tasks s ! j = Some u" for j u
    using ids [OF that] c(1) by (auto simp: stack_live_def stack_base_def split: option.splits)
  show ?thesis
    unfolding tasks_inv_def
  proof (intro conjI allI impI)
    show "\<not> dead_at ?s 1" using len(5) i1 by (simp add: dead_at_def slot)
    fix j u assume j: "j < 4" "sd_tasks ?s ! j = Some u"
    show "tk_id u = j" "stack_live ?live u"
      using ids [OF j(1)] old [OF j(1)] j(2) t c(2) by (auto simp: slot stack_live_def split: if_splits)
    fix l v b assume l: "l < 4" "sd_tasks ?s ! l = Some v" "j \<noteq> l" "stack_base u = Some b"
    have tb: "stack_base t = Some (cs_base c)" by (simp add: stack_base_def t(2))
    consider "j = i" "sd_tasks s ! l = Some v" | "l = i" "sd_tasks s ! j = Some u" | "sd_tasks s ! j = Some u" "sd_tasks s ! l = Some v"
      using j(2) l(2,3) by (auto simp: slot split: if_splits)
    then show "stack_base v \<noteq> Some b"
    proof cases
      case 1
      then show ?thesis using old [OF l(1)] j(2) l(4) tb by (auto simp: slot)
    next
      case 2
      then show ?thesis using old [OF j(1) 2(2)] l tb by (auto simp: slot)
    next
      case 3
      then show ?thesis using dis [OF j(1) l(1) _ _ l(3,4)] by blast
    qed
  qed (use len i i1 in \<open>simp_all add: slot\<close>)
qed

definition fresh_regs :: "usize \<Rightarrow> usize \<Rightarrow> context_stack \<Rightarrow> regs" where
  "fresh_regs trampoline entry c =
    \<lparr>rg_frame = frame_default\<lparr>x30 := trampoline, x19 := entry\<rparr>, rg_sp = cs_base c + 16384\<rparr>"

lemma spawn_ok:
  assumes inv: "kernel_inv U live saved k" and vals: "entry < usize_limit" "trampoline < usize_limit"
  obtains "spawn trampoline entry k = Inr (k, Inl RanOutOfIds)" "\<forall>i<4. sd_tasks (kn_sched k) ! i \<noteq> None"
  | F where "spawn trampoline entry k = Inr (k, Inl RanOutOfMemory)"
      and "heap_inv (kn_mem k) (kn_heap k) U F live" and "\<forall>b. 4 dvd b \<longrightarrow> \<not> block b 2 \<subseteq> F"
  | k' i c t where "spawn trampoline entry k = Inr (k', Inr ())" and "i < 4" and "sd_tasks (kn_sched k) ! i = None"
      and "kn_sched k' = (kn_sched k)\<lparr>sd_tasks := (sd_tasks (kn_sched k))[i := Some t]\<rparr>"
      and "tk_state t = Ready" and "tk_stack t = Some c" and "tk_id t = i"
      and "kernel_inv U (live(cs_base c \<mapsto> CONTEXT_STACK_LAYOUT)) (saved(i := fresh_regs trampoline entry c)) k'"
      and "kn_regs k' = kn_regs k" and "kn_resched k' = kn_resched k"
      and "keeps live k (live(cs_base c \<mapsto> CONTEXT_STACK_LAYOUT)) k'"
proof -
  let ?s = "kn_sched k"
  obtain F where h: "heap_inv (kn_mem k) (kn_heap k) U F live" and ti: "tasks_inv live ?s"
    and below: "arena_below (hp_pages (kn_heap k))"
    using inv unfolding kernel_inv_def by blast
  have len: "length (sd_tasks ?s) = 4" using ti by (simp add: tasks_inv_def)
  show thesis
  proof (cases "free_id ?s")
    case None
    then show thesis using that(1) free_id_None len by (simp add: spawn_def)
  next
    case (Some i)
    then have i: "i < 4" "sd_tasks ?s ! i = None" using free_id_Some [OF Some] len by auto
    show thesis
    proof (rule task_new_ok [OF h vals below, of i])
      fix m' h' F' c
      let ?t = "\<lparr>tk_id = i, tk_context = \<lparr>ctx_sp = cs_base c + 16224\<rparr>, tk_stack = Some c, tk_ticks = 0, tk_state = Ready\<rparr>"
      let ?live = "live(cs_base c \<mapsto> CONTEXT_STACK_LAYOUT)" and ?saved = "saved(i := fresh_regs trampoline entry c)"
      assume n: "task_new (kn_mem k) (kn_heap k) i entry trampoline = Inr (m', h', Some ?t)"
        and c: "live (cs_base c) = None" "cs_size c = CONTEXT_STACK_SIZE" and h': "heap_inv m' h' U F' ?live"
        and pg: "hp_pages h' = hp_pages (kn_heap k)" and s: "same_on (live_area live) (kn_mem k) m'"
        and fr: "read_frame m' (cs_base c + 16224) = frame_default\<lparr>x30 := trampoline, x19 := entry\<rparr>"
      let ?s' = "?s\<lparr>sd_tasks := (sd_tasks ?s)[i := Some ?t]\<rparr>" and ?k' = "k\<lparr>kn_mem := m', kn_heap := h', kn_sched := ?s\<lparr>sd_tasks := (sd_tasks ?s)[i := Some ?t]\<rparr>\<rparr>"
      have ti': "tasks_inv ?live ?s'" by (rule tasks_inv_insert [OF ti i c]) simp_all
      have "parked m' u (?saved j)" if j: "j < 4" "j \<noteq> sd_current ?s" "sd_tasks ?s' ! j = Some u" for j u
      proof (cases "j = i")
        case True
        then have "u = ?t" using j(3) i len by simp
        then show ?thesis using True fr by (simp add: parked_def fresh_regs_def)
      next
        case False
        then have ju: "sd_tasks ?s ! j = Some u" using j(3) by simp
        have p: "parked (kn_mem k) u (saved j)" using inv j(1,2) ju unfolding kernel_inv_def by blast
        have "stack_live live u" using ti j(1) ju unfolding tasks_inv_def by blast
        then show ?thesis
          using parked_same_on [OF p] stack_area(1) [OF h] same_on_subset [OF s] False by fastforce
      qed
      then have "kernel_inv U ?live ?saved ?k'" using h' ti' below pg unfolding kernel_inv_def by auto
      moreover have "spawn trampoline entry k = Inr (?k', Inr ())"
        using Some n i len by (simp add: spawn_def table_set_def)
      moreover have "keeps live k ?live ?k'"
      proof (rule keepsI)
        fix keep assume keep: "keep \<subseteq>\<^sub>m live"
        then have "keep \<subseteq>\<^sub>m ?live" using c(1) by (auto simp: map_le_def dom_def)
        then show "keep \<subseteq>\<^sub>m ?live \<and> same_on (live_area keep) (kn_mem k) (kn_mem ?k')"
          using same_on_subset [OF s live_area_mono [OF keep]] by simp
      qed (use len i c(1) in \<open>auto simp: nth_list_update stack_base_def split: if_splits\<close>)
      ultimately show thesis using that(3) [of ?k' i ?t c] i by simp
    next
      assume "task_new (kn_mem k) (kn_heap k) i entry trampoline = Inr (kn_mem k, kn_heap k, None)"
        and "\<forall>b. 4 dvd b \<longrightarrow> \<not> block b 2 \<subseteq> F"
      then show thesis using that(2) h Some by (simp add: spawn_def)
    qed
  qed
qed

subsection \<open>\<open>task_exit\<close> and \<open>tick\<close>\<close>

lemma tasks_inv_state:
  assumes "tasks_inv live s" "i < 4" "sd_tasks s ! i = Some t" "i = 1 \<longrightarrow> st \<noteq> Dead"
  shows "tasks_inv live (s\<lparr>sd_tasks := (sd_tasks s)[i := Some (set_state t st)]\<rparr>)"
  by (rule tasks_inv_update [OF assms(1-3)]) (use assms(4) in \<open>simp_all add: set_state_def\<close>)

text \<open>Changing a task but for its stack and context keeps what is parked and what runs.\<close>

lemma kernel_inv_task:
  assumes inv: "kernel_inv U live saved k" and i: "i < 4" "sd_tasks (kn_sched k) ! i = Some t"
    and t': "tk_id t' = tk_id t" "tk_stack t' = tk_stack t" "tk_context t' = tk_context t" "i = 1 \<longrightarrow> tk_state t' \<noteq> Dead"
  defines "k' \<equiv> k\<lparr>kn_sched := (kn_sched k)\<lparr>sd_tasks := (sd_tasks (kn_sched k))[i := Some t']\<rparr>\<rparr>"
  shows "kernel_inv U live saved k'" and "running_ok U k \<Longrightarrow> running_ok U k'" and "keeps live k live k'"
proof -
  let ?s = "kn_sched k" and ?s' = "kn_sched k\<lparr>sd_tasks := (sd_tasks (kn_sched k))[i := Some t']\<rparr>"
  have ti: "tasks_inv live ?s" using inv unfolding kernel_inv_def by blast
  have len: "length (sd_tasks ?s) = 4" using ti by (simp add: tasks_inv_def)
  have slot: "(sd_tasks ?s)[i := Some t'] ! j = (if j = i then Some t' else sd_tasks ?s ! j)" for j
    using len i by (simp add: nth_list_update)
  have "tasks_inv live ?s'" by (rule tasks_inv_update [OF ti i t'(1,2,4)])
  moreover have "parked (kn_mem k) u (saved j)" if j: "j < 4" "j \<noteq> sd_current ?s" "sd_tasks ?s' ! j = Some u" for j u
  proof -
    obtain v where v: "sd_tasks ?s ! j = Some v" "tk_stack u = tk_stack v" "tk_context u = tk_context v"
      using j(3) i(2) t' by (auto simp: slot split: if_splits)
    then have "parked (kn_mem k) v (saved j)" using inv j(1,2) unfolding kernel_inv_def by blast
    then show ?thesis using v by (simp add: parked_def cong: option.case_cong)
  qed
  ultimately show "kernel_inv U live saved k'" using inv unfolding kernel_inv_def k'_def by simp
  show "keeps live k live k'" by (rule keeps_same_stacks) (use i(2) t'(2) in \<open>simp_all add: k'_def slot\<close>)
  show "running_ok U k'" if "running_ok U k"
    using that i t' unfolding running_ok_def k'_def by (auto simp: slot cong: option.case_cong split: if_splits)
qed

lemma task_exit_ok:
  assumes inv: "kernel_inv U live saved k" and run: "running_ok U k" and c: "sd_current (kn_sched k) \<noteq> IDLE_TASK_ID"
  obtains k' live' where "task_exit k = Inr k'" and "sd_current (kn_sched k') \<noteq> sd_current (kn_sched k)"
    and "kernel_inv U live' (saved(sd_current (kn_sched k) := kn_regs k)) k'"
    and "sd_current (kn_sched k') = turn (kn_sched k\<lparr>sd_tasks := (sd_tasks (kn_sched k))[sd_current (kn_sched k) :=
        map_option (\<lambda>t. set_state t Dead) (sd_tasks (kn_sched k) ! sd_current (kn_sched k))]\<rparr>)"
    and "\<And>j. j < 4 \<Longrightarrow> j \<noteq> sd_current (kn_sched k) \<Longrightarrow> \<not> dead_at (kn_sched k) j \<Longrightarrow>
      map_option tk_state (sd_tasks (kn_sched k') ! j) = map_option tk_state (sd_tasks (kn_sched k) ! j)"
    and "map_option tk_state (sd_tasks (kn_sched k') ! sd_current (kn_sched k)) = Some Dead"
    and "\<And>j. j < 4 \<Longrightarrow> j \<noteq> sd_current (kn_sched k) \<Longrightarrow> dead_at (kn_sched k) j \<Longrightarrow> sd_tasks (kn_sched k') ! j = None"
    and "kn_resched k' = kn_resched k" and "keeps live k live' k'"
proof -
  let ?s = "kn_sched k" and ?c = "sd_current (kn_sched k)"
  have ti: "tasks_inv live ?s" using inv unfolding kernel_inv_def by blast
  have c4: "?c < 4" "length (sd_tasks ?s) = 4" using ti by (simp_all add: tasks_inv_def)
  obtain t where t: "sd_tasks ?s ! ?c = Some t" using ti by (auto simp: tasks_inv_def)
  let ?s1 = "?s\<lparr>sd_tasks := (sd_tasks ?s)[?c := Some (set_state t Dead)]\<rparr>"
  let ?k1 = "k\<lparr>kn_sched := ?s\<lparr>sd_tasks := (sd_tasks ?s)[?c := Some (set_state t Dead)]\<rparr>\<rparr>"
  have c1: "?c \<noteq> 1" using c by (simp add: IDLE_TASK_ID_def)
  note k1 = kernel_inv_task [OF inv c4(1) t, of "set_state t Dead"]
  have i1: "kernel_inv U live saved ?k1" and r1: "running_ok U ?k1" and kp1: "keeps live k live ?k1"
    using k1 run c1 by (simp_all add: set_state_def)
  have slot: "sd_tasks ?s1 ! j = (if j = ?c then Some (set_state t Dead) else sd_tasks ?s ! j)" for j
    using c4 by (simp add: nth_list_update)
  have nt: "turn ?s1 \<noteq> ?c"
  proof -
    have "\<not> runnable ?s1 ?c" using c4 by (simp add: runnable_def set_state_def)
    then show ?thesis
      using next_idx_Some(2) [of ?s1] c1 c4 by (auto simp: turn_def split: option.splits)
  qed
  obtain k' sw live' where a: "schedule ?k1 = Inr (k', sw)"
    and i': "kernel_inv U live' (if sw then saved(sd_current (kn_sched ?k1) := kn_regs ?k1) else saved) k'"
    and cur: "sd_current (kn_sched k') = turn (kn_sched ?k1)" and sw: "sw \<longleftrightarrow> turn (kn_sched ?k1) \<noteq> sd_current (kn_sched ?k1)"
    and gone: "\<And>j. j < 4 \<Longrightarrow> dead_at (kn_sched ?k1) j \<Longrightarrow> j \<noteq> sd_current (kn_sched ?k1) \<Longrightarrow> sd_tasks (kn_sched k') ! j = None"
    and states: "\<And>j. j < 4 \<Longrightarrow> \<not> dead_at (kn_sched ?k1) j \<or> j = sd_current (kn_sched ?k1) \<Longrightarrow>
      map_option tk_state (sd_tasks (kn_sched k') ! j) = map_option tk_state (sd_tasks (kn_sched ?k1) ! j)"
    and rs: "kn_resched k' = kn_resched ?k1" and kp2: "keeps live ?k1 live' k'"
    by (rule schedule_ok [OF i1 r1]) blast
  have sw: sw using sw nt by simp
  have "task_exit k = Inr k'"
    using a sw t c4 by (simp add: task_exit_def table_update_def table_task_def table_get_def table_set_def)
  moreover have dead: "dead_at ?s1 j = dead_at ?s j" if "j \<noteq> ?c" for j using that by (simp add: dead_at_def slot)
  moreover have "map_option tk_state (sd_tasks (kn_sched k') ! ?c) = Some Dead"
    using states [of ?c] c4 by (simp add: set_state_def)
  ultimately show thesis
    using that [of k' live'] nt cur i' sw t gone states rs keeps_trans [OF kp1 kp2] by (simp add: slot)
qed

end
