(* ===== verification/RingBuffer.thy ===== *)
theory RingBuffer
  imports Prelude
begin

text \<open>
  The ring buffer between the interrupt handler that receives characters and the task that reads them
  (\<open>src/src/lib/ring_buffer.rs\<close>), refined to a bounded queue. The interface its clients rely on is the
  locale \<open>bounded_queue\<close>: a push appends unless the queue is full, a pop takes the oldest element.
\<close>

definition RING_BUFFER_SIZE :: usize where
  "RING_BUFFER_SIZE = 256"

record 'a ring_buffer =
  rb_buffer :: "'a list"
  rb_head :: usize
  rb_tail :: usize
  rb_full :: bool

definition ring_new :: "'a \<Rightarrow> 'a ring_buffer" where
  "ring_new d = \<lparr>rb_buffer = replicate RING_BUFFER_SIZE d, rb_head = 0, rb_tail = 0, rb_full = False\<rparr>"

text \<open>\<open>x % RING_BUFFER_SIZE\<close> is always an index of the array, so no access can panic.\<close>

definition ring_push :: "'a ring_buffer \<Rightarrow> 'a \<Rightarrow> 'a ring_buffer" where
  "ring_push r v =
    (if rb_full r then r
     else let buffer = (rb_buffer r)[rb_tail r mod RING_BUFFER_SIZE := v];
              tail = usize_add (rb_tail r) 1 mod RING_BUFFER_SIZE
          in r\<lparr>rb_buffer := buffer, rb_tail := tail, rb_full := (tail = rb_head r)\<rparr>)"

definition ring_pop :: "'a ring_buffer \<Rightarrow> 'a ring_buffer \<times> 'a option" where
  "ring_pop r =
    (if \<not> rb_full r \<and> rb_tail r = rb_head r then (r, None)
     else let v = rb_buffer r ! (rb_head r mod RING_BUFFER_SIZE);
              head = usize_add (rb_head r) 1 mod RING_BUFFER_SIZE
          in (r\<lparr>rb_head := head, rb_full := False\<rparr>, Some v))"

subsection \<open>The contract: a bounded first-in first-out queue\<close>

text \<open>What a sequence of operations returns, for any implementation, and the implementation on lists.\<close>

datatype 'a queue_op = Push 'a | Pop

fun queue_run :: "('q \<Rightarrow> 'a \<Rightarrow> 'q) \<Rightarrow> ('q \<Rightarrow> 'q \<times> 'a option) \<Rightarrow> 'q \<Rightarrow> 'a queue_op list \<Rightarrow> 'a option list" where
  "queue_run push pop q [] = []"
| "queue_run push pop q (Push x # ops) = queue_run push pop (push q x) ops"
| "queue_run push pop q (Pop # ops) = (case pop q of (q', r) \<Rightarrow> r # queue_run push pop q' ops)"

definition list_push :: "nat \<Rightarrow> 'a list \<Rightarrow> 'a \<Rightarrow> 'a list" where
  "list_push cap xs x = (if length xs = cap then xs else xs @ [x])"

fun list_pop :: "'a list \<Rightarrow> 'a list \<times> 'a option" where
  "list_pop [] = ([], None)"
| "list_pop (x # xs) = (xs, Some x)"

locale bounded_queue =
  fixes new_q :: "'a \<Rightarrow> 'q"
    and push_q :: "'q \<Rightarrow> 'a \<Rightarrow> 'q"
    and pop_q :: "'q \<Rightarrow> 'q \<times> 'a option"
    and abs_q :: "'q \<Rightarrow> 'a list"
    and inv_q :: "'q \<Rightarrow> bool"
    and cap :: nat
  assumes new_inv: "inv_q (new_q d)" and new_abs: "abs_q (new_q d) = []"
    and push_inv: "inv_q q \<Longrightarrow> inv_q (push_q q x)"
    and push_abs: "inv_q q \<Longrightarrow> abs_q (push_q q x) = (if length (abs_q q) = cap then abs_q q else abs_q q @ [x])"
    and pop_inv: "inv_q q \<Longrightarrow> inv_q (fst (pop_q q))"
    and pop_none: "inv_q q \<Longrightarrow> snd (pop_q q) = None \<longleftrightarrow> abs_q q = []"
    and pop_empty: "inv_q q \<Longrightarrow> abs_q q = [] \<Longrightarrow> abs_q (fst (pop_q q)) = []"
    and pop_some: "inv_q q \<Longrightarrow> abs_q q = x # xs \<Longrightarrow> snd (pop_q q) = Some x \<and> abs_q (fst (pop_q q)) = xs"
    and bounded: "inv_q q \<Longrightarrow> length (abs_q q) \<le> cap"
begin

lemma pop_none_abs: "inv_q q \<Longrightarrow> abs_q q = [] \<Longrightarrow> snd (pop_q q) = None"
  using pop_none by blast

text \<open>A burst of pushes keeps the elements that fit, in order, and drops the newest.\<close>

lemma pushes:
  assumes "inv_q q"
  shows "inv_q (foldl push_q q xs)" and "abs_q (foldl push_q q xs) = take cap (abs_q q @ xs)"
proof -
  have "inv_q (foldl push_q q xs) \<and> abs_q (foldl push_q q xs) = take cap (abs_q q @ xs)"
    using assms
  proof (induction xs arbitrary: q)
    case Nil
    then show ?case using bounded by simp
  next
    case (Cons x xs)
    have "length (abs_q q) \<le> cap" by (rule bounded [OF Cons.prems])
    then show ?case
      using Cons.IH [OF push_inv [OF Cons.prems]] push_abs [OF Cons.prems, of x]
      by (auto simp: take_Cons' min_def)
  qed
  then show "inv_q (foldl push_q q xs)" "abs_q (foldl push_q q xs) = take cap (abs_q q @ xs)" by simp_all
qed

text \<open>Every sequence of operations returns what the list would.\<close>

lemma run_refines:
  "inv_q q \<Longrightarrow> queue_run push_q pop_q q ops = queue_run (list_push cap) list_pop (abs_q q) ops"
proof (induction ops arbitrary: q)
  case (Cons op ops)
  note IH = Cons.IH and prem = Cons.prems
  show ?case
  proof (cases op)
    case (Push x)
    then show ?thesis
      using Cons.IH [OF push_inv [OF Cons.prems]] push_abs [OF Cons.prems, of x] by (simp add: list_push_def)
  next
    case Pop
    obtain q' r where q': "pop_q q = (q', r)" by fastforce
    have i: "inv_q q'" using pop_inv [OF Cons.prems] q' by simp
    show ?thesis
    proof (cases "abs_q q")
      case Nil
      then show ?thesis
        using Cons.IH [OF i] pop_none_abs [OF Cons.prems Nil] pop_empty [OF Cons.prems Nil] Pop q' by simp
    next
      case (Cons x xs)
      then show ?thesis using IH [OF i] pop_some [OF prem Cons] Pop q' by simp
    qed
  qed
qed simp

text \<open>Popping until the queue is empty.\<close>

fun drain :: "nat \<Rightarrow> 'q \<Rightarrow> 'a list" where
  "drain 0 q = []"
| "drain (Suc n) q = (case pop_q q of (q', None) \<Rightarrow> [] | (q', Some x) \<Rightarrow> x # drain n q')"

lemma drain_abs: "inv_q q \<Longrightarrow> length (abs_q q) \<le> n \<Longrightarrow> drain n q = abs_q q"
proof (induction n arbitrary: q)
  case (Suc n)
  show ?case
  proof (cases "abs_q q")
    case Nil
    then show ?thesis using pop_none_abs [OF Suc.prems(1)] by (auto split: prod.splits)
  next
    case (Cons x xs)
    note p = pop_some [OF Suc.prems(1) Cons]
    have "drain n (fst (pop_q q)) = xs"
      using Suc.IH [OF pop_inv [OF Suc.prems(1)]] p Suc.prems(2) Cons by simp
    then show ?thesis using p Cons by (cases "pop_q q") auto
  qed
qed simp

lemma fifo: "drain (length xs) (foldl push_q (new_q d) xs) = take cap xs"
  using pushes [OF new_inv, of d xs] drain_abs [of "foldl push_q (new_q d) xs" "length xs"] by (simp add: new_abs)

end

subsection \<open>The ring buffer is such a queue\<close>

definition ring_len :: "'a ring_buffer \<Rightarrow> nat" where
  "ring_len r = (if rb_full r then 256 else (rb_tail r + 256 - rb_head r) mod 256)"

definition ring_abs :: "'a ring_buffer \<Rightarrow> 'a list" where
  "ring_abs r = map (\<lambda>i. rb_buffer r ! ((rb_head r + i) mod 256)) [0..<ring_len r]"

definition ring_inv :: "'a ring_buffer \<Rightarrow> bool" where
  "ring_inv r \<longleftrightarrow> length (rb_buffer r) = 256 \<and> rb_head r < 256 \<and> rb_tail r < 256
    \<and> (rb_full r \<longrightarrow> rb_tail r = rb_head r)"

lemma length_ring_abs [simp]: "length (ring_abs r) = ring_len r"
  by (simp add: ring_abs_def)

lemma ring_len_cases:
  assumes "ring_inv r"
  shows "ring_len r = (if rb_full r then 256 else if rb_head r \<le> rb_tail r then rb_tail r - rb_head r
    else rb_tail r + 256 - rb_head r)"
proof (cases "rb_head r \<le> rb_tail r")
  case True
  then obtain d where d: "rb_tail r = rb_head r + d" by (auto simp: le_iff_add)
  then have "d < 256" using assms by (simp add: ring_inv_def)
  then show ?thesis using d by (simp add: ring_len_def)
next
  case False
  then show ?thesis using assms by (simp add: ring_len_def ring_inv_def)
qed

lemma succ_mod: "(x::nat) < 256 \<Longrightarrow> (x + 1) mod 256 = (if x = 255 then 0 else x + 1)"
  by auto

lemma ring_len_tail:
  assumes "ring_inv r"
  shows "(rb_head r + ring_len r) mod 256 = rb_tail r"
proof -
  have b: "rb_tail r < 256" "rb_full r \<longrightarrow> rb_tail r = rb_head r" using assms by (simp_all add: ring_inv_def)
  have "rb_head r + ring_len r = rb_tail r \<or> rb_head r + ring_len r = rb_tail r + 256"
    unfolding ring_len_cases [OF assms] using b assms by (auto simp: ring_inv_def)
  then show ?thesis using b by auto
qed

lemma ring_len_full: "ring_inv r \<Longrightarrow> ring_len r = 256 \<longleftrightarrow> rb_full r"
  by (auto simp: ring_len_cases ring_inv_def)

lemma ring_len_bound: "ring_len r \<le> 256"
  by (simp add: ring_len_def less_imp_le)

lemma ring_push_free:
  assumes inv: "ring_inv r" and free: "\<not> rb_full r"
  shows "ring_inv (ring_push r v)" and "ring_len (ring_push r v) = Suc (ring_len r)"
    and "ring_abs (ring_push r v) = ring_abs r @ [v]"
proof -
  let ?r = "ring_push r v"
  have sel: "rb_buffer ?r = (rb_buffer r)[rb_tail r := v]" "rb_head ?r = rb_head r"
    "rb_tail ?r = (if rb_tail r = 255 then 0 else rb_tail r + 1)"
    "rb_full ?r \<longleftrightarrow> (if rb_tail r = 255 then 0 else rb_tail r + 1) = rb_head r"
    using inv free succ_mod [of "rb_tail r"]
    by (simp_all add: ring_push_def RING_BUFFER_SIZE_def ring_inv_def usize_add_small Let_def)
  show inv': "ring_inv ?r" using inv sel by (auto simp: ring_inv_def)
  show len: "ring_len ?r = Suc (ring_len r)"
    using inv free unfolding ring_len_cases [OF inv] ring_len_cases [OF inv'] sel by (auto simp: ring_inv_def)
  show "ring_abs ?r = ring_abs r @ [v]"
  proof (rule nth_equalityI)
    fix i assume "i < length (ring_abs ?r)"
    then have i: "i \<le> ring_len r" using len by simp
    show "ring_abs ?r ! i = (ring_abs r @ [v]) ! i"
    proof (cases "i = ring_len r")
      case True
      have "(rb_head r + ring_len r) mod 256 = rb_tail r" by (rule ring_len_tail [OF inv])
      then show ?thesis using True inv sel len by (simp add: ring_abs_def nth_append ring_inv_def del: upt_Suc)
    next
      case False
      then have lt: "i < ring_len r" using i by simp
      have "ring_len r < 256" using ring_len_full [OF inv] ring_len_bound [of r] free by linarith
      have "(rb_head r + i) mod 256 \<noteq> rb_tail r"
      proof
        assume "(rb_head r + i) mod 256 = rb_tail r"
        then have "(rb_head r + i) mod 256 = (rb_head r + ring_len r) mod 256" using ring_len_tail [OF inv] by simp
        then have "i mod 256 = ring_len r mod 256" by (simp add: nat_mod_eq_iff)
        then show False using lt \<open>ring_len r < 256\<close> by simp
      qed
      then show ?thesis using lt sel len by (simp add: ring_abs_def nth_append del: upt_Suc)
    qed
  qed (simp add: len)
qed

lemma ring_pop_some:
  assumes inv: "ring_inv r" and ne: "ring_abs r = x # xs"
  shows "ring_inv (fst (ring_pop r))" and "snd (ring_pop r) = Some x" and "ring_abs (fst (ring_pop r)) = xs"
proof -
  have len: "ring_len r = Suc (length xs)" using ne length_ring_abs [of r] by simp
  have "\<not> (\<not> rb_full r \<and> rb_tail r = rb_head r)" using len by (auto simp: ring_len_def)
  then have pop: "ring_pop r = (r\<lparr>rb_head := (rb_head r + 1) mod 256, rb_full := False\<rparr>, Some (rb_buffer r ! rb_head r))"
    using inv by (auto simp: ring_pop_def RING_BUFFER_SIZE_def ring_inv_def usize_add_small Let_def)
  show inv': "ring_inv (fst (ring_pop r))" using inv pop by (simp add: ring_inv_def)
  have nth: "ring_abs r ! i = rb_buffer r ! ((rb_head r + i) mod 256)" if "i < ring_len r" for i
    using that by (simp add: ring_abs_def)
  have "ring_abs r ! 0 = rb_buffer r ! rb_head r" using nth [of 0] len inv by (simp add: ring_inv_def)
  then show "snd (ring_pop r) = Some x" using pop ne by simp
  have sel: "rb_head (fst (ring_pop r)) = (if rb_head r = 255 then 0 else rb_head r + 1)"
    "rb_tail (fst (ring_pop r)) = rb_tail r" "\<not> rb_full (fst (ring_pop r))"
    using pop inv succ_mod [of "rb_head r"] by (simp_all add: ring_inv_def)
  have len': "ring_len (fst (ring_pop r)) = length xs"
    using inv len unfolding ring_len_cases [OF inv] ring_len_cases [OF inv'] sel
    by (auto simp: ring_inv_def sel split: if_splits)
  show "ring_abs (fst (ring_pop r)) = xs"
  proof (rule nth_equalityI)
    fix i assume "i < length (ring_abs (fst (ring_pop r)))"
    then have i: "i < length xs" using len' by simp
    have "((rb_head r + 1) mod 256 + i) mod 256 = (rb_head r + Suc i) mod 256" by (simp add: mod_simps)
    then show "ring_abs (fst (ring_pop r)) ! i = xs ! i"
      using i len' nth [of "Suc i"] len ne pop by (simp add: ring_abs_def)
  qed (simp add: len')
qed

lemma ring_pop_empty: "ring_inv r \<Longrightarrow> ring_abs r = [] \<Longrightarrow> ring_pop r = (r, None)"
  using ring_len_tail [of r] length_ring_abs [of r] ring_len_full [of r]
  by (auto simp: ring_pop_def ring_inv_def)

interpretation ring: bounded_queue ring_new ring_push ring_pop ring_abs ring_inv 256
proof unfold_locales
  fix r :: "'a ring_buffer" and d x :: 'a and xs
  show "ring_inv (ring_new d)" "ring_abs (ring_new d) = []"
    by (simp_all add: ring_inv_def ring_new_def RING_BUFFER_SIZE_def ring_abs_def ring_len_def)
  assume inv: "ring_inv r"
  show "ring_inv (ring_push r x)"
    using ring_push_free(1) [OF inv] inv by (cases "rb_full r") (simp_all add: ring_push_def)
  show "ring_abs (ring_push r x) = (if length (ring_abs r) = 256 then ring_abs r else ring_abs r @ [x])"
    using ring_push_free(3) [OF inv] ring_len_full [OF inv] by (cases "rb_full r") (simp_all add: ring_push_def)
  show "ring_inv (fst (ring_pop r))"
    using ring_pop_some(1) [OF inv] ring_pop_empty [OF inv] inv by (cases "ring_abs r") auto
  show "snd (ring_pop r) = None \<longleftrightarrow> ring_abs r = []"
    using ring_pop_some(2) [OF inv] ring_pop_empty [OF inv] by (cases "ring_abs r") auto
  show "ring_abs (fst (ring_pop r)) = []" if "ring_abs r = []"
    using ring_pop_empty [OF inv that] that by simp
  show "snd (ring_pop r) = Some x \<and> ring_abs (fst (ring_pop r)) = xs" if "ring_abs r = x # xs"
    using ring_pop_some(2,3) [OF inv that] by simp
  show "length (ring_abs r) \<le> 256" by (simp add: ring_len_bound)
qed

end
