(* ===== verification/SpinLock.thy ===== *)
theory SpinLock
  imports Prelude
begin

text \<open>
  Interrupt masking (\<open>src/src/arch/aarch64/cpu.rs\<close>) and the spin lock (\<open>src/src/lib/lock.rs\<close>). The lock is a
  state machine whose steps are its atomic accesses, so any number of cores interleave at them.
\<close>

subsection \<open>Masking interrupts\<close>

text \<open>
  The DAIF register has the I mask in bit 7 and the F mask in bit 6. The \<open>asm!\<close> bodies are one
  instruction each: \<open>msr daifset, #2\<close> sets I, \<open>msr daifclr, #3\<close> clears I and F.
\<close>

type_synonym daif = u64

definition read_daif :: "daif \<Rightarrow> daif" where
  "read_daif d = d"

definition mask_irqs :: "daif \<Rightarrow> daif" where
  "mask_irqs d = d OR push_bit 7 1"

definition unmask_irqs :: "daif \<Rightarrow> daif" where
  "unmask_irqs d = d AND NOT (push_bit 6 3)"

definition restore_daif :: "daif \<Rightarrow> daif \<Rightarrow> daif" where
  "restore_daif d saved = saved"

definition stop_interrupts :: "daif \<Rightarrow> daif \<times> daif" where
  "stop_interrupts d = (let saved = read_daif d in (mask_irqs d, saved))"

definition restore_interrupts :: "daif \<Rightarrow> daif \<Rightarrow> daif" where
  "restore_interrupts d saved = restore_daif d saved"

text \<open>\<open>without_interrupts\<close>: the closure runs on the rest of the state and may change the register itself.\<close>

definition without_interrupts :: "(daif \<times> 's \<Rightarrow> (daif \<times> 's \<times> 'a) outcome) \<Rightarrow> daif \<times> 's \<Rightarrow> (daif \<times> 's \<times> 'a) outcome" where
  "without_interrupts f = (\<lambda>(d, s).
    case stop_interrupts d of (d1, saved) \<Rightarrow>
    obind (f (d1, s)) (\<lambda>(d2, s', result). Inr (restore_interrupts d2 saved, s', result)))"

definition irqs_masked :: "daif \<Rightarrow> bool" where
  "irqs_masked d = bit d 7"

lemma mask_irqs_masked [simp]: "irqs_masked (mask_irqs d)"
  by (simp add: irqs_masked_def mask_irqs_def bit_simps)

lemma mask_irqs_keeps: "i \<noteq> 7 \<Longrightarrow> bit (mask_irqs d) i \<longleftrightarrow> bit d i"
  by (auto simp only: mask_irqs_def bit_or_iff bit_push_bit_iff bit_1_iff)

lemma unmask_irqs_clear [simp]: "\<not> irqs_masked (unmask_irqs d)"
  by (simp add: irqs_masked_def unmask_irqs_def bit_and_iff bit_not_iff)

lemma stop_interrupts_eq [simp]: "stop_interrupts d = (mask_irqs d, d)"
  by (simp add: stop_interrupts_def read_daif_def)

lemma restore_interrupts_eq [simp]: "restore_interrupts d saved = saved"
  by (simp add: restore_interrupts_def restore_daif_def)

subsection \<open>The lock\<close>

definition MAX_LOCK_ATTEMPTS :: u32 where
  "MAX_LOCK_ATTEMPTS = push_bit 24 1"

text \<open>
  Where a core is in the code: outside; about to load the flag, or to exchange it, with the attempts so
  far and the saved DAIF; in \<open>try_lock\<close>; holding the guard; between the two halves of dropping it; or
  panicked after too many attempts.
\<close>

datatype lock_pc =
  Outside
| Loading u32 daif
| Exchanging u32 daif
| Trying daif
| Holding daif
| Dropping daif
| GaveUp

type_synonym core = "lock_pc \<times> daif"

text \<open>\<open>stop_interrupts\<close>, at the start of \<open>lock\<close> and of \<open>try_lock\<close>.\<close>

definition lock_enter :: "core \<Rightarrow> core" where
  "lock_enter c = (case stop_interrupts (snd c) of (d, saved) \<Rightarrow> (Loading 0 saved, d))"

definition try_lock_enter :: "core \<Rightarrow> core" where
  "try_lock_enter c = (case stop_interrupts (snd c) of (d, saved) \<Rightarrow> (Trying saved, d))"

text \<open>One atomic access of the loop of \<open>lock\<close>: a load that counts when the flag is set, or the exchange.\<close>

fun lock_access :: "bool \<Rightarrow> core \<Rightarrow> bool \<times> core" where
  "lock_access locked (Loading attempts saved, d) =
    (if locked
     then let n = attempts + 1
          in (locked, if MAX_LOCK_ATTEMPTS < n then GaveUp else Loading n saved, d)
     else (locked, Exchanging attempts saved, d))"
| "lock_access locked (Exchanging attempts saved, d) =
    (if locked then (locked, Loading (attempts + 1) saved, d) else (True, Holding saved, d))"
| "lock_access locked c = (locked, c)"

fun try_lock_access :: "bool \<Rightarrow> core \<Rightarrow> bool \<times> core" where
  "try_lock_access locked (Trying saved, d) =
    (if locked then (locked, Outside, restore_interrupts d saved) else (True, Holding saved, d))"
| "try_lock_access locked c = (locked, c)"

text \<open>The two statements of \<open>SpinLockGuard::drop\<close>.\<close>

fun guard_drop :: "bool \<Rightarrow> core \<Rightarrow> bool \<times> core" where
  "guard_drop locked (Holding saved, d) = (False, Dropping saved, d)"
| "guard_drop locked (Dropping saved, d) = (locked, Outside, restore_interrupts d saved)"
| "guard_drop locked c = (locked, c)"

record lock_state =
  lk_locked :: bool
  lk_cores :: "nat \<Rightarrow> core"

definition lock_new :: "(nat \<Rightarrow> daif) \<Rightarrow> lock_state" where
  "lock_new d = \<lparr>lk_locked = False, lk_cores = (\<lambda>t. (Outside, d t))\<rparr>"

definition step_core :: "nat \<Rightarrow> (bool \<Rightarrow> core \<Rightarrow> bool \<times> core) \<Rightarrow> lock_state \<Rightarrow> lock_state" where
  "step_core t f s = (case f (lk_locked s) (lk_cores s t) of (locked, c) \<Rightarrow>
    \<lparr>lk_locked = locked, lk_cores = (lk_cores s)(t := c)\<rparr>)"

inductive lock_step :: "lock_state \<Rightarrow> lock_state \<Rightarrow> bool" where
  Enter: "fst (lk_cores s t) = Outside \<Longrightarrow> lock_step s (step_core t (\<lambda>l c. (l, lock_enter c)) s)"
| Try_enter: "fst (lk_cores s t) = Outside \<Longrightarrow> lock_step s (step_core t (\<lambda>l c. (l, try_lock_enter c)) s)"
| Access: "lock_step s (step_core t lock_access s)"
| Try_access: "lock_step s (step_core t try_lock_access s)"
| Drop: "lock_step s (step_core t guard_drop s)"

inductive lock_reachable :: "(nat \<Rightarrow> daif) \<Rightarrow> lock_state \<Rightarrow> bool" for d :: "nat \<Rightarrow> daif" where
  new: "lock_reachable d (lock_new d)"
| more: "lock_reachable d s \<Longrightarrow> lock_step s s' \<Longrightarrow> lock_reachable d s'"

inductive_cases lock_stepE: "lock_step s s'"

subsection \<open>The invariant\<close>

fun saved_daif :: "lock_pc \<Rightarrow> daif option" where
  "saved_daif (Loading n saved) = Some saved"
| "saved_daif (Exchanging n saved) = Some saved"
| "saved_daif (Trying saved) = Some saved"
| "saved_daif (Holding saved) = Some saved"
| "saved_daif (Dropping saved) = Some saved"
| "saved_daif _ = None"

definition holds :: "lock_state \<Rightarrow> nat \<Rightarrow> bool" where
  "holds s t \<longleftrightarrow> (\<exists>saved. fst (lk_cores s t) = Holding saved)"

text \<open>What each core's register is: as it was outside, masked everywhere else.\<close>

definition core_ok :: "daif \<Rightarrow> core \<Rightarrow> bool" where
  "core_ok d0 c \<longleftrightarrow> (case fst c of
      Outside \<Rightarrow> snd c = d0
    | GaveUp \<Rightarrow> snd c = mask_irqs d0
    | pc \<Rightarrow> saved_daif pc = Some d0 \<and> snd c = mask_irqs d0)"

definition lock_inv :: "(nat \<Rightarrow> daif) \<Rightarrow> lock_state \<Rightarrow> bool" where
  "lock_inv d s \<longleftrightarrow> (\<forall>t. core_ok (d t) (lk_cores s t))
    \<and> (lk_locked s \<longleftrightarrow> (\<exists>t. holds s t)) \<and> (\<forall>t t'. holds s t \<and> holds s t' \<longrightarrow> t = t')"

text \<open>
  The shape every step of one core has: it keeps the core's register discipline, and the flag goes up
  only when it was down and the core comes to hold, and down only when the core held.
\<close>

definition core_step_ok :: "bool \<Rightarrow> core \<Rightarrow> bool \<Rightarrow> core \<Rightarrow> bool" where
  "core_step_ok l c l' c' \<longleftrightarrow>
    (let h = \<exists>saved. fst c = Holding saved; h' = \<exists>saved. fst c' = Holding saved
     in if h = h' then l' = l else if h' then \<not> l \<and> l' else \<not> l')"

lemma lock_access_ok:
  "core_ok d c \<Longrightarrow> lock_access l c = (l', c') \<Longrightarrow> core_ok d c' \<and> core_step_ok l c l' c'"
  by (induction l c rule: lock_access.induct) (auto simp: core_ok_def core_step_ok_def Let_def split: if_splits)

lemma try_lock_access_ok:
  "core_ok d c \<Longrightarrow> try_lock_access l c = (l', c') \<Longrightarrow> core_ok d c' \<and> core_step_ok l c l' c'"
  by (induction l c rule: try_lock_access.induct) (auto simp: core_ok_def core_step_ok_def Let_def split: if_splits)

lemma guard_drop_ok:
  "core_ok d c \<Longrightarrow> guard_drop l c = (l', c') \<Longrightarrow> core_ok d c' \<and> core_step_ok l c l' c'"
  by (induction l c rule: guard_drop.induct) (auto simp: core_ok_def core_step_ok_def Let_def)

lemma enter_ok:
  "fst c = Outside \<Longrightarrow> core_ok d c \<Longrightarrow> core_ok d (lock_enter c) \<and> core_step_ok l c l (lock_enter c)"
  "fst c = Outside \<Longrightarrow> core_ok d c \<Longrightarrow> core_ok d (try_lock_enter c) \<and> core_step_ok l c l (try_lock_enter c)"
  by (auto simp: core_ok_def core_step_ok_def lock_enter_def try_lock_enter_def Let_def)

lemma step_core_inv:
  assumes inv: "lock_inv d s"
    and ok: "\<And>l' c'. f (lk_locked s) (lk_cores s t) = (l', c') \<Longrightarrow>
      core_ok (d t) c' \<and> core_step_ok (lk_locked s) (lk_cores s t) l' c'"
  shows "lock_inv d (step_core t f s)"
proof -
  obtain l' c' where f: "f (lk_locked s) (lk_cores s t) = (l', c')" by (metis surj_pair)
  note k = ok [OF f]
  have h: "holds (step_core t f s) u \<longleftrightarrow> (if u = t then \<exists>saved. fst c' = Holding saved else holds s u)" for u
    by (simp add: holds_def step_core_def f)
  have l: "lk_locked (step_core t f s) = l'" by (simp add: step_core_def f)
  have ht: "holds s t \<longleftrightarrow> (\<exists>saved. fst (lk_cores s t) = Holding saved)" by (simp add: holds_def)
  have c: "core_ok (d u) (lk_cores (step_core t f s) u)" for u
  proof -
    have "lk_cores (step_core t f s) u = (if u = t then c' else lk_cores s u)" by (simp add: step_core_def f)
    then show ?thesis using inv k unfolding lock_inv_def by simp
  qed
  have uniq: "holds s u \<Longrightarrow> holds s u' \<Longrightarrow> u = u'" and lk: "lk_locked s \<longleftrightarrow> (\<exists>u. holds s u)" for u u'
    using inv unfolding lock_inv_def by blast+
  have k': "core_step_ok (lk_locked s) (lk_cores s t) l' c'" using k by blast
  consider (same) "holds s t \<longleftrightarrow> (\<exists>saved. fst c' = Holding saved)" "l' = lk_locked s"
    | (take) "\<not> holds s t" "\<exists>saved. fst c' = Holding saved" "\<not> lk_locked s" "l'"
    | (give) "holds s t" "\<not> (\<exists>saved. fst c' = Holding saved)" "\<not> l'"
    using k' unfolding core_step_ok_def Let_def ht [symmetric] by (auto split: if_splits)
  then show ?thesis
  proof cases
    case same
    then have "holds (step_core t f s) u \<longleftrightarrow> holds s u" for u using h by auto
    then show ?thesis using c l same(2) lk uniq unfolding lock_inv_def by blast
  next
    case take
    then have "\<not> holds s u" for u using lk by blast
    then have "holds (step_core t f s) u \<longleftrightarrow> u = t" for u using h take(2) by auto
    then show ?thesis using c l take(4) by (simp add: lock_inv_def)
  next
    case give
    have "\<not> holds (step_core t f s) u" for u using h give(1,2) uniq [of t u] by auto
    then show ?thesis using c l give(3) by (simp add: lock_inv_def)
  qed
qed

lemma lock_step_inv: "lock_step s s' \<Longrightarrow> lock_inv d s \<Longrightarrow> lock_inv d s'"
proof (induction rule: lock_step.induct)
  case (Enter s t)
  then show ?case by (intro step_core_inv) (auto simp: lock_inv_def intro: enter_ok [THEN conjunct1] enter_ok [THEN conjunct2])
next
  case (Try_enter s t)
  then show ?case by (intro step_core_inv) (auto simp: lock_inv_def intro: enter_ok [THEN conjunct1] enter_ok [THEN conjunct2])
next
  case (Access s t)
  then show ?case by (intro step_core_inv lock_access_ok) (auto simp: lock_inv_def)
next
  case (Try_access s t)
  then show ?case by (intro step_core_inv try_lock_access_ok) (auto simp: lock_inv_def)
next
  case (Drop s t)
  then show ?case by (intro step_core_inv guard_drop_ok) (auto simp: lock_inv_def)
qed

lemma lock_reachable_inv: "lock_reachable d s \<Longrightarrow> lock_inv d s"
proof (induction rule: lock_reachable.induct)
  case new
  then show ?case by (simp add: lock_inv_def lock_new_def holds_def core_ok_def)
next
  case (more s s')
  then show ?case using lock_step_inv by blast
qed

subsection \<open>Bounded spinning\<close>

lemma lock_spins:
  assumes "n \<le> 2 ^ 24"
  shows "((\<lambda>c. snd (lock_access True c)) ^^ n) (Loading 0 saved, d) = (Loading (of_nat n) saved, d)"
  using assms
proof (induction n)
  case (Suc n)
  have "unat (of_nat (Suc n) :: u32) = Suc n" using Suc.prems by (simp only: unat_of_nat) simp
  moreover have "unat (MAX_LOCK_ATTEMPTS) = 2 ^ 24" by (simp add: MAX_LOCK_ATTEMPTS_def)
  ultimately have "\<not> MAX_LOCK_ATTEMPTS < of_nat (Suc n)" using Suc.prems by (simp add: word_less_nat_alt)
  then show ?case using Suc by (simp add: Let_def add.commute)
qed simp

lemma lock_gives_up:
  "((\<lambda>c. snd (lock_access True c)) ^^ Suc (2 ^ 24)) (Loading 0 saved, d) = (GaveUp, d)"
proof -
  have "((\<lambda>c. snd (lock_access True c)) ^^ Suc (2 ^ 24)) (Loading 0 saved, d)
      = snd (lock_access True (Loading (of_nat (2 ^ 24)) saved, d))"
    using lock_spins [of "2 ^ 24" saved d] by (simp only: funpow.simps comp_apply le_refl)
  moreover have "MAX_LOCK_ATTEMPTS < of_nat (2 ^ 24) + 1" by (simp add: MAX_LOCK_ATTEMPTS_def word_less_nat_alt)
  ultimately show ?thesis by (simp add: Let_def)
qed

end
