(* ===== verification/Input.thy ===== *)
theory Input
  imports SchedCorrect RingBuffer SpinLock
begin

text \<open>
  Console input (\<open>src/src/tty/input.rs\<close>): the interrupt handler pushes characters into a ring buffer and
  wakes the wait queue, a task takes one or blocks. The invariant \<open>input_inv\<close> says a wakeup is never
  lost: no task is blocked while a character waits.
\<close>

record input_byte =
  ib_byte :: u8
  ib_error :: bool

definition input_byte_EMPTY :: input_byte where
  "input_byte_EMPTY = \<lparr>ib_byte = 0, ib_error = False\<rparr>"

text \<open>The two statics \<open>INPUT_BUFFER\<close> and \<open>INPUT_WAIT_QUEUE\<close>.\<close>

record tty_input =
  ti_buffer :: "input_byte ring_buffer"
  ti_queue :: wait_queue

definition tty_input_new :: tty_input where
  "tty_input_new = \<lparr>ti_buffer = ring_new input_byte_EMPTY, ti_queue = wait_queue_new\<rparr>"

text \<open>
  One turn of the loop of \<open>getc\<close>, which runs with interrupts masked: take a character, or stay blocked
  and give the core away. \<open>None\<close> sends the loop round again once the task is scheduled.
\<close>

definition getc_attempt :: "kernel \<Rightarrow> tty_input \<Rightarrow> (kernel \<times> tty_input \<times> input_byte option) outcome" where
  "getc_attempt k inp =
    obind (wq_prepare (ti_queue inp) (kn_sched k)) (\<lambda>(q1, s1).
    case ring_pop (ti_buffer inp) of (buffer, found) \<Rightarrow>
    (case found of
       Some b \<Rightarrow> obind (wq_finish q1 s1) (\<lambda>(q2, s2).
         Inr (k\<lparr>kn_sched := s2\<rparr>, \<lparr>ti_buffer = buffer, ti_queue = q2\<rparr>, Some b))
     | None \<Rightarrow> obind (schedule (k\<lparr>kn_sched := s1\<rparr>)) (\<lambda>(k', _).
         Inr (k', \<lparr>ti_buffer = buffer, ti_queue = q1\<rparr>, None))))"

definition push_character :: "input_byte \<Rightarrow> kernel \<Rightarrow> tty_input \<Rightarrow> (kernel \<times> tty_input) outcome" where
  "push_character b k inp =
    (let buffer = ring_push (ti_buffer inp) b in
     obind (wq_wake_all (ti_queue inp) (kn_sched k)) (\<lambda>(q, s, woke).
     Inr (k\<lparr>kn_sched := s, kn_resched := (kn_resched k \<or> woke)\<rparr>, \<lparr>ti_buffer = buffer, ti_queue = q\<rparr>)))"

subsection \<open>Who waits\<close>

definition in_state :: "task_state \<Rightarrow> scheduler \<Rightarrow> usize \<Rightarrow> bool" where
  "in_state st s i \<longleftrightarrow> map_option tk_state (sd_tasks s ! i) = Some st"

text \<open>The queue holds exactly the blocked tasks; the running task and the idle task are ready.\<close>

definition wait_exact :: "wait_queue \<Rightarrow> scheduler \<Rightarrow> bool" where
  "wait_exact q s \<longleftrightarrow> (\<forall>i. bit q i \<longleftrightarrow> i < 4 \<and> in_state Blocked s i)"

definition input_inv :: "scheduler \<Rightarrow> tty_input \<Rightarrow> bool" where
  "input_inv s inp \<longleftrightarrow> ring_inv (ti_buffer inp) \<and> wait_exact (ti_queue inp) s
    \<and> in_state Ready s (sd_current s) \<and> in_state Ready s IDLE_TASK_ID
    \<and> (ring_abs (ti_buffer inp) \<noteq> [] \<longrightarrow> ti_queue inp = 0)"

lemma dead_at_state: "dead_at s i = in_state Dead s i"
  by (auto simp: dead_at_def in_state_def)

lemma runnable_ready: "tasks_inv live s \<Longrightarrow> i < 4 \<Longrightarrow> runnable s i \<longleftrightarrow> in_state Ready s i \<and> i \<noteq> 1"
  by (cases "sd_tasks s ! i") (auto simp: tasks_inv_def runnable_def in_state_def IDLE_TASK_ID_def)

lemma turn_ready:
  assumes ti: "tasks_inv live s" and idle: "in_state Ready s 1"
  shows "in_state Ready s (turn s)" and "turn s < 4"
proof -
  have c: "sd_current s < 4" using ti by (simp add: tasks_inv_def)
  show "turn s < 4" by (rule turn_task(1) [OF ti])
  show "in_state Ready s (turn s)"
    using next_idx_Some(1,2) [OF c] runnable_ready [OF ti] idle by (auto simp: turn_def split: option.splits)
qed

lemma bit_slot: "bit (push_bit i (1 :: u32)) j \<longleftrightarrow> i = j \<and> j < 32"
  unfolding bit_push_bit_iff bit_1_iff by auto

lemma wait_slot_test: "i < 32 \<Longrightarrow> (w :: u32) AND push_bit i 1 \<noteq> 0 \<longleftrightarrow> bit w i"
proof -
  assume i: "i < 32"
  have "bit (w AND push_bit i 1) j \<longleftrightarrow> j = i \<and> bit w i" for j
    unfolding bit_and_iff bit_slot using i by auto
  then show ?thesis by (metis bit_0_eq bit_eq_iff bot_apply bot_bool_def)
qed

lemma table_update_eq:
  "i < length (sd_tasks s) \<Longrightarrow> sd_tasks s ! i = Some t \<Longrightarrow>
    table_update f s i = Inr (s\<lparr>sd_tasks := (sd_tasks s)[i := Some (f t)]\<rparr>)"
  by (simp add: table_update_def table_task_def table_get_def table_set_def)

subsection \<open>Waking\<close>

lemma wake_slots_ok:
  assumes "length (sd_tasks s) = 4" and "set is \<subseteq> {..<4}" and "distinct is"
    and "\<And>i. i \<in> set is \<Longrightarrow> bit w i \<Longrightarrow> sd_tasks s ! i \<noteq> None"
  shows "wake_slots is w s = Inr (s\<lparr>sd_tasks := map (\<lambda>i. if i \<in> set is \<and> bit w i
    then map_option (\<lambda>t. set_state t Ready) (sd_tasks s ! i) else sd_tasks s ! i) [0..<4]\<rparr>)"
  using assms
proof (induction "is" arbitrary: s)
  case Nil
  then have "map (\<lambda>i. sd_tasks s ! i) [0..<4] = sd_tasks s" by (metis map_nth)
  then show ?case by simp
next
  case (Cons i js)
  have i: "i < 4" "i \<notin> set js" using Cons.prems by auto
  show ?case
  proof (cases "bit w i")
    case False
    have "wake_slots js w s = Inr (s\<lparr>sd_tasks := map (\<lambda>j. if j \<in> set js \<and> bit w j
      then map_option (\<lambda>t. set_state t Ready) (sd_tasks s ! j) else sd_tasks s ! j) [0..<4]\<rparr>)"
      using Cons.prems by (intro Cons.IH) auto
    moreover have "\<not> w AND push_bit i 1 \<noteq> 0" using wait_slot_test [of i w] i False by simp
    ultimately show ?thesis using False by (auto intro!: arg_cong [where f = "\<lambda>x. s\<lparr>sd_tasks := x\<rparr>"] map_cong)
  next
    case True
    obtain t where t: "sd_tasks s ! i = Some t" using Cons.prems(4) [of i] True by auto
    let ?s = "s\<lparr>sd_tasks := (sd_tasks s)[i := Some (set_state t Ready)]\<rparr>"
    have slot: "sd_tasks ?s ! j = (if j = i then Some (set_state t Ready) else sd_tasks s ! j)" for j
      using i Cons.prems(1) by (simp add: nth_list_update)
    have IH: "wake_slots js w ?s = Inr (?s\<lparr>sd_tasks := map (\<lambda>j. if j \<in> set js \<and> bit w j
      then map_option (\<lambda>t. set_state t Ready) (sd_tasks ?s ! j) else sd_tasks ?s ! j) [0..<4]\<rparr>)"
    proof (rule Cons.IH)
      fix j assume "j \<in> set js" "bit w j"
      then show "sd_tasks ?s ! j \<noteq> None" unfolding slot using Cons.prems(4) [of j] by simp
    qed (use Cons.prems in auto)
    have eq: "map (\<lambda>j. if j \<in> set js \<and> bit w j then map_option (\<lambda>t. set_state t Ready) (sd_tasks ?s ! j) else sd_tasks ?s ! j) [0..<4]
      = map (\<lambda>j. if j \<in> set (i # js) \<and> bit w j then map_option (\<lambda>t. set_state t Ready) (sd_tasks s ! j) else sd_tasks s ! j) [0..<4]"
      by (rule map_cong [OF refl]) (use i t True in \<open>simp only: slot, auto\<close>)
    have "w AND push_bit i 1 \<noteq> 0" using wait_slot_test [of i w] i True by simp
    moreover have "table_update (\<lambda>t. set_state t Ready) s i = Inr ?s"
      by (rule table_update_eq) (use i t Cons.prems(1) in simp_all)
    ultimately show ?thesis unfolding wake_slots.simps using IH unfolding eq by simp
  qed
qed

lemma wake_slots_kernel:
  assumes "wake_slots is w s = Inr s'" and "set is \<subseteq> {..<4}" and "kernel_inv U live saved (k\<lparr>kn_sched := s\<rparr>)"
  shows "kernel_inv U live saved (k\<lparr>kn_sched := s'\<rparr>) \<and> sd_current s' = sd_current s"
  using assms
proof (induction "is" arbitrary: s)
  case (Cons i js)
  show ?case
  proof (cases "w AND push_bit i 1 \<noteq> 0")
    case False
    then show ?thesis using Cons by simp
  next
    case True
    then obtain s1 where s1: "table_update (\<lambda>t. set_state t Ready) s i = Inr s1" "wake_slots js w s1 = Inr s'"
      using Cons.prems(1) unfolding wake_slots.simps by (auto simp: obind_eq_Inr)
    then obtain t where t: "sd_tasks s ! i = Some t" and e: "s1 = s\<lparr>sd_tasks := (sd_tasks s)[i := Some (set_state t Ready)]\<rparr>"
      by (auto simp: table_update_def table_task_def table_get_def table_set_def obind_eq_Inr unwrap_def
          split: if_splits option.splits)
    have "kernel_inv U live saved (k\<lparr>kn_sched := s1\<rparr>)"
      using kernel_inv_task(1) [OF Cons.prems(3), of i t "set_state t Ready"] Cons.prems(2) t e
      by (simp add: set_state_def)
    then show ?thesis using Cons.IH [OF s1(2)] Cons.prems(2) e by simp
  qed
qed simp

lemma wq_wake_all_ok:
  assumes inv: "kernel_inv U live saved k" and exact: "wait_exact q (kn_sched k)"
  obtains s' woke where "wq_wake_all q (kn_sched k) = Inr (0, s', woke)" and "kernel_inv U live saved (k\<lparr>kn_sched := s'\<rparr>)"
    and "sd_current s' = sd_current (kn_sched k)" and "\<And>i. i < 4 \<Longrightarrow> \<not> in_state Blocked s' i"
    and "\<And>i. i < 4 \<Longrightarrow> in_state Blocked (kn_sched k) i \<Longrightarrow> in_state Ready s' i"
    and "\<And>i. i < 4 \<Longrightarrow> \<not> in_state Blocked (kn_sched k) i \<Longrightarrow> sd_tasks s' ! i = sd_tasks (kn_sched k) ! i"
    and "woke \<longleftrightarrow> (\<exists>i<4. in_state Blocked (kn_sched k) i)"
    and "\<And>i. i < 4 \<Longrightarrow> map_option tk_stack (sd_tasks s' ! i) = map_option tk_stack (sd_tasks (kn_sched k) ! i)"
proof (cases "q = 0")
  case True
  then have none: "\<not> in_state Blocked (kn_sched k) i" if "i < 4" for i using exact that by (auto simp: wait_exact_def)
  have "wq_wake_all q (kn_sched k) = Inr (0, kn_sched k, False)" using True by (simp add: wq_wake_all_def Let_def)
  then show thesis using that inv none by simp
next
  case False
  let ?s = "kn_sched k"
  let ?s' = "?s\<lparr>sd_tasks := map (\<lambda>i. if i \<in> set [0..<4] \<and> bit q i
    then map_option (\<lambda>t. set_state t Ready) (sd_tasks ?s ! i) else sd_tasks ?s ! i) [0..<4]\<rparr>"
  have len: "length (sd_tasks ?s) = 4" using inv by (simp add: kernel_inv_def tasks_inv_def)
  have w: "wake_slots [0..<4] q ?s = Inr ?s'"
  proof (rule wake_slots_ok [OF len])
    fix i assume "bit q i"
    then show "sd_tasks ?s ! i \<noteq> None" using exact by (auto simp: wait_exact_def in_state_def)
  qed auto
  have k: "kernel_inv U live saved (k\<lparr>kn_sched := ?s\<rparr>)" using inv by simp
  have "\<forall>i\<in>set [0..<4]. i < 4" by simp
  then have sub: "set [0..<4] \<subseteq> {..<4::nat}" by blast
  have slot: "sd_tasks ?s' ! i = (if bit q i then map_option (\<lambda>t. set_state t Ready) (sd_tasks ?s ! i) else sd_tasks ?s ! i)"
    if "i < 4" for i using that by simp
  have bq: "bit q i \<longleftrightarrow> in_state Blocked ?s i" if "i < 4" for i using exact that by (simp add: wait_exact_def)
  have woke: "\<exists>i<4. in_state Blocked ?s i"
  proof (rule ccontr)
    assume "\<not> ?thesis"
    then have "\<not> bit q i" for i using exact by (auto simp: wait_exact_def)
    then have "q = 0" by (simp add: bit_eq_iff)
    then show False using False by simp
  qed
  show thesis
  proof (rule that [of ?s' True])
    show "wq_wake_all q ?s = Inr (0, ?s', True)"
      using False w by (simp add: wq_wake_all_def TASKS_COUNT_def Let_def del: upt_rec_numeral)
    show "kernel_inv U live saved (k\<lparr>kn_sched := ?s'\<rparr>)" using wake_slots_kernel [OF w sub k] by simp
    show "\<not> in_state Blocked ?s' i" if "i < 4" for i
    proof (cases "bit q i")
      case True
      then show ?thesis unfolding in_state_def slot [OF that] by (cases "sd_tasks ?s ! i") (simp_all add: set_state_def)
    next
      case False
      then have "sd_tasks ?s' ! i = sd_tasks ?s ! i" using slot [OF that] by simp
      then show ?thesis using bq [OF that] False by (simp add: in_state_def)
    qed
    show "in_state Ready ?s' i" if "i < 4" "in_state Blocked ?s i" for i
      using bq [OF that(1)] that unfolding in_state_def slot [OF that(1)] by (cases "sd_tasks ?s ! i") (simp_all add: set_state_def)
    show "sd_tasks ?s' ! i = sd_tasks ?s ! i" if "i < 4" "\<not> in_state Blocked ?s i" for i
      unfolding slot [OF that(1)] using bq [OF that(1)] that(2) by simp
    show "map_option tk_stack (sd_tasks ?s' ! i) = map_option tk_stack (sd_tasks ?s ! i)" if "i < 4" for i
      unfolding slot [OF that] by (simp add: option.map_comp comp_def set_state_def)
  qed (use woke in simp_all)
qed

lemma push_character_ok:
  assumes inv: "kernel_inv U live saved k" and inp: "input_inv (kn_sched k) inp"
  obtains k' inp' where "push_character b k inp = Inr (k', inp')" and "kernel_inv U live saved k'"
    and "input_inv (kn_sched k') inp'" and "\<And>i. \<not> in_state Blocked (kn_sched k') i \<or> 4 \<le> i"
    and "\<And>i. i < 4 \<Longrightarrow> in_state Blocked (kn_sched k) i \<Longrightarrow> in_state Ready (kn_sched k') i \<and> kn_resched k'"
    and "ring_abs (ti_buffer inp') = (if length (ring_abs (ti_buffer inp)) = 256 then ring_abs (ti_buffer inp)
      else ring_abs (ti_buffer inp) @ [b])"
    and "keeps live k live k'"
proof -
  have exact: "wait_exact (ti_queue inp) (kn_sched k)" and ri: "ring_inv (ti_buffer inp)" using inp by (simp_all add: input_inv_def)
  have ti: "tasks_inv live (kn_sched k)" using inv unfolding kernel_inv_def by blast
  obtain s' woke where w: "wq_wake_all (ti_queue inp) (kn_sched k) = Inr (0, s', woke)" and i': "kernel_inv U live saved (k\<lparr>kn_sched := s'\<rparr>)"
    and cur: "sd_current s' = sd_current (kn_sched k)" and nb: "\<And>i. i < 4 \<Longrightarrow> \<not> in_state Blocked s' i"
    and rdy: "\<And>i. i < 4 \<Longrightarrow> in_state Blocked (kn_sched k) i \<Longrightarrow> in_state Ready s' i"
    and same: "\<And>i. i < 4 \<Longrightarrow> \<not> in_state Blocked (kn_sched k) i \<Longrightarrow> sd_tasks s' ! i = sd_tasks (kn_sched k) ! i"
    and woke: "woke \<longleftrightarrow> (\<exists>i<4. in_state Blocked (kn_sched k) i)"
    and stacks: "\<And>i. i < 4 \<Longrightarrow> map_option tk_stack (sd_tasks s' ! i) = map_option tk_stack (sd_tasks (kn_sched k) ! i)"
    by (rule wq_wake_all_ok [OF inv exact]) blast
  let ?k' = "k\<lparr>kn_sched := s', kn_resched := (kn_resched k \<or> woke)\<rparr>" and ?inp' = "\<lparr>ti_buffer = ring_push (ti_buffer inp) b, ti_queue = 0\<rparr>"
  have stay: "in_state Ready s' i" if "i < 4" "in_state Ready (kn_sched k) i" for i
  proof -
    have "\<not> in_state Blocked (kn_sched k) i" using that(2) by (auto simp: in_state_def)
    then show ?thesis using same [OF that(1)] that(2) by (simp add: in_state_def)
  qed
  have "in_state Ready s' (sd_current s')" "in_state Ready s' IDLE_TASK_ID"
    using stay inp cur ti by (auto simp: input_inv_def tasks_inv_def IDLE_TASK_ID_def)
  then have "input_inv (kn_sched ?k') ?inp'"
    using nb ring.push_inv [OF ri, of b] by (auto simp: input_inv_def wait_exact_def)
  moreover have "kernel_inv U live saved ?k'"
    using kernel_inv_resched [of U live saved "kn_resched k \<or> woke" "k\<lparr>kn_sched := s'\<rparr>"] i' by simp
  moreover have "push_character b k inp = Inr (?k', ?inp')" using w by (simp add: push_character_def Let_def)
  moreover have "\<not> in_state Blocked (kn_sched ?k') i \<or> 4 \<le> i" for i using nb [of i] by (cases "i < 4") simp_all
  moreover have "in_state Ready (kn_sched ?k') i \<and> kn_resched ?k'" if "i < 4" "in_state Blocked (kn_sched k) i" for i
    using rdy [OF that] woke that by auto
  moreover note ring.push_abs [OF ri, of b]
  moreover have "keeps live k live ?k'" by (rule keeps_same_stacks) (simp_all add: stacks)
  ultimately show thesis using that [of ?k' ?inp'] by simp
qed

subsection \<open>Taking a character\<close>

lemma schedule_states:
  assumes states: "\<And>j. j < 4 \<Longrightarrow> \<not> dead_at s j \<or> j = sd_current s \<Longrightarrow>
      map_option tk_state (sd_tasks s' ! j) = map_option tk_state (sd_tasks s ! j)"
    and gone: "\<And>j. j < 4 \<Longrightarrow> dead_at s j \<Longrightarrow> j \<noteq> sd_current s \<Longrightarrow> sd_tasks s' ! j = None"
    and j: "j < 4" and st: "st \<noteq> Dead"
  shows "in_state st s' j = in_state st s j"
proof (cases "dead_at s j \<and> j \<noteq> sd_current s")
  case True
  then show ?thesis using gone [OF j] st by (auto simp: in_state_def dead_at_def)
next
  case False
  then show ?thesis using states [OF j] by (simp add: in_state_def)
qed

lemma getc_attempt_ok:
  assumes inv: "kernel_inv U live saved k" and run: "running_ok U k" and inp: "input_inv (kn_sched k) inp"
    and notidle: "sd_current (kn_sched k) \<noteq> IDLE_TASK_ID"
  obtains (taken) b buffer where "getc_attempt k inp = Inr (k, \<lparr>ti_buffer = buffer, ti_queue = ti_queue inp\<rparr>, Some b)"
      and "ring_abs (ti_buffer inp) = b # ring_abs buffer"
      and "input_inv (kn_sched k) \<lparr>ti_buffer = buffer, ti_queue = ti_queue inp\<rparr>"
  | (waits) k' q live' where "getc_attempt k inp = Inr (k', \<lparr>ti_buffer = ti_buffer inp, ti_queue = q\<rparr>, None)"
      and "ring_abs (ti_buffer inp) = []" and "kernel_inv U live' (saved(sd_current (kn_sched k) := kn_regs k)) k'"
      and "input_inv (kn_sched k') \<lparr>ti_buffer = ti_buffer inp, ti_queue = q\<rparr>"
      and "in_state Blocked (kn_sched k') (sd_current (kn_sched k))" and "sd_current (kn_sched k') \<noteq> sd_current (kn_sched k)"
      and "keeps live k live' k'"
proof -
  let ?s = "kn_sched k" and ?c = "sd_current (kn_sched k)" and ?q = "ti_queue inp"
  have ti: "tasks_inv live ?s" using inv unfolding kernel_inv_def by blast
  have c: "?c < 4" "length (sd_tasks ?s) = 4" using ti by (simp_all add: tasks_inv_def)
  have exact: "wait_exact ?q ?s" and ri: "ring_inv (ti_buffer inp)" and rc: "in_state Ready ?s ?c"
    and ridle: "in_state Ready ?s 1" and free: "ring_abs (ti_buffer inp) \<noteq> [] \<longrightarrow> ?q = 0"
    using inp by (simp_all add: input_inv_def IDLE_TASK_ID_def)
  obtain t where t: "sd_tasks ?s ! ?c = Some t" "tk_state t = Ready" using rc by (auto simp: in_state_def)
  let ?s1 = "?s\<lparr>sd_tasks := (sd_tasks ?s)[?c := Some (set_state t Blocked)]\<rparr>" and ?q1 = "?q OR push_bit ?c 1"
  have prep: "wq_prepare ?q ?s = Inr (?q1, ?s1)"
    using table_update_eq [of ?c ?s t] c t by (simp add: wq_prepare_def Let_def)
  have bq: "bit ?q1 i \<longleftrightarrow> bit ?q i \<or> i = ?c" for i
    unfolding bit_or_iff bit_slot using c(1) by auto
  have nc: "\<not> bit ?q ?c" using exact t by (simp add: wait_exact_def in_state_def)
  show thesis
  proof (cases "ring_abs (ti_buffer inp)")
    case (Cons b bs)
    note p = ring.pop_some [OF ri Cons] and pi = ring.pop_inv [OF ri]
    obtain buffer where pop: "ring_pop (ti_buffer inp) = (buffer, Some b)" "ring_abs buffer = bs" "ring_inv buffer"
      using p pi by (cases "ring_pop (ti_buffer inp)") simp
    have "set_state (set_state t Blocked) Ready = t" using t(2) by (simp add: set_state_def)
    then have restored: "?s1\<lparr>sd_tasks := (sd_tasks ?s1)[?c := Some (set_state (set_state t Blocked) Ready)]\<rparr> = ?s"
      using t(1) by (simp add: list_update_same_conv c)
    have "?q1 AND NOT (push_bit ?c 1) = ?q"
      by (rule bit_word_eqI) (use nc c(1) in \<open>auto simp only: bit_and_iff bit_not_iff bit_or_iff bit_slot possible_bit_word\<close>)
    then have fin: "wq_finish ?q1 ?s1 = Inr (?q, ?s)"
      using table_update_eq [of ?c ?s1 "set_state t Blocked" "\<lambda>t. set_state t Ready"] c restored
      by (simp add: wq_finish_def Let_def)
    have "getc_attempt k inp = Inr (k, \<lparr>ti_buffer = buffer, ti_queue = ?q\<rparr>, Some b)"
      using prep pop fin by (simp add: getc_attempt_def)
    moreover have "input_inv ?s \<lparr>ti_buffer = buffer, ti_queue = ?q\<rparr>"
      using pop exact rc ridle free Cons by (simp add: input_inv_def IDLE_TASK_ID_def)
    ultimately show thesis using taken pop(2) Cons by simp
  next
    case Nil
    have pop: "ring_pop (ti_buffer inp) = (ti_buffer inp, None)" by (rule ring_pop_empty [OF ri Nil])
    let ?k1 = "k\<lparr>kn_sched := ?s\<lparr>sd_tasks := (sd_tasks ?s)[?c := Some (set_state t Blocked)]\<rparr>\<rparr>"
    note k1 = kernel_inv_task [OF inv c(1) t(1), of "set_state t Blocked"]
    have i1: "kernel_inv U live saved ?k1" and r1: "running_ok U ?k1" and kp1: "keeps live k live ?k1"
      using k1 run by (simp_all add: set_state_def)
    have slot: "sd_tasks ?s1 ! j = (if j = ?c then Some (set_state t Blocked) else sd_tasks ?s ! j)" for j
      using c by (simp add: nth_list_update)
    have ti1: "tasks_inv live ?s1" using i1 unfolding kernel_inv_def by simp
    have c1: "?c \<noteq> 1" using notidle by (simp add: IDLE_TASK_ID_def)
    have st1: "in_state st ?s1 j \<longleftrightarrow> (if j = ?c then st = Blocked else in_state st ?s j)" for st j
      unfolding in_state_def slot by (auto simp: set_state_def)
    have idle1: "in_state Ready ?s1 1" unfolding st1 using c1 ridle by simp
    note tr = turn_ready [OF ti1 idle1]
    have nt: "turn ?s1 \<noteq> ?c" using tr(1) unfolding st1 by auto
    obtain k' sw live' where a: "schedule ?k1 = Inr (k', sw)"
      and i': "kernel_inv U live' (if sw then saved(sd_current (kn_sched ?k1) := kn_regs ?k1) else saved) k'"
      and cur: "sd_current (kn_sched k') = turn (kn_sched ?k1)" and sw: "sw \<longleftrightarrow> turn (kn_sched ?k1) \<noteq> sd_current (kn_sched ?k1)"
      and gone: "\<And>j. j < 4 \<Longrightarrow> dead_at (kn_sched ?k1) j \<Longrightarrow> j \<noteq> sd_current (kn_sched ?k1) \<Longrightarrow> sd_tasks (kn_sched k') ! j = None"
      and states: "\<And>j. j < 4 \<Longrightarrow> \<not> dead_at (kn_sched ?k1) j \<or> j = sd_current (kn_sched ?k1) \<Longrightarrow>
        map_option tk_state (sd_tasks (kn_sched k') ! j) = map_option tk_state (sd_tasks (kn_sched ?k1) ! j)"
      and kp2: "keeps live ?k1 live' k'"
      by (rule schedule_ok [OF i1 r1]) blast
    have st': "in_state st (kn_sched k') j \<longleftrightarrow> in_state st ?s1 j" if "j < 4" "st \<noteq> Dead" for st j
      using schedule_states [OF states gone that] by simp
    have sw: sw using sw nt by simp
    have "getc_attempt k inp = Inr (k', \<lparr>ti_buffer = ti_buffer inp, ti_queue = ?q1\<rparr>, None)"
      using prep pop a by (simp add: getc_attempt_def)
    moreover have "wait_exact ?q1 (kn_sched k')"
      unfolding wait_exact_def bq using st' exact c(1) unfolding st1 wait_exact_def by auto
    then have "input_inv (kn_sched k') \<lparr>ti_buffer = ti_buffer inp, ti_queue = ?q1\<rparr>"
      using ri Nil st' [OF tr(2)] tr(1) st' [of 1 Ready] idle1 cur by (simp add: input_inv_def IDLE_TASK_ID_def)
    moreover have "in_state Blocked (kn_sched k') ?c" using st' [OF c(1)] unfolding st1 by simp
    ultimately show thesis using waits [of k' ?q1 live'] Nil i' sw cur nt keeps_trans [OF kp1 kp2] by simp
  qed
qed

end
