(* ===== verification/KernelRuns.thy ===== *)
theory KernelRuns
  imports Input
begin

text \<open>
  The running kernel: tasks compute on their own stacks, call the scheduler, read characters, start and
  end, while timer and input interrupts come in between any two steps. Every reachable state satisfies
  the invariants of the scheduler and of the input queue.
\<close>

type_synonym system = "kernel \<times> tty_input"

text \<open>The memory a running task may write by itself: its stack, or for the boot task what is not the heap's.\<close>

definition own_area :: "pfn set \<Rightarrow> kernel \<Rightarrow> usize set" where
  "own_area U k = (case sd_tasks (kn_sched k) ! sd_current (kn_sched k) of
      None \<Rightarrow> {}
    | Some t \<Rightarrow> (case tk_stack t of
        Some c \<Rightarrow> range_of (cs_base c) 16384
      | None \<Rightarrow> - (bytes_of U \<union> meta_bytes (hp_pages (kn_heap k)))))"

inductive kernel_step :: "pfn set \<Rightarrow> system \<Rightarrow> system \<Rightarrow> bool" for U :: "pfn set" where
  Compute: "same_on (- own_area U k) (kn_mem k) m' \<Longrightarrow>
    kernel_step U (k, inp) (k\<lparr>kn_mem := m', kn_regs := rg\<rparr>, inp)"
| Getc: "running_ok U k \<Longrightarrow> sd_current (kn_sched k) \<noteq> IDLE_TASK_ID \<Longrightarrow> getc_attempt k inp = Inr (k', inp', r) \<Longrightarrow>
    kernel_step U (k, inp) (k', inp')"
| Character: "push_character b k inp = Inr (k', inp') \<Longrightarrow> kernel_step U (k, inp) (k', inp')"
| Timer: "sched_tick k = Inr k' \<Longrightarrow> kernel_step U (k, inp) (k', inp)"
| Preempt: "running_ok U k \<Longrightarrow> preempt k = Inr (k', sw) \<Longrightarrow> kernel_step U (k, inp) (k', inp)"
| Yield: "running_ok U k \<Longrightarrow> schedule k = Inr (k', sw) \<Longrightarrow> kernel_step U (k, inp) (k', inp)"
| Spawn: "entry < usize_limit \<Longrightarrow> trampoline < usize_limit \<Longrightarrow> spawn trampoline entry k = Inr (k', r) \<Longrightarrow>
    kernel_step U (k, inp) (k', inp)"
| Exit: "running_ok U k \<Longrightarrow> sd_current (kn_sched k) \<noteq> IDLE_TASK_ID \<Longrightarrow> task_exit k = Inr k' \<Longrightarrow>
    kernel_step U (k, inp) (k', inp)"

inductive kernel_runs :: "pfn set \<Rightarrow> system \<Rightarrow> system \<Rightarrow> bool" for U :: "pfn set" and s :: system where
  start: "kernel_runs U s s"
| run_step: "kernel_runs U s s' \<Longrightarrow> kernel_step U s' s'' \<Longrightarrow> kernel_runs U s s''"

definition system_ok :: "pfn set \<Rightarrow> system \<Rightarrow> bool" where
  "system_ok U s \<longleftrightarrow> (\<exists>live saved. kernel_inv U live saved (fst s)) \<and> input_inv (kn_sched (fst s)) (snd s)"

subsection \<open>Each step\<close>

lemma compute_ok:
  assumes inv: "kernel_inv U live saved k" and s: "same_on (- own_area U k) (kn_mem k) m'"
  shows "kernel_inv U live saved (k\<lparr>kn_mem := m', kn_regs := rg\<rparr>)" and "keeps live k live (k\<lparr>kn_mem := m', kn_regs := rg\<rparr>)"
proof -
  let ?s = "kn_sched k" and ?c = "sd_current (kn_sched k)"
  obtain F where h: "heap_inv (kn_mem k) (kn_heap k) U F live" and ti: "tasks_inv live ?s"
    using inv unfolding kernel_inv_def by blast
  have c: "?c < 4" using ti by (simp add: tasks_inv_def)
  obtain t where t: "sd_tasks ?s ! ?c = Some t" using ti by (auto simp: tasks_inv_def)
  have sl: "stack_live live t" using ti c t unfolding tasks_inv_def by blast
  have own: "own_area U k = (case tk_stack t of Some d \<Rightarrow> range_of (cs_base d) 16384
      | None \<Rightarrow> - (bytes_of U \<union> meta_bytes (hp_pages (kn_heap k))))"
    by (simp add: own_area_def t)
  have "bytes_of U \<union> meta_bytes (hp_pages (kn_heap k)) - live_area live \<subseteq> - own_area U k"
  proof (cases "tk_stack t")
    case None
    then show ?thesis unfolding own by auto
  next
    case (Some d)
    then show ?thesis unfolding own using stack_area(1) [OF h sl Some] by auto
  qed
  then have "heap_inv m' (kn_heap k) U F live" by (intro heap_inv_outside [OF h] same_on_subset [OF s])
  moreover have "parked m' u (saved j)" if j: "j < 4" "j \<noteq> ?c" "sd_tasks ?s ! j = Some u" for j u
  proof (rule parked_same_on)
    show "parked (kn_mem k) u (saved j)" using inv j unfolding kernel_inv_def by blast
    have su: "stack_live live u" using ti j unfolding tasks_inv_def by blast
    fix d assume d: "tk_stack u = Some d"
    have "range_of (cs_base d) 16384 \<subseteq> - own_area U k"
    proof (cases "tk_stack t")
      case None
      then show ?thesis unfolding own using stack_area(2) [OF h su d] by auto
    next
      case (Some e)
      have "stack_base t = Some b \<Longrightarrow> stack_base u \<noteq> Some b" for b using ti c t j unfolding tasks_inv_def by metis
      then have "cs_base e \<noteq> cs_base d" using Some d by (auto simp: stack_base_def)
      then have "range_of (cs_base e) 16384 \<inter> range_of (cs_base d) 16384 = {}"
        by (rule stack_areas_disjoint [OF h sl Some su d])
      then show ?thesis unfolding own Some by auto
    qed
    then show "same_on (range_of (cs_base d) 16384) (kn_mem k) m'" by (rule same_on_subset [OF s])
  qed
  ultimately show "kernel_inv U live saved (k\<lparr>kn_mem := m', kn_regs := rg\<rparr>)" using inv unfolding kernel_inv_def by auto
  have "same_on (live_area keep) (kn_mem k) m'" if kp: "kept keep live ?s" for keep
  proof (rule same_on_subset [OF s])
    show "live_area keep \<subseteq> - own_area U k"
    proof (cases "tk_stack t")
      case None
      then show ?thesis unfolding own using live_area_pages [OF h] live_area_mono kp unfolding kept_def by auto
    next
      case (Some d)
      then show ?thesis unfolding own using kept_apart [OF h kp c t Some sl] by auto
    qed
  qed
  then show "keeps live k live (k\<lparr>kn_mem := m', kn_regs := rg\<rparr>)" by (intro keepsI) auto
qed

lemma schedule_input:
  assumes inv: "kernel_inv U live saved k" and run: "running_ok U k" and inp: "input_inv (kn_sched k) inp"
  obtains k' sw live' saved' where "schedule k = Inr (k', sw)" and "kernel_inv U live' saved' k'"
    and "input_inv (kn_sched k') inp" and "keeps live k live' k'"
proof -
  let ?s = "kn_sched k"
  obtain k' sw live' where a: "schedule k = Inr (k', sw)"
    and i': "kernel_inv U live' (if sw then saved(sd_current ?s := kn_regs k) else saved) k'"
    and cur: "sd_current (kn_sched k') = turn ?s"
    and gone: "\<And>j. j < 4 \<Longrightarrow> dead_at ?s j \<Longrightarrow> j \<noteq> sd_current ?s \<Longrightarrow> sd_tasks (kn_sched k') ! j = None"
    and states: "\<And>j. j < 4 \<Longrightarrow> \<not> dead_at ?s j \<or> j = sd_current ?s \<Longrightarrow>
      map_option tk_state (sd_tasks (kn_sched k') ! j) = map_option tk_state (sd_tasks ?s ! j)"
    and kp: "keeps live k live' k'"
    by (rule schedule_ok [OF inv run]) blast
  have ti: "tasks_inv live ?s" using inv unfolding kernel_inv_def by blast
  have idle: "in_state Ready ?s 1" using inp by (simp add: input_inv_def IDLE_TASK_ID_def)
  note tr = turn_ready [OF ti idle]
  have st: "in_state st (kn_sched k') j \<longleftrightarrow> in_state st ?s j" if "j < 4" "st \<noteq> Dead" for st j
    using schedule_states [OF states gone that] by simp
  have "wait_exact (ti_queue inp) (kn_sched k')"
    using inp st unfolding input_inv_def wait_exact_def by auto
  then have "input_inv (kn_sched k') inp"
    using inp st [OF tr(2)] tr(1) st [of 1 Ready] idle cur by (simp add: input_inv_def IDLE_TASK_ID_def)
  then show thesis using that a i' kp by blast
qed

lemma preempt_input:
  assumes inv: "kernel_inv U live saved k" and run: "running_ok U k" and inp: "input_inv (kn_sched k) inp"
  obtains k' sw live' saved' where "preempt k = Inr (k', sw)" and "kernel_inv U live' saved' k'"
    and "input_inv (kn_sched k') inp" and "keeps live k live' k'"
proof (cases "kn_resched k")
  case False
  then have "preempt k = Inr (k, False)" by (simp add: preempt_def)
  then show thesis using that inv inp keeps_refl by blast
next
  case True
  have "kernel_inv U live saved (k\<lparr>kn_resched := False\<rparr>)" "running_ok U (k\<lparr>kn_resched := False\<rparr>)"
    using inv run by (simp_all add: kernel_inv_resched running_ok_resched)
  then show thesis
  proof (rule schedule_input)
    show "input_inv (kn_sched (k\<lparr>kn_resched := False\<rparr>)) inp" using inp by simp
  qed (use that True in \<open>simp add: preempt_def keeps_def\<close>)
qed

lemma sched_tick_ok:
  assumes inv: "kernel_inv U live saved k" and inp: "input_inv (kn_sched k) inp"
  obtains k' where "sched_tick k = Inr k'" and "kernel_inv U live saved k'" and "input_inv (kn_sched k') inp"
    and "keeps live k live k'"
proof -
  let ?s = "kn_sched k" and ?c = "sd_current (kn_sched k)"
  have ti: "tasks_inv live ?s" using inv unfolding kernel_inv_def by blast
  have c: "?c < 4" "length (sd_tasks ?s) = 4" using ti by (simp_all add: tasks_inv_def)
  obtain t where t: "sd_tasks ?s ! ?c = Some t" using ti by (auto simp: tasks_inv_def)
  let ?s' = "?s\<lparr>sd_tasks := (sd_tasks ?s)[?c := Some (task_tick t)]\<rparr>"
  have "?c = 1 \<longrightarrow> tk_state (task_tick t) \<noteq> Dead"
    using ti t by (auto simp: task_tick_def tasks_inv_def dead_at_def)
  then have "kernel_inv U live saved (k\<lparr>kn_sched := ?s'\<rparr>)"
    by (intro kernel_inv_task(1) [OF inv c(1) t]) (simp_all add: task_tick_def)
  then have i': "kernel_inv U live saved (k\<lparr>kn_resched := True, kn_sched := ?s'\<rparr>)" by (simp add: kernel_inv_def)
  have "in_state st ?s' j \<longleftrightarrow> in_state st ?s j" for st j
    using c t by (cases "j = ?c") (simp_all add: in_state_def task_tick_def)
  then have "input_inv ?s' inp" using inp by (simp add: input_inv_def wait_exact_def)
  moreover have "sched_tick k = Inr (k\<lparr>kn_resched := True, kn_sched := ?s'\<rparr>)"
    using table_update_eq [of ?c ?s t task_tick] c t by (simp add: sched_tick_def)
  moreover have "map_option tk_stack (sd_tasks ?s' ! j) = map_option tk_stack (sd_tasks ?s ! j)" for j
    using c t by (cases "j = ?c") (simp_all add: task_tick_def)
  then have "keeps live k live (k\<lparr>kn_resched := True, kn_sched := ?s'\<rparr>)" by (intro keeps_same_stacks) simp_all
  ultimately show thesis using that i' by simp
qed

lemma spawn_input:
  assumes inv: "kernel_inv U live saved k" and inp: "input_inv (kn_sched k) inp"
    and vals: "entry < usize_limit" "trampoline < usize_limit"
  obtains k' r live' saved' where "spawn trampoline entry k = Inr (k', r)" and "kernel_inv U live' saved' k'"
    and "input_inv (kn_sched k') inp" and "keeps live k live' k'"
proof (rule spawn_ok [OF inv vals])
  fix k' i c t
  assume a: "spawn trampoline entry k = Inr (k', Inr ())" and i: "i < 4" "sd_tasks (kn_sched k) ! i = None"
    and s: "kn_sched k' = kn_sched k\<lparr>sd_tasks := (sd_tasks (kn_sched k))[i := Some t]\<rparr>" and t: "tk_state t = Ready"
    and i': "kernel_inv U (live(cs_base c \<mapsto> CONTEXT_STACK_LAYOUT)) (saved(i := fresh_regs trampoline entry c)) k'"
    and kp: "keeps live k (live(cs_base c \<mapsto> CONTEXT_STACK_LAYOUT)) k'"
  have len: "length (sd_tasks (kn_sched k)) = 4" using inv by (simp add: kernel_inv_def tasks_inv_def)
  have st: "in_state st (kn_sched k') j \<longleftrightarrow> (if j = i then st = Ready else in_state st (kn_sched k) j)" for st j
    unfolding in_state_def s using i len t by (auto simp: nth_list_update)
  have "in_state Ready (kn_sched k') (sd_current (kn_sched k'))" "in_state Ready (kn_sched k') IDLE_TASK_ID"
    using inp s unfolding st by (simp_all add: input_inv_def)
  moreover have "wait_exact (ti_queue inp) (kn_sched k')"
    using inp i(2) unfolding wait_exact_def st input_inv_def by (auto simp: in_state_def wait_exact_def)
  ultimately have "input_inv (kn_sched k') inp" using inp by (simp add: input_inv_def)
  then show thesis using that a i' kp by blast
qed (use that inv inp keeps_refl in blast)+

lemma task_exit_input:
  assumes inv: "kernel_inv U live saved k" and run: "running_ok U k" and inp: "input_inv (kn_sched k) inp"
    and notidle: "sd_current (kn_sched k) \<noteq> IDLE_TASK_ID"
  obtains k' live' saved' where "task_exit k = Inr k'" and "kernel_inv U live' saved' k'" and "input_inv (kn_sched k') inp"
    and "sd_current (kn_sched k') \<noteq> sd_current (kn_sched k)" and "in_state Dead (kn_sched k') (sd_current (kn_sched k))"
    and "keeps live k live' k'"
proof -
  let ?s = "kn_sched k" and ?c = "sd_current (kn_sched k)"
  let ?s1 = "?s\<lparr>sd_tasks := (sd_tasks ?s)[?c := map_option (\<lambda>t. set_state t Dead) (sd_tasks ?s ! ?c)]\<rparr>"
  obtain k' live' where a: "task_exit k = Inr k'" and ne: "sd_current (kn_sched k') \<noteq> ?c"
    and i': "kernel_inv U live' (saved(?c := kn_regs k)) k'" and cur: "sd_current (kn_sched k') = turn ?s1"
    and states: "\<And>j. j < 4 \<Longrightarrow> j \<noteq> ?c \<Longrightarrow> \<not> dead_at ?s j \<Longrightarrow>
      map_option tk_state (sd_tasks (kn_sched k') ! j) = map_option tk_state (sd_tasks ?s ! j)"
    and dead: "map_option tk_state (sd_tasks (kn_sched k') ! ?c) = Some Dead"
    and gone: "\<And>j. j < 4 \<Longrightarrow> j \<noteq> ?c \<Longrightarrow> dead_at ?s j \<Longrightarrow> sd_tasks (kn_sched k') ! j = None"
    and kp: "keeps live k live' k'"
    by (rule task_exit_ok [OF inv run notidle]) blast
  have ti: "tasks_inv live ?s" using inv unfolding kernel_inv_def by blast
  have c: "?c < 4" "length (sd_tasks ?s) = 4" using ti by (simp_all add: tasks_inv_def)
  obtain t where t: "sd_tasks ?s ! ?c = Some t" using ti by (auto simp: tasks_inv_def)
  have c1: "?c \<noteq> 1" using notidle by (simp add: IDLE_TASK_ID_def)
  have ti1: "tasks_inv live ?s1" using tasks_inv_state [OF ti c(1) t, of Dead] c1 t by simp
  have st1: "in_state st ?s1 j \<longleftrightarrow> (if j = ?c then st = Dead else in_state st ?s j)" for st j
    using c t by (auto simp: in_state_def nth_list_update set_state_def)
  have idle1: "in_state Ready ?s1 1" unfolding st1 using c1 inp by (simp add: input_inv_def IDLE_TASK_ID_def)
  note tr = turn_ready [OF ti1 idle1]
  have st': "in_state st (kn_sched k') j \<longleftrightarrow> in_state st ?s1 j" if "j < 4" "st \<noteq> Dead" for st j
  proof (cases "j = ?c \<or> dead_at ?s j")
    case True
    then show ?thesis using dead gone [OF that(1)] that(2) unfolding st1 by (auto simp: in_state_def dead_at_def)
  next
    case False
    then show ?thesis using states [OF that(1)] unfolding st1 by (simp add: in_state_def)
  qed
  have "\<not> in_state Blocked ?s ?c" using inp by (auto simp: input_inv_def in_state_def)
  then have "wait_exact (ti_queue inp) (kn_sched k')"
    using inp st' unfolding input_inv_def wait_exact_def st1 by (auto split: if_splits)
  moreover have "in_state Ready (kn_sched k') (turn ?s1)" "in_state Ready (kn_sched k') 1"
    using st' [OF tr(2)] tr(1) st' [of 1 Ready] idle1 by simp_all
  ultimately have "input_inv (kn_sched k') inp" using inp cur by (simp add: input_inv_def IDLE_TASK_ID_def)
  moreover have "in_state Dead (kn_sched k') ?c" using dead by (simp add: in_state_def)
  ultimately show thesis using that a i' ne kp by blast
qed

subsection \<open>Every reachable state\<close>

text \<open>The states in which the allocations \<open>keep\<close> are still live and hold what memory \<open>m\<close> holds there.\<close>

definition system_keeps :: "pfn set \<Rightarrow> live \<Rightarrow> mem \<Rightarrow> system \<Rightarrow> bool" where
  "system_keeps U keep m s \<longleftrightarrow> (\<exists>live saved. kernel_inv U live saved (fst s) \<and> kept keep live (kn_sched (fst s)))
    \<and> input_inv (kn_sched (fst s)) (snd s) \<and> same_on (live_area keep) m (kn_mem (fst s))"

lemma system_ok_keeps: "system_ok U s \<longleftrightarrow> system_keeps U Map.empty m s"
  by (auto simp: system_ok_def system_keeps_def kept_def live_area_def same_on_def)

lemma system_keepsE:
  assumes "system_keeps U keep m (k, inp)"
  obtains live saved where "kernel_inv U live saved k" and "input_inv (kn_sched k) inp"
    and "\<And>live' saved' k' inp'. kernel_inv U live' saved' k' \<Longrightarrow> input_inv (kn_sched k') inp' \<Longrightarrow> keeps live k live' k' \<Longrightarrow>
      system_keeps U keep m (k', inp')"
proof -
  obtain live saved where i: "kernel_inv U live saved k" "input_inv (kn_sched k) inp" and kp: "kept keep live (kn_sched k)"
    and s: "same_on (live_area keep) m (kn_mem k)"
    using assms by (auto simp: system_keeps_def)
  have "system_keeps U keep m (k', inp')"
    if "kernel_inv U live' saved' k'" "input_inv (kn_sched k') inp'" "keeps live k live' k'" for live' saved' k' inp'
    using that kp same_on_trans [OF s] unfolding system_keeps_def keeps_def by auto
  then show thesis using that i by blast
qed

inductive_cases kernel_stepE: "kernel_step U (k, inp) s'"

lemma kernel_step_keeps:
  assumes step: "kernel_step U s s'" and ok: "system_keeps U keep m s"
  shows "system_keeps U keep m s'"
proof -
  obtain k inp where s: "s = (k, inp)" by (cases s)
  obtain live saved where i: "kernel_inv U live saved k" "input_inv (kn_sched k) inp"
    and fin: "\<And>live' saved' k' inp'. kernel_inv U live' saved' k' \<Longrightarrow> input_inv (kn_sched k') inp' \<Longrightarrow> keeps live k live' k' \<Longrightarrow>
      system_keeps U keep m (k', inp')"
    by (rule system_keepsE [OF ok [unfolded s]]) blast
  show ?thesis
    using step unfolding s
  proof (cases rule: kernel_stepE [consumes 1, case_names Compute Getc Character Timer Preempt Yield Spawn Exit])
    case (Compute m' rg)
    then show ?thesis using fin [OF compute_ok(1) [OF i(1)] _ compute_ok(2) [OF i(1)]] i(2) by simp
  next
    case (Getc k' inp' r)
    show ?thesis
      by (rule getc_attempt_ok [OF i(1) Getc(2) i(2) Getc(3)]) (use i fin keeps_refl Getc in auto)
  next
    case (Character b k' inp')
    show ?thesis by (rule push_character_ok [OF i, of b]) (use fin Character in auto)
  next
    case (Timer k')
    show ?thesis by (rule sched_tick_ok [OF i]) (use fin Timer in auto)
  next
    case (Preempt k' sw)
    show ?thesis by (rule preempt_input [OF i(1) Preempt(2) i(2)]) (use fin Preempt in auto)
  next
    case (Yield k' sw)
    show ?thesis by (rule schedule_input [OF i(1) Yield(2) i(2)]) (use fin Yield in auto)
  next
    case (Spawn entry trampoline k' r)
    show ?thesis by (rule spawn_input [OF i Spawn(2,3)]) (use fin Spawn in auto)
  next
    case (Exit k')
    show ?thesis by (rule task_exit_input [OF i(1) Exit(2) i(2) Exit(3)]) (use fin Exit in auto)
  qed
qed

lemma kernel_runs_keeps: "kernel_runs U s s' \<Longrightarrow> system_keeps U keep m s \<Longrightarrow> system_keeps U keep m s'"
  by (induction rule: kernel_runs.induct) (blast intro: kernel_step_keeps)+

lemma kernel_step_ok: "kernel_step U s s' \<Longrightarrow> system_ok U s \<Longrightarrow> system_ok U s'"
  using kernel_step_keeps unfolding system_ok_keeps [of U _ "\<lambda>_. 0"] by blast

lemma kernel_runs_ok: "kernel_runs U s s' \<Longrightarrow> system_ok U s \<Longrightarrow> system_ok U s'"
  using kernel_runs_keeps unfolding system_ok_keeps [of U _ "\<lambda>_. 0"] by blast

end
