(* ===== verification/HeapProperties.thy ===== *)
theory HeapProperties
  imports HeapRuns SmallMachine
begin

text \<open>
  What the heap promises: the theorems about \<open>Heap\<close>, the slab caches behind it and \<open>mm::init\<close>, with
  examples on the small machine.
\<close>

subsection \<open>The heap of the small machine\<close>

definition demo_layout :: layout where
  "demo_layout = \<lparr>l_size = 100, l_align = 8\<rparr>"

definition demo_ld :: linker_symbols where
  "demo_ld = \<lparr>ld_image_start = 75776, ld_exec_end = 76800, ld_rodata_end = 77824,
    ld_stack_guard_start = 78848, ld_stack_bottom = 79360, ld_stack_top = 79872\<rparr>"

lemma demo_layout_ok: "layout_ok demo_layout"
  by (auto simp: layout_ok_def demo_layout_def intro: exI [of _ 3])

lemma demo_boot_pages: "boot_pages demo_map' = {17} \<union> {20..<32}"
proof -
  have "map_wf demo_map'" by (rule pages_new_wf(4) [OF demo_map_wf demo_pages_new])
  then show ?thesis using unreserved_boot_pages demo_unreserved_set by blast
qed

lemma demo_covered: "0 \<notin> covered demo_pages"
  by (simp add: in_covered demo_pages_def)

lemma demo_heap_ok:
  obtains m h where "heap_init demo_mem heap_empty demo_map = Inr (m, h, demo_map')" and "hp_pages h = demo_pages"
    and "heap_inv m h ({17} \<union> {20..<32}) ({17} \<union> {20..<32}) Map.empty"
proof -
  have "pg_len (hp_pages heap_empty) = 0" by (simp add: heap_empty_def pages_empty_def)
  from heap_init_ok [OF demo_map_wf demo_pages_new this] show thesis
    using that unfolding demo_boot_pages by metis
qed

lemma demo_heap_alloc:
  obtains m0 h0 m h a F where "heap_init demo_mem heap_empty demo_map = Inr (m0, h0, demo_map')"
    and "heap_inv m0 h0 ({17} \<union> {20..<32}) ({17} \<union> {20..<32}) Map.empty"
    and "alloc_layout m0 h0 demo_layout = Inr (m, h, Some a)" and "hp_pages h = demo_pages"
    and "heap_inv m h ({17} \<union> {20..<32}) F [a \<mapsto> demo_layout]"
proof -
  obtain m0 h0 where h0: "heap_init demo_mem heap_empty demo_map = Inr (m0, h0, demo_map')" "hp_pages h0 = demo_pages"
    "heap_inv m0 h0 ({17} \<union> {20..<32}) ({17} \<union> {20..<32}) Map.empty"
    by (rule demo_heap_ok)
  have c: "class_of demo_layout \<noteq> None" using class_of_None [OF demo_layout_ok] by (simp add: demo_layout_def)
  show thesis
  proof (rule alloc_layout_cases [OF h0(3) demo_layout_ok])
    fix m h a F assume "alloc_layout m0 h0 demo_layout = Inr (m, h, Some a)" "hp_pages h = hp_pages h0"
      "heap_inv m h ({17} \<union> {20..<32}) F [a \<mapsto> demo_layout]"
    then show thesis using that h0 by auto
  next
    assume "\<forall>b. 2 ^ fallback_order demo_layout dvd b \<longrightarrow> fallback_order demo_layout \<le> MAX_ORDER
      \<longrightarrow> \<not> block b (fallback_order demo_layout) \<subseteq> ({17} \<union> {20..<32} :: pfn set)"
    from this [THEN spec, of 17] show thesis using c by (simp add: fallback_order_def in_block subset_iff)
  qed
qed

subsection \<open>Allocating and freeing\<close>

text \<open>
  C12. \<open>Heap::alloc_layout\<close> is correct and complete. In a state satisfying the invariant it never panics.
  It returns an address that is not live yet, aligned for the layout, whose bytes overlap no live
  allocation, no metadata and no free page, leaves every live byte as it was and keeps the invariant; or it returns \<open>None\<close>, changes nothing, and there is then no free aligned run of the pages the
  layout would need.
\<close>

theorem heap_alloc_correct:
  assumes inv: "heap_inv m h U F live" and l: "layout_ok l"
  shows "case alloc_layout m h l of
      Inl e \<Rightarrow> False
    | Inr (m', h', Some a) \<Rightarrow> live a = None \<and> l_align l dvd a
        \<and> (\<forall>b k. live b = Some k \<longrightarrow> range_of a (l_size l) \<inter> range_of b (l_size k) = {})
        \<and> range_of a (l_size l) \<inter> meta_bytes (hp_pages h) = {}
        \<and> same_on (live_area live) m m'
        \<and> (\<exists>F'. heap_inv m' h' U F' (live(a \<mapsto> l)) \<and> range_of a (l_size l) \<inter> bytes_of F' = {})
    | Inr (m', h', None) \<Rightarrow> m' = m \<and> h' = h
        \<and> (fallback_order l \<le> MAX_ORDER \<longrightarrow> (\<forall>b. 2 ^ fallback_order l dvd b \<longrightarrow> \<not> block b (fallback_order l) \<subseteq> F))"
proof (rule alloc_layout_cases [OF inv l])
  fix m' h' a F' assume a: "alloc_layout m h l = Inr (m', h', Some a)" "live a = None"
    and i: "heap_inv m' h' U F' (live(a \<mapsto> l))" and s: "same_on (live_area live) m m'" and pg: "hp_pages h' = hp_pages h"
  have la: "(live(a \<mapsto> l)) a = Some l" by simp
  note sound = heap_inv_live [OF i la]
  have "range_of a (l_size l) \<inter> range_of b (l_size k) = {}" if b: "live b = Some k" for b k
    by (rule heap_inv_disjoint [OF i la]) (use a(2) b in auto)
  then show ?thesis using a s i sound pg by auto
qed auto

theorem heap_alloc_correct_example:
  "case heap_init demo_mem heap_empty demo_map of Inl e \<Rightarrow> False
   | Inr (m, h, mm) \<Rightarrow> (case alloc_layout m h demo_layout of Inr (m', h', Some a) \<Rightarrow> 8 dvd a | _ \<Rightarrow> False)"
proof -
  obtain m h m' h' a F where d: "heap_init demo_mem heap_empty demo_map = Inr (m, h, demo_map')"
    "heap_inv m h ({17} \<union> {20..<32}) ({17} \<union> {20..<32}) Map.empty"
    "alloc_layout m h demo_layout = Inr (m', h', Some a)"
    by (rule demo_heap_alloc)
  show ?thesis using heap_alloc_correct [OF d(2) demo_layout_ok] d by (simp add: demo_layout_def)
qed

text \<open>
  C13. \<open>Heap::free_layout\<close> of a live allocation with its own layout never panics: the allocation is no
  longer live, every other live byte is as it was, and the invariant holds.
\<close>

theorem heap_free_correct:
  assumes inv: "heap_inv m h U F live" and l: "live a = Some l"
  shows "\<exists>m' h' F'. free_layout m h a l = Inr (m', h') \<and> heap_inv m' h' U F' (live(a := None))
    \<and> same_on (live_area (live(a := None))) m m'"
proof -
  obtain m' h' F' where "free_layout m h a l = Inr (m', h')" "heap_inv m' h' U F' (live(a := None))"
    "same_on (live_area (live(a := None))) m m'"
    by (rule free_layout_ok [OF inv l])
  then show ?thesis by blast
qed

theorem heap_free_correct_example:
  "case heap_init demo_mem heap_empty demo_map of Inl e \<Rightarrow> False
   | Inr (m, h, mm) \<Rightarrow> (case alloc_layout m h demo_layout of
       Inr (m', h', Some a) \<Rightarrow> (\<exists>m'' h''. free_layout m' h' a demo_layout = Inr (m'', h'')) | _ \<Rightarrow> False)"
proof -
  obtain m h m' h' a F where d: "heap_init demo_mem heap_empty demo_map = Inr (m, h, demo_map')"
    "alloc_layout m h demo_layout = Inr (m', h', Some a)"
    "heap_inv m' h' ({17} \<union> {20..<32}) F [a \<mapsto> demo_layout]"
    by (rule demo_heap_alloc)
  have "[a \<mapsto> demo_layout] a = Some demo_layout" by simp
  from heap_free_correct [OF d(3) this] show ?thesis using d by auto
qed

subsection \<open>Over the life of the kernel\<close>

text \<open>
  C14. Safety over every run. From the heap \<open>mm::init\<close> built, through any sequence of calls and client
  writes, two live allocations never overlap; each is aligned, and lies in pages of the arena that hold
  no byte of a reserved region: not of the kernel image, the device tree or the metadata table.
\<close>

theorem heap_runs_sound:
  assumes mm: "map_wf mm" and new: "pages_new m mm = (m1, mm1, Some pg)" and zero: "4096 \<le> r_base (mm_arena mm)"
    and init: "heap_init m heap_empty mm = Inr (m0, h0, mm1)"
    and runs: "heap_runs (m0, h0, Map.empty) (m', h', live)" and l: "live a = Some l"
  shows "l_align l dvd a
    \<and> (\<forall>b k. live b = Some k \<longrightarrow> b \<noteq> a \<longrightarrow> range_of a (l_size l) \<inter> range_of b (l_size k) = {})
    \<and> (\<forall>x \<in> range_of a (l_size l). x div 4096 \<in> arena_pages (mm_arena mm)
        \<and> (\<forall>r \<in> set (reserved mm @ [pg_region pg]). \<not> (r_base r \<le> x \<and> x < region_end r)))"
proof -
  note wf = pages_new_wf [OF mm new]
  have "pg_len (hp_pages heap_empty) = 0" by (simp add: heap_empty_def pages_empty_def)
  from heap_init_ok [OF mm new this] init
  have i0: "heap_inv m0 h0 (boot_pages mm1) (boot_pages mm1) Map.empty" and p0: "hp_pages h0 = pg" by auto
  have "0 \<notin> covered pg" using wf(2) zero by (simp add: arena_pages_def div_greater_zero_iff)
  then have "heap_good pg (boot_pages mm1) (m0, h0, Map.empty)" using i0 p0 by (auto simp: heap_good_def)
  from heap_runs_good [OF runs this] obtain F where i: "heap_inv m' h' (boot_pages mm1) F live"
    by (auto simp: heap_good_def)
  have "range_of a (l_size l) \<inter> range_of b (l_size k) = {}" if "live b = Some k" "b \<noteq> a" for b k
    by (rule heap_inv_disjoint [OF i l]) (use that in auto)
  moreover have "x div 4096 \<in> arena_pages (mm_arena mm)
      \<and> (\<forall>r \<in> set (reserved mm @ [pg_region pg]). \<not> (r_base r \<le> x \<and> x < region_end r))" if "x \<in> range_of a (l_size l)" for x
  proof -
    have "x div 4096 \<in> boot_pages mm1" using heap_inv_live_pages [OF i l] that by auto
    moreover have "x \<in> page_bytes (x div 4096)" by simp
    ultimately show ?thesis unfolding boot_pages_def using wf(5,6) by auto
  qed
  ultimately show ?thesis using heap_inv_live(2) [OF i l] by blast
qed

theorem heap_runs_sound_example:
  "\<exists>m0 h0 m h a. heap_init demo_mem heap_empty demo_map = Inr (m0, h0, demo_map')
    \<and> heap_runs (m0, h0, Map.empty) (m, h, [a \<mapsto> demo_layout]) \<and> 8 dvd a \<and> \<not> (75776 \<le> a \<and> a < 79872)"
proof -
  obtain m0 h0 m h a F where d: "heap_init demo_mem heap_empty demo_map = Inr (m0, h0, demo_map')"
    "alloc_layout m0 h0 demo_layout = Inr (m, h, Some a)" "hp_pages h = demo_pages"
    "heap_inv m h ({17} \<union> {20..<32}) F [a \<mapsto> demo_layout]"
    by (rule demo_heap_alloc)
  have "a \<noteq> 0" by (rule heap_good_nonzero [OF d(4)]) (use d(3) demo_covered in auto)
  then have "heap_step (m0, h0, Map.empty) (m, h, if a = 0 then Map.empty else [a \<mapsto> demo_layout])"
    using d(2) by (intro heap_step.Alloc demo_layout_ok) (simp add: global_alloc_def)
  then have r: "heap_runs (m0, h0, Map.empty) (m, h, [a \<mapsto> demo_layout])"
    using \<open>a \<noteq> 0\<close> by (auto intro: heap_runs.intros)
  have z: "4096 \<le> r_base (mm_arena demo_map)" by (simp add: demo_map_sel demo_memory_def)
  have l: "[a \<mapsto> demo_layout] a = Some demo_layout" by simp
  have "region_end demo_hole = 79872" "r_base demo_hole = 75776" "a \<in> range_of a (l_size demo_layout)"
    by (simp_all add: demo_hole_def region_end_def usize_add_def demo_layout_def)
  then show ?thesis
    using heap_runs_sound [OF demo_map_wf demo_pages_new z d(1) r l] d(1) r
    by (fastforce simp: demo_reserved demo_layout_def)
qed

text \<open>
  C15. No call of a running heap panics: in every state a run reaches, \<open>GlobalAlloc::alloc\<close> of a well-formed
  layout and \<open>GlobalAlloc::dealloc\<close> of a live allocation return.
\<close>

theorem heap_runs_no_panic:
  assumes start: "heap_inv m0 h0 U U Map.empty" "0 \<notin> covered (hp_pages h0)"
    and runs: "heap_runs (m0, h0, Map.empty) (m, h, live)"
  shows "(\<forall>l. layout_ok l \<longrightarrow> (\<exists>r. global_alloc m h l = Inr r))
    \<and> (\<forall>a l. live a = Some l \<longrightarrow> (\<exists>r. global_dealloc m h a l = Inr r))"
proof -
  have "heap_good (hp_pages h0) U (m0, h0, Map.empty)" using start by (auto simp: heap_good_def)
  from heap_runs_good [OF runs this] obtain F where i: "heap_inv m h U F live" by (auto simp: heap_good_def)
  have "\<exists>r. global_alloc m h l = Inr r" if "layout_ok l" for l
    by (rule alloc_layout_cases [OF i that]) (auto simp: global_alloc_def)
  moreover have "\<exists>r. global_dealloc m h a l = Inr r" if l: "live a = Some l" for a l
    by (rule_tac free_layout_ok [OF i l]) (auto simp: global_dealloc_def)
  ultimately show ?thesis by blast
qed

theorem heap_runs_no_panic_example:
  "case heap_init demo_mem heap_empty demo_map of Inl e \<Rightarrow> False
   | Inr (m, h, mm) \<Rightarrow> (\<exists>r. global_alloc m h demo_layout = Inr r)"
proof -
  obtain m h where d: "heap_init demo_mem heap_empty demo_map = Inr (m, h, demo_map')" "hp_pages h = demo_pages"
    "heap_inv m h ({17} \<union> {20..<32}) ({17} \<union> {20..<32}) Map.empty"
    by (rule demo_heap_ok)
  have z: "0 \<notin> covered (hp_pages h)" using d(2) demo_covered by simp
  show ?thesis using heap_runs_no_panic [OF d(3) z heap_runs.start] demo_layout_ok d(1) by simp
qed

text \<open>
  C16. Nothing leaks: whenever a run has freed everything it allocated, exactly the pages that were free
  after boot are free again, slab pages included.
\<close>

theorem heap_runs_no_leak:
  assumes start: "heap_inv m0 h0 U U Map.empty" "0 \<notin> covered (hp_pages h0)"
    and runs: "heap_runs (m0, h0, Map.empty) (m, h, Map.empty)"
  shows "heap_inv m h U U Map.empty"
proof -
  have "heap_good (hp_pages h0) U (m0, h0, Map.empty)" using start by (auto simp: heap_good_def)
  from heap_runs_good [OF runs this] obtain F where i: "heap_inv m h U F Map.empty" by (auto simp: heap_good_def)
  then show ?thesis using heap_inv_no_leak [OF i] by simp
qed

theorem heap_runs_no_leak_example:
  "\<exists>m0 h0 m1 h1 m h a. heap_init demo_mem heap_empty demo_map = Inr (m0, h0, demo_map')
    \<and> alloc_layout m0 h0 demo_layout = Inr (m1, h1, Some a) \<and> free_layout m1 h1 a demo_layout = Inr (m, h)
    \<and> heap_inv m h ({17} \<union> {20..<32}) ({17} \<union> {20..<32}) Map.empty"
proof -
  obtain m0 h0 m1 h1 a F where d: "heap_init demo_mem heap_empty demo_map = Inr (m0, h0, demo_map')"
    "heap_inv m0 h0 ({17} \<union> {20..<32}) ({17} \<union> {20..<32}) Map.empty"
    "alloc_layout m0 h0 demo_layout = Inr (m1, h1, Some a)" "hp_pages h1 = demo_pages"
    "heap_inv m1 h1 ({17} \<union> {20..<32}) F [a \<mapsto> demo_layout]"
    by (rule demo_heap_alloc)
  have p0: "hp_pages h0 = demo_pages" using demo_heap_ok d(1) by (metis Pair_inject sum.inject(2))
  have "a \<noteq> 0" by (rule heap_good_nonzero [OF d(5)]) (use d(4) demo_covered in auto)
  have "heap_step (m0, h0, Map.empty) (m1, h1, if a = 0 then Map.empty else [a \<mapsto> demo_layout])"
    using d(3) by (intro heap_step.Alloc demo_layout_ok) (simp add: global_alloc_def)
  then have s1: "heap_step (m0, h0, Map.empty) (m1, h1, [a \<mapsto> demo_layout])" using \<open>a \<noteq> 0\<close> by simp
  have l: "[a \<mapsto> demo_layout] a = Some demo_layout" by simp
  obtain m h where f: "free_layout m1 h1 a demo_layout = Inr (m, h)"
    by (rule free_layout_ok [OF d(5) l])
  have "heap_step (m1, h1, [a \<mapsto> demo_layout]) (m, h, [a \<mapsto> demo_layout](a := None))"
    using f by (intro heap_step.Free) (simp_all add: global_dealloc_def)
  then have s2: "heap_step (m1, h1, [a \<mapsto> demo_layout]) (m, h, Map.empty)" by simp
  have "heap_runs (m0, h0, Map.empty) (m, h, Map.empty)"
    by (rule heap_runs.run_step [OF heap_runs.run_step [OF heap_runs.start s1] s2])
  from heap_runs_no_leak [OF d(2) _ this] show ?thesis using d(1,3) f p0 demo_covered by auto
qed

subsection \<open>Size classes, rejected frees, boot\<close>

text \<open>
  \<open>class_of\<close> picks the smallest class that is at least the size and the alignment of the layout,
  and none exactly for layouts above 2048 bytes in size or alignment.
\<close>

theorem class_of_smallest:
  assumes l: "layout_ok l"
  shows "case class_of l of
      None \<Rightarrow> 2048 < l_size l \<or> 2048 < l_align l
    | Some c \<Rightarrow> c < 9 \<and> l_size l \<le> class_size c \<and> l_align l \<le> class_size c
        \<and> (\<forall>d<c. class_size d < l_size l \<or> class_size d < l_align l)"
proof (cases "class_of l")
  case None
  then show ?thesis using class_of_None [OF l] by simp
next
  case (Some c)
  then show ?thesis using class_of_Some [OF l Some] by (auto simp: not_le)
qed

theorem class_of_smallest_example:
  "\<exists>c. class_of demo_layout = Some c \<and> 100 \<le> class_size c \<and> (\<forall>d<c. class_size d < 100)"
proof -
  have "class_of demo_layout \<noteq> None" using class_of_None [OF demo_layout_ok] by (simp add: demo_layout_def)
  then obtain c where c: "class_of demo_layout = Some c" by auto
  have 8: "8 \<le> class_size d" for d using class_size_mono [of 0 d] by (simp add: class_size_def)
  have "class_size d < 100" if "d < c" for d
    using class_of_smallest [OF demo_layout_ok] c that 8 [of d] by (auto simp: demo_layout_def)
  then show ?thesis using class_of_smallest [OF demo_layout_ok] c by (auto simp: demo_layout_def)
qed

text \<open>
  C17. What \<open>Slab::free\<close> rejects: an address of another page, an address in the middle of an object, any
  address when no object is in use, and the slot at the head of the free list, which is the object freed
  last.
\<close>

theorem slab_free_rejects:
  assumes "pages_wf pg" and "slab_ok pg m p c fs nx pv"
  shows "(\<forall>a. from_addr_down a \<noteq> p \<longrightarrow>
        slab_free pg m p a = Inl (AssertFailed ''freeing an object against the wrong page''))
    \<and> (\<forall>a. from_addr_down a = p \<and> \<not> class_size c dvd a mod 4096 \<longrightarrow>
        slab_free pg m p a = Inl (AssertFailed ''freeing the middle of an object instead of its start''))
    \<and> (\<forall>i < slab_slots c. length fs = slab_slots c \<longrightarrow>
        slab_free pg m p (slot_addr p c i) = Inl (AssertFailed ''freeing an object from a slab that has none in use''))
    \<and> (\<forall>i < slab_slots c. length fs < slab_slots c \<and> fs \<noteq> [] \<and> i = hd fs \<longrightarrow>
        slab_free pg m p (slot_addr p c i) = Inl (AssertFailed ''freeing the same object twice''))"
proof -
  have "slab_free pg m p (slot_addr p c i) = Inl (AssertFailed ''freeing the same object twice'')"
    if "i < slab_slots c" "length fs < slab_slots c" "fs \<noteq> []" "i = hd fs" for i
    using slab_free_cases(4) [OF assms, of i "tl fs"] that by simp
  then show ?thesis using slab_free_cases(1-3) [OF assms] by blast
qed

theorem slab_free_rejects_example:
  "\<exists>m'. slab_init demo_pages (zero_fill demo_mem 65536 4096) 17 0 = Inr (m', Some 17)
    \<and> slab_free demo_pages m' 17 69636 = Inl (AssertFailed ''freeing the middle of an object instead of its start'')"
proof -
  note wf = pages_new_wf [OF demo_map_wf demo_pages_new]
  have cov: "17 \<in> covered demo_pages" by (simp add: in_covered demo_pages_def)
  have "page_bytes 17 \<inter> meta_bytes demo_pages = {}"
    by (auto simp: meta_bytes_def demo_pages_def demo_table_def)
  then have "page_free_of_meta demo_pages 17" using wf(1) cov by (simp add: page_free_of_meta_def)
  then obtain m' where m': "slab_init demo_pages (zero_fill demo_mem 65536 4096) 17 0 = Inr (m', Some 17)"
    and ok: "slab_ok demo_pages m' 17 0 [0..<slab_slots 0] None None"
    using slab_init_ok [of demo_pages 17 0 "zero_fill demo_mem 65536 4096"] by auto
  have "\<not> class_size 0 dvd (69636::nat) mod 4096" by (simp add: class_size_def)
  then show ?thesis using slab_free_rejects [OF wf(1) ok] m' by (simp add: from_addr_down_def)
qed

text \<open>
  \<open>mm::init\<close>: the reservations never run out of room, so the only errors are memory that holds no whole
  page and a memory without room for the page table; otherwise the heap is up, the kernel image, the
  device tree and the table are reserved, and exactly the remaining pages of the arena are free.
\<close>

theorem mm_init_correct:
  assumes "r_base memory + 4096 \<le> usize_limit"
  shows "case mm_init m heap_empty ld memory dtb of
      Inl e \<Rightarrow> e = Panicked ''Failed to initialize heap pages''
    | Inr (Inl msg) \<Rightarrow> msg = ''The device tree reported no usable memory'' \<and> memory_map_new memory = None
    | Inr (Inr (m', h', mm)) \<Rightarrow> heap_inv m' h' (boot_pages mm) (boot_pages mm) Map.empty
        \<and> reserved mm = [image ld, dtb, pg_region (hp_pages h')]"
proof -
  have z: "pg_len (hp_pages heap_empty) = 0" by (simp add: heap_empty_def pages_empty_def)
  consider "memory_map_new memory = None" | mm mm1 mm2 where "memory_map_new memory = Some mm"
    "reserve mm (image ld) = Inr mm1" "reserve mm1 dtb = Inr mm2" "map_wf mm2" "reserved mm2 = [image ld, dtb]"
    using mm_init_maps [OF assms, of ld dtb] that by (elim disjE exE conjE) blast+
  then show ?thesis
  proof cases
    case 2
    obtain m1 mm3 found where p: "pages_new m mm2 = (m1, mm3, found)" by (cases "pages_new m mm2")
    show ?thesis
    proof (cases found)
      case None
      then show ?thesis using 2 heap_init_none [OF p [unfolded None] z] by (simp add: mm_init_def)
    next
      case (Some pg)
      obtain m' h' where "heap_init m heap_empty mm2 = Inr (m', h', mm3)" "hp_pages h' = pg"
        "heap_inv m' h' (boot_pages mm3) (boot_pages mm3) Map.empty"
        by (rule heap_init_ok [OF 2(4) p [unfolded Some] z])
      then show ?thesis
        using 2 pages_new_wf(6) [OF 2(4) p [unfolded Some]] by (simp add: mm_init_def)
    qed
  qed (simp add: mm_init_def)
qed

theorem mm_init_correct_example:
  "mm_init demo_mem heap_empty demo_ld \<lparr>r_base = 100, r_size = 200\<rparr> demo_table
    = Inr (Inl ''The device tree reported no usable memory'')"
proof -
  have none: "memory_map_new \<lparr>r_base = 100, r_size = 200\<rparr> = None"
    by (simp add: memory_map_new_def align_up_page align_down_page region_end_def usize_add_def div_ceil_def)
  show ?thesis
    using mm_init_correct [of "\<lparr>r_base = 100, r_size = 200\<rparr>"] none
    by (simp add: mm_init_def)
qed

end
