(* ===== verification/KernelProperties.thy ===== *)
theory KernelProperties
  imports KernelRuns HeapProperties
begin

text \<open>
  What the scheduler, the input queue, the ring buffer and the spin lock promise, with examples on the
  small machine: a boot task and an idle task over the heap of the memory examples.
\<close>

subsection \<open>The kernel of the small machine\<close>

definition demo_sched :: scheduler where
  "demo_sched = \<lparr>sd_tasks = [Some (task_boot 0), Some (task_boot 1), None, None], sd_current = 0\<rparr>"

definition demo_kernel :: "mem \<Rightarrow> heap \<Rightarrow> kernel" where
  "demo_kernel m h = \<lparr>kn_mem = m, kn_heap = h, kn_sched = demo_sched, kn_resched = False,
    kn_regs = \<lparr>rg_frame = frame_default, rg_sp = 4096\<rparr>\<rparr>"

abbreviation demo_U :: "pfn set" where
  "demo_U \<equiv> {17} \<union> {20..<32}"

lemma demo_tasks:
  "sd_tasks demo_sched ! 0 = Some (task_boot 0)" "sd_tasks demo_sched ! 1 = Some (task_boot 1)"
  "sd_tasks demo_sched ! 2 = None" "sd_tasks demo_sched ! 3 = None"
  by (simp_all add: demo_sched_def)

lemma demo_task: "j < 4 \<Longrightarrow> sd_tasks demo_sched ! j = Some t \<Longrightarrow> (j = 0 \<or> j = 1) \<and> t = task_boot j"
  using below_four [of j] demo_tasks by auto

lemma demo_tasks_inv: "tasks_inv live demo_sched"
  unfolding tasks_inv_def
proof (intro conjI allI impI)
  fix j t assume "j < 4" "sd_tasks demo_sched ! j = Some t"
  from demo_task [OF this] show "tk_id t = j" "stack_live live t" by (simp_all add: task_boot_def stack_live_def)
next
  fix j l t u b assume "j < 4" "sd_tasks demo_sched ! j = Some t" and b: "stack_base t = Some b"
  then have "t = task_boot j" using demo_task by blast
  then show "stack_base u \<noteq> Some b" using b by (simp add: task_boot_def stack_base_def)
qed (simp_all add: demo_sched_def dead_at_def task_boot_def)

lemma demo_input_inv: "input_inv demo_sched tty_input_new"
proof -
  have "\<not> in_state Blocked demo_sched i" if "i < 4" for i
    using demo_task [OF that] by (auto simp: in_state_def task_boot_def)
  moreover have "in_state Ready demo_sched 0" "in_state Ready demo_sched 1"
    by (simp_all add: in_state_def demo_sched_def task_boot_def)
  ultimately show ?thesis
    using ring.new_inv [of input_byte_EMPTY] ring.new_abs [of input_byte_EMPTY]
    by (auto simp: input_inv_def wait_exact_def tty_input_new_def wait_queue_new_def IDLE_TASK_ID_def)
      (simp add: demo_sched_def)
qed

lemma demo_kernel_ok:
  obtains m h where "heap_init demo_mem heap_empty demo_map = Inr (m, h, demo_map')"
    and "kernel_inv demo_U Map.empty saved (demo_kernel m h)" and "running_ok demo_U (demo_kernel m h)"
    and "heap_inv m h demo_U demo_U Map.empty"
proof -
  obtain m h where h: "heap_init demo_mem heap_empty demo_map = Inr (m, h, demo_map')" "hp_pages h = demo_pages"
    "heap_inv m h demo_U demo_U Map.empty"
    by (rule demo_heap_ok)
  have "arena_below demo_pages" by (simp add: arena_below_def in_covered demo_pages_def)
  moreover have "parked m t (saved j)" if "j < 4" "sd_tasks demo_sched ! j = Some t" for j t
    using demo_task [OF that] by (simp add: parked_def task_boot_def)
  ultimately have "kernel_inv demo_U Map.empty saved (demo_kernel m h)"
    using h(2,3) demo_tasks_inv unfolding kernel_inv_def demo_kernel_def by auto
  moreover have "frame_fits frame_default"
    by (simp add: frame_fits_def frame_words_def frame_default_def frame_of_words_def)
  moreover have "range_of 3936 160 \<inter> (bytes_of demo_U \<union> meta_bytes demo_pages) = {}"
    by (auto simp: meta_bytes_def demo_pages_def demo_table_def)
  ultimately show thesis
    using that [of m h] h demo_tasks(1) by (simp add: running_ok_def demo_kernel_def demo_sched_def task_boot_def)
qed

subsection \<open>The scheduler\<close>



fun spawn_result :: "pfn set \<Rightarrow> live \<Rightarrow> (usize \<Rightarrow> regs) \<Rightarrow> kernel \<Rightarrow> usize \<Rightarrow> usize \<Rightarrow> kernel \<Rightarrow> spawn_error + unit \<Rightarrow> bool" where
  "spawn_result U live saved k entry trampoline k' (Inl RanOutOfIds) \<longleftrightarrow>
    k' = k \<and> (\<forall>i<4. sd_tasks (kn_sched k) ! i \<noteq> None)"
| "spawn_result U live saved k entry trampoline k' (Inl RanOutOfMemory) \<longleftrightarrow>
    k' = k \<and> (\<exists>F. heap_inv (kn_mem k) (kn_heap k) U F live \<and> (\<forall>b. 4 dvd b \<longrightarrow> \<not> block b 2 \<subseteq> F))"
| "spawn_result U live saved k entry trampoline k' (Inr _) \<longleftrightarrow>
    (\<exists>i c t. i < 4 \<and> sd_tasks (kn_sched k) ! i = None \<and> tk_stack t = Some c \<and> tk_state t = Ready
      \<and> kn_sched k' = (kn_sched k)\<lparr>sd_tasks := (sd_tasks (kn_sched k))[i := Some t]\<rparr>
      \<and> kernel_inv U (live(cs_base c \<mapsto> CONTEXT_STACK_LAYOUT))
          (saved(i := \<lparr>rg_frame = frame_default\<lparr>x30 := trampoline, x19 := entry\<rparr>, rg_sp = cs_base c + 16384\<rparr>)) k')"

text \<open>
  C20. \<open>spawn\<close>: with a free slot and room for a stack, the new task is ready in that slot, owns a stack no
  other task overlaps, and is parked so that its first switch enters the trampoline with the entry point in
  \<open>x19\<close> and the whole stack free. Otherwise it reports which of the two ran out and changes nothing.
\<close>

theorem spawn_correct:
  assumes inv: "kernel_inv U live saved k" and vals: "entry < usize_limit" "trampoline < usize_limit"
  shows "\<exists>k' r. spawn trampoline entry k = Inr (k', r) \<and> spawn_result U live saved k entry trampoline k' r"
proof (rule spawn_ok [OF inv vals])
  fix k' i c t
  assume "spawn trampoline entry k = Inr (k', Inr ())" "i < 4" "sd_tasks (kn_sched k) ! i = None"
    "kn_sched k' = (kn_sched k)\<lparr>sd_tasks := (sd_tasks (kn_sched k))[i := Some t]\<rparr>" "tk_state t = Ready" "tk_stack t = Some c"
    "kernel_inv U (live(cs_base c \<mapsto> CONTEXT_STACK_LAYOUT)) (saved(i := fresh_regs trampoline entry c)) k'"
  then show ?thesis unfolding fresh_regs_def by (intro exI [of _ k'] exI [of _ "Inr ()"]) auto
qed auto

theorem spawn_correct_example:
  "case heap_init demo_mem heap_empty demo_map of Inl e \<Rightarrow> False
   | Inr (m, h, mm) \<Rightarrow> (\<exists>k' t. spawn 4096 8192 (demo_kernel m h) = Inr (k', Inr ()) \<and> sd_tasks (kn_sched k') ! 2 = Some t)"
proof -
  fix saved :: "usize \<Rightarrow> regs"
  obtain m h where k: "heap_init demo_mem heap_empty demo_map = Inr (m, h, demo_map')"
    "kernel_inv demo_U Map.empty saved (demo_kernel m h)" "heap_inv m h demo_U demo_U Map.empty"
    by (rule demo_kernel_ok)
  have s: "kn_sched (demo_kernel m h) = demo_sched" "kn_mem (demo_kernel m h) = m" "kn_heap (demo_kernel m h) = h"
    by (simp_all add: demo_kernel_def)
  have len: "length (sd_tasks demo_sched) = 4" by (simp add: demo_sched_def)
  obtain k' r where a: "spawn 4096 8192 (demo_kernel m h) = Inr (k', r)"
    and r: "spawn_result demo_U Map.empty saved (demo_kernel m h) 8192 4096 k' r"
    using spawn_correct [OF k(2), of 8192 4096] by auto
  have ids: "\<not> (\<forall>i<4. sd_tasks demo_sched ! i \<noteq> None)"
    using demo_tasks(3) by (auto intro: exI [of _ 2])
  have ram: "\<not> (\<exists>F. heap_inv m h demo_U F Map.empty \<and> (\<forall>b. 4 dvd b \<longrightarrow> \<not> block b 2 \<subseteq> F))"
  proof
    assume "\<exists>F. heap_inv m h demo_U F Map.empty \<and> (\<forall>b. 4 dvd b \<longrightarrow> \<not> block b 2 \<subseteq> F)"
    then obtain F where F: "heap_inv m h demo_U F Map.empty" "\<forall>b. 4 dvd b \<longrightarrow> \<not> block b 2 \<subseteq> F" by blast
    have "F = demo_U" by (rule heap_inv_no_leak [OF F(1)])
    moreover have "block 20 2 \<subseteq> demo_U" by (auto simp: in_block)
    ultimately show False using F(2) by auto
  qed
  have "r \<noteq> Inl RanOutOfIds"
  proof
    assume "r = Inl RanOutOfIds"
    then have "\<forall>i<4. sd_tasks demo_sched ! i \<noteq> None" using r by (simp add: s)
    then show False using ids by blast
  qed
  moreover have "r \<noteq> Inl RanOutOfMemory"
  proof
    assume "r = Inl RanOutOfMemory"
    then have "\<exists>F. heap_inv m h demo_U F Map.empty \<and> (\<forall>b. 4 dvd b \<longrightarrow> \<not> block b 2 \<subseteq> F)" using r by (simp add: s)
    then show False using ram by blast
  qed
  ultimately obtain u where u: "r = Inr u" by (cases r) (auto intro: spawn_error.exhaust)
  have "free_id demo_sched = Some 2" by (simp add: free_id_def demo_sched_def)
  then have "\<exists>t. sd_tasks (kn_sched k') ! 2 = Some t"
    using a u len by (auto simp: spawn_def s obind_eq_Inr table_set_def split: option.splits prod.splits if_splits)
  then show ?thesis using k(1) a u by simp
qed

text \<open>
  C21. \<open>task_exit\<close> never reaches its \<open>unreachable!()\<close>: from any task but the idle task, which never exits, it
  switches to another task; the exited one stays dead in the table until a later \<open>schedule\<close> frees it.
\<close>

theorem task_exit_switches:
  assumes inv: "kernel_inv U live saved k" and run: "running_ok U k" and c: "sd_current (kn_sched k) \<noteq> IDLE_TASK_ID"
  shows "\<exists>k' live'. task_exit k = Inr k' \<and> sd_current (kn_sched k') \<noteq> sd_current (kn_sched k)
    \<and> dead_at (kn_sched k') (sd_current (kn_sched k))
    \<and> kernel_inv U live' (saved(sd_current (kn_sched k) := kn_regs k)) k'"
proof -
  obtain k' live' where "task_exit k = Inr k'" "sd_current (kn_sched k') \<noteq> sd_current (kn_sched k)"
    "kernel_inv U live' (saved(sd_current (kn_sched k) := kn_regs k)) k'"
    "map_option tk_state (sd_tasks (kn_sched k') ! sd_current (kn_sched k)) = Some Dead"
    by (rule task_exit_ok [OF inv run c]) blast
  then show ?thesis by (auto simp: dead_at_def)
qed

theorem task_exit_switches_example:
  "case heap_init demo_mem heap_empty demo_map of Inl e \<Rightarrow> False
   | Inr (m, h, mm) \<Rightarrow> (\<exists>k'. task_exit (demo_kernel m h) = Inr k' \<and> sd_current (kn_sched k') \<noteq> 0)"
proof -
  fix saved :: "usize \<Rightarrow> regs"
  obtain m h where k: "heap_init demo_mem heap_empty demo_map = Inr (m, h, demo_map')"
    "kernel_inv demo_U Map.empty saved (demo_kernel m h)" "running_ok demo_U (demo_kernel m h)"
    by (rule demo_kernel_ok)
  have s: "kn_sched (demo_kernel m h) = demo_sched" "sd_current demo_sched = 0" by (simp_all add: demo_kernel_def demo_sched_def)
  have "sd_current (kn_sched (demo_kernel m h)) \<noteq> IDLE_TASK_ID" by (simp add: s IDLE_TASK_ID_def)
  from task_exit_switches [OF k(2,3) this] show ?thesis using k(1) by (auto simp: s)
qed

text \<open>
  C22. No starvation: a task that stays ready gets the core within four calls of \<open>schedule\<close>, whatever the
  running tasks do in between, as long as they leave the choice of the running task to \<open>schedule\<close>.
\<close>

theorem ready_task_runs:
  assumes j: "j < 4" "j \<noteq> IDLE_TASK_ID"
    and ok: "\<And>n. n < 4 \<Longrightarrow> kernel_inv U (live n) (saved n) (ks n) \<and> running_ok U (ks n) \<and> in_state Ready (kn_sched (ks n)) j"
    and step: "\<And>n. n < 4 \<Longrightarrow> \<exists>k' sw. schedule (ks n) = Inr (k', sw) \<and> sd_current (kn_sched (ks (Suc n))) = sd_current (kn_sched k')"
  shows "\<exists>n \<in> {1..4}. sd_current (kn_sched (ks n)) = j"
proof (rule ccontr)
  assume never: "\<not> (\<exists>n \<in> {1..4}. sd_current (kn_sched (ks n)) = j)"
  have dist: "turn_dist (kn_sched (ks n)) j + n \<le> 3" if "n \<le> 4" for n
    using that
  proof (induction n)
    case 0
    have "turn_dist (kn_sched (ks 0)) j < 4" by (simp add: turn_dist_def)
    then show ?case by simp
  next
    case (Suc n)
    then have n: "n < 4" by simp
    let ?s = "kn_sched (ks n)" and ?s' = "kn_sched (ks (Suc n))"
    have inv: "kernel_inv U (live n) (saved n) (ks n)" and run: "running_ok U (ks n)" and rdy: "in_state Ready ?s j"
      using ok [OF n] by blast+
    have ti: "tasks_inv (live n) ?s" using inv unfolding kernel_inv_def by blast
    obtain k' sw live' where "schedule (ks n) = Inr (k', sw)" "sd_current (kn_sched k') = turn ?s"
      by (rule schedule_ok [OF inv run]) blast
    then have cur: "sd_current ?s' = turn ?s" using step [OF n] by auto
    have "runnable ?s j" using rdy j by (simp add: runnable_ready [OF ti j(1)] IDLE_TASK_ID_def)
    moreover have "turn ?s \<noteq> j" using never Suc.prems cur by auto
    ultimately have "turn_dist ?s' j < turn_dist ?s j"
      using turn_dist_step [of ?s ?s' j] cur ti j(1) by (simp add: tasks_inv_def)
    then show ?case using Suc by simp
  qed
  show False using dist [of 4] by simp
qed

theorem ready_task_runs_example:
  "case heap_init demo_mem heap_empty demo_map of Inl e \<Rightarrow> False
   | Inr (m, h, mm) \<Rightarrow> (\<exists>n \<in> {1..4::nat}. sd_current (kn_sched (demo_kernel m h)) = 0)"
proof -
  fix saved :: "usize \<Rightarrow> regs"
  obtain m h where k: "heap_init demo_mem heap_empty demo_map = Inr (m, h, demo_map')"
    "kernel_inv demo_U Map.empty saved (demo_kernel m h)" "running_ok demo_U (demo_kernel m h)"
    by (rule demo_kernel_ok)
  have s: "kn_sched (demo_kernel m h) = demo_sched" "sd_current demo_sched = 0" by (simp_all add: demo_kernel_def demo_sched_def)
  have r: "runnable demo_sched j \<longleftrightarrow> j = 0" if "j < 4" for j
    using demo_task [OF that] demo_tasks(1)
    by (cases "j = 0"; cases "sd_tasks demo_sched ! j") (auto simp: runnable_def task_boot_def IDLE_TASK_ID_def)
  have "next_idx demo_sched \<noteq> None"
    using next_idx_None [of demo_sched 0] r [of 0] s(2) by auto
  then have "turn demo_sched = 0"
    using next_idx_Some(1,2) [of demo_sched] r s(2) by (auto simp: turn_def)
  moreover obtain k' sw where "schedule (demo_kernel m h) = Inr (k', sw)" "sd_current (kn_sched k') = turn demo_sched"
    by (rule schedule_ok [OF k(2,3)]) (auto simp: s)
  moreover have "in_state Ready demo_sched 0" by (simp add: in_state_def demo_sched_def task_boot_def)
  ultimately have "\<exists>n \<in> {1..4}. sd_current (kn_sched ((\<lambda>_::nat. demo_kernel m h) n)) = 0"
    using k s by (intro ready_task_runs [where live = "\<lambda>_. Map.empty" and saved = "\<lambda>_. saved" and U = demo_U])
      (auto simp: IDLE_TASK_ID_def)
  then show ?thesis using k(1) by simp
qed

subsection \<open>Input and interrupts\<close>

text \<open>
  C23. No wakeup is lost, over every interleaving of computing, reading, input and timer interrupts,
  preemption, spawning and exiting: while a character waits in the buffer, no task is blocked; and the
  wait queue always holds exactly the blocked tasks.
\<close>

theorem no_lost_wakeup:
  assumes start: "system_ok U s" and runs: "kernel_runs U s (k, inp)"
  shows "(ring_abs (ti_buffer inp) \<noteq> [] \<longrightarrow> (\<forall>i<4. \<not> in_state Blocked (kn_sched k) i))
    \<and> (\<forall>i. bit (ti_queue inp) i \<longleftrightarrow> i < 4 \<and> in_state Blocked (kn_sched k) i)"
proof -
  have "input_inv (kn_sched k) inp" using kernel_runs_ok [OF runs start] by (simp add: system_ok_def)
  then have e: "bit (ti_queue inp) i \<longleftrightarrow> i < 4 \<and> in_state Blocked (kn_sched k) i"
    and z: "ring_abs (ti_buffer inp) \<noteq> [] \<longrightarrow> ti_queue inp = 0" for i
    by (simp_all add: input_inv_def wait_exact_def)
  have "\<not> in_state Blocked (kn_sched k) i" if "ring_abs (ti_buffer inp) \<noteq> []" "i < 4" for i
    using e [of i] z that by auto
  then show ?thesis using e by blast
qed

lemma demo_system_ok:
  obtains m h where "heap_init demo_mem heap_empty demo_map = Inr (m, h, demo_map')"
    and "system_ok demo_U (demo_kernel m h, tty_input_new)" and "running_ok demo_U (demo_kernel m h)"
proof -
  fix saved :: "usize \<Rightarrow> regs"
  obtain m h where k: "heap_init demo_mem heap_empty demo_map = Inr (m, h, demo_map')"
    "kernel_inv demo_U Map.empty saved (demo_kernel m h)" "running_ok demo_U (demo_kernel m h)"
    by (rule demo_kernel_ok)
  have "system_ok demo_U (demo_kernel m h, tty_input_new)"
    using k(2) demo_input_inv unfolding system_ok_def by (auto simp: demo_kernel_def)
  then show thesis using that k by blast
qed

theorem no_lost_wakeup_example:
  "case heap_init demo_mem heap_empty demo_map of Inl e \<Rightarrow> False
   | Inr (m, h, mm) \<Rightarrow> (\<exists>k inp. push_character \<lparr>ib_byte = 65, ib_error = False\<rparr> (demo_kernel m h) tty_input_new = Inr (k, inp)
       \<and> (\<forall>i<4. bit (ti_queue inp) i \<longrightarrow> in_state Blocked (kn_sched k) i))"
proof -
  obtain m h where k: "heap_init demo_mem heap_empty demo_map = Inr (m, h, demo_map')"
    and ok: "system_ok demo_U (demo_kernel m h, tty_input_new)"
    by (rule demo_system_ok)
  obtain live saved where i: "kernel_inv demo_U live saved (demo_kernel m h)" "input_inv (kn_sched (demo_kernel m h)) tty_input_new"
    using ok by (auto simp: system_ok_def)
  obtain k' inp where p: "push_character \<lparr>ib_byte = 65, ib_error = False\<rparr> (demo_kernel m h) tty_input_new = Inr (k', inp)"
    by (rule push_character_ok [OF i])
  have "kernel_runs demo_U (demo_kernel m h, tty_input_new) (k', inp)"
    by (rule kernel_runs.run_step [OF kernel_runs.start kernel_step.Character [OF p]])
  from no_lost_wakeup [OF ok this] show ?thesis using k p by auto
qed

text \<open>
  C24. No operation of the running kernel panics: in every reachable state the interrupt handlers return,
  and so do reading, scheduling, spawning and exiting whenever a task that may call them runs.
\<close>

theorem kernel_never_panics:
  assumes start: "system_ok U s" and runs: "kernel_runs U s (k, inp)"
  shows "(\<exists>r. sched_tick k = Inr r) \<and> (\<forall>b. \<exists>r. push_character b k inp = Inr r)
    \<and> (running_ok U k \<longrightarrow> (\<exists>r. schedule k = Inr r) \<and> (\<exists>r. preempt k = Inr r)
        \<and> (sd_current (kn_sched k) \<noteq> IDLE_TASK_ID \<longrightarrow> (\<exists>r. getc_attempt k inp = Inr r) \<and> (\<exists>r. task_exit k = Inr r)))
    \<and> (\<forall>entry trampoline. entry < usize_limit \<and> trampoline < usize_limit \<longrightarrow> (\<exists>r. spawn trampoline entry k = Inr r))"
proof -
  obtain live saved where i: "kernel_inv U live saved k" and n: "input_inv (kn_sched k) inp"
    using kernel_runs_ok [OF runs start] by (auto simp: system_ok_def)
  have "\<exists>r. sched_tick k = Inr r" by (rule sched_tick_ok [OF i n]) blast
  moreover have "\<exists>r. push_character b k inp = Inr r" for b by (rule push_character_ok [OF i n, of b]) blast
  moreover have "\<exists>r. schedule k = Inr r" "\<exists>r. preempt k = Inr r" if r: "running_ok U k"
    by (rule schedule_input [OF i r n], blast) (rule preempt_input [OF i r n], blast)
  moreover have "\<exists>r. getc_attempt k inp = Inr r" "\<exists>r. task_exit k = Inr r"
    if r: "running_ok U k" "sd_current (kn_sched k) \<noteq> IDLE_TASK_ID"
    by (rule getc_attempt_ok [OF i r(1) n r(2)]; blast) (rule task_exit_input [OF i r(1) n r(2)], blast)
  moreover have "\<exists>r. spawn trampoline entry k = Inr r" if e: "entry < usize_limit" "trampoline < usize_limit" for entry trampoline
    by (rule spawn_input [OF i n e]) blast
  ultimately show ?thesis by blast
qed

theorem kernel_never_panics_example:
  "case heap_init demo_mem heap_empty demo_map of Inl e \<Rightarrow> False
   | Inr (m, h, mm) \<Rightarrow> (\<exists>r. getc_attempt (demo_kernel m h) tty_input_new = Inr r)"
proof -
  obtain m h where k: "heap_init demo_mem heap_empty demo_map = Inr (m, h, demo_map')"
    and ok: "system_ok demo_U (demo_kernel m h, tty_input_new)" "running_ok demo_U (demo_kernel m h)"
    by (rule demo_system_ok)
  have "sd_current (kn_sched (demo_kernel m h)) \<noteq> IDLE_TASK_ID" by (simp add: demo_kernel_def demo_sched_def IDLE_TASK_ID_def)
  then show ?thesis using kernel_never_panics [OF ok(1) kernel_runs.start] ok(2) k by auto
qed

subsection \<open>The ring buffer and the spin lock\<close>

text \<open>
  C25. The ring buffer is a bounded first-in first-out queue: every sequence of pushes and pops returns
  exactly what the same sequence on a list of at most 256 elements returns, where a push on a full list
  is dropped.
\<close>

theorem ring_buffer_refines:
  "queue_run ring_push ring_pop (ring_new d) ops = queue_run (list_push 256) list_pop [] ops"
  using ring.run_refines [OF ring.new_inv, of d ops] by (simp add: ring.new_abs)

text \<open>
  C26. Mutual exclusion, for any number of cores interleaved at their atomic accesses: at most one holds the
  lock, the flag is set exactly while one does, interrupts are masked on every core inside, and a core that
  is outside has its interrupt mask as it was.
\<close>

theorem lock_mutual_exclusion:
  assumes "lock_reachable d s"
  shows "(\<forall>t t'. holds s t \<and> holds s t' \<longrightarrow> t = t') \<and> (lk_locked s \<longleftrightarrow> (\<exists>t. holds s t))
    \<and> (\<forall>t. if fst (lk_cores s t) = Outside then snd (lk_cores s t) = d t else irqs_masked (snd (lk_cores s t)))"
proof -
  have i: "lock_inv d s" by (rule lock_reachable_inv [OF assms])
  have "if fst (lk_cores s t) = Outside then snd (lk_cores s t) = d t else irqs_masked (snd (lk_cores s t))" for t
  proof -
    have "core_ok (d t) (lk_cores s t)" using i unfolding lock_inv_def by blast
    then show ?thesis by (cases "fst (lk_cores s t)") (simp_all add: core_ok_def)
  qed
  then show ?thesis using i unfolding lock_inv_def by blast
qed

theorem lock_mutual_exclusion_example:
  "let s = step_core 0 lock_access (step_core 0 lock_access (step_core 0 (\<lambda>l c. (l, lock_enter c)) (lock_new (\<lambda>_. 0))))
   in holds s 0 \<and> \<not> holds s 1"
proof -
  let ?start = "lock_new (\<lambda>_. 0)" and ?enter = "\<lambda>l c. (l, lock_enter c)"
  let ?s = "step_core 0 lock_access (step_core 0 lock_access (step_core 0 ?enter ?start))"
  have "fst (lk_cores ?start 0) = Outside" by (simp add: lock_new_def)
  then have "lock_reachable (\<lambda>_. 0) (step_core 0 ?enter ?start)" by (intro lock_reachable.more [OF lock_reachable.new] lock_step.Enter)
  from lock_reachable.more [OF lock_reachable.more [OF this lock_step.Access] lock_step.Access]
  have r: "lock_reachable (\<lambda>_. 0) ?s" .
  have h: "holds ?s 0" by (simp add: holds_def step_core_def lock_new_def lock_enter_def)
  have "\<not> holds ?s 1"
  proof
    assume "holds ?s 1"
    then have "(1::nat) = 0" using h lock_mutual_exclusion [OF r] by blast
    then show False by simp
  qed
  then show ?thesis using h by (simp add: Let_def)
qed

text \<open>
  C27. \<open>lock\<close> ends: it holds the lock after two accesses when the flag is clear; and when the flag stays set,
  it is still trying after \<open>2 ^ 24\<close> loads and has panicked after one more.
\<close>

theorem lock_ends:
  "snd (lock_access False (snd (lock_access False (lock_enter c)))) = (Holding (snd c), mask_irqs (snd c))
    \<and> ((\<lambda>c. snd (lock_access True c)) ^^ (2 ^ 24)) (lock_enter c) = (Loading (of_nat (2 ^ 24)) (snd c), mask_irqs (snd c))
    \<and> ((\<lambda>c. snd (lock_access True c)) ^^ Suc (2 ^ 24)) (lock_enter c) = (GaveUp, mask_irqs (snd c))"
proof -
  have e: "lock_enter c = (Loading 0 (snd c), mask_irqs (snd c))" by (simp add: lock_enter_def)
  show ?thesis
    unfolding e
    by (intro conjI lock_gives_up lock_spins order_refl) simp
qed

end
