(* ===== verification/Descriptor.thy ===== *)
theory Descriptor
  imports Region
begin

text \<open>
  Translation table levels and descriptors (\<open>src/src/arch/aarch64/mmu/level.rs\<close>,
  \<open>src/src/arch/aarch64/mmu/descriptor.rs\<close>): which slot of a table an address falls in at each of the
  three levels, and the 64-bit encoding of a descriptor, field by field.
\<close>

subsection \<open>Levels\<close>

datatype level = Level1 | Level2 | Level3

fun level_number :: "level \<Rightarrow> nat" where
  "level_number Level1 = 1"
| "level_number Level2 = 2"
| "level_number Level3 = 3"

fun level_next :: "level \<Rightarrow> level option" where
  "level_next Level1 = Some Level2"
| "level_next Level2 = Some Level3"
| "level_next Level3 = None"

definition level_offset :: "level \<Rightarrow> nat" where
  "level_offset l = 12 + 9 * (3 - level_number l)"

definition slot_of :: "level \<Rightarrow> usize \<Rightarrow> nat" where
  "slot_of l va = usize_shr va (level_offset l) AND 511"

definition level_size :: "level \<Rightarrow> usize" where
  "level_size l = usize_shl 1 (level_offset l)"

definition offset_mask :: "level \<Rightarrow> usize" where
  "offset_mask l = usize_sub (level_size l) 1"

definition level_is_aligned :: "level \<Rightarrow> usize \<Rightarrow> bool" where
  "level_is_aligned l a \<longleftrightarrow> a AND offset_mask l = 0"

text \<open>Levels are ordered the way a walk visits them.\<close>

instantiation level :: linorder
begin

definition less_eq_level :: "level \<Rightarrow> level \<Rightarrow> bool" where
  "less_eq_level l l' \<longleftrightarrow> level_number l \<le> level_number l'"

definition less_level :: "level \<Rightarrow> level \<Rightarrow> bool" where
  "less_level l l' \<longleftrightarrow> level_number l < level_number l'"

instance
proof
  fix x y z :: level
  show "x \<le> y \<Longrightarrow> y \<le> x \<Longrightarrow> x = y" by (cases x; cases y) (simp_all add: less_eq_level_def)
qed (auto simp: less_eq_level_def less_level_def)

end

lemma level_next_less: "level_next l = Some n \<Longrightarrow> l < n"
  by (cases l) (auto simp: less_level_def)

text \<open>In arithmetic: a slot spans \<open>2 ^ offset\<close> bytes, a whole table 512 times as much.\<close>

lemma level_size_cases: "level_size Level1 = 1073741824" "level_size Level2 = 2097152" "level_size Level3 = 4096"
  by (simp_all add: level_size_def level_offset_def usize_shl_def)

lemma level_size_pow: "level_size l = 2 ^ level_offset l"
  by (cases l) (simp_all add: level_size_cases level_offset_def)

lemma level_size_pos [simp]: "0 < level_size l"
  by (simp add: level_size_pow)

lemma level_size_next: "level_next l = Some n \<Longrightarrow> level_size l = 512 * level_size n"
  by (cases l) (auto simp: level_size_cases)

lemma page_dvd_level [simp]: "4096 dvd level_size l"
  by (cases l) (simp_all add: level_size_cases)

lemma level_size_le: "level_size l \<le> 1073741824"
  by (cases l) (simp_all add: level_size_cases)

lemma slot_of_div: "slot_of l va = va div level_size l mod 512"
proof -
  have "x AND 511 = x mod 512" for x :: nat
    using take_bit_eq_mask [of 9 x] by (simp add: take_bit_eq_mod mask_eq_exp_minus_1)
  then show ?thesis
    by (cases l) (simp_all add: slot_of_def usize_shr_def level_size_cases level_offset_def)
qed

lemma slot_of_lt [simp]: "slot_of l va < 512"
  by (simp add: slot_of_div)

lemma offset_mask_eq: "offset_mask l = level_size l - 1"
  by (simp add: offset_mask_def usize_sub_small Suc_leI)

lemma and_offset_mask: "a AND offset_mask l = a mod level_size l"
  using take_bit_eq_mask [of "level_offset l" a]
  by (simp add: offset_mask_eq level_size_pow take_bit_eq_mod mask_eq_exp_minus_1)

lemma level_is_aligned_dvd: "level_is_aligned l a \<longleftrightarrow> level_size l dvd a"
  by (simp add: level_is_aligned_def and_offset_mask dvd_eq_mod_eq_0)

lemma and_not_offset_mask: "a < usize_limit \<Longrightarrow> a AND usize_not (offset_mask l) = a div level_size l * level_size l"
  using and_not_mask [of a "level_offset l"] by (cases l) (simp_all add: offset_mask_eq level_size_pow level_offset_def)

subsection \<open>The fields of a descriptor\<close>

datatype kind = Invalid | Block | Table

fun kind_from_level :: "level \<Rightarrow> kind" where
  "kind_from_level Level1 = Block"
| "kind_from_level Level2 = Block"
| "kind_from_level Level3 = Table"

definition kind_from_u64 :: "u64 \<Rightarrow> kind" where
  "kind_from_u64 v = (let b = v AND 3 in if b = 1 then Block else if b = 3 then Table else Invalid)"

fun kind_to_u64 :: "kind \<Rightarrow> u64" where
  "kind_to_u64 Invalid = 0"
| "kind_to_u64 Block = 1"
| "kind_to_u64 Table = 3"

datatype attr_index = Normal | Device | Other u8

definition attr_from_u64 :: "u64 \<Rightarrow> attr_index" where
  "attr_from_u64 v = (let b = drop_bit 2 v AND 7 in
    if b = 0 then Normal else if b = 1 then Device else Other (ucast b))"

fun attr_to_u64 :: "attr_index \<Rightarrow> u64" where
  "attr_to_u64 Normal = 0"
| "attr_to_u64 Device = 1"
| "attr_to_u64 (Other k) = ucast k AND 7"

datatype access_permissions = KernelReadWrite | AllReadWrite | KernelReadOnly | AllReadOnly

definition ap_from_u64 :: "u64 \<Rightarrow> access_permissions" where
  "ap_from_u64 v = (let b = drop_bit 6 v AND 3 in
    if b = 0 then KernelReadWrite else if b = 1 then AllReadWrite else if b = 2 then KernelReadOnly else AllReadOnly)"

fun ap_to_u64 :: "access_permissions \<Rightarrow> u64" where
  "ap_to_u64 KernelReadWrite = 0"
| "ap_to_u64 AllReadWrite = 1"
| "ap_to_u64 KernelReadOnly = 2"
| "ap_to_u64 AllReadOnly = 3"

datatype shareability = NonShareable | ReservedShare | OuterShareable | InnerShareable

definition sh_from_u64 :: "u64 \<Rightarrow> shareability" where
  "sh_from_u64 v = (let b = drop_bit 8 v AND 3 in
    if b = 0 then NonShareable else if b = 1 then ReservedShare else if b = 2 then OuterShareable else InnerShareable)"

fun sh_to_u64 :: "shareability \<Rightarrow> u64" where
  "sh_to_u64 NonShareable = 0"
| "sh_to_u64 ReservedShare = 1"
| "sh_to_u64 OuterShareable = 2"
| "sh_to_u64 InnerShareable = 3"

record descriptor =
  d_kind :: kind
  d_attr_idx :: attr_index
  d_ns :: bool
  d_ap :: access_permissions
  d_sh :: shareability
  d_af :: bool
  d_ng :: bool
  d_address :: usize
  d_contig :: bool
  d_pxn :: bool
  d_uxn :: bool

text \<open>Bits 47:12.\<close>

definition ADDRESS_BITS :: u64 where
  "ADDRESS_BITS = 0x0000FFFFFFFFF000"

definition desc_from_u64 :: "u64 \<Rightarrow> descriptor" where
  "desc_from_u64 v = \<lparr>d_kind = kind_from_u64 v, d_attr_idx = attr_from_u64 v,
    d_ns = (v AND push_bit 5 1 \<noteq> 0), d_ap = ap_from_u64 v, d_sh = sh_from_u64 v,
    d_af = (v AND push_bit 10 1 \<noteq> 0), d_ng = (v AND push_bit 11 1 \<noteq> 0),
    d_address = unat (v AND ADDRESS_BITS), d_contig = (v AND push_bit 52 1 \<noteq> 0),
    d_pxn = (v AND push_bit 53 1 \<noteq> 0), d_uxn = (v AND push_bit 54 1 \<noteq> 0)\<rparr>"

definition desc_to_u64 :: "descriptor \<Rightarrow> u64" where
  "desc_to_u64 d = kind_to_u64 (d_kind d)
    OR push_bit 2 (attr_to_u64 (d_attr_idx d))
    OR push_bit 5 (of_bool (d_ns d))
    OR push_bit 6 (ap_to_u64 (d_ap d))
    OR push_bit 8 (sh_to_u64 (d_sh d))
    OR push_bit 10 (of_bool (d_af d))
    OR push_bit 11 (of_bool (d_ng d))
    OR (of_nat (d_address d) AND ADDRESS_BITS)
    OR push_bit 52 (of_bool (d_contig d))
    OR push_bit 53 (of_bool (d_pxn d))
    OR push_bit 54 (of_bool (d_uxn d))"

subsection \<open>The descriptors the kernel maps with\<close>

definition desc_ZERO :: descriptor where
  "desc_ZERO = desc_from_u64 0"

definition DEVICE_BLOCK :: descriptor where
  "DEVICE_BLOCK = \<lparr>d_kind = Block, d_attr_idx = Device, d_ns = False, d_ap = KernelReadWrite,
    d_sh = NonShareable, d_af = True, d_ng = False, d_address = 0, d_contig = False, d_pxn = True, d_uxn = True\<rparr>"

definition NORMAL_BLOCK :: descriptor where
  "NORMAL_BLOCK = \<lparr>d_kind = Block, d_attr_idx = Normal, d_ns = False, d_ap = KernelReadWrite,
    d_sh = InnerShareable, d_af = True, d_ng = False, d_address = 0x40000000, d_contig = False, d_pxn = False, d_uxn = True\<rparr>"

definition EXECUTABLE :: descriptor where
  "EXECUTABLE = \<lparr>d_kind = Block, d_attr_idx = Normal, d_ns = False, d_ap = KernelReadOnly,
    d_sh = InnerShareable, d_af = True, d_ng = False, d_address = 0x40000000, d_contig = False, d_pxn = False, d_uxn = True\<rparr>"

definition READ_ONLY :: descriptor where
  "READ_ONLY = \<lparr>d_kind = Block, d_attr_idx = Normal, d_ns = False, d_ap = KernelReadOnly,
    d_sh = InnerShareable, d_af = True, d_ng = False, d_address = 0x40000000, d_contig = False, d_pxn = True, d_uxn = True\<rparr>"

definition WRITABLE :: descriptor where
  "WRITABLE = \<lparr>d_kind = Block, d_attr_idx = Normal, d_ns = False, d_ap = KernelReadWrite,
    d_sh = InnerShareable, d_af = True, d_ng = False, d_address = 0x40000000, d_contig = False, d_pxn = True, d_uxn = True\<rparr>"

lemmas templates = DEVICE_BLOCK_def NORMAL_BLOCK_def EXECUTABLE_def READ_ONLY_def WRITABLE_def

subsection \<open>Round trip\<close>

text \<open>
  A descriptor the 64 bits can hold: a memory type in three bits that is written the one way the decoder
  writes it, and a page-aligned address of at most 48 bits.
\<close>

definition attr_fits :: "attr_index \<Rightarrow> bool" where
  "attr_fits a \<longleftrightarrow> (case a of Other k \<Rightarrow> 2 \<le> k \<and> k < 8 | _ \<Rightarrow> True)"

definition address_fits :: "usize \<Rightarrow> bool" where
  "address_fits a \<longleftrightarrow> a < 2 ^ 48 \<and> 4096 dvd a"

definition desc_fits :: "descriptor \<Rightarrow> bool" where
  "desc_fits d \<longleftrightarrow> attr_fits (d_attr_idx d) \<and> address_fits (d_address d)"

lemma code_widths:
  "take_bit 2 (kind_to_u64 k) = kind_to_u64 k" "take_bit 3 (attr_to_u64 a) = attr_to_u64 a"
  "take_bit 2 (ap_to_u64 p) = ap_to_u64 p" "take_bit 2 (sh_to_u64 s) = sh_to_u64 s"
proof -
  show "take_bit 2 (kind_to_u64 k) = kind_to_u64 k" by (cases k) simp_all
  show "take_bit 2 (ap_to_u64 p) = ap_to_u64 p" by (cases p) simp_all
  show "take_bit 2 (sh_to_u64 s) = sh_to_u64 s" by (cases s) simp_all
  have "x AND 7 = take_bit 3 x" for x :: u64 by (simp add: take_bit_eq_mask mask_eq_exp_minus_1)
  then show "take_bit 3 (attr_to_u64 a) = attr_to_u64 a" by (cases a) simp_all
qed

lemma ADDRESS_BITS_mask: "ADDRESS_BITS = push_bit 12 (mask 36)"
  by (simp add: ADDRESS_BITS_def mask_eq_exp_minus_1)

lemma flag_bit: "v AND push_bit k 1 \<noteq> 0 \<longleftrightarrow> bit v k" for v :: u64
  by (simp only: bit_iff_and_push_bit_not_eq_0)

lemma bits_below: "take_bit w x = x \<Longrightarrow> bit x n \<Longrightarrow> n < w" for x :: u64
  by (metis bit_take_bit_iff)

lemma bit_to_u64:
  assumes n: "n < 64"
  shows "bit (desc_to_u64 d) n =
    (if n < 2 then bit (kind_to_u64 (d_kind d)) n
     else if n < 5 then bit (attr_to_u64 (d_attr_idx d)) (n - 2)
     else if n < 6 then d_ns d
     else if n < 8 then bit (ap_to_u64 (d_ap d)) (n - 6)
     else if n < 10 then bit (sh_to_u64 (d_sh d)) (n - 8)
     else if n < 11 then d_af d
     else if n < 12 then d_ng d
     else if n < 48 then bit (d_address d) n
     else if n < 52 then False
     else if n < 53 then d_contig d
     else if n < 54 then d_pxn d
     else n < 55 \<and> d_uxn d)"
proof -
  note b = bits_below [OF code_widths(1)] bits_below [OF code_widths(2)] bits_below [OF code_widths(3)] bits_below [OF code_widths(4)]
  have one: "bit (push_bit k (of_bool c :: u64)) n \<longleftrightarrow> n = k \<and> c" if "k < 64" for k c
    using n that by (cases c) (auto simp: bit_exp_iff)
  have field: "bit (push_bit k x) n \<longleftrightarrow> k \<le> n \<and> n < k + w \<and> bit x (n - k)"
    if "take_bit w x = x" for k w and x :: u64
    using n bits_below [OF that, of "n - k"] by (auto simp: bit_push_bit_iff)
  have kind: "bit (kind_to_u64 (d_kind d)) n \<longleftrightarrow> n < 2 \<and> bit (kind_to_u64 (d_kind d)) n"
    using bits_below [OF code_widths(1)] by blast
  have adr: "bit (of_nat (d_address d) AND ADDRESS_BITS) n \<longleftrightarrow> bit (d_address d) n \<and> 12 \<le> n \<and> n < 48"
    using n by (auto simp: ADDRESS_BITS_mask bit_simps)
  have or: "bit (desc_to_u64 d) n \<longleftrightarrow> (n < 2 \<and> bit (kind_to_u64 (d_kind d)) n)
      \<or> (2 \<le> n \<and> n < 5 \<and> bit (attr_to_u64 (d_attr_idx d)) (n - 2)) \<or> n = 5 \<and> d_ns d
      \<or> (6 \<le> n \<and> n < 8 \<and> bit (ap_to_u64 (d_ap d)) (n - 6)) \<or> (8 \<le> n \<and> n < 10 \<and> bit (sh_to_u64 (d_sh d)) (n - 8))
      \<or> n = 10 \<and> d_af d \<or> n = 11 \<and> d_ng d \<or> (bit (d_address d) n \<and> 12 \<le> n \<and> n < 48)
      \<or> n = 52 \<and> d_contig d \<or> n = 53 \<and> d_pxn d \<or> n = 54 \<and> d_uxn d"
    unfolding desc_to_u64_def bit_or_iff adr using kind
    by (simp add: one field [OF code_widths(2)] field [OF code_widths(3)] field [OF code_widths(4)])
  consider "n < 2" | "2 \<le> n" "n < 5" | "n = 5" | "6 \<le> n" "n < 8" | "8 \<le> n" "n < 10" | "n = 10" | "n = 11"
    | "12 \<le> n" "n < 48" | "48 \<le> n" "n < 52" | "n = 52" | "n = 53" | "n = 54" | "55 \<le> n"
    by linarith
  then show ?thesis unfolding or by cases simp_all
qed

lemma word_field:
  fixes v x :: u64
  assumes "take_bit w x = x" "k + w \<le> 64" and "\<And>n. n < w \<Longrightarrow> bit v (k + n) = bit x n"
  shows "take_bit w (drop_bit k v) = x"
proof (rule bit_word_eqI)
  fix n
  show "bit (take_bit w (drop_bit k v)) n = bit x n"
  proof (cases "n < w")
    case False
    then show ?thesis using bits_below [OF assms(1), of n] by (auto simp: bit_take_bit_iff)
  qed (simp add: assms(3) bit_take_bit_iff bit_drop_bit_eq)
qed

lemma to_u64_fields:
  "take_bit 2 (desc_to_u64 d) = kind_to_u64 (d_kind d)"
  "take_bit 3 (drop_bit 2 (desc_to_u64 d)) = attr_to_u64 (d_attr_idx d)"
  "take_bit 2 (drop_bit 6 (desc_to_u64 d)) = ap_to_u64 (d_ap d)"
  "take_bit 2 (drop_bit 8 (desc_to_u64 d)) = sh_to_u64 (d_sh d)"
proof -
  show "take_bit 2 (desc_to_u64 d) = kind_to_u64 (d_kind d)"
    using word_field [OF code_widths(1), of 0 "desc_to_u64 d" "d_kind d"] by (simp add: bit_to_u64)
  show "take_bit 3 (drop_bit 2 (desc_to_u64 d)) = attr_to_u64 (d_attr_idx d)"
    by (rule word_field [OF code_widths(2)]) (simp_all add: bit_to_u64)
  show "take_bit 2 (drop_bit 6 (desc_to_u64 d)) = ap_to_u64 (d_ap d)"
    by (rule word_field [OF code_widths(3)]) (simp_all add: bit_to_u64)
  show "take_bit 2 (drop_bit 8 (desc_to_u64 d)) = sh_to_u64 (d_sh d)"
    by (rule word_field [OF code_widths(4)]) (simp_all add: bit_to_u64)
qed

lemma to_u64_address:
  assumes "address_fits (d_address d)"
  shows "unat (desc_to_u64 d AND ADDRESS_BITS) = d_address d"
proof -
  let ?a = "d_address d"
  obtain b where b: "?a = 4096 * b" using assms by (auto simp: address_fits_def)
  then have "?a = push_bit 12 b" by (simp add: push_bit_eq_mult)
  then have low: "bit ?a n \<Longrightarrow> 12 \<le> n" for n by (simp add: bit_push_bit_iff)
  have "take_bit 48 ?a = ?a" using assms by (simp add: address_fits_def take_bit_nat_eq_self)
  then have high: "bit ?a n \<Longrightarrow> n < 48" for n by (metis bit_take_bit_iff)
  have "desc_to_u64 d AND ADDRESS_BITS = of_nat ?a"
  proof (rule bit_word_eqI)
    fix n assume "n < LENGTH(64)"
    then have n: "n < 64" by simp
    then show "bit (desc_to_u64 d AND ADDRESS_BITS) n = bit (of_nat ?a :: u64) n"
      using low [of n] high [of n] bit_to_u64 [OF n, of d]
      by (cases "12 \<le> n \<and> n < 48") (auto simp: ADDRESS_BITS_mask bit_simps)
  qed
  moreover have "?a < 2 ^ LENGTH(64)" using assms by (simp add: address_fits_def)
  ultimately show ?thesis by (simp add: unat_of_nat take_bit_nat_eq_self)
qed

lemma from_u64_masks:
  "kind_from_u64 v = (let b = take_bit 2 v in if b = 1 then Block else if b = 3 then Table else Invalid)"
  "attr_from_u64 v = (let b = take_bit 3 (drop_bit 2 v) in if b = 0 then Normal else if b = 1 then Device else Other (ucast b))"
  "ap_from_u64 v = (let b = take_bit 2 (drop_bit 6 v) in
    if b = 0 then KernelReadWrite else if b = 1 then AllReadWrite else if b = 2 then KernelReadOnly else AllReadOnly)"
  "sh_from_u64 v = (let b = take_bit 2 (drop_bit 8 v) in
    if b = 0 then NonShareable else if b = 1 then ReservedShare else if b = 2 then OuterShareable else InnerShareable)"
  by (simp_all add: kind_from_u64_def attr_from_u64_def ap_from_u64_def sh_from_u64_def take_bit_eq_mask mask_eq_exp_minus_1)

lemma attr_code_trip:
  assumes "attr_fits a"
  shows "(if attr_to_u64 a = 0 then Normal else if attr_to_u64 a = 1 then Device else Other (ucast (attr_to_u64 a))) = a"
proof (cases a)
  case (Other k)
  then have k: "2 \<le> unat k" "unat k < 8" using assms by (simp_all add: attr_fits_def word_le_nat_alt word_less_nat_alt)
  have "ucast k AND (7 :: u64) = take_bit 3 (ucast k)" by (simp add: take_bit_eq_mask mask_eq_exp_minus_1)
  then have u: "unat (attr_to_u64 a) = unat k"
    using Other k by (simp add: unsigned_take_bit_eq unsigned_ucast_eq take_bit_nat_eq_self)
  then have "attr_to_u64 a \<noteq> 0" "attr_to_u64 a \<noteq> 1" using k by auto
  moreover have "ucast (attr_to_u64 a) = k" using u 
    by (intro word_unat_eq_iff [THEN iffD2]) (use k in \<open>simp add: unsigned_ucast_eq take_bit_nat_eq_self\<close>)
  ultimately show ?thesis using Other by simp
qed simp_all

lemma desc_round_trip:
  assumes "desc_fits d"
  shows "desc_from_u64 (desc_to_u64 d) = d"
proof -
  note fits = assms [unfolded desc_fits_def]
  note m = from_u64_masks [of "desc_to_u64 d", unfolded to_u64_fields Let_def]
  have "kind_from_u64 (desc_to_u64 d) = d_kind d" by (cases "d_kind d") (simp_all add: m)
  moreover have "attr_from_u64 (desc_to_u64 d) = d_attr_idx d" using attr_code_trip fits by (simp only: m)
  moreover have "ap_from_u64 (desc_to_u64 d) = d_ap d" by (cases "d_ap d") (simp_all add: m)
  moreover have "sh_from_u64 (desc_to_u64 d) = d_sh d" by (cases "d_sh d") (simp_all add: m)
  moreover have "unat (desc_to_u64 d AND ADDRESS_BITS) = d_address d" by (rule to_u64_address) (use fits in simp)
  ultimately show ?thesis by (simp add: desc_from_u64_def flag_bit bit_to_u64 del: push_bit_of_1)
qed

end
