(* ===== verification/PageTable.thy ===== *)
theory PageTable
  imports Descriptor HeapCorrect
begin

text \<open>
  Translation tables (\<open>src/src/arch/aarch64/mmu/mod.rs\<close>, \<open>policy.rs\<close>, \<open>init.rs\<close>). A table is one page
  of the heap: 512 descriptors of eight bytes in the memory every component shares. \<open>map_range\<close> is a
  loop over the slots of one table that goes down a level for a slot it fills only in part.
\<close>

type_synonym table = usize

definition SLOTS :: nat where
  "SLOTS = 512"

definition SLOT_MASK :: nat where
  "SLOT_MASK = SLOTS - 1"

datatype map_error =
  OutOfMemory
| Unaligned usize
| BlockInTheWay usize level
| TableInTheWay usize level

datatype plan_error =
  NoTable
| Failed string map_error
| Overlap string string

record mapping =
  mp_name :: string
  mp_region :: region
  mp_template :: "descriptor option"

subsection \<open>One table\<close>

definition slot_addr_in :: "table \<Rightarrow> nat \<Rightarrow> usize" where
  "slot_addr_in t slot = usize_add t (8 * (slot AND SLOT_MASK))"

definition table_set :: "mem \<Rightarrow> table \<Rightarrow> nat \<Rightarrow> descriptor \<Rightarrow> mem" where
  "table_set m t slot d = write_u64 m (slot_addr_in t slot) (desc_to_u64 d)"

definition table_get :: "mem \<Rightarrow> table \<Rightarrow> nat \<Rightarrow> descriptor" where
  "table_get m t slot = desc_from_u64 (read_u64 m (slot_addr_in t slot))"

definition table_clear :: "mem \<Rightarrow> table \<Rightarrow> mem" where
  "table_clear m t = fold (\<lambda>slot m. table_set m t slot desc_ZERO) [0..<SLOTS] m"

definition table_layout :: layout where
  "table_layout = \<lparr>l_size = PAGE_SIZE, l_align = PAGE_SIZE\<rparr>"

text \<open>\<open>NonNull::new\<close>, which \<open>from_base\<close> is.\<close>

definition from_base :: "usize \<Rightarrow> table option" where
  "from_base base = (if base = 0 then None else Some base)"

definition table_new :: "mem \<Rightarrow> heap \<Rightarrow> (mem \<times> heap \<times> table option) outcome" where
  "table_new m h = obind (alloc_layout m h table_layout) (\<lambda>(m', h', a).
    Inr (case Option.bind a from_base of
      None \<Rightarrow> (m', h', None)
    | Some t \<Rightarrow> (table_clear m' t, h', Some t)))"

definition child_table :: "mem \<Rightarrow> heap \<Rightarrow> table \<Rightarrow> usize \<Rightarrow> level \<Rightarrow> (mem \<times> heap \<times> (map_error + table)) outcome" where
  "child_table m h t va l =
    (let slot = slot_of l va; d = table_get m t slot in
     case d_kind d of
       Table \<Rightarrow> Inr (m, h, case from_base (d_address d) of None \<Rightarrow> Inl OutOfMemory | Some c \<Rightarrow> Inr c)
     | Invalid \<Rightarrow> obind (table_new m h) (\<lambda>(m', h', c).
         Inr (case c of
           None \<Rightarrow> (m', h', Inl OutOfMemory)
         | Some child \<Rightarrow>
             (table_set m' t slot (desc_ZERO\<lparr>d_kind := Table, d_address := child\<rparr>), h', Inr child)))
     | Block \<Rightarrow> Inr (m, h, Inl (BlockInTheWay va l)))"

subsection \<open>The walk\<close>

function translate_at :: "mem \<Rightarrow> table \<Rightarrow> usize \<Rightarrow> level \<Rightarrow> (usize \<times> level) option" where
  "translate_at m t va l =
    (let d = table_get m t (slot_of l va);
         off = va AND offset_mask l
     in case d_kind d of
          Invalid \<Rightarrow> None
        | Block \<Rightarrow> Some (d_address d OR off, l)
        | Table \<Rightarrow>
            (case level_next l of
               None \<Rightarrow> Some (d_address d OR off, l)
             | Some n \<Rightarrow>
                 (case from_base (d_address d) of
                    None \<Rightarrow> None
                  | Some c \<Rightarrow> translate_at m c va n)))"
  by pat_completeness auto
termination
  by (relation "measure (\<lambda>(m, t, va, l). 3 - level_number l)")
    (simp, case_tac l, simp_all)

declare translate_at.simps [simp del]

definition translate :: "mem \<Rightarrow> table \<Rightarrow> usize \<Rightarrow> usize option" where
  "translate m t va = map_option fst (translate_at m t va Level1)"

definition translate_with_level :: "mem \<Rightarrow> table \<Rightarrow> usize \<Rightarrow> (usize \<times> level) option" where
  "translate_with_level m t va = translate_at m t va Level1"

subsection \<open>Mapping a range\<close>

type_synonym map_result = "(mem \<times> heap \<times> (map_error + unit)) outcome"

text \<open>
  Each pass of the loop covers one slot, so a range that does not wrap past the end of the address
  space takes at most one pass per slot it fills and one more at each end.
\<close>

definition map_passes :: "region \<Rightarrow> level \<Rightarrow> nat" where
  "map_passes r l = r_size r div level_size l + 2"

text \<open>
  \<open>below\<close> is \<open>map_range\<close> at the next level, \<open>None\<close> at the last one. \<open>map_range\<close> ties the knot: it hands
  the loop itself, one level down.
\<close>

type_synonym map_below = "mem \<Rightarrow> heap \<Rightarrow> table \<Rightarrow> region \<Rightarrow> map_result"

definition slot_end :: "level \<Rightarrow> usize \<Rightarrow> usize" where
  "slot_end l addr = usize_add (addr AND usize_not (offset_mask l)) (level_size l)"

definition chunk_end :: "level \<Rightarrow> usize \<Rightarrow> usize \<Rightarrow> usize" where
  "chunk_end l addr fin = min (slot_end l addr) fin"

fun map_loop ::
  "map_below option \<Rightarrow> level \<Rightarrow> descriptor \<Rightarrow> table \<Rightarrow> usize \<Rightarrow> nat \<Rightarrow> mem \<Rightarrow> heap \<Rightarrow> usize \<Rightarrow> map_result"
where
  "map_loop below l template t fin 0 m h addr = (if addr < fin then Inl OutOfFuel else Inr (m, h, Inr ()))"
| "map_loop below l template t fin (Suc fuel) m h addr =
    (if \<not> addr < fin then Inr (m, h, Inr ())
     else
       (if level_is_aligned l addr \<and> chunk_end l addr fin = slot_end l addr then
             (let d = table_get m t (slot_of l addr) in
              if level_next l \<noteq> None \<and> d_kind d = Table then Inr (m, h, Inl (TableInTheWay addr l))
              else map_loop below l template t fin fuel
                (table_set m t (slot_of l addr) (template\<lparr>d_kind := kind_from_level l, d_address := addr\<rparr>))
                h (chunk_end l addr fin))
           else
             (case below of
                None \<Rightarrow> Inr (m, h, Inl (Unaligned addr))
              | Some map_below \<Rightarrow>
                  obind (child_table m h t addr l) (\<lambda>(m1, h1, found).
                  case found of
                    Inl e \<Rightarrow> Inr (m1, h1, Inl e)
                  | Inr child \<Rightarrow>
                      obind (map_below m1 h1 child \<lparr>r_base = addr, r_size = usize_sub (chunk_end l addr fin) addr\<rparr>) (\<lambda>(m2, h2, res).
                      case res of
                        Inl e \<Rightarrow> Inr (m2, h2, Inl e)
                      | Inr _ \<Rightarrow> map_loop below l template t fin fuel m2 h2 (chunk_end l addr fin))))))"

function map_range :: "mem \<Rightarrow> heap \<Rightarrow> table \<Rightarrow> region \<Rightarrow> descriptor \<Rightarrow> level \<Rightarrow> map_result" where
  "map_range m h t r template l =
    map_loop
      (case level_next l of
         None \<Rightarrow> None
       | Some n \<Rightarrow> Some (\<lambda>m' h' child part. map_range m' h' child part template n))
      l template t (region_end r) (map_passes r l) m h (r_base r)"
  by pat_completeness auto
termination
  by (relation "measure (\<lambda>(m, h, t, r, template, l). 3 - level_number l)") (simp, case_tac l, simp_all)

declare map_range.simps [simp del]

definition identity_map :: "mem \<Rightarrow> heap \<Rightarrow> table \<Rightarrow> region \<Rightarrow> descriptor \<Rightarrow> map_result" where
  "identity_map m h t r template = map_range m h t r template Level1"

subsection \<open>Applying a plan\<close>

definition regions_overlap :: "region \<Rightarrow> region \<Rightarrow> bool" where
  "regions_overlap one other \<longleftrightarrow> r_base one < region_end other \<and> r_base other < region_end one"

fun plan_overlap :: "mapping list \<Rightarrow> (string \<times> string) option" where
  "plan_overlap [] = None"
| "plan_overlap (one # rest) =
    (case find (\<lambda>other. regions_overlap (mp_region one) (mp_region other)) rest of
       Some other \<Rightarrow> Some (mp_name one, mp_name other)
     | None \<Rightarrow> plan_overlap rest)"

type_synonym plan_result = "(mem \<times> heap \<times> (plan_error + unit)) outcome"

text \<open>The loop over the regions to map, each with the name an error is reported under.\<close>

fun map_all :: "mem \<Rightarrow> heap \<Rightarrow> table \<Rightarrow> (string \<times> region \<times> descriptor) list \<Rightarrow> plan_result" where
  "map_all m h t [] = Inr (m, h, Inr ())"
| "map_all m h t ((name, r, template) # rest) =
    obind (identity_map m h t r template) (\<lambda>(m', h', res).
    case res of
      Inl e \<Rightarrow> Inr (m', h', Inl (Failed name e))
    | Inr _ \<Rightarrow> map_all m' h' t rest)"

definition plan_jobs :: "mapping list \<Rightarrow> (string \<times> region \<times> descriptor) list" where
  "plan_jobs plan = List.map_filter (\<lambda>p. map_option (\<lambda>tpl. (mp_name p, mp_region p, tpl)) (mp_template p)) plan"

definition gap_jobs :: "region \<Rightarrow> mapping list \<Rightarrow> descriptor \<Rightarrow> (string \<times> region \<times> descriptor) list" where
  "gap_jobs arena plan fill = map (\<lambda>gap. (''unclaimed memory'', pr_region gap, fill)) (gaps arena (map mp_region plan))"

definition table_apply :: "mem \<Rightarrow> heap \<Rightarrow> table \<Rightarrow> region \<Rightarrow> mapping list \<Rightarrow> descriptor \<Rightarrow> plan_result" where
  "table_apply m h t arena plan fill =
    (case plan_overlap plan of
       Some (one, other) \<Rightarrow> Inr (m, h, Inl (Overlap one other))
     | None \<Rightarrow>
         obind (map_all m h t (plan_jobs plan)) (\<lambda>(m', h', res).
         case res of
           Inl e \<Rightarrow> Inr (m', h', Inl e)
         | Inr _ \<Rightarrow> map_all m' h' t (gap_jobs arena plan fill)))"

subsection \<open>Switching the MMU on\<close>

record mmu_registers =
  sr_mair :: u64
  sr_tcr :: u64
  sr_ttbr0 :: u64
  sr_sctlr :: u64

definition MAIR_EL1 :: u64 where
  "MAIR_EL1 = push_bit (0 * 8) 0xFF OR push_bit (1 * 8) 0x00"

definition T0SZ :: u64 where
  "T0SZ = 64 - 39"

definition TCR_EL1 :: u64 where
  "TCR_EL1 = push_bit 0 T0SZ OR push_bit 8 1 OR push_bit 10 1 OR push_bit 12 3 OR push_bit 14 0
    OR push_bit 23 1 OR push_bit 30 2 OR push_bit 32 2"

definition SCTLR_WXN :: u64 where
  "SCTLR_WXN = push_bit 19 1"

definition SCTLR_EL1 :: u64 where
  "SCTLR_EL1 = push_bit 0 1 OR push_bit 2 1 OR push_bit 12 1 OR SCTLR_WXN"

definition mmu_enable :: "mmu_registers \<Rightarrow> table \<Rightarrow> mmu_registers" where
  "mmu_enable sr t = sr\<lparr>sr_mair := MAIR_EL1, sr_tcr := TCR_EL1, sr_ttbr0 := of_nat t,
    sr_sctlr := sr_sctlr sr OR SCTLR_EL1\<rparr>"

definition boot_plan :: "linker_symbols \<Rightarrow> region \<Rightarrow> mapping list" where
  "boot_plan ld dtb =
    [\<lparr>mp_name = ''text and vectors'', mp_region = executable ld, mp_template = Some EXECUTABLE\<rparr>,
     \<lparr>mp_name = ''rodata'', mp_region = rodata ld, mp_template = Some READ_ONLY\<rparr>,
     \<lparr>mp_name = ''data and bss'', mp_region = writable_data ld, mp_template = Some WRITABLE\<rparr>,
     \<lparr>mp_name = ''stack guard'', mp_region = stack_guard ld, mp_template = None\<rparr>,
     \<lparr>mp_name = ''stack'', mp_region = stack ld, mp_template = Some WRITABLE\<rparr>,
     \<lparr>mp_name = ''device tree'', mp_region = dtb, mp_template = Some READ_ONLY\<rparr>]"

definition mmu_init ::
  "mem \<Rightarrow> heap \<Rightarrow> mmu_registers \<Rightarrow> linker_symbols \<Rightarrow> region \<Rightarrow> region \<Rightarrow> (mem \<times> heap \<times> (plan_error + mmu_registers)) outcome"
where
  "mmu_init m h sr ld memory dtb =
    obind (table_new m h) (\<lambda>(m0, h0, found).
    case found of
      None \<Rightarrow> Inr (m0, h0, Inl NoTable)
    | Some t \<Rightarrow>
        obind (table_apply m0 h0 t memory (boot_plan ld dtb) NORMAL_BLOCK) (\<lambda>(m1, h1, res).
        case res of
          Inl e \<Rightarrow> Inr (m1, h1, Inl e)
        | Inr _ \<Rightarrow>
            obind (table_apply m1 h1 t \<lparr>r_base = 0, r_size = r_base memory\<rparr> [] DEVICE_BLOCK) (\<lambda>(m2, h2, res').
            Inr (m2, h2, case res' of Inl e \<Rightarrow> Inl e | Inr _ \<Rightarrow> Inr (mmu_enable sr t)))))"

end
