(* ===== verification/PageTableCorrect.thy ===== *)
theory PageTableCorrect imports PageTable begin

text \<open>
  Correctness of the translation tables. The tables a walk can reach form a tree of pages; \<open>pt_wf\<close> says
  that they are distinct pages and that none is empty, \<open>leaf\<close> is the descriptor a walk ends at, and
  mapping a range changes \<open>leaf\<close> for the addresses of the range and for no others.
\<close>

subsection \<open>Slots in memory\<close>

definition table_ok :: "table \<Rightarrow> bool" where
  "table_ok t \<longleftrightarrow> t \<noteq> 0 \<and> address_fits t"

definition table_bytes :: "table set \<Rightarrow> usize set" where
  "table_bytes T = (\<Union>t \<in> T. range_of t 4096)"

lemma slot_addr_in_eq: "table_ok t \<Longrightarrow> slot_addr_in t i = t + 8 * (i mod 512)"
proof -
  assume t: "table_ok t"
  have "i AND SLOT_MASK = i mod 512"
    using take_bit_eq_mask [of 9 i] by (simp add: SLOT_MASK_def SLOTS_def take_bit_eq_mod mask_eq_exp_minus_1)
  moreover have "i mod 512 < 512" by simp
  then have "t + 8 * (i mod 512) < usize_limit"
    using t by (simp add: table_ok_def address_fits_def del: pos_mod_bound mod_less_divisor)
  ultimately show ?thesis by (simp add: slot_addr_in_def usize_add_small)
qed

lemma slot_bytes:
  assumes "table_ok t"
  shows "range_of (slot_addr_in t i) 8 \<subseteq> range_of t 4096"
proof -
  have "i mod 512 < 512" by simp
  then have "8 * (i mod 512) + 8 \<le> 4096" by linarith
  then show ?thesis using assms by (intro range_of_mono) (simp_all add: slot_addr_in_eq)
qed

lemma table_get_set:
  assumes "table_ok t" "i < 512" "j < 512" "desc_fits d"
  shows "table_get (table_set m t i d) t j = (if j = i then d else table_get m t j)"
proof (cases "j = i")
  case True
  then show ?thesis using assms by (simp add: table_get_def table_set_def desc_round_trip)
next
  case False
  then have "range_of (slot_addr_in t i) 8 \<inter> range_of (slot_addr_in t j) 8 = {}"
    using assms by (intro range_of_disjoint) (auto simp: slot_addr_in_eq)
  then have "read_u64 (table_set m t i d) (slot_addr_in t j) = read_u64 m (slot_addr_in t j)"
    unfolding table_set_def by (intro read_u64_same_on write_u64_same_on)
  with False show ?thesis by (simp add: table_get_def)
qed

lemma table_set_same_on:
  assumes "table_ok t"
  shows "same_on (- range_of t 4096) m (table_set m t i d)"
  unfolding table_set_def using slot_bytes [OF assms, of i] by (intro write_u64_same_on) blast

lemma table_get_same_on: "table_ok t \<Longrightarrow> same_on (range_of t 4096) m m' \<Longrightarrow> table_get m' t i = table_get m t i"
  unfolding table_get_def using read_u64_same_on [OF same_on_subset [OF _ slot_bytes]] by metis

lemma desc_ZERO_fields: "d_kind desc_ZERO = Invalid" "desc_fits desc_ZERO"
  by (simp_all add: desc_ZERO_def desc_from_u64_def kind_from_u64_def attr_from_u64_def desc_fits_def
      attr_fits_def address_fits_def)

lemma table_clear_ok:
  assumes t: "table_ok t"
  shows "same_on (- range_of t 4096) m (table_clear m t)" and "i < 512 \<Longrightarrow> table_get (table_clear m t) t i = desc_ZERO"
proof -
  have "n \<le> 512 \<Longrightarrow> same_on (- range_of t 4096) m (fold (\<lambda>s m. table_set m t s desc_ZERO) [0..<n] m)
      \<and> (\<forall>i<n. table_get (fold (\<lambda>s m. table_set m t s desc_ZERO) [0..<n] m) t i = desc_ZERO)" for n
  proof (induction n)
    case (Suc n)
    then show ?case
      using table_set_same_on [OF t] by (auto simp: table_get_set [OF t] desc_ZERO_fields less_Suc_eq intro: same_on_trans)
  qed simp
  from this [of 512] show "same_on (- range_of t 4096) m (table_clear m t)"
    "i < 512 \<Longrightarrow> table_get (table_clear m t) t i = desc_ZERO"
    by (simp_all add: table_clear_def SLOTS_def del: upt_rec_numeral)
qed

subsection \<open>The tree of tables\<close>

text \<open>\<open>leaf\<close> is the descriptor the walk for an address ends at, with its level.\<close>

function leaf :: "mem \<Rightarrow> table \<Rightarrow> level \<Rightarrow> usize \<Rightarrow> (descriptor \<times> level) option" where
  "leaf m t l va =
    (let d = table_get m t (slot_of l va) in
     case d_kind d of
       Invalid \<Rightarrow> None
     | Block \<Rightarrow> Some (d, l)
     | Table \<Rightarrow> (case level_next l of None \<Rightarrow> Some (d, l) | Some n \<Rightarrow> leaf m (d_address d) n va))"
  by pat_completeness auto
termination
  by (relation "measure (\<lambda>(m, t, l, va). 3 - level_number l)") (simp, case_tac l, simp_all)

declare leaf.simps [simp del]

function tables :: "mem \<Rightarrow> table \<Rightarrow> level \<Rightarrow> table set" where
  "tables m t l = insert t
    (case level_next l of
       None \<Rightarrow> {}
     | Some n \<Rightarrow> (\<Union>i \<in> {i. i < 512 \<and> d_kind (table_get m t i) = Table}. tables m (d_address (table_get m t i)) n))"
  by pat_completeness auto
termination
  by (relation "measure (\<lambda>(m, t, l). 3 - level_number l)") (simp, case_tac l, simp_all)

declare tables.simps [simp del]

text \<open>What hangs below one descriptor of a table at level \<open>l\<close>.\<close>

definition entry_leaf :: "mem \<Rightarrow> level \<Rightarrow> descriptor \<Rightarrow> usize \<Rightarrow> (descriptor \<times> level) option" where
  "entry_leaf m l d va =
    (case d_kind d of
       Invalid \<Rightarrow> None
     | Block \<Rightarrow> Some (d, l)
     | Table \<Rightarrow> (case level_next l of None \<Rightarrow> Some (d, l) | Some n \<Rightarrow> leaf m (d_address d) n va))"

definition entry_tables :: "mem \<Rightarrow> level \<Rightarrow> descriptor \<Rightarrow> table set" where
  "entry_tables m l d =
    (case level_next l of
       None \<Rightarrow> {}
     | Some n \<Rightarrow> if d_kind d = Table then tables m (d_address d) n else {})"

lemma leaf_entry: "leaf m t l va = entry_leaf m l (table_get m t (slot_of l va)) va"
  by (subst leaf.simps) (simp add: entry_leaf_def Let_def)

lemma tables_entry: "tables m t l = insert t (\<Union>i<512. entry_tables m l (table_get m t i))"
  by (subst tables.simps) (auto simp: entry_tables_def split: option.splits if_splits)

function pt_wf :: "mem \<Rightarrow> table \<Rightarrow> level \<Rightarrow> bool" where
  "pt_wf m t l \<longleftrightarrow> table_ok t
    \<and> (\<forall>i<512. t \<notin> entry_tables m l (table_get m t i)
        \<and> (\<forall>j<512. j \<noteq> i \<longrightarrow> entry_tables m l (table_get m t i) \<inter> entry_tables m l (table_get m t j) = {}))
    \<and> (case level_next l of
         None \<Rightarrow> True
       | Some n \<Rightarrow> (\<forall>i \<in> {i. i < 512 \<and> d_kind (table_get m t i) = Table}.
           pt_wf m (d_address (table_get m t i)) n \<and> (\<exists>va. leaf m (d_address (table_get m t i)) n va \<noteq> None)))"
  by pat_completeness auto
termination
  by (relation "measure (\<lambda>(m, t, l). 3 - level_number l)") (simp, case_tac l, simp_all)

declare pt_wf.simps [simp del]

definition entry_wf :: "mem \<Rightarrow> level \<Rightarrow> descriptor \<Rightarrow> bool" where
  "entry_wf m l d \<longleftrightarrow>
    (case level_next l of
       None \<Rightarrow> True
     | Some n \<Rightarrow> d_kind d = Table \<longrightarrow> pt_wf m (d_address d) n \<and> (\<exists>va. leaf m (d_address d) n va \<noteq> None))"

lemma pt_wf_entry:
  "pt_wf m t l \<longleftrightarrow> table_ok t
    \<and> (\<forall>i<512. t \<notin> entry_tables m l (table_get m t i)
        \<and> (\<forall>j<512. j \<noteq> i \<longrightarrow> entry_tables m l (table_get m t i) \<inter> entry_tables m l (table_get m t j) = {}))
    \<and> (\<forall>i<512. entry_wf m l (table_get m t i))"
  by (subst pt_wf.simps) (auto simp: entry_wf_def split: option.splits)

lemma pt_wf_ok: "pt_wf m t l \<Longrightarrow> table_ok t"
  by (simp add: pt_wf_entry)

text \<open>Everything about a tree is read from the bytes of its tables.\<close>

lemma tree_same_on:
  assumes "pt_wf m t l" "same_on (table_bytes (tables m t l)) m m'"
  shows "tables m' t l = tables m t l \<and> (\<forall>va. leaf m' t l va = leaf m t l va) \<and> pt_wf m' t l"
  using assms
proof (induction m t l rule: tables.induct)
  case (1 m t l)
  have ok: "table_ok t" using "1.prems"(1) by (rule pt_wf_ok)
  have "range_of t 4096 \<subseteq> table_bytes (tables m t l)" by (auto simp: tables_entry table_bytes_def)
  then have get: "table_get m' t i = table_get m t i" for i
    using table_get_same_on [OF ok same_on_subset [OF "1.prems"(2)]] by simp
  have sub: "entry_tables m' l (table_get m t i) = entry_tables m l (table_get m t i)
      \<and> (\<forall>va. entry_leaf m' l (table_get m t i) va = entry_leaf m l (table_get m t i) va)
      \<and> entry_wf m' l (table_get m t i)" if i: "i < 512" for i
  proof (cases "level_next l")
    case None
    then show ?thesis by (simp add: entry_tables_def entry_leaf_def entry_wf_def split: kind.splits)
  next
    case (Some n)
    show ?thesis
    proof (cases "d_kind (table_get m t i) = Table")
      case False
      then show ?thesis by (cases "d_kind (table_get m t i)") (simp_all add: entry_tables_def entry_leaf_def entry_wf_def split: option.splits)
    next
      case True
      let ?c = "d_address (table_get m t i)"
      have wf: "pt_wf m ?c n" "\<exists>va. leaf m ?c n va \<noteq> None"
        using "1.prems"(1) i True Some unfolding pt_wf_entry [of m t l] entry_wf_def [of m l] by auto
      have "tables m ?c n \<subseteq> tables m t l"
        unfolding tables_entry [of m t l] using i True Some by (auto simp: entry_tables_def)
      then have "same_on (table_bytes (tables m ?c n)) m m'"
        by (intro same_on_subset [OF "1.prems"(2)]) (auto simp: table_bytes_def)
      from "1.IH" [OF Some _ wf(1) this] i True wf(2) show ?thesis
        using True Some by (simp add: entry_tables_def entry_leaf_def entry_wf_def)
    qed
  qed
  have T: "tables m' t l = tables m t l" using sub by (simp add: tables_entry get)
  have L: "leaf m' t l va = leaf m t l va" for va using sub by (simp add: leaf_entry get)
  have "pt_wf m' t l" using "1.prems"(1) sub unfolding pt_wf_entry get by simp
  with T L show ?case by blast
qed

subsection \<open>Addresses under one table\<close>

definition span :: "level \<Rightarrow> usize \<Rightarrow> nat" where
  "span l va = va div (512 * level_size l)"

lemma slot_of_span: "span l a = span l b \<Longrightarrow> slot_of l a = slot_of l b \<longleftrightarrow> a div level_size l = b div level_size l"
proof -
  assume s: "span l a = span l b"
  have q: "x div level_size l = 512 * span l x + slot_of l x" for x
    using div_mult2_eq [of x "level_size l" 512] by (simp add: span_def slot_of_div mult.commute)
  show ?thesis using s q [of a] q [of b] by simp
qed

lemma span_next: "level_next l = Some n \<Longrightarrow> span n a = a div level_size l"
  using level_size_next [of l n] by (simp add: span_def)

lemma span_cong: "a div level_size l = b div level_size l \<Longrightarrow> span l a = span l b"
  using div_mult2_eq [of a "level_size l" 512] div_mult2_eq [of b "level_size l" 512] by (simp add: span_def mult.commute)

lemma leaf_mod:
  "va mod (512 * level_size l) = vb mod (512 * level_size l) \<Longrightarrow> leaf m t l va = leaf m t l vb"
proof (induction m t l va rule: leaf.induct)
  case (1 m t l va)
  have slot: "slot_of l x = x mod (512 * level_size l) div level_size l" for x
    using mod_mult2_eq [of x "level_size l" 512] by (simp add: slot_of_div mult.commute [of 512])
  then have s: "slot_of l va = slot_of l vb" using "1.prems" by simp
  have n: "va mod (512 * level_size n) = vb mod (512 * level_size n)" if "level_next l = Some n" for n
  proof -
    have "512 * level_size n dvd 512 * level_size l" using level_size_next [OF that] by simp
    then have "x mod (512 * level_size n) = x mod (512 * level_size l) mod (512 * level_size n)" for x
      by (simp only: mod_mod_cancel)
    then show ?thesis using "1.prems" by metis
  qed
  show ?case
  proof (cases "level_next l")
    case (Some k)
    then show ?thesis
      using "1.IH" [OF refl _ Some n [OF Some]]
      by (simp add: leaf_entry [of m t l] s entry_leaf_def split: kind.splits)
  qed (simp add: leaf_entry [of m t l] s entry_leaf_def split: kind.splits)
qed

subsection \<open>Replacing one descriptor\<close>

lemma entry_same_on:
  assumes "entry_wf m l d" "same_on (table_bytes (entry_tables m l d)) m m'"
  shows "entry_tables m' l d = entry_tables m l d \<and> (\<forall>va. entry_leaf m' l d va = entry_leaf m l d va) \<and> entry_wf m' l d"
proof (cases "level_next l")
  case None
  then show ?thesis by (simp add: entry_tables_def entry_leaf_def entry_wf_def split: kind.splits)
next
  case (Some n)
  then show ?thesis using assms tree_same_on [of m "d_address d" n m']
    by (cases "d_kind d") (auto simp: entry_tables_def entry_leaf_def entry_wf_def)
qed

lemma slot_update:
  assumes wf: "pt_wf m t l" and i: "i < 512"
    and get: "\<And>j. j < 512 \<Longrightarrow> table_get m' t j = (if j = i then d else table_get m t j)"
    and same: "\<And>j. j < 512 \<Longrightarrow> j \<noteq> i \<Longrightarrow> same_on (table_bytes (entry_tables m l (table_get m t j))) m m'"
    and d: "entry_wf m' l d" "t \<notin> entry_tables m' l d"
      "\<And>j. j < 512 \<Longrightarrow> j \<noteq> i \<Longrightarrow> entry_tables m' l d \<inter> entry_tables m l (table_get m t j) = {}"
  shows "pt_wf m' t l" and "tables m' t l \<subseteq> tables m t l \<union> entry_tables m' l d"
    and "leaf m' t l va = (if slot_of l va = i then entry_leaf m' l d va else leaf m t l va)"
proof -
  note w = wf [unfolded pt_wf_entry [of m t l]]
  have old: "entry_tables m' l (table_get m t j) = entry_tables m l (table_get m t j)
      \<and> (\<forall>va. entry_leaf m' l (table_get m t j) va = entry_leaf m l (table_get m t j) va) \<and> entry_wf m' l (table_get m t j)"
    if "j < 512" "j \<noteq> i" for j
    by (rule entry_same_on) (use w same that in auto)
  have new: "entry_tables m' l (table_get m' t j) = (if j = i then entry_tables m' l d else entry_tables m l (table_get m t j))"
    if "j < 512" for j
    using that get old by simp
  show "pt_wf m' t l"
    unfolding pt_wf_entry [of m' t l]
  proof (intro conjI allI impI)
    show "table_ok t" using w by blast
  next
    fix j :: nat assume j: "j < 512"
    show "t \<notin> entry_tables m' l (table_get m' t j)" "entry_wf m' l (table_get m' t j)"
      using new [OF j] get [OF j] old [OF j] d(1,2) w j by (auto split: if_splits)
    fix k :: nat assume "k < 512" "k \<noteq> j"
    then have k: "k < 512" "k \<noteq> j" by simp_all
    show "entry_tables m' l (table_get m' t j) \<inter> entry_tables m' l (table_get m' t k) = {}"
    proof (cases "j = i \<or> k = i")
      case True
      then show ?thesis using d(3) [of k] d(3) [of j] j k by (auto simp: new)
    next
      case False
      then show ?thesis using w j k by (simp add: new)
    qed
  qed
  have "entry_tables m' l (table_get m' t j) \<subseteq> tables m t l \<union> entry_tables m' l d" if "j < 512" for j
    using that get old by (cases "j = i") (auto simp: tables_entry [of m t l])
  moreover have "t \<in> tables m t l" by (simp add: tables_entry)
  ultimately show "tables m' t l \<subseteq> tables m t l \<union> entry_tables m' l d"
    unfolding tables_entry [of m' t l] by blast
  show "leaf m' t l va = (if slot_of l va = i then entry_leaf m' l d va else leaf m t l va)"
    using get [of "slot_of l va"] old [of "slot_of l va"] by (simp add: leaf_entry)
qed

subsection \<open>Tables as allocations of the heap\<close>

text \<open>
  The pages of the heap: above page zero and inside the 48 bits a descriptor can hold. Every table of
  the tree is a live allocation of one page.
\<close>

definition low_pages :: "pfn set \<Rightarrow> bool" where
  "low_pages U \<longleftrightarrow> (\<forall>p \<in> U. 0 < p \<and> p < 2 ^ 36)"

definition pt_state :: "pfn set \<Rightarrow> mem \<Rightarrow> heap \<Rightarrow> live \<Rightarrow> table \<Rightarrow> level \<Rightarrow> bool" where
  "pt_state U m h live t l \<longleftrightarrow> (\<exists>F. heap_inv m h U F live) \<and> pt_wf m t l
    \<and> (\<forall>x \<in> tables m t l. live x = Some table_layout)"

text \<open>Mapping only ever adds tables, and writes to nothing a client holds but the tables of the tree.\<close>

definition pt_grows :: "mem \<Rightarrow> live \<Rightarrow> table set \<Rightarrow> mem \<Rightarrow> live \<Rightarrow> table set \<Rightarrow> bool" where
  "pt_grows m live T m' live' T' \<longleftrightarrow>
    (\<forall>x. live' x = live x \<or> live x = None \<and> live' x = Some table_layout)
    \<and> T' \<subseteq> T \<union> {x. live x = None}
    \<and> same_on (live_area live - table_bytes T) m m'"

definition leaf_desc :: "descriptor \<Rightarrow> level \<Rightarrow> usize \<Rightarrow> descriptor" where
  "leaf_desc template l va = template\<lparr>d_kind := kind_from_level l, d_address := va div level_size l * level_size l\<rparr>"

definition maps_range :: "mem \<Rightarrow> table \<Rightarrow> level \<Rightarrow> descriptor \<Rightarrow> usize \<Rightarrow> usize \<Rightarrow> mem \<Rightarrow> bool" where
  "maps_range m t l template lo hi m' \<longleftrightarrow> (\<forall>va. span l va = span l lo \<longrightarrow>
    (if lo \<le> va \<and> va < hi then \<exists>l'. leaf m' t l va = Some (leaf_desc template l' va, l')
     else leaf m' t l va = leaf m t l va))"

lemma table_layout_simps [simp]: "l_size table_layout = 4096" "l_align table_layout = 4096"
  by (simp_all add: table_layout_def PAGE_SIZE_def)

lemma table_layout_ok: "layout_ok table_layout"
  by (auto simp: layout_ok_def intro!: exI [of _ 12])

lemma table_live:
  assumes "heap_inv m h U F live" "low_pages U" "live t = Some table_layout"
  shows "table_ok t" and "range_of t 4096 \<subseteq> live_area live" and "range_of t 4096 \<subseteq> bytes_of U"
proof -
  show "range_of t 4096 \<subseteq> live_area live" unfolding live_area_def using assms(3) by force
  show b: "range_of t 4096 \<subseteq> bytes_of U" using heap_inv_live_pages [OF assms(1,3)] by (simp del: in_range_of)
  have "4096 dvd t" using heap_inv_live(2) [OF assms(1,3)] by simp
  moreover have "t \<in> bytes_of U" using b by (rule subsetD) simp
  then have "t div 4096 \<in> U" by simp
  then have "0 < t div 4096" "t div 4096 < 2 ^ 36" using assms(2) by (auto simp: low_pages_def)
  ultimately show "table_ok t" by (auto simp: table_ok_def address_fits_def div_less_iff_less_mult)
qed

lemma table_bytes_disjoint:
  assumes "heap_inv m h U F live" "\<forall>x \<in> S. live x = Some table_layout" "\<forall>x \<in> T. live x = Some table_layout" "S \<inter> T = {}"
  shows "table_bytes S \<inter> table_bytes T = {}"
proof -
  have "range_of a 4096 \<inter> range_of b 4096 = {}" if "a \<in> S" "b \<in> T" for a b
    using heap_inv_disjoint [OF assms(1), of a table_layout b table_layout] assms(2-4) that
    by (metis disjoint_iff table_layout_simps(1))
  then show ?thesis unfolding table_bytes_def by blast
qed

lemma table_bytes_insert: "table_bytes (insert t T) = range_of t 4096 \<union> table_bytes T"
  by (simp add: table_bytes_def)

lemma table_bytes_mono: "S \<subseteq> T \<Longrightarrow> table_bytes S \<subseteq> table_bytes T"
  by (auto simp: table_bytes_def)

lemma leaf_desc_simps [simp]:
  "d_kind (leaf_desc tpl l va) = kind_from_level l"
  "d_address (leaf_desc tpl l va) = va div level_size l * level_size l"
  by (simp_all add: leaf_desc_def)

lemma leaf_desc_fits:
  assumes "attr_fits (d_attr_idx tpl)" "va < 2 ^ 48"
  shows "desc_fits (leaf_desc tpl l va)"
proof -
  have "va div level_size l * level_size l \<le> va" by (rule div_times_less_eq_dividend)
  then have "va div level_size l * level_size l < 2 ^ 48" using assms(2) by (rule le_less_trans)
  then show ?thesis using assms(1) by (simp add: desc_fits_def address_fits_def leaf_desc_def)
qed

subsection \<open>Filling a slot with a leaf\<close>

lemma in_block_div:
  assumes "level_size l dvd addr"
  shows "addr \<le> va \<and> va < addr + level_size l \<longleftrightarrow> va div level_size l = addr div level_size l"
proof -
  obtain q where q: "addr = level_size l * q" using assms by (rule dvdE)
  have "va div level_size l = q \<longleftrightarrow> q \<le> va div level_size l \<and> va div level_size l < Suc q" by auto
  also have "\<dots> \<longleftrightarrow> addr \<le> va \<and> va < addr + level_size l"
    by (simp add: q less_eq_div_iff_mult_less_eq div_less_iff_less_mult algebra_simps)
  finally show ?thesis by (simp add: q)
qed

lemma set_leaf_ok:
  assumes st: "pt_state U m h live t l" and U: "low_pages U"
    and addr: "level_size l dvd addr" "addr < 2 ^ 48" and tpl: "attr_fits (d_attr_idx tpl)"
    and free: "level_next l \<noteq> None \<Longrightarrow> d_kind (table_get m t (slot_of l addr)) \<noteq> Table"
  defines "m' \<equiv> table_set m t (slot_of l addr) (leaf_desc tpl l addr)"
  shows "pt_state U m' h live t l" and "pt_grows m live (tables m t l) m' live (tables m' t l)"
    and "maps_range m t l tpl addr (addr + level_size l) m'"
proof -
  let ?d = "leaf_desc tpl l addr" and ?i = "slot_of l addr"
  obtain F where inv: "heap_inv m h U F live" using st by (auto simp: pt_state_def)
  have wf: "pt_wf m t l" and own: "\<And>x. x \<in> tables m t l \<Longrightarrow> live x = Some table_layout" using st by (auto simp: pt_state_def)
  have t: "t \<in> tables m t l" by (simp add: tables_entry)
  note tl = table_live [OF inv U own [OF t]]
  have s: "same_on (- range_of t 4096) m m'" unfolding m'_def by (rule table_set_same_on [OF tl(1)])
  have no: "entry_tables m' l ?d = {}" by (cases l) (simp_all add: entry_tables_def)
  have get: "table_get m' t j = (if j = ?i then ?d else table_get m t j)" if "j < 512" for j
    unfolding m'_def by (rule table_get_set [OF tl(1) _ that leaf_desc_fits [OF tpl addr(2)]]) simp
  have same: "same_on (table_bytes (entry_tables m l (table_get m t j))) m m'" if j: "j < 512" for j
  proof (rule same_on_subset [OF s])
    have "entry_tables m l (table_get m t j) \<subseteq> tables m t l" using j by (auto simp: tables_entry)
    moreover have "t \<notin> entry_tables m l (table_get m t j)" using wf j unfolding pt_wf_entry by blast
    ultimately have "table_bytes (entry_tables m l (table_get m t j)) \<inter> table_bytes {t} = {}"
      using own t by (intro table_bytes_disjoint [OF inv]) auto
    then show "table_bytes (entry_tables m l (table_get m t j)) \<subseteq> - range_of t 4096"
      by (auto simp: table_bytes_def)
  qed
  have e: "entry_wf m' l ?d" by (cases l) (simp_all add: entry_wf_def)
  note u = slot_update [OF wf slot_of_lt get same e]
  have wf': "pt_wf m' t l" by (rule u(1)) (simp_all add: no)
  have T: "tables m' t l \<subseteq> tables m t l" using u(2) no by auto
  have L: "leaf m' t l va = (if slot_of l va = ?i then entry_leaf m' l ?d va else leaf m t l va)" for va
    by (rule u(3)) (simp_all add: no)
  have "heap_inv m' h U F live" by (rule heap_inv_client_write [OF inv same_on_subset [OF s]]) (use tl(2) in blast)
  then show "pt_state U m' h live t l" using wf' T own by (auto simp: pt_state_def)
  have "range_of t 4096 \<subseteq> table_bytes (tables m t l)" using t by (auto simp: table_bytes_def)
  then show "pt_grows m live (tables m t l) m' live (tables m' t l)"
    using T by (auto simp: pt_grows_def intro!: same_on_subset [OF s])
  have k: "entry_leaf m' l ?d va = Some (?d, l)" for va by (cases l) (simp_all add: entry_leaf_def)
  show "maps_range m t l tpl addr (addr + level_size l) m'"
    unfolding maps_range_def
  proof (intro allI impI)
    fix va assume sp: "span l va = span l addr"
    note iff = in_block_div [OF addr(1), of va]
    have "leaf_desc tpl l va = ?d" if "va div level_size l = addr div level_size l" using that by (simp add: leaf_desc_def)
    then show "if addr \<le> va \<and> va < addr + level_size l then \<exists>l'. leaf m' t l va = Some (leaf_desc tpl l' va, l')
        else leaf m' t l va = leaf m t l va"
      unfolding iff L slot_of_span [OF sp] using k by auto
  qed
qed

subsection \<open>Going down a level\<close>

lemma new_tables_apart:
  assumes inv: "heap_inv m h U F live'" and g: "\<forall>x. live' x = live x \<or> live x = None \<and> live' x = Some table_layout"
    and T: "\<forall>x \<in> T. live x = None \<and> live' x = Some table_layout"
  shows "live_area live \<inter> table_bytes T = {}"
proof -
  have "range_of a (l_size k) \<inter> range_of x 4096 = {}" if a: "live a = Some k" and x: "x \<in> T" for a k x
  proof -
    have "live' a = Some k" using g a by (metis option.distinct(1))
    moreover have "live' x = Some table_layout" "a \<noteq> x" using T a x by auto
    ultimately show ?thesis using heap_inv_disjoint [OF inv] by fastforce
  qed
  then show ?thesis unfolding live_area_def table_bytes_def by blast
qed

lemma grown_area:
  assumes inv: "heap_inv m h U F live'" and g: "\<forall>x. live' x = live x \<or> live x = None \<and> live' x = Some table_layout"
    and T: "T' \<subseteq> T \<union> {x. live x = None}" "\<And>x. x \<in> T' \<Longrightarrow> live' x = Some table_layout"
  shows "live_area live - table_bytes T \<subseteq> live_area live' - table_bytes T'"
proof -
  have "live_area live \<subseteq> live_area live'"
  proof
    fix x assume "x \<in> live_area live"
    then obtain a k where "live a = Some k" "x \<in> range_of a (l_size k)" by (auto simp: live_area_def)
    moreover from this have "live' a = Some k" using g by (metis option.distinct(1))
    ultimately show "x \<in> live_area live'" unfolding live_area_def by blast
  qed
  moreover have "live_area live \<inter> table_bytes {x \<in> T'. live x = None} = {}"
    by (rule new_tables_apart [OF inv g]) (use T in auto)
  moreover have "table_bytes T' \<subseteq> table_bytes T \<union> table_bytes {x \<in> T'. live x = None}"
    using T(1) unfolding table_bytes_def by blast
  ultimately show ?thesis by blast
qed

lemma new_table_ok:
  assumes inv: "heap_inv m h U F live" and U: "low_pages U"
  obtains m1 h1 c where "table_new m h = Inr (m1, h1, Some c)" and "live c = None"
      and "pt_state U m1 h1 (live(c \<mapsto> table_layout)) c n" and "tables m1 c n = {c}" and "\<And>va. leaf m1 c n va = None"
      and "same_on (live_area live) m m1"
  | "table_new m h = Inr (m, h, None)" and "F = {}"
proof (rule alloc_layout_cases [OF inv table_layout_ok])
  fix m0 h1 c F'
  assume a: "alloc_layout m h table_layout = Inr (m0, h1, Some c)" "live c = None" "heap_inv m0 h1 U F' (live(c \<mapsto> table_layout))"
    "same_on (live_area live) m m0"
  let ?m = "table_clear m0 c" and ?live = "live(c \<mapsto> table_layout)"
  note t = table_live [OF a(3) U, of c, simplified]
  have "from_base c = Some c" using t(1) by (simp add: from_base_def table_ok_def)
  then have new: "table_new m h = Inr (?m, h1, Some c)" using a(1) by (simp add: table_new_def)
  note cl = table_clear_ok [OF t(1), where m = m0]
  have e: "entry_tables ?m n desc_ZERO = {}" "entry_leaf ?m n desc_ZERO va = None" "entry_wf ?m n desc_ZERO" for va
    by (simp_all add: entry_tables_def entry_leaf_def entry_wf_def desc_ZERO_fields split: option.splits)
  have tab: "tables ?m c n = {c}" by (simp add: tables_entry cl(2) e)
  have "pt_wf ?m c n" by (simp add: pt_wf_entry cl(2) e t(1))
  moreover have "heap_inv ?m h1 U F' ?live"
    by (rule heap_inv_client_write [OF a(3) same_on_subset [OF cl(1)]]) (use t(2) in blast)
  ultimately have st: "pt_state U ?m h1 ?live c n" using tab by (auto simp: pt_state_def)
  have "live_area live \<inter> table_bytes {c} = {}"
    by (rule new_tables_apart [OF a(3)]) (use a(2) in auto)
  then have "same_on (live_area live) m0 ?m" by (intro same_on_subset [OF cl(1)]) (auto simp: table_bytes_def)
  then show thesis
    using that(1) [OF new a(2) st tab _ same_on_trans [OF a(4)]] by (simp add: leaf_entry cl(2) e)
next
  assume a: "alloc_layout m h table_layout = Inr (m, h, None)"
    and none: "\<forall>b. 2 ^ fallback_order table_layout dvd b \<longrightarrow> fallback_order table_layout \<le> MAX_ORDER
      \<longrightarrow> \<not> block b (fallback_order table_layout) \<subseteq> F"
  have "class_of table_layout = None" using class_of_None [OF table_layout_ok] by simp
  then have "fallback_order table_layout = 0" by (simp add: fallback_order_def layout_order_def)
  then have "x \<notin> F" for x using none [THEN spec, of x] by (auto simp: in_block subset_iff)
  then have "F = {}" by blast
  then show thesis using that(2) a by (simp add: table_new_def)
qed

lemma child_table_ok:
  assumes st: "pt_state U m h live t l" and U: "low_pages U" and n: "level_next l = Some n"
  obtains m1 h1 live1 c where "child_table m h t va l = Inr (m1, h1, Inr c)"
      and "pt_state U m1 h1 live1 c n" and "\<forall>x. live1 x = live x \<or> live x = None \<and> live1 x = Some table_layout"
      and "same_on (live_area live - table_bytes {t}) m m1"
      and "\<And>j. j < 512 \<Longrightarrow> j \<noteq> slot_of l va \<Longrightarrow> table_get m1 t j = table_get m t j"
      and "d_kind (table_get m1 t (slot_of l va)) = Table" and "d_address (table_get m1 t (slot_of l va)) = c"
      and "tables m1 c n \<subseteq> entry_tables m l (table_get m t (slot_of l va)) \<union> {x. live x = None}"
      and "\<And>x. leaf m1 c n x = entry_leaf m l (table_get m t (slot_of l va)) x"
  | m1 h1 e where "child_table m h t va l = Inr (m1, h1, Inl e)"
      and "e = OutOfMemory \<and> (\<exists>live'. heap_inv m1 h1 U {} live') \<or> e = BlockInTheWay va l \<and> leaf m t l va \<noteq> None"
proof -
  let ?i = "slot_of l va"
  let ?d = "table_get m t ?i"
  obtain F where inv: "heap_inv m h U F live" using st by (auto simp: pt_state_def)
  have wf: "pt_wf m t l" and own: "\<And>x. x \<in> tables m t l \<Longrightarrow> live x = Some table_layout" using st by (auto simp: pt_state_def)
  have t: "t \<in> tables m t l" by (simp add: tables_entry)
  note tl = table_live [OF inv U own [OF t]]
  show thesis
  proof (cases "d_kind ?d")
    case Table
    have e: "entry_wf m l ?d" "entry_tables m l ?d \<subseteq> tables m t l"
      using wf unfolding pt_wf_entry [of m t l] tables_entry [of m t l] by auto
    then have c: "pt_wf m (d_address ?d) n" "entry_tables m l ?d = tables m (d_address ?d) n"
      "\<And>x. leaf m (d_address ?d) n x = entry_leaf m l ?d x"
      using Table n by (simp_all add: entry_wf_def entry_tables_def entry_leaf_def)
    have "from_base (d_address ?d) = Some (d_address ?d)" using pt_wf_ok [OF c(1)] by (simp add: from_base_def table_ok_def)
    then have ok: "child_table m h t va l = Inr (m, h, Inr (d_address ?d))" using Table by (simp add: child_table_def Let_def)
    have "pt_state U m h live (d_address ?d) n" using inv c e own by (auto simp: pt_state_def)
    then show thesis using that(1) [OF ok] Table c(2,3) by simp
  next
    case Block
    then have "child_table m h t va l = Inr (m, h, Inl (BlockInTheWay va l))" "leaf m t l va \<noteq> None"
      by (simp_all add: child_table_def Let_def leaf_entry entry_leaf_def)
    then show thesis using that(2) by blast
  next
    case Invalid
    show thesis
    proof (rule new_table_ok [OF inv U, where n = n])
      assume "table_new m h = Inr (m, h, None)" "F = {}"
      then show thesis using that(2) Invalid inv by (simp add: child_table_def Let_def) blast
    next
      fix m1 h1 c
      assume a: "table_new m h = Inr (m1, h1, Some c)" "live c = None" "pt_state U m1 h1 (live(c \<mapsto> table_layout)) c n"
        "tables m1 c n = {c}" "\<And>va. leaf m1 c n va = None" "same_on (live_area live) m m1"
      let ?td = "desc_ZERO\<lparr>d_kind := Table, d_address := c\<rparr>" and ?live = "live(c \<mapsto> table_layout)"
      let ?m = "table_set m1 t ?i ?td"
      have ok: "child_table m h t va l = Inr (?m, h1, Inr c)" using a(1) Invalid by (simp add: child_table_def Let_def)
      obtain F1 where inv1: "heap_inv m1 h1 U F1 ?live" and wf1: "pt_wf m1 c n" using a(3) by (auto simp: pt_state_def)
      have fits: "desc_fits ?td" using pt_wf_ok [OF wf1] desc_ZERO_fields(2) by (simp add: desc_fits_def table_ok_def)
      have ne: "t \<noteq> c" using own [OF t] a(2) by auto
      have get: "table_get ?m t j = (if j = ?i then ?td else table_get m t j)" if "j < 512" for j
        using table_get_set [OF tl(1) _ that fits, of ?i m1] table_get_same_on [OF tl(1) same_on_subset [OF a(6) tl(2)], of j] by simp
      have s: "same_on (- range_of t 4096) m1 ?m" by (rule table_set_same_on [OF tl(1)])
      have "table_bytes {t} \<inter> table_bytes {c} = {}"
        using own [OF t] ne by (intro table_bytes_disjoint [OF inv1]) auto
      then have sc: "same_on (table_bytes (tables m1 c n)) m1 ?m"
        unfolding a(4) by (intro same_on_subset [OF s]) (auto simp: table_bytes_def)
      note tree = tree_same_on [OF wf1 sc]
      have "range_of t 4096 \<subseteq> live_area ?live" unfolding live_area_def using own [OF t] ne by force
      then have inv2: "heap_inv ?m h1 U F1 ?live" by (intro heap_inv_client_write [OF inv1 same_on_subset [OF s]]) blast
      have st2: "pt_state U ?m h1 ?live c n" using inv2 tree a(4) by (auto simp: pt_state_def)
      have sm: "same_on (live_area live - table_bytes {t}) m ?m"
        by (rule same_on_trans [OF same_on_subset [OF a(6)] same_on_subset [OF s]]) (auto simp: table_bytes_def)
      have e: "entry_leaf m l ?d x = None" for x using Invalid by (simp add: entry_leaf_def)
      show thesis
        by (rule that(1) [OF ok st2 _ sm]) (use get tree a(2,4,5) e in auto)
    qed
  qed
qed

lemma sub_map_ok:
  assumes st: "pt_state U m h live t l" and U: "low_pages U" and n: "level_next l = Some n"
    and c1: "pt_state U m1 h1 live1 c n"
    and live1: "\<forall>x. live1 x = live x \<or> live x = None \<and> live1 x = Some table_layout"
    and s1: "same_on (live_area live - table_bytes {t}) m m1"
    and get1: "\<And>j. j < 512 \<Longrightarrow> j \<noteq> slot_of l lo \<Longrightarrow> table_get m1 t j = table_get m t j"
    and d: "d_kind (table_get m1 t (slot_of l lo)) = Table" "d_address (table_get m1 t (slot_of l lo)) = c"
    and T1: "tables m1 c n \<subseteq> entry_tables m l (table_get m t (slot_of l lo)) \<union> {x. live x = None}"
    and leaf1: "\<And>x. leaf m1 c n x = entry_leaf m l (table_get m t (slot_of l lo)) x"
    and c2: "pt_state U m2 h2 live2 c n" and g2: "pt_grows m1 live1 (tables m1 c n) m2 live2 (tables m2 c n)"
    and map2: "maps_range m1 c n tpl lo hi m2" and lohi: "lo < hi" "(hi - 1) div level_size l = lo div level_size l"
  shows "pt_state U m2 h2 live2 t l" and "pt_grows m live (tables m t l) m2 live2 (tables m2 t l)"
    and "maps_range m t l tpl lo hi m2"
proof -
  let ?i = "slot_of l lo"
  let ?d = "table_get m1 t ?i" and ?E = "\<lambda>j. entry_tables m l (table_get m t j)"
  have wf: "pt_wf m t l" and own: "\<And>x. x \<in> tables m t l \<Longrightarrow> live x = Some table_layout" using st by (auto simp: pt_state_def)
  have own2: "\<And>x. x \<in> tables m2 c n \<Longrightarrow> live2 x = Some table_layout" using c2 by (auto simp: pt_state_def)
  have own1: "\<And>x. x \<in> tables m1 c n \<Longrightarrow> live1 x = Some table_layout" using c1 by (auto simp: pt_state_def)
  obtain F F1 F2 where inv: "heap_inv m h U F live" and inv1: "heap_inv m1 h1 U F1 live1" and inv2: "heap_inv m2 h2 U F2 live2"
    using st c1 c2 by (auto simp: pt_state_def)
  have t: "t \<in> tables m t l" by (simp add: tables_entry)
  have E: "?E j \<subseteq> tables m t l" "t \<notin> ?E j" if "j < 512" for j
    using wf that unfolding pt_wf_entry [of m t l] tables_entry [of m t l] by auto
  have EE: "?E j \<inter> ?E ?i = {}" if "j < 512" "j \<noteq> ?i" for j
    using wf that slot_of_lt [of l lo] unfolding pt_wf_entry [of m t l] by blast
  have keep: "live1 x = Some table_layout" if "x \<in> tables m t l" for x using own [OF that] live1 by (metis option.distinct(1))
  have old: "x \<in> tables m t l \<Longrightarrow> x \<in> tables m1 c n \<Longrightarrow> x \<in> ?E ?i" for x
    using T1 own [of x] by auto
  have apart: "t \<notin> tables m1 c n" "j < 512 \<Longrightarrow> j \<noteq> ?i \<Longrightarrow> ?E j \<inter> tables m1 c n = {}" for j
    using old [OF t] E(2) [of ?i] old EE [of j] E(1) [of j] by auto
  note g = g2 [unfolded pt_grows_def]
  have old2: "x \<in> tables m t l \<Longrightarrow> x \<in> tables m2 c n \<Longrightarrow> x \<in> tables m1 c n" for x
    using g keep [of x] by auto
  have apart2: "t \<notin> tables m2 c n" "j < 512 \<Longrightarrow> j \<noteq> ?i \<Longrightarrow> tables m2 c n \<inter> ?E j = {}" for j
    using old2 [OF t] apart(1) old2 apart(2) [of j] E(1) [of j] by auto
  have s: "same_on (table_bytes S) m1 m2" if "S \<subseteq> tables m t l" "S \<inter> tables m1 c n = {}" for S
  proof (rule same_on_subset [of "live_area live1 - table_bytes (tables m1 c n)"])
    show "same_on (live_area live1 - table_bytes (tables m1 c n)) m1 m2" using g by blast
    have "table_bytes S \<subseteq> live_area live1" using keep that(1) table_live(2) [OF inv1 U] unfolding table_bytes_def by blast
    moreover have "table_bytes S \<inter> table_bytes (tables m1 c n) = {}"
      using keep that own1 by (intro table_bytes_disjoint [OF inv1]) auto
    ultimately show "table_bytes S \<subseteq> live_area live1 - table_bytes (tables m1 c n)" by blast
  qed
  have tok: "table_ok t" using wf by (rule pt_wf_ok)
  have "same_on (range_of t 4096) m1 m2" using s [of "{t}"] t apart(1) by (simp add: table_bytes_def)
  then have get2: "table_get m2 t j = table_get m1 t j" for j by (rule table_get_same_on [OF tok])
  have get: "table_get m2 t j = (if j = ?i then ?d else table_get m t j)" if "j < 512" for j
    using get1 that by (simp add: get2)
  have same: "same_on (table_bytes (?E j)) m m2" if j: "j < 512" "j \<noteq> ?i" for j
  proof (rule same_on_trans [OF same_on_subset [OF s1] s [OF E(1) [OF j(1)] apart(2) [OF j]]])
    have "table_bytes (?E j) \<inter> table_bytes {t} = {}"
      using E [OF j(1)] own t by (intro table_bytes_disjoint [OF inv]) auto
    moreover have "table_bytes (?E j) \<subseteq> live_area live"
      using E(1) [OF j(1)] own table_live(2) [OF inv U] unfolding table_bytes_def by blast
    ultimately show "table_bytes (?E j) \<subseteq> live_area live - table_bytes {t}" by blast
  qed
  have dE: "entry_tables m2 l ?d = tables m2 c n" "\<And>va. entry_leaf m2 l ?d va = leaf m2 c n va"
    using d n by (simp_all add: entry_tables_def entry_leaf_def)
  have "leaf m2 c n lo \<noteq> None" using map2 [unfolded maps_range_def, rule_format, of lo] lohi(1) by auto
  then have dwf: "entry_wf m2 l ?d" using c2 d n by (auto simp: entry_wf_def pt_state_def)
  note u = slot_update [OF wf slot_of_lt get same dwf, unfolded dE]
  have T2: "tables m2 t l \<subseteq> tables m t l \<union> tables m2 c n" by (rule u(2)) (use apart2 in auto)
  have live2: "live2 x = live x \<or> live x = None \<and> live2 x = Some table_layout" for x
    using live1 g by (metis option.distinct(1))
  then have "live2 x = Some table_layout" if "x \<in> tables m2 t l" for x
    using T2 that own own2 by (metis UnE option.distinct(1) subsetD)
  moreover have "pt_wf m2 t l" by (rule u(1)) (use apart2 in auto)
  ultimately show "pt_state U m2 h2 live2 t l" using inv2 by (auto simp: pt_state_def)
  show "pt_grows m live (tables m t l) m2 live2 (tables m2 t l)"
    unfolding pt_grows_def
  proof (intro conjI allI)
    show "live2 x = live x \<or> live x = None \<and> live2 x = Some table_layout" for x by (rule live2)
    show "tables m2 t l \<subseteq> tables m t l \<union> {x. live x = None}"
    proof
      fix x assume "x \<in> tables m2 t l"
      then consider "x \<in> tables m t l" | "x \<in> tables m1 c n" | "live1 x = None"
        using subsetD [OF T2, of x] subsetD [OF g [THEN conjunct2, THEN conjunct1], of x] by auto
      then show "x \<in> tables m t l \<union> {x. live x = None}"
      proof cases
        case 3
        then show ?thesis using live1 [rule_format, of x] by auto
      qed (use T1 E(1) [OF slot_of_lt, of l lo] in auto)
    qed
    show "same_on (live_area live - table_bytes (tables m t l)) m m2"
    proof (rule same_on_trans [OF same_on_subset [OF s1]])
      show "live_area live - table_bytes (tables m t l) \<subseteq> live_area live - table_bytes {t}"
        using t by (auto simp: table_bytes_def)
      have "live_area live - table_bytes (tables m t l) \<subseteq> live_area live1 - table_bytes (tables m1 c n)"
        using T1 E(1) [OF slot_of_lt, of l lo] own1 by (intro grown_area [OF inv1 live1]) auto
      then show "same_on (live_area live - table_bytes (tables m t l)) m1 m2"
        using g by (blast intro: same_on_subset)
    qed
  qed
  show "maps_range m t l tpl lo hi m2"
    unfolding maps_range_def
  proof (intro allI impI)
    fix va assume sp: "span l va = span l lo"
    have L: "leaf m2 t l va = (if slot_of l va = ?i then leaf m2 c n va else leaf m t l va)" by (rule u(3)) (use apart2 in auto)
    have iff: "slot_of l va = ?i \<longleftrightarrow> span n va = span n lo" using slot_of_span [OF sp] span_next [OF n] by simp
    have inside: "span n va = span n lo" if "lo \<le> va \<and> va < hi"
    proof -
      have "lo \<le> va" "va \<le> hi - 1" using that by auto
      then have "lo div level_size l \<le> va div level_size l" "va div level_size l \<le> (hi - 1) div level_size l"
        by (simp_all only: div_le_mono)
      then show ?thesis using lohi(2) by (simp add: span_next [OF n])
    qed
    show "if lo \<le> va \<and> va < hi then \<exists>l'. leaf m2 t l va = Some (leaf_desc tpl l' va, l')
        else leaf m2 t l va = leaf m t l va"
    proof (cases "slot_of l va = ?i")
      case True
      then have "leaf m t l va = leaf m1 c n va" by (simp add: leaf_entry [of m t l] leaf1)
      then show ?thesis using map2 True L iff by (simp add: maps_range_def)
    qed (use L iff inside in auto)
  qed
qed


subsection \<open>One mapping after another\<close>

lemma pt_grows_trans:
  assumes st: "pt_state U m1 h1 live1 t l" and g1: "pt_grows m live T m1 live1 (tables m1 t l)"
    and g2: "pt_grows m1 live1 (tables m1 t l) m2 live2 T2"
  shows "pt_grows m live T m2 live2 T2"
proof -
  note g = g1 [unfolded pt_grows_def] and g' = g2 [unfolded pt_grows_def]
  have own1: "\<And>x. x \<in> tables m1 t l \<Longrightarrow> live1 x = Some table_layout" using st by (auto simp: pt_state_def)
  obtain F1 where inv1: "heap_inv m1 h1 U F1 live1" using st by (auto simp: pt_state_def)
  show ?thesis
    unfolding pt_grows_def
  proof (intro conjI allI)
    show "live2 x = live x \<or> live x = None \<and> live2 x = Some table_layout" for x using g g' by (metis option.distinct(1))
    have "live1 x = None \<Longrightarrow> live x = None" for x using g by (metis option.distinct(1))
    then show "T2 \<subseteq> T \<union> {x. live x = None}" using g g' by blast
    have "live_area live - table_bytes T \<subseteq> live_area live1 - table_bytes (tables m1 t l)"
      using g own1 by (intro grown_area [OF inv1]) auto
    then show "same_on (live_area live - table_bytes T) m m2" using g g' by (blast intro: same_on_trans same_on_subset)
  qed
qed

lemma maps_range_trans:
  assumes "maps_range m t l tpl lo mid m1" "maps_range m1 t l tpl mid hi m2" "lo \<le> mid" "mid \<le> hi" "span l mid = span l lo"
  shows "maps_range m t l tpl lo hi m2"
  unfolding maps_range_def
proof (intro allI impI)
  fix va assume sp: "span l va = span l lo"
  note a = assms(1) [unfolded maps_range_def, rule_format, OF sp]
  note b = assms(2) [unfolded maps_range_def, rule_format, of va]
  show "if lo \<le> va \<and> va < hi then \<exists>l'. leaf m2 t l va = Some (leaf_desc tpl l' va, l') else leaf m2 t l va = leaf m t l va"
    using a b sp assms(3-5) by (auto split: if_splits)
qed

subsection \<open>The loop over the slots\<close>

text \<open>
  Why a mapping is refused: no page is free any more, an end of the range is not on a page boundary, or
  an address of the range is already mapped. The errors name the first address that could not be mapped.
\<close>

definition map_fault :: "pfn set \<Rightarrow> mem \<Rightarrow> table \<Rightarrow> level \<Rightarrow> usize \<Rightarrow> usize \<Rightarrow> mem \<Rightarrow> heap \<Rightarrow> map_error \<Rightarrow> bool" where
  "map_fault U m t l lo hi m' h' e \<longleftrightarrow>
    (case e of
       OutOfMemory \<Rightarrow> \<exists>live'. heap_inv m' h' U {} live'
     | Unaligned a \<Rightarrow> \<not> (4096 dvd lo \<and> 4096 dvd hi)
     | BlockInTheWay a l' \<Rightarrow> lo \<le> a \<and> a < hi \<and> leaf m t l a \<noteq> None
     | TableInTheWay a l' \<Rightarrow> \<exists>x. lo \<le> x \<and> x < hi \<and> leaf m t l x \<noteq> None)"

definition map_done :: "pfn set \<Rightarrow> mem \<Rightarrow> live \<Rightarrow> table \<Rightarrow> level \<Rightarrow> descriptor \<Rightarrow> usize \<Rightarrow> usize \<Rightarrow> mem \<Rightarrow> heap \<Rightarrow> live \<Rightarrow> bool" where
  "map_done U m live t l tpl lo hi m' h' live' \<longleftrightarrow> pt_state U m' h' live' t l
    \<and> pt_grows m live (tables m t l) m' live' (tables m' t l) \<and> maps_range m t l tpl lo hi m'"

definition map_good :: "pfn set \<Rightarrow> mem \<Rightarrow> live \<Rightarrow> table \<Rightarrow> level \<Rightarrow> descriptor \<Rightarrow> usize \<Rightarrow> usize \<Rightarrow> map_result \<Rightarrow> bool" where
  "map_good U m live t l tpl lo hi r \<longleftrightarrow>
    (\<exists>m' h'. (\<exists>live'. r = Inr (m', h', Inr ()) \<and> map_done U m live t l tpl lo hi m' h' live')
      \<or> (\<exists>e. r = Inr (m', h', Inl e) \<and> map_fault U m t l lo hi m' h' e))"

lemma span_between: "lo \<le> x \<Longrightarrow> x \<le> y \<Longrightarrow> span l y = span l lo \<Longrightarrow> span l x = span l lo"
  unfolding span_def using div_le_mono [of lo x "512 * level_size l"] div_le_mono [of x y "512 * level_size l"] by linarith

lemma map_good_continue:
  assumes d: "map_done U m live t l tpl lo mid m1 h1 live1" and mid: "lo \<le> mid" "mid < hi" "4096 dvd mid"
    and sp: "span l (hi - 1) = span l lo" and r: "map_good U m1 live1 t l tpl mid hi r"
  shows "map_good U m live t l tpl lo hi r"
proof -
  have spm: "span l x = span l lo" if "lo \<le> x" "x < hi" for x
    using that by (intro span_between [OF that(1) _ sp]) simp
  note d' = d [unfolded map_done_def]
  from r consider (ok) m2 h2 live2 where "r = Inr (m2, h2, Inr ())" "map_done U m1 live1 t l tpl mid hi m2 h2 live2"
    | (fault) m2 h2 e where "r = Inr (m2, h2, Inl e)" "map_fault U m1 t l mid hi m2 h2 e"
    unfolding map_good_def by blast
  then show ?thesis
  proof cases
    case ok
    have "map_done U m live t l tpl lo hi m2 h2 live2"
      using d' ok(2) spm [OF mid(1,2)] mid pt_grows_trans [of U m1 h1 live1 t l m live "tables m t l" m2 live2]
        maps_range_trans [of m t l tpl lo mid m1 hi m2] by (simp add: map_done_def)
    then show ?thesis using ok(1) unfolding map_good_def by blast
  next
    case fault
    have same: "leaf m1 t l x = leaf m t l x" if "mid \<le> x" "x < hi" for x
      using d' spm [of x] that mid(1) unfolding maps_range_def by (metis le_trans not_le)
    have "map_fault U m t l lo hi m2 h2 e"
    proof (cases e)
      case (TableInTheWay a l')
      then obtain x where "mid \<le> x" "x < hi" "leaf m1 t l x \<noteq> None" using fault(2) by (auto simp: map_fault_def)
      then show ?thesis using TableInTheWay same [of x] mid(1) by (auto simp: map_fault_def intro!: exI [of _ x])
    qed (use fault(2) mid same in \<open>auto simp: map_fault_def\<close>)
    then show ?thesis using fault(1) unfolding map_good_def by blast
  qed
qed

lemma slot_end_eq:
  assumes "addr < 2 ^ 48"
  shows "slot_end l addr = (addr div level_size l + 1) * level_size l"
proof -
  have "addr div level_size l * level_size l \<le> addr" by (rule div_times_less_eq_dividend)
  then have "addr div level_size l * level_size l + level_size l \<le> 2 ^ 48 + 1073741824"
    using assms level_size_le [of l] by (intro add_mono) linarith+
  then have "addr div level_size l * level_size l + level_size l < usize_limit" by simp
  then show ?thesis using assms by (simp add: slot_end_def and_not_offset_mask usize_add_small)
qed

lemma table_in_way:
  assumes wf: "pt_wf m t l" and n: "level_next l = Some n" and a: "level_size l dvd addr"
    and d: "d_kind (table_get m t (slot_of l addr)) = Table"
  obtains x where "addr \<le> x" "x < addr + level_size l" "leaf m t l x \<noteq> None"
proof -
  let ?d = "table_get m t (slot_of l addr)"
  have "entry_wf m l ?d" using wf unfolding pt_wf_entry by simp
  then obtain v where v: "leaf m (d_address ?d) n v \<noteq> None" using n d by (auto simp: entry_wf_def)
  define x where "x = addr + v mod level_size l"
  have x: "addr \<le> x" "x < addr + level_size l" by (simp_all add: x_def)
  then have same: "x div level_size l = addr div level_size l" using in_block_div [OF a] by blast
  have "x mod level_size l = v mod level_size l" using a by (auto simp: x_def)
  then have "leaf m (d_address ?d) n x = leaf m (d_address ?d) n v"
    by (intro leaf_mod) (simp add: level_size_next [OF n])
  moreover have "slot_of l x = slot_of l addr" using same by (simp add: slot_of_div)
  ultimately have "leaf m t l x \<noteq> None" using v d n by (simp add: leaf_entry entry_leaf_def)
  then show thesis using that x by blast
qed

definition below_good :: "pfn set \<Rightarrow> descriptor \<Rightarrow> level \<Rightarrow> map_below \<Rightarrow> bool" where
  "below_good U tpl n b \<longleftrightarrow> (\<forall>m h live c lo hi. pt_state U m h live c n \<longrightarrow> lo < hi \<longrightarrow> hi \<le> 2 ^ 48
    \<longrightarrow> span n (hi - 1) = span n lo
    \<longrightarrow> map_good U m live c n tpl lo hi (b m h c \<lparr>r_base = lo, r_size = usize_sub hi lo\<rparr>))"

lemma part_slot_ok:
  assumes st: "pt_state U m h live t l" and U: "low_pages U" and n: "level_next l = Some n"
    and b: "below_good U tpl n b" and lo: "lo < mid" "mid \<le> 2 ^ 48" "(mid - 1) div level_size l = lo div level_size l"
  shows "map_good U m live t l tpl lo mid
    (obind (child_table m h t lo l) (\<lambda>(m1, h1, found).
      case found of
        Inl e \<Rightarrow> Inr (m1, h1, Inl e)
      | Inr child \<Rightarrow> b m1 h1 child \<lparr>r_base = lo, r_size = usize_sub mid lo\<rparr>))"
  using st U n
proof (rule child_table_ok [where va = lo])
  fix m1 h1 live1 c
  assume a: "child_table m h t lo l = Inr (m1, h1, Inr c)" "pt_state U m1 h1 live1 c n"
    "\<forall>x. live1 x = live x \<or> live x = None \<and> live1 x = Some table_layout"
    "same_on (live_area live - table_bytes {t}) m m1"
    "\<And>j. j < 512 \<Longrightarrow> j \<noteq> slot_of l lo \<Longrightarrow> table_get m1 t j = table_get m t j"
    "d_kind (table_get m1 t (slot_of l lo)) = Table" "d_address (table_get m1 t (slot_of l lo)) = c"
    "tables m1 c n \<subseteq> entry_tables m l (table_get m t (slot_of l lo)) \<union> {x. live x = None}"
    "\<And>x. leaf m1 c n x = entry_leaf m l (table_get m t (slot_of l lo)) x"
  let ?r = "b m1 h1 c \<lparr>r_base = lo, r_size = usize_sub mid lo\<rparr>"
  have "span n (mid - 1) = span n lo" using lo(3) by (simp add: span_next [OF n])
  then have "map_good U m1 live1 c n tpl lo mid ?r"
    using b [unfolded below_good_def, rule_format, OF a(2) lo(1,2)] by blast
  then consider (ok) m2 h2 live2 where "?r = Inr (m2, h2, Inr ())" "map_done U m1 live1 c n tpl lo mid m2 h2 live2"
    | (fault) m2 h2 e where "?r = Inr (m2, h2, Inl e)" "map_fault U m1 c n lo mid m2 h2 e"
    unfolding map_good_def by blast
  then show ?thesis
  proof cases
    case ok
    note d = ok(2) [unfolded map_done_def]
    have "map_done U m live t l tpl lo mid m2 h2 live2"
      unfolding map_done_def
      using sub_map_ok [OF st U n a(2-9) d [THEN conjunct1] d [THEN conjunct2, THEN conjunct1]
          d [THEN conjunct2, THEN conjunct2] lo(1,3)] by blast
    then show ?thesis using a(1) ok(1) unfolding map_good_def by auto
  next
    case fault
    have same: "leaf m1 c n x = leaf m t l x" if "lo \<le> x" "x < mid" for x
    proof -
      have "x div level_size l = lo div level_size l"
      proof (rule antisym)
        have "x \<le> mid - 1" using that by simp
        then show "x div level_size l \<le> lo div level_size l" using lo(3) div_le_mono by metis
      qed (use that div_le_mono in blast)
      then have "slot_of l x = slot_of l lo" by (simp add: slot_of_div)
      then show ?thesis using a(9) by (simp add: leaf_entry [of m t l])
    qed
    have "map_fault U m t l lo mid m2 h2 e"
      using fault(2) same by (auto simp: map_fault_def split: map_error.splits)
    then show ?thesis using a(1) fault(1) unfolding map_good_def by auto
  qed
next
  fix m1 h1 e
  assume "child_table m h t lo l = Inr (m1, h1, Inl e)"
    "e = OutOfMemory \<and> (\<exists>live'. heap_inv m1 h1 U {} live') \<or> e = BlockInTheWay lo l \<and> leaf m t l lo \<noteq> None"
  then show ?thesis using lo(1) by (auto simp: map_good_def map_fault_def)
qed

lemma leaf_desc_update:
  "level_size l dvd addr \<Longrightarrow> tpl\<lparr>d_kind := kind_from_level l, d_address := addr\<rparr> = leaf_desc tpl l addr"
  by (simp add: leaf_desc_def)

lemma full_slot_ok:
  assumes st: "pt_state U m h live t l" and U: "low_pages U" and tpl: "attr_fits (d_attr_idx tpl)"
    and a: "level_size l dvd addr" "addr < 2 ^ 48"
    and free: "\<not> (level_next l \<noteq> None \<and> d_kind (table_get m t (slot_of l addr)) = Table)"
  shows "map_done U m live t l tpl addr (addr + level_size l)
    (table_set m t (slot_of l addr) (tpl\<lparr>d_kind := kind_from_level l, d_address := addr\<rparr>)) h live"
  unfolding map_done_def leaf_desc_update [OF a(1)] using set_leaf_ok [OF st U a tpl] free by blast

lemma map_loop_stop [simp]: "\<not> addr < fin \<Longrightarrow> map_loop below l tpl t fin fuel m h addr = Inr (m, h, Inr ())"
  by (cases fuel) simp_all

lemma map_good_done: "map_done U m live t l tpl lo hi m' h' live' \<Longrightarrow> map_good U m live t l tpl lo hi (Inr (m', h', Inr ()))"
  unfolding map_good_def by blast

lemma map_loop_ok:
  assumes U: "low_pages U" and tpl: "attr_fits (d_attr_idx tpl)"
    and below: "case below of None \<Rightarrow> level_next l = None | Some b \<Rightarrow> \<exists>n. level_next l = Some n \<and> below_good U tpl n b"
  shows "pt_state U m h live t l \<Longrightarrow> addr < fin \<Longrightarrow> fin \<le> 2 ^ 48 \<Longrightarrow> span l (fin - 1) = span l addr \<Longrightarrow>
    (fin - 1) div level_size l < addr div level_size l + fuel \<Longrightarrow>
    map_good U m live t l tpl addr fin (map_loop below l tpl t fin fuel m h addr)"
proof (induction fuel arbitrary: m h live addr)
  case 0
  then have "addr div level_size l \<le> (fin - 1) div level_size l" by (intro div_le_mono) simp
  with 0 show ?case by simp
next
  case (Suc fuel)
  let ?S = "level_size l" and ?ce = "chunk_end l addr fin"
  note se = slot_end_eq [of addr l]
  have a48: "addr < 2 ^ 48" using Suc.prems by simp
  have ce: "addr < ?ce" "?ce \<le> fin"
    using Suc.prems(2) se a48 dividend_less_div_times [of ?S addr] by (auto simp: chunk_end_def algebra_simps)
  have rest: "map_good U m live t l tpl addr fin (map_loop below l tpl t fin fuel m1 h1 ?ce)"
    if d: "map_done U m live t l tpl addr ?ce m1 h1 live1" for m1 h1 live1
  proof (cases "?ce < fin")
    case False
    then have "?ce = fin" using ce by simp
    then show ?thesis using map_good_done d by simp
  next
    case True
    then have eq: "?ce = (addr div ?S + 1) * ?S" using se a48 by (auto simp: chunk_end_def min_def split: if_splits)
    then have q: "?ce div ?S = addr div ?S + 1" "4096 dvd ?ce" by (simp_all del: mult_Suc mult_Suc_right)
    have "span l ?ce = span l addr" using ce True by (intro span_between [OF _ _ Suc.prems(4)]) auto
    then have "map_good U m1 live1 t l tpl ?ce fin (map_loop below l tpl t fin fuel m1 h1 ?ce)"
      using d Suc.prems(3-5) True q(1) by (intro Suc.IH) (auto simp: map_done_def)
    then show ?thesis using map_good_continue [OF d _ True q(2) Suc.prems(4)] ce(1) by simp
  qed
  show ?case
  proof (cases "level_is_aligned l addr \<and> ?ce = slot_end l addr")
    case True
    then have al: "?S dvd addr" by (simp add: level_is_aligned_dvd)
    then have ce_eq: "?ce = addr + ?S" using True se a48 by (auto elim: dvdE)
    show ?thesis
    proof (cases "level_next l \<noteq> None \<and> d_kind (table_get m t (slot_of l addr)) = Table")
      case tab: True
      then obtain n where n: "level_next l = Some n" by blast
      have "pt_wf m t l" using Suc.prems(1) by (simp add: pt_state_def)
      then obtain x where x: "addr \<le> x" "x < addr + ?S" "leaf m t l x \<noteq> None"
        using table_in_way [OF _ n al] tab by blast
      then have "map_fault U m t l addr fin m h (TableInTheWay addr l)"
        using ce ce_eq by (auto simp: map_fault_def intro!: exI [of _ x])
      moreover have "map_loop below l tpl t fin (Suc fuel) m h addr = Inr (m, h, Inl (TableInTheWay addr l))"
        using Suc.prems(2) True tab by simp
      ultimately show ?thesis unfolding map_good_def by blast
    next
      case free: False
      note d = full_slot_ok [OF Suc.prems(1) U tpl al a48 free]
      show ?thesis using rest [OF d [folded ce_eq]] Suc.prems(2) True free by auto
    qed
  next
    case part: False
    show ?thesis
    proof (cases below)
      case None
      then have n: "level_next l = None" using below by simp
      have "l = Level3" using n by (cases l) simp_all
      then have S: "?S = 4096" by (simp add: level_size_cases)
      have "\<not> (4096 dvd addr \<and> 4096 dvd fin)"
      proof
        assume al: "4096 dvd addr \<and> 4096 dvd fin"
        then obtain i j where ij: "addr = 4096 * i" "fin = 4096 * j" by (auto elim!: dvdE)
        then have "i < j" using Suc.prems(2) by simp
        then have "Suc i * 4096 \<le> fin" using ij by simp
        then have "?ce = slot_end l addr" using se a48 ij S by (simp add: chunk_end_def)
        then show False using part al S by (simp add: level_is_aligned_dvd)
      qed
      then show ?thesis using part None Suc.prems(2) by (auto simp: map_good_def map_fault_def)
    next
      case (Some b)
      then obtain n where n: "level_next l = Some n" "below_good U tpl n b" using below by auto
      have le: "?ce \<le> 2 ^ 48" using ce Suc.prems(3) by simp
      have same: "(?ce - 1) div ?S = addr div ?S"
      proof (rule antisym)
        have "?ce \<le> (addr div ?S + 1) * ?S" using se a48 by (simp add: chunk_end_def)
        then have "?ce - 1 < (addr div ?S + 1) * ?S" using ce by linarith
        then have "(?ce - 1) div ?S < addr div ?S + 1" by (simp only: div_less_iff_less_mult level_size_pos)
        then show "(?ce - 1) div ?S \<le> addr div ?S" by simp
      qed (use ce in \<open>auto intro: div_le_mono\<close>)
      note p = part_slot_ok [OF Suc.prems(1) U n ce(1) le same]
      let ?sub = "obind (child_table m h t addr l) (\<lambda>(m1, h1, found).
        case found of Inl e \<Rightarrow> Inr (m1, h1, Inl e)
        | Inr child \<Rightarrow> b m1 h1 child \<lparr>r_base = addr, r_size = usize_sub ?ce addr\<rparr>)"
      have loop: "map_loop below l tpl t fin (Suc fuel) m h addr = obind ?sub (\<lambda>(m2, h2, res).
        case res of Inl e \<Rightarrow> Inr (m2, h2, Inl e) | Inr _ \<Rightarrow> map_loop below l tpl t fin fuel m2 h2 ?ce)"
        using part Some Suc.prems(2)
        by (auto simp: obind_def split: sum.splits prod.splits)
      from p consider (ok) m2 h2 live2 where "?sub = Inr (m2, h2, Inr ())" "map_done U m live t l tpl addr ?ce m2 h2 live2"
        | (fault) m2 h2 e where "?sub = Inr (m2, h2, Inl e)" "map_fault U m t l addr ?ce m2 h2 e"
        unfolding map_good_def by blast
      then show ?thesis
      proof cases
        case ok
        then show ?thesis unfolding loop using rest by simp
      next
        case fault
        have "?ce = fin \<or> 4096 dvd ?ce" using se a48 by (auto simp: chunk_end_def min_def simp del: mult_Suc mult_Suc_right)
        then have "map_fault U m t l addr fin m2 h2 e"
          using fault(2) ce by (fastforce simp: map_fault_def split: map_error.splits)
        then show ?thesis unfolding loop using fault(1) by (auto simp: map_good_def)
      qed
    qed
  qed
qed


lemma div_add_le:
  assumes "0 < (s :: nat)"
  shows "(a + b) div s \<le> a div s + b div s + 1"
proof -
  have "a mod s + b mod s < 2 * s" using mod_less_divisor [OF assms, of a] mod_less_divisor [OF assms, of b] by linarith
  then have "(a mod s + b mod s) div s < 2" using assms by (simp add: div_less_iff_less_mult)
  then show ?thesis using div_add1_eq [of a b s] by simp
qed

lemma map_range_ok:
  assumes U: "low_pages U" and tpl: "attr_fits (d_attr_idx tpl)"
  shows "below_good U tpl l (\<lambda>m h t part. map_range m h t part tpl l)"
proof (induction "3 - level_number l" arbitrary: l rule: less_induct)
  case less
  let ?below = "case level_next l of None \<Rightarrow> None | Some n \<Rightarrow> Some (\<lambda>m h c part. map_range m h c part tpl n)"
  have below: "case ?below of None \<Rightarrow> level_next l = None | Some b \<Rightarrow> \<exists>n. level_next l = Some n \<and> below_good U tpl n b"
  proof (cases "level_next l")
    case (Some n)
    then have "below_good U tpl n (\<lambda>m h c part. map_range m h c part tpl n)"
      by (intro less) (cases l, auto)
    then show ?thesis using Some by simp
  qed simp
  show ?case
    unfolding below_good_def
  proof (intro allI impI)
    fix m h live c lo hi
    assume a: "pt_state U m h live c l" "lo < hi" "hi \<le> (2::nat) ^ 48" "span l (hi - 1) = span l lo"
    let ?r = "\<lparr>r_base = lo, r_size = usize_sub hi lo\<rparr>"
    have size: "r_size ?r = hi - lo" using a(2) by (simp add: usize_sub_small)
    have fin: "region_end ?r = hi" using a(2,3) by (simp add: region_end_def usize_sub_small usize_add_small)
    have "(hi - 1) div level_size l < lo div level_size l + map_passes ?r l"
    proof -
      have "hi - 1 \<le> lo + (hi - lo)" using a(2) by simp
      then have "(hi - 1) div level_size l \<le> (lo + (hi - lo)) div level_size l" by (rule div_le_mono)
      also have "\<dots> \<le> lo div level_size l + (hi - lo) div level_size l + 1"
        by (rule div_add_le [OF level_size_pos])
      finally show ?thesis using size by (simp add: map_passes_def)
    qed
    then show "map_good U m live c l tpl lo hi (map_range m h c ?r tpl l)"
      unfolding map_range.simps [of m h c ?r tpl l] fin
      using map_loop_ok [OF U tpl below a] by simp
  qed
qed

text \<open>The whole address space is one span of the first level: 512 slots of 1 GiB.\<close>

lemma identity_map_ok:
  assumes st: "pt_state U m h live t Level1" and U: "low_pages U" and tpl: "attr_fits (d_attr_idx tpl)"
    and r: "0 < r_size r" "r_base r + r_size r \<le> 2 ^ 39"
  shows "map_good U m live t Level1 tpl (r_base r) (r_base r + r_size r) (identity_map m h t r tpl)"
proof -
  have "r = \<lparr>r_base = r_base r, r_size = usize_sub (r_base r + r_size r) (r_base r)\<rparr>" by (simp add: usize_sub_small)
  moreover have "span Level1 x = 0" if "x < 2 ^ 39" for x using that by (simp add: span_def level_size_cases)
  ultimately show ?thesis
    using map_range_ok [OF U tpl, of Level1, unfolded below_good_def, rule_format, OF st, of "r_base r" "r_base r + r_size r"] r
    by (simp add: identity_map_def)
qed

subsection \<open>The walk ends at the leaf\<close>

lemma translate_leaf:
  "pt_wf m t l \<Longrightarrow> translate_at m t va l = map_option (\<lambda>(d, l'). (d_address d OR (va AND offset_mask l'), l')) (leaf m t l va)"
proof (induction m t va l rule: translate_at.induct)
  case (1 m t va l)
  let ?d = "table_get m t (slot_of l va)"
  show ?case
  proof (cases "level_next l")
    case (Some n)
    show ?thesis
    proof (cases "d_kind ?d")
      case Table
      have "entry_wf m l ?d" using "1.prems" unfolding pt_wf_entry [of m t l] by simp
      then have c: "pt_wf m (d_address ?d) n" using Some Table by (simp add: entry_wf_def)
      then have "from_base (d_address ?d) = Some (d_address ?d)" using pt_wf_ok [OF c] by (simp add: from_base_def table_ok_def)
      then show ?thesis using "1.IH" [OF refl refl Table Some _ c] Some Table
        by (simp add: translate_at.simps [of m t va l] leaf.simps [of m t l va] Let_def)
    qed (simp_all add: translate_at.simps [of m t va l] leaf.simps [of m t l va] Let_def)
  qed (simp add: translate_at.simps [of m t va l] leaf.simps [of m t l va] Let_def split: kind.splits)
qed

lemma leaf_desc_identity: "d_address (leaf_desc tpl l va) OR (va AND offset_mask l) = va"
proof -
  have "va div level_size l * level_size l = push_bit (level_offset l) (drop_bit (level_offset l) va)"
    by (simp add: level_size_pow push_bit_eq_mult drop_bit_eq_div)
  moreover have "va AND offset_mask l = take_bit (level_offset l) va"
    by (simp add: and_offset_mask level_size_pow take_bit_eq_mod)
  moreover have "push_bit k (drop_bit k x) OR take_bit k x = x" for k and x :: nat
    by (rule bit_eqI) (auto simp: bit_simps)
  ultimately show ?thesis by simp
qed

lemma translate_mapped:
  "pt_wf m t Level1 \<Longrightarrow> leaf m t Level1 va = Some (leaf_desc tpl l' va, l') \<Longrightarrow> translate m t va = Some va"
  by (simp add: translate_def translate_leaf leaf_desc_identity del: leaf_desc_simps)

lemma translate_unmapped: "pt_wf m t Level1 \<Longrightarrow> leaf m t Level1 va = None \<Longrightarrow> translate m t va = None"
  by (simp add: translate_def translate_leaf)

subsection \<open>Applying a plan\<close>

type_synonym map_job = "string \<times> region \<times> descriptor"

definition region_bytes :: "region \<Rightarrow> usize set" where
  "region_bytes r = {r_base r..<r_base r + r_size r}"

fun job_bytes :: "map_job \<Rightarrow> usize set" where
  "job_bytes (name, r, tpl) = region_bytes r"

fun job_fits :: "map_job \<Rightarrow> bool" where
  "job_fits (name, r, tpl) \<longleftrightarrow> r_base r + r_size r \<le> 2 ^ 39 \<and> attr_fits (d_attr_idx tpl)"

fun jobs_apart :: "map_job list \<Rightarrow> bool" where
  "jobs_apart [] \<longleftrightarrow> True"
| "jobs_apart (j # js) \<longleftrightarrow> (\<forall>k \<in> set js. job_bytes j \<inter> job_bytes k = {}) \<and> jobs_apart js"

text \<open>What a walk finds after the jobs: the template of the job that holds the address, or what was there.\<close>

definition job_maps :: "mem \<Rightarrow> table \<Rightarrow> map_job list \<Rightarrow> mem \<Rightarrow> bool" where
  "job_maps m t jobs m' \<longleftrightarrow> (\<forall>va < 2 ^ 39.
    (\<forall>(name, r, tpl) \<in> set jobs. va \<in> region_bytes r \<longrightarrow> (\<exists>l'. leaf m' t Level1 va = Some (leaf_desc tpl l' va, l')))
    \<and> (va \<notin> (\<Union>j \<in> set jobs. job_bytes j) \<longrightarrow> leaf m' t Level1 va = leaf m t Level1 va))"

definition job_fault :: "pfn set \<Rightarrow> mem \<Rightarrow> table \<Rightarrow> map_job list \<Rightarrow> mem \<Rightarrow> heap \<Rightarrow> plan_error \<Rightarrow> bool" where
  "job_fault U m t jobs m' h' e \<longleftrightarrow> (\<exists>name r tpl e'. (name, r, tpl) \<in> set jobs \<and> e = Failed name e'
    \<and> map_fault U m t Level1 (r_base r) (r_base r + r_size r) m' h' e')"

lemma identity_map_empty: "r_size r = 0 \<Longrightarrow> identity_map m h t r tpl = Inr (m, h, Inr ())"
  by (simp add: identity_map_def map_range.simps region_end_def usize_add_def)

lemma pt_grows_refl: "pt_grows m live T m live T"
  by (simp add: pt_grows_def)

lemma identity_map_maps:
  assumes st: "pt_state U m h live t Level1" and U: "low_pages U" and fits: "job_fits (name, r, tpl)"
  obtains m1 h1 live1 where "identity_map m h t r tpl = Inr (m1, h1, Inr ())" and "pt_state U m1 h1 live1 t Level1"
      and "pt_grows m live (tables m t Level1) m1 live1 (tables m1 t Level1)" and "job_maps m t [(name, r, tpl)] m1"
  | m1 h1 e where "identity_map m h t r tpl = Inr (m1, h1, Inl e)"
      and "map_fault U m t Level1 (r_base r) (r_base r + r_size r) m1 h1 e"
proof (cases "r_size r = 0")
  case True
  have "job_maps m t [(name, r, tpl)] m" using True by (auto simp: job_maps_def region_bytes_def)
  then show thesis using that(1) [OF identity_map_empty [OF True] st pt_grows_refl] by blast
next
  case False
  have r: "0 < r_size r" "r_base r + r_size r \<le> 2 ^ 39" "attr_fits (d_attr_idx tpl)" using False fits by auto
  have sp: "span Level1 x = 0" if "x < 2 ^ 39" for x using that by (simp add: span_def level_size_cases)
  have maps: "job_maps m t [(name, r, tpl)] m1" if "maps_range m t Level1 tpl (r_base r) (r_base r + r_size r) m1" for m1
    unfolding job_maps_def
  proof (intro allI impI conjI)
    fix va :: nat assume va: "va < 2 ^ 39"
    have "span Level1 va = span Level1 (r_base r)" using sp [OF va] sp [of "r_base r"] r(1,2) by simp
    note m = that [unfolded maps_range_def, rule_format, OF this]
    show "\<forall>(name, r, tpl) \<in> set [(name, r, tpl)]. va \<in> region_bytes r \<longrightarrow> (\<exists>l'. leaf m1 t Level1 va = Some (leaf_desc tpl l' va, l'))"
      "va \<notin> (\<Union>j \<in> set [(name, r, tpl)]. job_bytes j) \<Longrightarrow> leaf m1 t Level1 va = leaf m t Level1 va"
      using m by (auto simp: region_bytes_def split: if_splits)
  qed
  show thesis
    using identity_map_ok [OF st U r(3,1,2)] that maps unfolding map_good_def map_done_def by blast
qed

lemma job_maps_Cons:
  assumes a: "job_maps m t [j] m1" and b: "job_maps m1 t js m2" and apart: "\<forall>k \<in> set js. job_bytes j \<inter> job_bytes k = {}"
  shows "job_maps m t (j # js) m2"
proof -
  obtain name r tpl where j: "j = (name, r, tpl)" by (cases j)
  show ?thesis
    unfolding job_maps_def j
  proof (intro allI impI conjI)
    fix va :: nat assume va: "va < 2 ^ 39"
    note a' = a [unfolded job_maps_def, rule_format, OF va] and b' = b [unfolded job_maps_def, rule_format, OF va]
    have "va \<in> region_bytes r \<Longrightarrow> va \<notin> (\<Union>k \<in> set js. job_bytes k)" using apart j by auto
    then show "\<forall>(name, r, tpl) \<in> set ((name, r, tpl) # js). va \<in> region_bytes r \<longrightarrow> (\<exists>l'. leaf m2 t Level1 va = Some (leaf_desc tpl l' va, l'))"
      using a' b' j by auto
    show "va \<notin> (\<Union>j \<in> set ((name, r, tpl) # js). job_bytes j) \<Longrightarrow> leaf m2 t Level1 va = leaf m t Level1 va"
      using a' b' j by auto
  qed
qed

lemma map_fault_leaf:
  "map_fault U m1 t l lo hi m' h' e \<Longrightarrow> (\<And>x. lo \<le> x \<Longrightarrow> x < hi \<Longrightarrow> leaf m1 t l x = leaf m t l x) \<Longrightarrow> map_fault U m t l lo hi m' h' e"
  by (cases e) (auto simp: map_fault_def)

lemma map_all_ok:
  assumes U: "low_pages U"
  shows "pt_state U m h live t Level1 \<Longrightarrow> \<forall>j \<in> set jobs. job_fits j \<Longrightarrow> jobs_apart jobs \<Longrightarrow>
    (\<exists>m' h'. (\<exists>live'. map_all m h t jobs = Inr (m', h', Inr ()) \<and> pt_state U m' h' live' t Level1
        \<and> pt_grows m live (tables m t Level1) m' live' (tables m' t Level1) \<and> job_maps m t jobs m')
      \<or> (\<exists>e. map_all m h t jobs = Inr (m', h', Inl e) \<and> job_fault U m t jobs m' h' e))"
proof (induction jobs arbitrary: m h live)
  case Nil
  then show ?case using pt_grows_refl [of m live] by (auto simp: job_maps_def)
next
  case (Cons j js)
  obtain name r tpl where j: "j = (name, r, tpl)" by (cases j)
  have fits: "job_fits (name, r, tpl)" using Cons.prems(2) j by simp
  show ?case
  proof (rule identity_map_maps [OF Cons.prems(1) U fits])
    fix m1 h1 live1
    assume a: "identity_map m h t r tpl = Inr (m1, h1, Inr ())" "pt_state U m1 h1 live1 t Level1"
      "pt_grows m live (tables m t Level1) m1 live1 (tables m1 t Level1)" "job_maps m t [(name, r, tpl)] m1"
    have apart: "\<forall>k \<in> set js. job_bytes j \<inter> job_bytes k = {}" using Cons.prems(3) by simp
    have js: "\<forall>j \<in> set js. job_fits j" "jobs_apart js" using Cons.prems by auto
    have all: "map_all m h t (j # js) = map_all m1 h1 t js" using a(1) j by simp
    have same: "leaf m1 t Level1 x = leaf m t Level1 x" if "x < 2 ^ 39" "x \<notin> job_bytes j" for x
      using a(4) that j by (simp add: job_maps_def)
    from Cons.IH [OF a(2) js] consider
      (ok) m2 h2 live2 where "map_all m1 h1 t js = Inr (m2, h2, Inr ())" "pt_state U m2 h2 live2 t Level1"
        "pt_grows m1 live1 (tables m1 t Level1) m2 live2 (tables m2 t Level1)" "job_maps m1 t js m2"
      | (fault) m2 h2 e where "map_all m1 h1 t js = Inr (m2, h2, Inl e)" "job_fault U m1 t js m2 h2 e" by blast
    then show ?case
    proof cases
      case ok
      have "job_maps m t (j # js) m2" using job_maps_Cons [OF _ ok(4) apart] a(4) j by simp
      then show ?thesis using ok(1,2) all pt_grows_trans [OF a(2,3) ok(3)] by metis
    next
      case fault
      then obtain name' r' tpl' e' where f: "(name', r', tpl') \<in> set js" "e = Failed name' e'"
        "map_fault U m1 t Level1 (r_base r') (r_base r' + r_size r') m2 h2 e'" unfolding job_fault_def by blast
      have fit: "r_base r' + r_size r' \<le> 2 ^ 39" using js(1) f(1) by auto
      have "x \<notin> job_bytes j" if "r_base r' \<le> x" "x < r_base r' + r_size r'" for x
        using apart f(1) that by (force simp: region_bytes_def)
      then have "map_fault U m t Level1 (r_base r') (r_base r' + r_size r') m2 h2 e'"
        using same fit by (intro map_fault_leaf [OF f(3)]) auto
      then have "job_fault U m t (j # js) m2 h2 e" using f(1,2) unfolding job_fault_def by auto
      then show ?thesis using fault(1) all by metis
    qed
  next
    fix m1 h1 e
    assume a: "identity_map m h t r tpl = Inr (m1, h1, Inl e)" "map_fault U m t Level1 (r_base r) (r_base r + r_size r) m1 h1 e"
    have "map_all m h t (j # js) = Inr (m1, h1, Inl (Failed name e))" using a(1) j by simp
    moreover have "job_fault U m t (j # js) m1 h1 (Failed name e)" using a(2) j unfolding job_fault_def by auto
    ultimately show ?case by blast
  qed
qed

subsection \<open>The regions of a plan and the gaps between them\<close>

definition region_fits :: "region \<Rightarrow> bool" where
  "region_fits r \<longleftrightarrow> r_base r + r_size r \<le> 2 ^ 39"

lemma region_fits_end: "region_fits r \<Longrightarrow> region_end r = r_base r + r_size r"
  by (simp add: region_fits_def region_end_def usize_add_small)

text \<open>The test of \<open>apply\<close> finds every pair of regions that share a byte.\<close>

lemma regions_overlap_bytes:
  "region_fits r \<Longrightarrow> region_fits r' \<Longrightarrow> \<not> regions_overlap r r' \<Longrightarrow> region_bytes r \<inter> region_bytes r' = {}"
  by (auto simp: regions_overlap_def region_fits_end region_bytes_def)

fun plan_apart :: "mapping list \<Rightarrow> bool" where
  "plan_apart [] \<longleftrightarrow> True"
| "plan_apart (p # ps) \<longleftrightarrow> (\<forall>q \<in> set ps. \<not> regions_overlap (mp_region p) (mp_region q)) \<and> plan_apart ps"

lemma plan_overlap_None: "plan_overlap plan = None \<longleftrightarrow> plan_apart plan"
  by (induction plan rule: plan_overlap.induct) (auto simp: find_None_iff_all dest: find_SomeD split: option.splits)

lemma plan_overlap_Some:
  "plan_overlap plan = Some (a, b) \<Longrightarrow> \<exists>i j. i < j \<and> j < length plan \<and> mp_name (plan ! i) = a \<and> mp_name (plan ! j) = b
    \<and> regions_overlap (mp_region (plan ! i)) (mp_region (plan ! j))"
proof (induction plan rule: plan_overlap.induct)
  case (2 one rest)
  show ?case
  proof (cases "find (\<lambda>other. regions_overlap (mp_region one) (mp_region other)) rest")
    case None
    then obtain i j where "i < j" "j < length rest" "mp_name (rest ! i) = a" "mp_name (rest ! j) = b"
      "regions_overlap (mp_region (rest ! i)) (mp_region (rest ! j))" using 2 by auto
    then show ?thesis by (intro exI [of _ "Suc i"] exI [of _ "Suc j"]) simp
  next
    case (Some other)
    then have "a = mp_name one" "b = mp_name other" using 2(2) by auto
    moreover obtain j where "j < length rest" "rest ! j = other" using find_SomeD [OF Some] by (auto simp: in_set_conv_nth)
    ultimately show ?thesis using find_SomeD [OF Some] by (intro exI [of _ 0] exI [of _ "Suc j"]) simp
  qed
qed simp

lemma gap_region:
  assumes arena: "region_fits arena" and g: "g \<in> set (gaps arena taken)"
  shows "region_bytes (pr_region g) = bytes_of (pr_set g)" and "region_fits (pr_region g)"
    and "4096 dvd r_base (pr_region g)" and "4096 dvd r_base (pr_region g) + r_size (pr_region g)"
proof -
  have le: "pr_start g < pr_end g" by (rule separated_nonempty [OF gaps_separated g])
  have "pr_end g - 1 \<in> pr_set g" using le by (auto simp: in_pr_set)
  then have "pr_end g - 1 < region_end arena div 4096"
    using gaps_pages [of arena taken "pr_end g - 1"] g by (auto simp: from_addr_down_def)
  then have "pr_end g \<le> region_end arena div 4096" by simp
  then have fit: "pr_end g * 4096 \<le> 2 ^ 39"
    using arena div_times_less_eq_dividend [of "region_end arena" 4096] unfolding region_fits_end [OF arena]
    by (simp add: region_fits_def less_eq_div_iff_mult_less_eq)
  have *: "to_addr (pr_start g) = pr_start g * 4096" "usize_mul (pr_pages g) PAGE_SIZE = (pr_end g - pr_start g) * 4096"
    using fit le by (simp_all add: to_addr_def pr_pages_small usize_mul_small PAGE_SIZE_def)
  then show "region_bytes (pr_region g) = bytes_of (pr_set g)"
    using le by (auto simp: region_bytes_def pr_region_def in_pr_set less_eq_div_iff_mult_less_eq div_less_iff_less_mult diff_mult_distrib)
  show "region_fits (pr_region g)" using * fit le by (simp add: region_fits_def pr_region_def diff_mult_distrib)
  show "4096 dvd r_base (pr_region g)" "4096 dvd r_base (pr_region g) + r_size (pr_region g)"
    using * by (simp_all add: pr_region_def)
qed

lemma gap_bytes:
  assumes "region_fits arena"
  shows "(\<exists>g \<in> set (gaps arena taken). va \<in> region_bytes (pr_region g)) \<longleftrightarrow>
    r_base arena \<le> va div 4096 * 4096 \<and> va div 4096 < region_end arena div 4096 \<and> \<not> taken_page arena taken (va div 4096)"
  using gaps_pages [of arena taken "va div 4096"] gap_region(1) [OF assms] by (auto simp: from_addr_down_def)

lemma separated_apart: "separated rs \<Longrightarrow> i < j \<Longrightarrow> j < length rs \<Longrightarrow> pr_set (rs ! i) \<inter> pr_set (rs ! j) = {}"
proof (induction rs arbitrary: i j)
  case (Cons r rs)
  obtain k where k: "j = Suc k" "k < length rs" using Cons.prems by (cases j) auto
  show ?case
  proof (cases i)
    case 0
    have "pr_end r < pr_start (rs ! k)" using separated_hd_less [OF Cons.prems(1)] k(2) by simp
    then show ?thesis using 0 k by (auto simp: in_pr_set)
  next
    case (Suc i')
    then show ?thesis using Cons.IH [OF separated_tl [OF Cons.prems(1)], of i' k] Cons.prems k by simp
  qed
qed simp

lemma jobs_apart_nth:
  "(\<And>i j. i < j \<Longrightarrow> j < length jobs \<Longrightarrow> job_bytes (jobs ! i) \<inter> job_bytes (jobs ! j) = {}) \<Longrightarrow> jobs_apart jobs"
proof (induction jobs)
  case (Cons j js)
  have "job_bytes j \<inter> job_bytes k = {}" if k: "k \<in> set js" for k
  proof -
    obtain i where "i < length js" "k = js ! i" using k by (auto simp: in_set_conv_nth)
    then show ?thesis using Cons.prems [of 0 "Suc i"] by simp
  qed
  moreover have "jobs_apart js" using Cons.prems [of "Suc i" "Suc j" for i j] by (intro Cons.IH) simp
  ultimately show ?case by simp
qed simp

lemma gap_jobs_apart:
  assumes "region_fits arena"
  shows "jobs_apart (gap_jobs arena plan fill)"
proof (rule jobs_apart_nth)
  let ?gs = "gaps arena (map mp_region plan)"
  fix i j assume ij: "i < j" "j < length (gap_jobs arena plan fill)"
  then have len: "j < length ?gs" by (simp add: gap_jobs_def)
  have "pr_set (?gs ! i) \<inter> pr_set (?gs ! j) = {}" by (rule separated_apart [OF gaps_separated ij(1) len])
  moreover have "region_bytes (pr_region (?gs ! k)) = bytes_of (pr_set (?gs ! k))" if "k < length ?gs" for k
    by (rule gap_region(1) [OF assms, of _ "map mp_region plan"]) (use that in simp)
  ultimately show "job_bytes (gap_jobs arena plan fill ! i) \<inter> job_bytes (gap_jobs arena plan fill ! j) = {}"
    using ij(1) len by (auto simp: gap_jobs_def)
qed

lemma jobs_apart_append:
  "jobs_apart (js @ ks) \<longleftrightarrow> jobs_apart js \<and> jobs_apart ks \<and> (\<forall>j \<in> set js. \<forall>k \<in> set ks. job_bytes j \<inter> job_bytes k = {})"
  by (induction js) auto

lemma in_plan_jobs:
  "(name, r, tpl) \<in> set (plan_jobs plan) \<longleftrightarrow> \<lparr>mp_name = name, mp_region = r, mp_template = Some tpl\<rparr> \<in> set plan"
proof -
  have "p = \<lparr>mp_name = name, mp_region = r, mp_template = Some tpl\<rparr> \<longleftrightarrow>
      map_option (\<lambda>tpl. (mp_name p, mp_region p, tpl)) (mp_template p) = Some (name, r, tpl)" for p :: mapping
    by (cases p) auto
  then show ?thesis unfolding plan_jobs_def set_map_filter mem_Collect_eq by metis
qed

lemma plan_jobs_Cons:
  "plan_jobs (p # ps) = (case mp_template p of None \<Rightarrow> [] | Some tpl \<Rightarrow> [(mp_name p, mp_region p, tpl)]) @ plan_jobs ps"
  by (auto simp: plan_jobs_def List.map_filter_simps split: option.splits)

lemma plan_jobs_apart:
  "plan_apart plan \<Longrightarrow> \<forall>p \<in> set plan. region_fits (mp_region p) \<Longrightarrow> jobs_apart (plan_jobs plan)"
proof (induction plan)
  case (Cons p ps)
  have "region_bytes (mp_region p) \<inter> job_bytes k = {}" if k: "k \<in> set (plan_jobs ps)" for k
  proof -
    obtain name r tpl where "k = (name, r, tpl)" by (cases k)
    moreover from this have "\<lparr>mp_name = name, mp_region = r, mp_template = Some tpl\<rparr> \<in> set ps" using k by (simp add: in_plan_jobs)
    ultimately show ?thesis using Cons.prems regions_overlap_bytes [of "mp_region p" r] by force
  qed
  then show ?case using Cons by (auto simp: plan_jobs_Cons jobs_apart_append split: option.splits)
qed (simp add: plan_jobs_def)

lemma map_all_append:
  "map_all m h t (js @ ks) = obind (map_all m h t js) (\<lambda>(m', h', res).
    case res of Inl e \<Rightarrow> Inr (m', h', Inl e) | Inr _ \<Rightarrow> map_all m' h' t ks)"
proof (induction js arbitrary: m h)
  case (Cons j js)
  then show ?case by (cases j) (auto simp: obind_def split: sum.splits prod.splits)
qed simp

lemma table_apply_jobs:
  "plan_apart plan \<Longrightarrow> table_apply m h t arena plan fill = map_all m h t (plan_jobs plan @ gap_jobs arena plan fill)"
  by (simp add: table_apply_def plan_overlap_None [symmetric] map_all_append)

text \<open>A gap holds no byte of a region of the plan.\<close>

lemma gap_plan_apart:
  assumes arena: "region_fits arena" and g: "g \<in> set (gaps arena (map mp_region plan))" and p: "p \<in> set plan" "region_fits (mp_region p)"
  shows "region_bytes (mp_region p) \<inter> region_bytes (pr_region g) = {}"
proof -
  have False if va: "va \<in> region_bytes (mp_region p)" "va \<in> region_bytes (pr_region g)" for va
  proof -
    have gap: "r_base arena \<le> va div 4096 * 4096" "va div 4096 < region_end arena div 4096"
      "\<not> taken_page arena (map mp_region plan) (va div 4096)"
      using gap_bytes [OF arena, of "map mp_region plan" va] g va(2) by blast+
    have "r_base arena \<le> va" using gap(1) div_times_less_eq_dividend le_trans by blast
    moreover have "va < region_end arena" using gap(2) div_le_mono [of "region_end arena" va 4096] by linarith
    ultimately have "page_touches (mp_region p) arena (va div 4096)"
      unfolding page_touches_byte using va(1) p(2) by (intro exI [of _ va]) (auto simp: region_bytes_def region_fits_end)
    then show False using gap(3) p(1) by (auto simp: taken_page_def)
  qed
  then show ?thesis by blast
qed

definition plan_fits :: "mapping list \<Rightarrow> bool" where
  "plan_fits plan \<longleftrightarrow> (\<forall>p \<in> set plan. region_fits (mp_region p) \<and> (case mp_template p of None \<Rightarrow> True | Some tpl \<Rightarrow> attr_fits (d_attr_idx tpl)))"

lemma apply_jobs_ok:
  assumes plan: "plan_apart plan" "plan_fits plan" and arena: "region_fits arena" and fill: "attr_fits (d_attr_idx fill)"
  shows "\<forall>j \<in> set (plan_jobs plan @ gap_jobs arena plan fill). job_fits j"
    and "jobs_apart (plan_jobs plan @ gap_jobs arena plan fill)"
proof -
  have fits: "\<forall>p \<in> set plan. region_fits (mp_region p)" using plan(2) by (simp add: plan_fits_def)
  have "job_fits j" if j: "j \<in> set (plan_jobs plan)" for j
  proof -
    obtain name r tpl where "j = (name, r, tpl)" by (cases j)
    then show ?thesis using j plan(2) by (fastforce simp: in_plan_jobs plan_fits_def region_fits_def)
  qed
  moreover have "job_fits j" if "j \<in> set (gap_jobs arena plan fill)" for j
    using that gap_region(2) [OF arena] fill by (auto simp: gap_jobs_def region_fits_def)
  ultimately show "\<forall>j \<in> set (plan_jobs plan @ gap_jobs arena plan fill). job_fits j" by auto
  have "job_bytes j \<inter> job_bytes k = {}" if jk: "j \<in> set (plan_jobs plan)" "k \<in> set (gap_jobs arena plan fill)" for j k
  proof -
    obtain name r tpl where j: "j = (name, r, tpl)" by (cases j)
    then have p: "\<lparr>mp_name = name, mp_region = r, mp_template = Some tpl\<rparr> \<in> set plan" using jk(1) by (simp add: in_plan_jobs)
    obtain g where "g \<in> set (gaps arena (map mp_region plan))" "k = (''unclaimed memory'', pr_region g, fill)"
      using jk(2) by (auto simp: gap_jobs_def)
    then show ?thesis using gap_plan_apart [OF arena _ p] fits p j by fastforce
  qed
  then show "jobs_apart (plan_jobs plan @ gap_jobs arena plan fill)"
    using plan_jobs_apart [OF plan(1) fits] gap_jobs_apart [OF arena] by (simp add: jobs_apart_append)
qed

end
