(* ===== verification/MmuProperties.thy ===== *)
theory MmuProperties imports PageTableCorrect HeapProperties begin

text \<open>
  What the MMU setup promises: the theorems about descriptors, translation tables and \<open>mmu::init\<close>, with
  examples on the small machine.
\<close>

subsection \<open>The map the kernel runs under\<close>

text \<open>What \<open>linker.ld\<close> guarantees: the sections follow one another, each on a page boundary.\<close>

definition ld_ok :: "linker_symbols \<Rightarrow> bool" where
  "ld_ok ld \<longleftrightarrow> ld_image_start ld \<le> ld_exec_end ld \<and> ld_exec_end ld \<le> ld_rodata_end ld
    \<and> ld_rodata_end ld \<le> ld_stack_guard_start ld \<and> ld_stack_guard_start ld \<le> ld_stack_bottom ld
    \<and> ld_stack_bottom ld \<le> ld_stack_top ld \<and> ld_stack_top ld \<le> 2 ^ 39
    \<and> 4096 dvd ld_image_start ld \<and> 4096 dvd ld_exec_end ld \<and> 4096 dvd ld_rodata_end ld
    \<and> 4096 dvd ld_stack_guard_start ld \<and> 4096 dvd ld_stack_bottom ld \<and> 4096 dvd ld_stack_top ld"

text \<open>The memory the image and the device tree lie in.\<close>

definition board_ok :: "linker_symbols \<Rightarrow> region \<Rightarrow> region \<Rightarrow> bool" where
  "board_ok ld memory dtb \<longleftrightarrow> ld_ok ld \<and> region_fits memory \<and> region_fits dtb
    \<and> r_base memory \<le> ld_image_start ld \<and> r_base memory \<le> r_base dtb"

text \<open>The policy: which template an address is mapped with, \<open>None\<close> where nothing may be mapped.\<close>

definition boot_template :: "linker_symbols \<Rightarrow> region \<Rightarrow> region \<Rightarrow> usize \<Rightarrow> descriptor option" where
  "boot_template ld memory dtb va =
    (if va \<in> region_bytes (executable ld) then Some EXECUTABLE
     else if va \<in> region_bytes (rodata ld) then Some READ_ONLY
     else if va \<in> region_bytes (writable_data ld) \<union> region_bytes (stack ld) then Some WRITABLE
     else if va \<in> region_bytes (stack_guard ld) then None
     else if va \<in> region_bytes dtb then Some READ_ONLY
     else if r_base memory \<le> va div 4096 * 4096 \<and> va div 4096 < region_end memory div 4096
       \<and> \<not> taken_page memory (map mp_region (boot_plan ld dtb)) (va div 4096) then Some NORMAL_BLOCK
     else if va div 4096 < r_base memory div 4096 then Some DEVICE_BLOCK
     else None)"

definition image_regions :: "linker_symbols \<Rightarrow> (string \<times> region) list" where
  "image_regions ld = [(''text and vectors'', executable ld), (''rodata'', rodata ld), (''data and bss'', writable_data ld),
    (''stack guard'', stack_guard ld), (''stack'', stack ld)]"

lemma image_bytes:
  assumes "ld_ok ld"
  shows "region_bytes (executable ld) = {ld_image_start ld..<ld_exec_end ld}"
    and "region_bytes (rodata ld) = {ld_exec_end ld..<ld_rodata_end ld}"
    and "region_bytes (writable_data ld) = {ld_rodata_end ld..<ld_stack_guard_start ld}"
    and "region_bytes (stack_guard ld) = {ld_stack_guard_start ld..<ld_stack_bottom ld}"
    and "region_bytes (stack ld) = {ld_stack_bottom ld..<ld_stack_top ld}"
  using assms
  by (simp_all add: ld_ok_def region_bytes_def executable_def rodata_def writable_data_def stack_guard_def stack_def
      between_def usize_sub_small)

lemma image_fits:
  assumes "ld_ok ld" "(name, r) \<in> set (image_regions ld)"
  shows "region_fits r" and "4096 dvd r_base r" and "4096 dvd r_base r + r_size r" and "ld_image_start ld \<le> r_base r"
  using assms
  by (auto simp: ld_ok_def image_regions_def region_fits_def executable_def rodata_def writable_data_def stack_guard_def
      stack_def between_def usize_sub_small)

lemma boot_plan_image:
  "map (\<lambda>p. (mp_name p, mp_region p)) (boot_plan ld dtb) = image_regions ld @ [(''device tree'', dtb)]"
  by (simp add: boot_plan_def image_regions_def)

lemma in_boot_plan:
  assumes "p \<in> set (boot_plan ld dtb)"
  shows "(mp_name p, mp_region p) \<in> set (image_regions ld) \<or> mp_name p = ''device tree'' \<and> mp_region p = dtb"
proof -
  have "(mp_name p, mp_region p) \<in> (\<lambda>p. (mp_name p, mp_region p)) ` set (boot_plan ld dtb)" using assms by blast
  then show ?thesis unfolding set_map [symmetric] boot_plan_image by auto
qed

lemma template_fits: "attr_fits (d_attr_idx EXECUTABLE)" "attr_fits (d_attr_idx READ_ONLY)" "attr_fits (d_attr_idx WRITABLE)"
  "attr_fits (d_attr_idx NORMAL_BLOCK)" "attr_fits (d_attr_idx DEVICE_BLOCK)"
  by (simp_all add: attr_fits_def templates)

lemma boot_plan_fits:
  assumes "ld_ok ld" "region_fits dtb"
  shows "plan_fits (boot_plan ld dtb)"
proof -
  have "region_fits (mp_region p)" if "p \<in> set (boot_plan ld dtb)" for p
    using in_boot_plan [OF that] image_fits(1) [OF assms(1)] assms(2) by auto
  moreover have "case mp_template p of None \<Rightarrow> True | Some tpl \<Rightarrow> attr_fits (d_attr_idx tpl)" if "p \<in> set (boot_plan ld dtb)" for p
    using that template_fits by (auto simp: boot_plan_def)
  ultimately show ?thesis by (simp add: plan_fits_def)
qed

text \<open>The sections of the image never overlap, so an overlap is one with the device tree.\<close>

lemma plan_overlap_last:
  "plan_apart ps \<Longrightarrow> plan_overlap (ps @ [d]) = Some (a, b) \<Longrightarrow>
    b = mp_name d \<and> (\<exists>p \<in> set ps. a = mp_name p \<and> regions_overlap (mp_region p) (mp_region d))"
proof (induction ps)
  case (Cons p ps)
  have none: "find (\<lambda>q. regions_overlap (mp_region p) (mp_region q)) ps = None" using Cons.prems(1) by (simp add: find_None_iff_all)
  have "find P (xs @ ys) = (case find P xs of None \<Rightarrow> find P ys | Some x \<Rightarrow> Some x)" for P and xs ys :: "mapping list"
    by (induction xs) simp_all
  then have f: "find (\<lambda>q. regions_overlap (mp_region p) (mp_region q)) (ps @ [d]) = (if regions_overlap (mp_region p) (mp_region d) then Some d else None)"
    using none by simp
  show ?case
  proof (cases "regions_overlap (mp_region p) (mp_region d)")
    case True
    then show ?thesis using Cons.prems(2) f by auto
  next
    case False
    then show ?thesis using Cons.IH Cons.prems f by auto
  qed
qed simp

definition image_plan :: "linker_symbols \<Rightarrow> mapping list" where
  "image_plan ld = butlast (boot_plan ld region_EMPTY)"

lemma boot_plan_split:
  "boot_plan ld dtb = image_plan ld @ [\<lparr>mp_name = ''device tree'', mp_region = dtb, mp_template = Some READ_ONLY\<rparr>]"
  "map (\<lambda>p. (mp_name p, mp_region p)) (image_plan ld) = image_regions ld"
  by (simp_all only: image_plan_def boot_plan_def image_regions_def butlast.simps list.simps if_False if_True append.simps mapping.simps simp_thms)

lemma image_plan_apart:
  assumes "ld_ok ld"
  shows "plan_apart (image_plan ld)"
proof -
  have "\<not> regions_overlap (executable ld) (rodata ld)" "\<not> regions_overlap (executable ld) (writable_data ld)"
    "\<not> regions_overlap (executable ld) (stack_guard ld)" "\<not> regions_overlap (executable ld) (stack ld)"
    "\<not> regions_overlap (rodata ld) (writable_data ld)" "\<not> regions_overlap (rodata ld) (stack_guard ld)"
    "\<not> regions_overlap (rodata ld) (stack ld)" "\<not> regions_overlap (writable_data ld) (stack_guard ld)"
    "\<not> regions_overlap (writable_data ld) (stack ld)" "\<not> regions_overlap (stack_guard ld) (stack ld)"
    using assms
    by (simp_all add: ld_ok_def regions_overlap_def region_end_def executable_def rodata_def writable_data_def stack_guard_def
        stack_def between_def usize_sub_small usize_add_small)
  then show ?thesis
    by (simp add: image_plan_def boot_plan_def)
qed

lemma boot_overlap:
  assumes "ld_ok ld" "plan_overlap (boot_plan ld dtb) = Some (a, b)"
  shows "b = ''device tree'' \<and> (\<exists>r. (a, r) \<in> set (image_regions ld) \<and> regions_overlap r dtb)"
proof -
  obtain p where "b = ''device tree''" "p \<in> set (image_plan ld)" "a = mp_name p" "regions_overlap (mp_region p) dtb"
    using plan_overlap_last [OF image_plan_apart [OF assms(1)] assms(2) [unfolded boot_plan_split(1)]] by auto
  moreover from this have "(a, mp_region p) \<in> set (image_regions ld)" unfolding boot_plan_split(2) [symmetric] by auto
  ultimately show ?thesis by blast
qed

definition boot_jobs :: "linker_symbols \<Rightarrow> region \<Rightarrow> region \<Rightarrow> map_job list" where
  "boot_jobs ld memory dtb = plan_jobs (boot_plan ld dtb) @ gap_jobs memory (boot_plan ld dtb) NORMAL_BLOCK
    @ gap_jobs \<lparr>r_base = 0, r_size = r_base memory\<rparr> [] DEVICE_BLOCK"

abbreviation devices :: "region \<Rightarrow> region" where
  "devices memory \<equiv> \<lparr>r_base = 0, r_size = r_base memory\<rparr>"

lemma devices_fits: "region_fits memory \<Longrightarrow> region_fits (devices memory)"
  by (simp add: region_fits_def)

lemma device_gap:
  assumes "region_fits memory"
  shows "(\<exists>g \<in> set (gaps (devices memory) []). va \<in> region_bytes (pr_region g)) \<longleftrightarrow> va div 4096 < r_base memory div 4096"
  using gap_bytes [OF devices_fits [OF assms], of "[]" va] devices_fits [OF assms]
  by (simp add: region_fits_end taken_page_def)

lemma device_gap_below: "va div 4096 < b div 4096 \<Longrightarrow> va < (b :: nat)"
  by (meson div_le_mono leD not_le_imp_less)

lemma boot_apart:
  assumes b: "board_ok ld memory dtb" and p: "plan_apart (boot_plan ld dtb)"
  shows "\<forall>j \<in> set (boot_jobs ld memory dtb). job_fits j" and "jobs_apart (boot_jobs ld memory dtb)"
proof -
  have mem: "region_fits memory" and ld: "ld_ok ld" and dtb: "region_fits dtb" using b by (auto simp: board_ok_def)
  note m = apply_jobs_ok [OF p boot_plan_fits [OF ld dtb] mem template_fits(4)]
  have "plan_apart []" "plan_fits []" by (simp_all add: plan_fits_def)
  note d = apply_jobs_ok [OF this devices_fits [OF mem] template_fits(5)]
  show "\<forall>j \<in> set (boot_jobs ld memory dtb). job_fits j" using m(1) d(1) unfolding boot_jobs_def by auto
  have low: "va < r_base memory" if "k \<in> set (gap_jobs (devices memory) [] DEVICE_BLOCK)" "va \<in> job_bytes k" for k va
    using that device_gap [OF mem, of va] device_gap_below [of va] by (auto simp: gap_jobs_def)
  have high: "r_base memory \<le> va" if jk: "j \<in> set (plan_jobs (boot_plan ld dtb) @ gap_jobs memory (boot_plan ld dtb) NORMAL_BLOCK)" "va \<in> job_bytes j" for j va
  proof (cases "j \<in> set (plan_jobs (boot_plan ld dtb))")
    case True
    obtain name r tpl where j: "j = (name, r, tpl)" by (cases j)
    then have "\<lparr>mp_name = name, mp_region = r, mp_template = Some tpl\<rparr> \<in> set (boot_plan ld dtb)" using True by (simp add: in_plan_jobs)
    from in_boot_plan [OF this] have "r_base memory \<le> r_base r" using image_fits(4) [OF ld, of name r] b by (auto simp: board_ok_def)
    then show ?thesis using jk(2) j by (auto simp: region_bytes_def)
  next
    case False
    then obtain g where "g \<in> set (gaps memory (map mp_region (boot_plan ld dtb)))" "va \<in> region_bytes (pr_region g)"
      using jk by (auto simp: gap_jobs_def)
    then have "r_base memory \<le> va div 4096 * 4096" using gap_bytes [OF mem] by blast
    then show ?thesis using div_times_less_eq_dividend le_trans by blast
  qed
  have "job_bytes j \<inter> job_bytes k = {}"
    if "j \<in> set (plan_jobs (boot_plan ld dtb) @ gap_jobs memory (boot_plan ld dtb) NORMAL_BLOCK)"
      "k \<in> set (gap_jobs (devices memory) [] DEVICE_BLOCK)" for j k
    using low [OF that(2)] high [OF that(1)] by fastforce
  moreover have "plan_jobs [] = []" by (simp add: plan_jobs_def)
  ultimately show "jobs_apart (boot_jobs ld memory dtb)"
    using m(2) d(2) unfolding boot_jobs_def by (simp add: jobs_apart_append [of "_ @ _" "gap_jobs (devices memory) [] DEVICE_BLOCK", simplified append_assoc])
qed

lemma mmu_init_jobs:
  assumes p: "plan_apart (boot_plan ld dtb)" and t: "table_new m h = Inr (m0, h0, Some t)"
  shows "mmu_init m h sr ld memory dtb = obind (map_all m0 h0 t (boot_jobs ld memory dtb)) (\<lambda>(m2, h2, res).
    Inr (m2, h2, case res of Inl e \<Rightarrow> Inl e | Inr _ \<Rightarrow> Inr (mmu_enable sr t)))"
proof -
  have "plan_jobs [] = []" "plan_apart []" by (simp_all add: plan_jobs_def)
  then show ?thesis
    using t unfolding mmu_init_def boot_jobs_def
    by (simp add: table_apply_jobs [OF p] table_apply_jobs map_all_append append_assoc [symmetric] del: append_assoc)
      (auto simp: obind_def split: sum.splits prod.splits)
qed

text \<open>The jobs carry out the policy.\<close>

lemma in_gap_jobs:
  "(name, r, tpl) \<in> set (gap_jobs arena plan fill) \<longleftrightarrow>
    name = ''unclaimed memory'' \<and> tpl = fill \<and> (\<exists>g \<in> set (gaps arena (map mp_region plan)). r = pr_region g)"
  by (auto simp: gap_jobs_def)

lemma plan_jobs_boot:
  "plan_jobs (boot_plan ld dtb) = [(''text and vectors'', executable ld, EXECUTABLE), (''rodata'', rodata ld, READ_ONLY),
      (''data and bss'', writable_data ld, WRITABLE), (''stack'', stack ld, WRITABLE), (''device tree'', dtb, READ_ONLY)]"
  by (simp add: boot_plan_def plan_jobs_def List.map_filter_simps)

lemma in_boot_jobs:
  "j \<in> set (boot_jobs ld memory dtb) \<longleftrightarrow>
    j = (''text and vectors'', executable ld, EXECUTABLE) \<or> j = (''rodata'', rodata ld, READ_ONLY)
    \<or> j = (''data and bss'', writable_data ld, WRITABLE) \<or> j = (''stack'', stack ld, WRITABLE)
    \<or> j = (''device tree'', dtb, READ_ONLY)
    \<or> (\<exists>g \<in> set (gaps memory (map mp_region (boot_plan ld dtb))). j = (''unclaimed memory'', pr_region g, NORMAL_BLOCK))
    \<or> (\<exists>g \<in> set (gaps (devices memory) []). j = (''unclaimed memory'', pr_region g, DEVICE_BLOCK))"
  by (simp only: boot_jobs_def plan_jobs_boot gap_jobs_def set_append set_map list.map list.set Un_iff insert_iff empty_iff
      image_iff simp_thms disj_assoc)

lemma boot_jobs_template:
  assumes b: "board_ok ld memory dtb" and p: "plan_apart (boot_plan ld dtb)"
  shows "boot_template ld memory dtb va = Some T \<Longrightarrow>
      \<exists>name r. (name, r, T) \<in> set (boot_jobs ld memory dtb) \<and> va \<in> region_bytes r"
    and "boot_template ld memory dtb va = None \<Longrightarrow> va \<notin> (\<Union>j \<in> set (boot_jobs ld memory dtb). job_bytes j)"
proof -
  have mem: "region_fits memory" and ld: "ld_ok ld" and dtb: "region_fits dtb" using b by (auto simp: board_ok_def)
  have gap: "(\<exists>g \<in> set (gaps memory (map mp_region (boot_plan ld dtb))). va \<in> region_bytes (pr_region g)) \<longleftrightarrow>
      r_base memory \<le> va div 4096 * 4096 \<and> va div 4096 < region_end memory div 4096
      \<and> \<not> taken_page memory (map mp_region (boot_plan ld dtb)) (va div 4096)"
    by (rule gap_bytes [OF mem])
  note dev = device_gap [OF mem, of va]
  define M where "M \<longleftrightarrow> (\<exists>g \<in> set (gaps memory (map mp_region (boot_plan ld dtb))). va \<in> region_bytes (pr_region g))"
  define D where "D \<longleftrightarrow> (\<exists>g \<in> set (gaps (devices memory) []). va \<in> region_bytes (pr_region g))"
  have bt: "boot_template ld memory dtb va =
    (if va \<in> region_bytes (executable ld) then Some EXECUTABLE
     else if va \<in> region_bytes (rodata ld) then Some READ_ONLY
     else if va \<in> region_bytes (writable_data ld) \<union> region_bytes (stack ld) then Some WRITABLE
     else if va \<in> region_bytes (stack_guard ld) then None
     else if va \<in> region_bytes dtb then Some READ_ONLY
     else if M then Some NORMAL_BLOCK else if D then Some DEVICE_BLOCK else None)"
    unfolding boot_template_def M_def D_def gap dev ..
  have job: "(\<exists>name r. (name, r, T) \<in> set (boot_jobs ld memory dtb) \<and> va \<in> region_bytes r) \<longleftrightarrow>
      va \<in> region_bytes (executable ld) \<and> T = EXECUTABLE \<or> va \<in> region_bytes (rodata ld) \<and> T = READ_ONLY
      \<or> va \<in> region_bytes (writable_data ld) \<and> T = WRITABLE \<or> va \<in> region_bytes (stack ld) \<and> T = WRITABLE
      \<or> va \<in> region_bytes dtb \<and> T = READ_ONLY \<or> M \<and> T = NORMAL_BLOCK \<or> D \<and> T = DEVICE_BLOCK" for T
    unfolding in_boot_jobs M_def D_def prod.inject
    by (simp only: conj_disj_distribR ex_disj_distrib conj_assoc simp_thms bex_simps ex_simps)
      blast
  show "\<exists>name r. (name, r, T) \<in> set (boot_jobs ld memory dtb) \<and> va \<in> region_bytes r"
    if "boot_template ld memory dtb va = Some T"
    using that unfolding job bt by (simp split: if_splits) blast
  have guard: "va \<notin> region_bytes dtb \<and> \<not> M \<and> \<not> D" if va: "va \<in> region_bytes (stack_guard ld)"
  proof (intro conjI)
    let ?p = "\<lparr>mp_name = ''stack guard'', mp_region = stack_guard ld, mp_template = None\<rparr>"
    have g: "?p \<in> set (boot_plan ld dtb)" by (simp add: boot_plan_def)
    have fit: "region_fits (stack_guard ld)" by (rule image_fits(1) [OF ld, of "''stack guard''"]) (simp add: image_regions_def)
    have "\<not> regions_overlap (stack_guard ld) dtb" using p by (simp add: boot_plan_def)
    then show "va \<notin> region_bytes dtb" using regions_overlap_bytes [OF fit dtb] va by blast
    show "\<not> M"
      unfolding M_def using gap_plan_apart [OF mem _ g] fit va by fastforce
    have "ld_image_start ld \<le> r_base (stack_guard ld)" by (rule image_fits(4) [OF ld, of "''stack guard''"]) (simp add: image_regions_def)
    then have "r_base memory \<le> va" using b va by (auto simp: board_ok_def region_bytes_def)
    then show "\<not> D" unfolding D_def dev using device_gap_below by (metis not_le)
  qed
  show "va \<notin> (\<Union>j \<in> set (boot_jobs ld memory dtb). job_bytes j)" if none: "boot_template ld memory dtb va = None"
  proof
    assume "va \<in> (\<Union>j \<in> set (boot_jobs ld memory dtb). job_bytes j)"
    then obtain j where j: "j \<in> set (boot_jobs ld memory dtb)" "va \<in> job_bytes j" by blast
    obtain name r tpl where "j = (name, r, tpl)" by (cases j)
    then have "\<exists>name r. (name, r, tpl) \<in> set (boot_jobs ld memory dtb) \<and> va \<in> region_bytes r" using j by auto
    then show False using none guard unfolding job bt by (simp split: if_splits)
  qed
qed

definition no_page_free :: "pfn set \<Rightarrow> mem \<Rightarrow> heap \<Rightarrow> bool" where
  "no_page_free U m h \<longleftrightarrow> (\<exists>live. heap_inv m h U {} live)"

definition boot_fault :: "pfn set \<Rightarrow> linker_symbols \<Rightarrow> region \<Rightarrow> mem \<Rightarrow> heap \<Rightarrow> plan_error \<Rightarrow> bool" where
  "boot_fault U ld dtb m' h' e \<longleftrightarrow>
    (case e of
       NoTable \<Rightarrow> no_page_free U m' h'
     | Failed name OutOfMemory \<Rightarrow> no_page_free U m' h'
     | Failed name (Unaligned a) \<Rightarrow> name = ''device tree'' \<and> \<not> (4096 dvd r_base dtb \<and> 4096 dvd r_base dtb + r_size dtb)
     | Failed name (BlockInTheWay a l) \<Rightarrow> False
     | Failed name (TableInTheWay a l) \<Rightarrow> False
     | Overlap one other \<Rightarrow> other = ''device tree'' \<and> (\<exists>r. (one, r) \<in> set (image_regions ld) \<and> regions_overlap r dtb))"

lemma boot_jobs_aligned:
  assumes b: "board_ok ld memory dtb" and j: "(name, r, tpl) \<in> set (boot_jobs ld memory dtb)"
  shows "4096 dvd r_base r \<and> 4096 dvd r_base r + r_size r \<or> name = ''device tree'' \<and> r = dtb"
proof -
  have mem: "region_fits memory" and ld: "ld_ok ld" using b by (auto simp: board_ok_def)
  from j consider "(name, r) \<in> set (image_regions ld)" | "name = ''device tree'' \<and> r = dtb"
    | g where "g \<in> set (gaps memory (map mp_region (boot_plan ld dtb)))" "r = pr_region g"
    | g where "g \<in> set (gaps (devices memory) (map mp_region []))" "r = pr_region g"
    unfolding in_boot_jobs image_regions_def list.set insert_iff list.map prod.inject by metis
  then show ?thesis
    by cases (use image_fits(2,3) [OF ld] gap_region(3,4) [OF mem] gap_region(3,4) [OF devices_fits [OF mem]] in blast)+
qed

lemma mmu_init_ok:
  assumes inv: "heap_inv m h U F live" and U: "low_pages U" and b: "board_ok ld memory dtb"
  obtains m' h' t live' where "mmu_init m h sr ld memory dtb = Inr (m', h', Inr (mmu_enable sr t))"
      and "pt_state U m' h' live' t Level1" and "live t = None"
      and "\<And>va. va < 2 ^ 39 \<Longrightarrow> (case boot_template ld memory dtb va of
          None \<Rightarrow> leaf m' t Level1 va = None
        | Some tpl \<Rightarrow> \<exists>l. leaf m' t Level1 va = Some (leaf_desc tpl l va, l))"
      and "same_on (live_area live) m m'"
  | m' h' e where "mmu_init m h sr ld memory dtb = Inr (m', h', Inl e)" and "boot_fault U ld dtb m' h' e"
proof (rule new_table_ok [OF inv U, where n = Level1])
  assume "table_new m h = Inr (m, h, None)" "F = {}"
  then show thesis using that(2) [of m h NoTable] inv by (auto simp: mmu_init_def boot_fault_def no_page_free_def)
next
  fix m0 h0 t
  assume a: "table_new m h = Inr (m0, h0, Some t)" "live t = None" "pt_state U m0 h0 (live(t \<mapsto> table_layout)) t Level1"
    "tables m0 t Level1 = {t}" "\<And>va. leaf m0 t Level1 va = None" "same_on (live_area live) m m0"
  have ld: "ld_ok ld" using b by (simp add: board_ok_def)
  show thesis
  proof (cases "plan_overlap (boot_plan ld dtb)")
    case (Some names)
    obtain one other where n: "names = (one, other)" by (cases names)
    have "mmu_init m h sr ld memory dtb = Inr (m0, h0, Inl (Overlap one other))"
      using a(1) Some n by (simp add: mmu_init_def table_apply_def)
    then show thesis using that(2) boot_overlap [OF ld Some [unfolded n]] by (simp add: boot_fault_def)
  next
    case None
    then have p: "plan_apart (boot_plan ld dtb)" by (simp add: plan_overlap_None)
    note jobs = boot_apart [OF b p] and init = mmu_init_jobs [OF p a(1), of sr memory]
    from map_all_ok [OF U a(3) jobs] consider
      (ok) m2 h2 live2 where "map_all m0 h0 t (boot_jobs ld memory dtb) = Inr (m2, h2, Inr ())" "pt_state U m2 h2 live2 t Level1"
        "pt_grows m0 (live(t \<mapsto> table_layout)) (tables m0 t Level1) m2 live2 (tables m2 t Level1)"
        "job_maps m0 t (boot_jobs ld memory dtb) m2"
      | (fault) m2 h2 e where "map_all m0 h0 t (boot_jobs ld memory dtb) = Inr (m2, h2, Inl e)"
        "job_fault U m0 t (boot_jobs ld memory dtb) m2 h2 e" by blast
    then show thesis
    proof cases
      case ok
      have "case boot_template ld memory dtb va of None \<Rightarrow> leaf m2 t Level1 va = None
          | Some tpl \<Rightarrow> \<exists>l. leaf m2 t Level1 va = Some (leaf_desc tpl l va, l)" if va: "va < 2 ^ 39" for va
      proof (cases "boot_template ld memory dtb va")
        case None
        then show ?thesis using ok(4) [unfolded job_maps_def, rule_format, OF va] boot_jobs_template(2) [OF b p None] a(5) by simp
      next
        case (Some tpl)
        then obtain name r where "(name, r, tpl) \<in> set (boot_jobs ld memory dtb)" "va \<in> region_bytes r"
          using boot_jobs_template(1) [OF b p] by blast
        then have "\<exists>l. leaf m2 t Level1 va = Some (leaf_desc tpl l va, l)"
          using ok(4) [unfolded job_maps_def, rule_format, OF va] by blast
        then show ?thesis using Some by simp
      qed
      moreover have "same_on (live_area live) m m2"
      proof -
        obtain F0 where "heap_inv m0 h0 U F0 (live(t \<mapsto> table_layout))" using a(3) by (auto simp: pt_state_def)
        then have "live_area live - table_bytes {} \<subseteq> live_area (live(t \<mapsto> table_layout)) - table_bytes {t}"
          by (rule grown_area) (use a(2) in auto)
        then have "same_on (live_area live) m0 m2"
          using ok(3) a(4) by (intro same_on_subset [of _ m0 m2 "live_area live"]) (auto simp: pt_grows_def table_bytes_def)
        with a(6) show ?thesis by (rule same_on_trans)
      qed
      ultimately show thesis using that(1) [of m2 h2 t live2] ok(1,2) init a(2) by simp
    next
      case fault
      then obtain name r tpl e' where f: "(name, r, tpl) \<in> set (boot_jobs ld memory dtb)" "e = Failed name e'"
        "map_fault U m0 t Level1 (r_base r) (r_base r + r_size r) m2 h2 e'" unfolding job_fault_def by blast
      have "boot_fault U ld dtb m2 h2 e"
        using f a(5) boot_jobs_aligned [OF b f(1)] by (cases e') (auto simp: boot_fault_def map_fault_def no_page_free_def)
      then show thesis using that(2) init fault(1) by simp
    qed
  qed
qed

subsection \<open>Descriptors\<close>

text \<open>
  C28. \<open>Descriptor::to_u64\<close> followed by \<open>Descriptor::from_u64\<close> is the identity on every descriptor
  whose address is page-aligned and has at most 48 bits and whose memory type has three bits: no
  field spills into another.
\<close>

theorem descriptor_round_trip:
  assumes "attr_fits (d_attr_idx d)" and "d_address d < 2 ^ 48" and "4096 dvd d_address d"
  shows "desc_from_u64 (desc_to_u64 d) = d"
  using assms by (intro desc_round_trip) (simp add: desc_fits_def address_fits_def)

theorem descriptor_round_trip_witness:
  "desc_from_u64 (desc_to_u64 (WRITABLE\<lparr>d_address := 0x40281000, d_attr_idx := Other 5\<rparr>))
    = WRITABLE\<lparr>d_address := 0x40281000, d_attr_idx := Other 5\<rparr>"
  by (rule descriptor_round_trip) (simp_all add: WRITABLE_def attr_fits_def)

subsection \<open>Mapping a region\<close>

lemma demo_low_pages: "low_pages ({17} \<union> {20..<32})"
  by (auto simp: low_pages_def)

lemma demo_table:
  obtains m h live t where "pt_state ({17} \<union> {20..<32}) m h live t Level1" and "\<And>va. translate m t va = None"
proof -
  obtain m0 h0 where inv: "heap_inv m0 h0 ({17} \<union> {20..<32}) ({17} \<union> {20..<32}) Map.empty" by (rule demo_heap_ok)
  show thesis
  proof (rule new_table_ok [OF inv demo_low_pages, where n = Level1])
    fix m h t assume "pt_state ({17} \<union> {20..<32}) m h [t \<mapsto> table_layout] t Level1" "\<And>va. leaf m t Level1 va = None"
    moreover from this have "translate m t va = None" for va by (intro translate_unmapped) (simp_all add: pt_state_def)
    ultimately show thesis using that by blast
  next
    assume "{17} \<union> {20..<32} = ({} :: pfn set)"
    then show thesis by simp
  qed
qed

text \<open>
  C29. \<open>identity_map\<close> is correct. On a well-formed tree of tables it never panics and its loops end. When it
  returns \<open>Ok\<close>, every address of the region translates to itself, every other one translates as before,
  and the tree is well formed again. When it fails, either no page is free for a table, or an end of the
  region is not on a page boundary, or an address of the region was already mapped.
\<close>

theorem identity_map_correct:
  assumes st: "pt_state U m h live t Level1" and U: "low_pages U" and tpl: "attr_fits (d_attr_idx tpl)"
    and r: "0 < r_size r" "r_base r + r_size r \<le> 2 ^ 39"
  shows "case identity_map m h t r tpl of
      Inl e \<Rightarrow> False
    | Inr (m', h', Inr _) \<Rightarrow> (\<exists>live'. pt_state U m' h' live' t Level1)
        \<and> (\<forall>va < 2 ^ 39. translate m' t va = (if va \<in> region_bytes r then Some va else translate m t va))
    | Inr (m', h', Inl OutOfMemory) \<Rightarrow> no_page_free U m' h'
    | Inr (m', h', Inl (Unaligned a)) \<Rightarrow> \<not> (4096 dvd r_base r \<and> 4096 dvd r_base r + r_size r)
    | Inr (m', h', Inl (BlockInTheWay a l)) \<Rightarrow> a \<in> region_bytes r \<and> translate m t a \<noteq> None
    | Inr (m', h', Inl (TableInTheWay a l)) \<Rightarrow> (\<exists>x \<in> region_bytes r. translate m t x \<noteq> None)"
proof -
  have wf: "pt_wf m t Level1" using st by (simp add: pt_state_def)
  have fits: "job_fits (''region'', r, tpl)" using tpl r(2) by simp
  show ?thesis
  proof (rule identity_map_maps [OF st U fits])
    fix m1 h1 live1
    assume a: "identity_map m h t r tpl = Inr (m1, h1, Inr ())" "pt_state U m1 h1 live1 t Level1"
      "job_maps m t [(''region'', r, tpl)] m1"
    have wf1: "pt_wf m1 t Level1" using a(2) by (simp add: pt_state_def)
    have "translate m1 t va = (if va \<in> region_bytes r then Some va else translate m t va)" if va: "va < 2 ^ 39" for va
    proof (cases "va \<in> region_bytes r")
      case True
      then show ?thesis using a(3) [unfolded job_maps_def, rule_format, OF va] translate_mapped [OF wf1] by auto
    next
      case False
      then have "leaf m1 t Level1 va = leaf m t Level1 va" using a(3) [unfolded job_maps_def, rule_format, OF va] by auto
      then show ?thesis using False by (simp add: translate_def translate_leaf [OF wf] translate_leaf [OF wf1])
    qed
    then show ?thesis using a(1,2) by auto
  next
    fix m1 h1 e
    assume "identity_map m h t r tpl = Inr (m1, h1, Inl e)" "map_fault U m t Level1 (r_base r) (r_base r + r_size r) m1 h1 e"
    then show ?thesis
      by (cases e) (fastforce simp: map_fault_def no_page_free_def region_bytes_def translate_def translate_leaf [OF wf])+
  qed
qed

theorem identity_map_witness:
  "\<exists>m h t. translate m t 0x40000000 = None
    \<and> (case identity_map m h t \<lparr>r_base = 0x40000000, r_size = 0x203000\<rparr> WRITABLE of
        Inr (m', h', Inr _) \<Rightarrow> translate m' t 0x40000000 = Some 0x40000000
          \<and> translate m' t 0x40202FFF = Some 0x40202FFF \<and> translate m' t 0x40203000 = None
      | Inr (m', h', Inl OutOfMemory) \<Rightarrow> True
      | _ \<Rightarrow> False)"
proof -
  obtain m h live t where st: "pt_state ({17} \<union> {20..<32}) m h live t Level1" and none: "\<And>va. translate m t va = None"
    by (rule demo_table) blast
  let ?r = "\<lparr>r_base = 0x40000000, r_size = 0x203000\<rparr> :: region"
  have "attr_fits (d_attr_idx WRITABLE)" by (rule template_fits)
  from identity_map_correct [OF st demo_low_pages this, of ?r] none show ?thesis
    by (intro exI [of _ m] exI [of _ h] exI [of _ t])
      (auto simp: region_bytes_def split: sum.splits map_error.splits)
qed

subsection \<open>The boot mappings\<close>

definition demo_mmu_ld :: linker_symbols where
  "demo_mmu_ld = \<lparr>ld_image_start = 0x40080000, ld_exec_end = 0x40090000, ld_rodata_end = 0x40098000,
    ld_stack_guard_start = 0x400A0000, ld_stack_bottom = 0x400A1000, ld_stack_top = 0x400A9000\<rparr>"

definition demo_ram :: region where
  "demo_ram = \<lparr>r_base = 0x40000000, r_size = 0x8000000\<rparr>"

definition demo_dtb :: region where
  "demo_dtb = \<lparr>r_base = 0x48000000, r_size = 0x100000\<rparr>"

lemma demo_board_ok: "board_ok demo_mmu_ld demo_ram demo_dtb"
  by (simp add: board_ok_def ld_ok_def region_fits_def demo_mmu_ld_def demo_ram_def demo_dtb_def)

text \<open>
  C30. \<open>mmu::init\<close> sets up the policy of the kernel image. On a heap that satisfies its invariant it never
  panics. It refuses only when no page is free for a table, when the device tree is not page-aligned, or
  when the device tree overlaps the image. Otherwise the table whose address is in TTBR0 maps every
  address the policy names to itself and no other, so the stack guard page is unmapped, and no byte
  that a client of the heap holds has changed.
\<close>

theorem mmu_init_policy:
  assumes inv: "heap_inv m h U F live" and U: "low_pages U" and b: "board_ok ld memory dtb"
  shows "case mmu_init m h sr ld memory dtb of
      Inl e \<Rightarrow> False
    | Inr (m', h', Inl e) \<Rightarrow> boot_fault U ld dtb m' h' e
    | Inr (m', h', Inr sr') \<Rightarrow> \<exists>t live'. sr' = mmu_enable sr t \<and> pt_state U m' h' live' t Level1
        \<and> same_on (live_area live) m m'
        \<and> (\<forall>va < 2 ^ 39. translate m' t va = (case boot_template ld memory dtb va of None \<Rightarrow> None | Some _ \<Rightarrow> Some va))"
proof (rule mmu_init_ok [OF inv U b])
  fix m' h' t live'
  assume a: "mmu_init m h sr ld memory dtb = Inr (m', h', Inr (mmu_enable sr t))" "pt_state U m' h' live' t Level1"
    "\<And>va. va < 2 ^ 39 \<Longrightarrow> (case boot_template ld memory dtb va of None \<Rightarrow> leaf m' t Level1 va = None
      | Some tpl \<Rightarrow> \<exists>l. leaf m' t Level1 va = Some (leaf_desc tpl l va, l))" "same_on (live_area live) m m'"
  have wf: "pt_wf m' t Level1" using a(2) by (simp add: pt_state_def)
  have "translate m' t va = (case boot_template ld memory dtb va of None \<Rightarrow> None | Some _ \<Rightarrow> Some va)" if "va < 2 ^ 39" for va
    using a(3) [OF that] translate_mapped [OF wf] translate_unmapped [OF wf] by (auto split: option.splits)
  then show ?thesis using a(1,2,4) by auto
qed auto

theorem mmu_init_policy_witness:
  "\<exists>m h. case mmu_init m h \<lparr>sr_mair = 0, sr_tcr = 0, sr_ttbr0 = 0, sr_sctlr = 0\<rparr> demo_mmu_ld demo_ram demo_dtb of
      Inl e \<Rightarrow> False
    | Inr (m', h', Inl e) \<Rightarrow> boot_fault ({17} \<union> {20..<32}) demo_mmu_ld demo_dtb m' h' e
    | Inr (m', h', Inr sr') \<Rightarrow> \<exists>t. translate m' t 0x40080000 = Some 0x40080000 \<and> translate m' t 0x400A0010 = None"
proof -
  obtain m h where inv: "heap_inv m h ({17} \<union> {20..<32}) ({17} \<union> {20..<32}) Map.empty" by (rule demo_heap_ok)
  have va: "boot_template demo_mmu_ld demo_ram demo_dtb 0x40080000 = Some EXECUTABLE"
    "boot_template demo_mmu_ld demo_ram demo_dtb 0x400A0010 = None"
    by (simp_all add: boot_template_def image_bytes demo_board_ok [unfolded board_ok_def]) (simp_all add: demo_mmu_ld_def)
  let ?sr = "\<lparr>sr_mair = 0, sr_tcr = 0, sr_ttbr0 = 0, sr_sctlr = 0\<rparr>"
  note c = mmu_init_policy [OF inv demo_low_pages demo_board_ok, of ?sr]
  show ?thesis
  proof (intro exI)
    show "case mmu_init m h ?sr demo_mmu_ld demo_ram demo_dtb of
        Inl e \<Rightarrow> False
      | Inr (m', h', Inl e) \<Rightarrow> boot_fault ({17} \<union> {20..<32}) demo_mmu_ld demo_dtb m' h' e
      | Inr (m', h', Inr sr') \<Rightarrow> \<exists>t. translate m' t 0x40080000 = Some 0x40080000 \<and> translate m' t 0x400A0010 = None"
    proof (cases "mmu_init m h ?sr demo_mmu_ld demo_ram demo_dtb")
      case (Inr r)
      obtain m' h' s where r: "r = (m', h', s)" by (cases r)
      show ?thesis
      proof (cases s)
        case (Inr sr')
        then obtain t where tr: "\<forall>va < 2 ^ 39. translate m' t va = (case boot_template demo_mmu_ld demo_ram demo_dtb va of None \<Rightarrow> None | Some _ \<Rightarrow> Some va)"
          using c \<open>mmu_init _ _ _ _ _ _ = _\<close> r by auto
        show ?thesis
          using tr [THEN spec, of "0x40080000"] tr [THEN spec, of "0x400A0010"] \<open>mmu_init _ _ _ _ _ _ = _\<close> r Inr va by auto
      qed (use c \<open>mmu_init _ _ _ _ _ _ = _\<close> r in auto)
    qed (use c in auto)
  qed
qed

text \<open>
  Access at exception level 1, as the architecture defines it: AP says whether a page may be written, PXN
  forbids execution, and so does SCTLR_EL1.WXN for every page that may be written.
\<close>

definition can_write :: "descriptor \<Rightarrow> bool" where
  "can_write d \<longleftrightarrow> d_ap d = KernelReadWrite \<or> d_ap d = AllReadWrite"

definition can_execute :: "mmu_registers \<Rightarrow> descriptor \<Rightarrow> bool" where
  "can_execute sr d \<longleftrightarrow> \<not> d_pxn d \<and> \<not> (sr_sctlr sr AND SCTLR_WXN \<noteq> 0 \<and> can_write d)"

lemma wxn_on: "sr_sctlr (mmu_enable sr t) AND SCTLR_WXN \<noteq> 0"
proof -
  have "bit (sr_sctlr (mmu_enable sr t) AND SCTLR_WXN) 19"
    by (simp add: mmu_enable_def SCTLR_EL1_def SCTLR_WXN_def bit_simps)
  then show ?thesis by (metis bit_0_eq bot_apply bot_bool_def)
qed

lemma template_access:
  "can_write EXECUTABLE = False" "can_write READ_ONLY = False" "can_write WRITABLE = True" "can_write NORMAL_BLOCK = True"
  "can_write DEVICE_BLOCK = True" "d_pxn EXECUTABLE = False" "d_pxn READ_ONLY = True" "d_pxn WRITABLE = True"
  by (simp_all add: can_write_def templates)

text \<open>An address that is mapped as the policy says is executable exactly in the text, and then not writable.\<close>

lemma template_wx:
  assumes "case boot_template ld memory dtb va of
      None \<Rightarrow> leaf m t Level1 va = None
    | Some tpl \<Rightarrow> \<exists>l. leaf m t Level1 va = Some (leaf_desc tpl l va, l)"
  shows "case leaf m t Level1 va of
      None \<Rightarrow> boot_template ld memory dtb va = None
    | Some (d, l) \<Rightarrow> (can_execute (mmu_enable sr t') d \<longleftrightarrow> va \<in> region_bytes (executable ld))
        \<and> \<not> (can_execute (mmu_enable sr t') d \<and> can_write d)"
proof (cases "boot_template ld memory dtb va")
  case None
  then show ?thesis using assms by simp
next
  case (Some tpl)
  then obtain l where l: "leaf m t Level1 va = Some (leaf_desc tpl l va, l)" using assms by auto
  have acc: "can_write (leaf_desc tpl l va) = can_write tpl" "d_pxn (leaf_desc tpl l va) = d_pxn tpl"
    by (simp_all add: can_write_def leaf_desc_def)
  show ?thesis
    using Some unfolding l can_execute_def
    by (auto simp: acc boot_template_def template_access wxn_on split: if_splits)
qed

lemma mmu_enable_table: "table_ok t \<Longrightarrow> unat (sr_ttbr0 (mmu_enable sr t)) = t"
  by (simp add: mmu_enable_def table_ok_def address_fits_def unat_of_nat take_bit_nat_eq_self)

text \<open>
  C32. Write xor execute. Under the tables and the system registers that \<open>mmu::init\<close> leaves behind, the
  kernel can execute exactly the text of its image, and nothing it can write: the rest of RAM is mapped
  without PXN and it is WXN that keeps it from being executed.
\<close>

theorem write_xor_execute:
  assumes inv: "heap_inv m h U F live" and U: "low_pages U" and b: "board_ok ld memory dtb"
  shows "case mmu_init m h sr ld memory dtb of
      Inl e \<Rightarrow> False
    | Inr (m', h', Inl e) \<Rightarrow> boot_fault U ld dtb m' h' e
    | Inr (m', h', Inr sr') \<Rightarrow> \<forall>va < 2 ^ 39.
        (case leaf m' (unat (sr_ttbr0 sr')) Level1 va of
           None \<Rightarrow> boot_template ld memory dtb va = None
         | Some (d, l) \<Rightarrow> (can_execute sr' d \<longleftrightarrow> va \<in> region_bytes (executable ld)) \<and> \<not> (can_execute sr' d \<and> can_write d))"
proof (rule mmu_init_ok [OF inv U b, of sr])
  fix m' h' t live'
  assume a: "mmu_init m h sr ld memory dtb = Inr (m', h', Inr (mmu_enable sr t))" "pt_state U m' h' live' t Level1"
    "\<And>va. va < 2 ^ 39 \<Longrightarrow> (case boot_template ld memory dtb va of None \<Rightarrow> leaf m' t Level1 va = None
      | Some tpl \<Rightarrow> \<exists>l. leaf m' t Level1 va = Some (leaf_desc tpl l va, l))"
  have "table_ok t" using a(2) pt_wf_ok by (auto simp: pt_state_def)
  then have t: "unat (sr_ttbr0 (mmu_enable sr t)) = t" by (rule mmu_enable_table)
  note wx = template_wx [OF a(3), of _ sr t]
  then show ?thesis using a(1) t wx by simp
qed auto

theorem write_xor_execute_witness:
  "\<exists>m h. case mmu_init m h \<lparr>sr_mair = 0, sr_tcr = 0, sr_ttbr0 = 0, sr_sctlr = 0\<rparr> demo_mmu_ld demo_ram demo_dtb of
      Inl e \<Rightarrow> False
    | Inr (m', h', Inl e) \<Rightarrow> boot_fault ({17} \<union> {20..<32}) demo_mmu_ld demo_dtb m' h' e
    | Inr (m', h', Inr sr') \<Rightarrow> \<forall>va < 2 ^ 39.
        (case leaf m' (unat (sr_ttbr0 sr')) Level1 va of
           None \<Rightarrow> boot_template demo_mmu_ld demo_ram demo_dtb va = None
         | Some (d, l) \<Rightarrow> (can_execute sr' d \<longleftrightarrow> va \<in> {0x40080000..<0x40090000}) \<and> \<not> (can_execute sr' d \<and> can_write d))"
proof -
  obtain m h where inv: "heap_inv m h ({17} \<union> {20..<32}) ({17} \<union> {20..<32}) Map.empty" by (rule demo_heap_ok)
  have exe: "region_bytes (executable demo_mmu_ld) = {0x40080000..<0x40090000}"
    using image_bytes(1) demo_board_ok by (simp add: board_ok_def demo_mmu_ld_def)
  show ?thesis
    by (intro exI) (rule write_xor_execute [OF inv demo_low_pages demo_board_ok, unfolded exe])
qed

end
