(* ===== verification/LineParser.thy ===== *)
theory LineParser
  imports Prelude
begin

text \<open>
  The parser of the monitor (\<open>src/src/zhemon/cursor.rs\<close>, \<open>src/src/zhemon/parser.rs\<close>): a cursor over the
  bytes of a line and a pull parser that yields one command at a time. Positions never pass the end
  of the line, which is far below \<open>2 ^ 64\<close>, so they are added without wrap-around.
\<close>

subsection \<open>The cursor\<close>

record zcursor =
  zc_bytes :: "u8 list"
  zc_pos :: usize

definition zc_new :: "u8 list \<Rightarrow> zcursor" where
  "zc_new bytes = \<lparr>zc_bytes = bytes, zc_pos = 0\<rparr>"

definition zc_peek :: "zcursor \<Rightarrow> u8 option" where
  "zc_peek c = get (zc_bytes c) (zc_pos c)"

definition zc_peek_offset :: "zcursor \<Rightarrow> usize \<Rightarrow> u8 option" where
  "zc_peek_offset c offset = get (zc_bytes c) (zc_pos c + offset)"

definition zc_advance :: "zcursor \<Rightarrow> usize \<Rightarrow> zcursor" where
  "zc_advance c amount = c\<lparr>zc_pos := zc_pos c + amount\<rparr>"

definition zc_set_pos :: "zcursor \<Rightarrow> usize \<Rightarrow> zcursor" where
  "zc_set_pos c p = c\<lparr>zc_pos := p\<rparr>"

text \<open>\<open>while let Some(b' ') = self.peek()\<close>.\<close>

function zc_consume_spaces :: "zcursor \<Rightarrow> zcursor" where
  "zc_consume_spaces c = (if zc_peek c = Some 32 then zc_consume_spaces (zc_advance c 1) else c)"
  by pat_completeness auto
termination
  by (relation "measure (\<lambda>c. length (zc_bytes c) - zc_pos c)") (auto simp: zc_peek_def zc_advance_def get_eq_Some)

declare zc_consume_spaces.simps [simp del]

subsection \<open>Commands and errors\<close>

datatype parsed_command =
  SetAddress u64
| ExamineOne u64
| ExamineContinuing u64
| StoreContinuing u8
| Run

datatype line_parse_error =
  UnexpectedCharacter usize
| AddressTooLong usize
| ByteTooLong usize
| ExpectedAByte usize
| ExpectedAnAddress usize

datatype hex_parse_error = TooLong usize | NoDigits

text \<open>\<open>Mode::Set { any_byte_yet }\<close>.\<close>

datatype mode = DefaultMode | SetMode bool

record parser =
  pa_cursor :: zcursor
  pa_mode :: mode

definition parser_new :: "u8 list \<Rightarrow> parser" where
  "parser_new line = \<lparr>pa_cursor = zc_new line, pa_mode = DefaultMode\<rparr>"

definition MAX_ADDRESS_DIGITS :: usize where
  "MAX_ADDRESS_DIGITS = 16"

definition MAX_BYTE_DIGITS :: usize where
  "MAX_BYTE_DIGITS = 2"

definition is_instruction :: "u8 \<Rightarrow> bool" where
  "is_instruction c \<longleftrightarrow> c = 58 \<or> c = 82 \<or> c = 114 \<or> c = 46"

subsection \<open>Numbers\<close>

text \<open>\<open>char::to_digit(16)\<close>.\<close>

definition hex_digit :: "u8 \<Rightarrow> u32 option" where
  "hex_digit c =
    (if 48 \<le> c \<and> c \<le> 57 then Some (ucast (c - 48))
     else if 97 \<le> c \<and> c \<le> 102 then Some (ucast (c - 87))
     else if 65 \<le> c \<and> c \<le> 70 then Some (ucast (c - 55))
     else None)"

definition hex_append :: "u64 \<Rightarrow> u32 \<Rightarrow> u64" where
  "hex_append number digit = number * 16 + ucast digit"

function hex_loop :: "zcursor \<Rightarrow> usize \<Rightarrow> u64 \<Rightarrow> usize \<Rightarrow> hex_parse_error + (u64 \<times> usize)" where
  "hex_loop c max_digits number digits =
    (case Option.bind (zc_peek_offset c digits) hex_digit of
       None \<Rightarrow> Inr (number, digits)
     | Some d \<Rightarrow>
         if max_digits \<le> digits then Inl (TooLong (zc_pos c + digits))
         else hex_loop c max_digits (hex_append number d) (digits + 1))"
  by pat_completeness auto
termination
  by (relation "measure (\<lambda>(c, max_digits, number, digits). max_digits - digits)") auto

declare hex_loop.simps [simp del]

definition parse_hex_number :: "zcursor \<Rightarrow> usize \<Rightarrow> zcursor \<times> (hex_parse_error + u64)" where
  "parse_hex_number c max_digits =
    (case hex_loop c max_digits 0 0 of
       Inl e \<Rightarrow> (c, Inl e)
     | Inr (number, digits) \<Rightarrow>
         if digits = 0 then (c, Inl NoDigits) else (zc_advance c digits, Inr number))"

type_synonym 'a parsed = "parser \<times> (line_parse_error + 'a)"

definition parse_byte :: "parser \<Rightarrow> u8 parsed" where
  "parse_byte p =
    (case parse_hex_number (pa_cursor p) MAX_BYTE_DIGITS of (c, r) \<Rightarrow>
      (p\<lparr>pa_cursor := c\<rparr>,
       case r of
         Inl NoDigits \<Rightarrow> Inl (ExpectedAByte (zc_pos c))
       | Inl (TooLong i) \<Rightarrow> Inl (ByteTooLong i)
       | Inr number \<Rightarrow> Inr (ucast number)))"

definition parse_address :: "parser \<Rightarrow> u64 parsed" where
  "parse_address p =
    (case parse_hex_number (pa_cursor p) MAX_ADDRESS_DIGITS of (c, r) \<Rightarrow>
      (p\<lparr>pa_cursor := c\<rparr>,
       case r of
         Inl NoDigits \<Rightarrow> Inl (ExpectedAnAddress (zc_pos c))
       | Inl (TooLong i) \<Rightarrow> Inl (AddressTooLong i)
       | Inr number \<Rightarrow> Inr number))"

subsection \<open>One command\<close>

definition parse_set_command :: "parser \<Rightarrow> parsed_command option parsed" where
  "parse_set_command p =
    (let initial_pos = zc_pos (pa_cursor p) in
     case parse_byte p of (p1, byte) \<Rightarrow>
     (case byte of
        Inl e \<Rightarrow>
          if pa_mode p1 = SetMode True
          then (p1\<lparr>pa_cursor := zc_set_pos (pa_cursor p1) initial_pos, pa_mode := DefaultMode\<rparr>, Inr None)
          else (p1, Inl e)
      | Inr b \<Rightarrow> (p1\<lparr>pa_mode := SetMode True\<rparr>, Inr (Some (StoreContinuing b)))))"

definition parse_address_command :: "parser \<Rightarrow> parsed_command parsed" where
  "parse_address_command p =
    (case parse_address p of (p1, r) \<Rightarrow>
     (case r of
        Inl e \<Rightarrow> (p1, Inl e)
      | Inr address \<Rightarrow>
          (let p2 = p1\<lparr>pa_cursor := zc_consume_spaces (pa_cursor p1)\<rparr> in
           case zc_peek (pa_cursor p2) of
             Some next_char \<Rightarrow>
               if is_instruction next_char then (p2, Inr (SetAddress address)) else (p2, Inr (ExamineOne address))
           | None \<Rightarrow> (p2, Inr (ExamineOne address)))))"

definition parse_instruction :: "parser \<Rightarrow> parsed_command option parsed" where
  "parse_instruction p =
    (let c = zc_peek (pa_cursor p); p1 = p\<lparr>pa_cursor := zc_advance (pa_cursor p) 1\<rparr> in
     if c = Some 46 then
       (case parse_address (p1\<lparr>pa_mode := DefaultMode, pa_cursor := zc_consume_spaces (pa_cursor p1)\<rparr>) of (p2, r) \<Rightarrow>
         (p2, case r of Inl e \<Rightarrow> Inl e | Inr address \<Rightarrow> Inr (Some (ExamineContinuing address))))
     else if c = Some 58 then (p1\<lparr>pa_mode := SetMode False\<rparr>, Inr None)
     else if c = Some 82 \<or> c = Some 114 then (p1\<lparr>pa_mode := DefaultMode\<rparr>, Inr (Some Run))
     else (p1, Inl (UnexpectedCharacter (zc_pos (pa_cursor p1)))))"

text \<open>The body of the loop of \<open>parse_next\<close> once a character is there.\<close>

definition parse_one :: "parser \<Rightarrow> u8 \<Rightarrow> parsed_command option parsed" where
  "parse_one p first_char =
    (if hex_digit first_char = None then parse_instruction p
     else case pa_mode p of
       DefaultMode \<Rightarrow>
         (case parse_address_command p of (p1, r) \<Rightarrow> (p1, case r of Inl e \<Rightarrow> Inl e | Inr cmd \<Rightarrow> Inr (Some cmd)))
     | SetMode _ \<Rightarrow> parse_set_command p)"

subsection \<open>Progress\<close>

lemma consume_spaces_bytes [simp]: "zc_bytes (zc_consume_spaces c) = zc_bytes c"
  by (induction c rule: zc_consume_spaces.induct) (subst zc_consume_spaces.simps, simp add: zc_advance_def)

lemma consume_spaces_le: "zc_pos c \<le> zc_pos (zc_consume_spaces c)"
proof (induction c rule: zc_consume_spaces.induct)
  case (1 c)
  then show ?case by (subst zc_consume_spaces.simps) (auto simp: zc_advance_def)
qed

lemma advance_simps [simp]: "zc_bytes (zc_advance c n) = zc_bytes c" "zc_pos (zc_advance c n) = zc_pos c + n"
  by (simp_all add: zc_advance_def)

lemma set_pos_simps [simp]: "zc_bytes (zc_set_pos c n) = zc_bytes c" "zc_pos (zc_set_pos c n) = n"
  by (simp_all add: zc_set_pos_def)

lemma hex_loop_ge: "hex_loop c k number digits = Inr (v, n) \<Longrightarrow> digits \<le> n"
proof (induction c k number digits rule: hex_loop.induct)
  case (1 c k number digits)
  then show ?case
    by (subst (asm) (2) hex_loop.simps) (force split: option.splits if_splits)
qed

lemma parse_hex_number_pos:
  assumes "parse_hex_number c k = (c', r)"
  shows "zc_bytes c' = zc_bytes c" and "case r of Inl e \<Rightarrow> zc_pos c' = zc_pos c | Inr v \<Rightarrow> zc_pos c < zc_pos c'"
  using assms by (auto simp: parse_hex_number_def split: sum.splits prod.splits if_splits)

definition advances :: "parser \<Rightarrow> parser \<Rightarrow> bool" where
  "advances p p' \<longleftrightarrow> zc_bytes (pa_cursor p') = zc_bytes (pa_cursor p) \<and> zc_pos (pa_cursor p) < zc_pos (pa_cursor p')"

lemma parse_address_pos:
  assumes "parse_address p = (p', Inr a)"
  shows "advances p p'" and "pa_mode p' = pa_mode p"
  using assms parse_hex_number_pos [of "pa_cursor p" MAX_ADDRESS_DIGITS]
  by (auto simp: parse_address_def advances_def split: prod.splits sum.splits hex_parse_error.splits)

lemma parse_byte_pos:
  assumes "parse_byte p = (p', r)"
  shows "pa_mode p' = pa_mode p" and "zc_bytes (pa_cursor p') = zc_bytes (pa_cursor p)"
    and "case r of Inl e \<Rightarrow> zc_pos (pa_cursor p') = zc_pos (pa_cursor p) | Inr b \<Rightarrow> advances p p'"
  using assms parse_hex_number_pos [of "pa_cursor p" MAX_BYTE_DIGITS]
  by (auto simp: parse_byte_def advances_def split: prod.splits sum.splits hex_parse_error.splits)

text \<open>
  A turn of the loop moves the cursor on, except where the digits after the stored bytes turn out to be
  too many for a byte: then it goes back and takes them for an address.
\<close>

lemma parse_one_progress:
  assumes one: "parse_one p ch = (p', Inr r)"
  shows "advances p p' \<or> r = None \<and> pa_cursor p' = pa_cursor p \<and> pa_mode p \<noteq> DefaultMode \<and> pa_mode p' = DefaultMode"
proof (cases "hex_digit ch = None")
  case True
  then show ?thesis
    using one consume_spaces_le [of "zc_advance (pa_cursor p) 1"]
    by (auto simp: parse_one_def parse_instruction_def Let_def advances_def
        dest!: parse_address_pos(1) split: prod.splits sum.splits if_splits)
next
  case False
  show ?thesis
  proof (cases "pa_mode p")
    case DefaultMode
    then show ?thesis
      using one False consume_spaces_le
      by (auto simp: parse_one_def parse_address_command_def Let_def advances_def
          dest!: parse_address_pos(1) split: prod.splits sum.splits option.splits if_splits)
        (meson less_le_trans)+
  next
    case (SetMode any)
    obtain p1 b where b: "parse_byte p = (p1, b)" by (cases "parse_byte p")
    have "zc_set_pos (pa_cursor p1) (zc_pos (pa_cursor p)) = pa_cursor p" if "b = Inl e" for e
      using parse_byte_pos [OF b] that by (simp add: zc_set_pos_def)
    then show ?thesis
      using one False SetMode b parse_byte_pos [OF b]
      by (auto simp: parse_one_def parse_set_command_def Let_def advances_def split: sum.splits if_splits)
  qed
qed

subsection \<open>The loop\<close>

function parse_next :: "parser \<Rightarrow> parsed_command option parsed" where
  "parse_next p =
    (let p1 = p\<lparr>pa_cursor := zc_consume_spaces (pa_cursor p)\<rparr> in
     case zc_peek (pa_cursor p1) of
       None \<Rightarrow>
         (p1, if pa_mode p1 = SetMode False then Inl (ExpectedAByte (zc_pos (pa_cursor p1))) else Inr None)
     | Some first_char \<Rightarrow>
         (case parse_one p1 first_char of (p2, r) \<Rightarrow>
           (case r of
              Inl e \<Rightarrow> (p2, Inl e)
            | Inr (Some command) \<Rightarrow> (p2, Inr (Some command))
            | Inr None \<Rightarrow> parse_next p2)))"
  by pat_completeness auto
termination
proof (relation "measures [\<lambda>p. length (zc_bytes (pa_cursor p)) - zc_pos (pa_cursor p),
    \<lambda>p. if pa_mode p = DefaultMode then 0 else 1]")
  fix p :: parser and p1 ch p2 r c
  assume a: "p1 = p\<lparr>pa_cursor := zc_consume_spaces (pa_cursor p)\<rparr>" "zc_peek (pa_cursor p1) = Some ch"
    "(p2, r) = parse_one p1 ch" "r = Inr c" "c = None"
  then have one: "parse_one p1 ch = (p2, Inr None)" by metis
  have pos: "zc_pos (pa_cursor p) \<le> zc_pos (pa_cursor p1)" "zc_bytes (pa_cursor p1) = zc_bytes (pa_cursor p)" "pa_mode p1 = pa_mode p"
    using a(1) consume_spaces_le by simp_all
  have lt: "zc_pos (pa_cursor p1) < length (zc_bytes (pa_cursor p))" using a(2) pos(2) by (simp add: zc_peek_def get_eq_Some)
  show "(p2, p) \<in> measures [\<lambda>p. length (zc_bytes (pa_cursor p)) - zc_pos (pa_cursor p),
      \<lambda>p. if pa_mode p = DefaultMode then 0 else 1]"
    using parse_one_progress [OF one] pos lt by (auto simp: advances_def)
qed simp

declare parse_next.simps [simp del]

lemma parse_next_advances: "parse_next p = (p', Inr (Some c)) \<Longrightarrow> advances p p'"
proof (induction p rule: parse_next.induct)
  case (1 p)
  let ?p1 = "p\<lparr>pa_cursor := zc_consume_spaces (pa_cursor p)\<rparr>"
  have le: "zc_pos (pa_cursor p) \<le> zc_pos (pa_cursor ?p1)" using consume_spaces_le by simp
  obtain ch where ch: "zc_peek (pa_cursor ?p1) = Some ch"
    using "1.prems" by (auto simp: parse_next.simps [of p] Let_def split: option.splits if_splits)
  obtain p2 r where one: "parse_one ?p1 ch = (p2, r)" by (cases "parse_one ?p1 ch")
  then consider (yields) "r = Inr (Some c)" "p2 = p'" | (again) "r = Inr None" "parse_next p2 = (p', Inr (Some c))"
    using "1.prems" ch by (auto simp: parse_next.simps [of p] Let_def split: sum.splits option.splits)
  then show ?case
  proof cases
    case yields
    then show ?thesis using parse_one_progress [of ?p1 ch p' "Some c"] one le by (auto simp: advances_def)
  next
    case again
    have "advances p2 p'" by (rule "1.IH" [OF refl ch one [symmetric] again(1) refl again(2)])
    then show ?thesis using parse_one_progress [of ?p1 ch p2 None] one again(1) le by (auto simp: advances_def)
  qed
qed

lemma parse_next_inside: "parse_next p = (p', Inr (Some c)) \<Longrightarrow> zc_pos (pa_cursor p) < length (zc_bytes (pa_cursor p))"
proof (induction p rule: parse_next.induct)
  case (1 p)
  let ?p1 = "p\<lparr>pa_cursor := zc_consume_spaces (pa_cursor p)\<rparr>"
  obtain ch where ch: "zc_peek (pa_cursor ?p1) = Some ch"
    using "1.prems" by (auto simp: parse_next.simps [of p] Let_def split: option.splits if_splits)
  then show ?case using consume_spaces_le [of "pa_cursor p"] by (simp add: zc_peek_def get_eq_Some)
qed

function validate :: "parser \<Rightarrow> parser \<times> (line_parse_error + unit)" where
  "validate p =
    (case parse_next p of (p', r) \<Rightarrow>
      (case r of
         Inl e \<Rightarrow> (p', Inl e)
       | Inr (Some _) \<Rightarrow> validate p'
       | Inr None \<Rightarrow> (p', Inr ())))"
  by pat_completeness auto
termination
proof (relation "measure (\<lambda>p. length (zc_bytes (pa_cursor p)) - zc_pos (pa_cursor p))")
  fix p p' :: parser and r oc c
  assume "(p', r) = parse_next p" "r = Inr oc" "oc = Some c"
  then have "parse_next p = (p', Inr (Some c))" by (metis)
  then show "(p', p) \<in> measure (\<lambda>p. length (zc_bytes (pa_cursor p)) - zc_pos (pa_cursor p))"
    using parse_next_advances parse_next_inside by (fastforce simp: advances_def)
qed simp

declare validate.simps [simp del]

subsection \<open>What a line says\<close>

text \<open>The commands a parser yields before it stops, and the error it stops at, if any.\<close>

function parse_all :: "parser \<Rightarrow> parsed_command list \<times> line_parse_error option" where
  "parse_all p =
    (case parse_next p of (p', r) \<Rightarrow>
      (case r of
         Inl e \<Rightarrow> ([], Some e)
       | Inr (Some c) \<Rightarrow> (case parse_all p' of (cs, e) \<Rightarrow> (c # cs, e))
       | Inr None \<Rightarrow> ([], None)))"
  by pat_completeness auto
termination
proof (relation "measure (\<lambda>p. length (zc_bytes (pa_cursor p)) - zc_pos (pa_cursor p))")
  fix p p' :: parser and r oc c
  assume "(p', r) = parse_next p" "r = Inr oc" "oc = Some c"
  then have "parse_next p = (p', Inr (Some c))" by (metis)
  then show "(p', p) \<in> measure (\<lambda>p. length (zc_bytes (pa_cursor p)) - zc_pos (pa_cursor p))"
    using parse_next_advances parse_next_inside by (fastforce simp: advances_def)
qed simp

declare parse_all.simps [simp del]

lemma validate_all: "snd (validate p) = (case snd (parse_all p) of None \<Rightarrow> Inr () | Some e \<Rightarrow> Inl e)"
proof (induction p rule: validate.induct)
  case (1 p)
  then show ?case
    by (auto simp: validate.simps [of p] parse_all.simps [of p] split: prod.splits sum.splits option.splits)
qed

subsection \<open>Numbers, by their digits\<close>

definition is_hex :: "u8 \<Rightarrow> bool" where
  "is_hex c \<longleftrightarrow> hex_digit c \<noteq> None"

definition hex_value :: "u64 \<Rightarrow> u8 list \<Rightarrow> u64" where
  "hex_value number ds = foldl (\<lambda>n c. hex_append n (the (hex_digit c))) number ds"

lemma drop_peek:
  assumes "get xs i = Some x"
  shows "drop i xs = x # drop (Suc i) xs"
  using assms unfolding get_eq_Some by (metis Cons_nth_drop_Suc)

text \<open>The loop reads the longest run of hexadecimal digits, and refuses it when it is too long.\<close>

lemma hex_loop_run:
  "digits \<le> k \<Longrightarrow> hex_loop c k number digits =
    (let ds = takeWhile is_hex (drop (zc_pos c + digits) (zc_bytes c)) in
     if digits + length ds \<le> k then Inr (hex_value number ds, digits + length ds) else Inl (TooLong (zc_pos c + k)))"
proof (induction c k number digits rule: hex_loop.induct)
  case (1 c k number digits)
  show ?case
  proof (cases "Option.bind (zc_peek_offset c digits) hex_digit")
    case None
    have "takeWhile is_hex (drop (zc_pos c + digits) (zc_bytes c)) = []"
    proof (cases "zc_peek_offset c digits")
      case None
      then show ?thesis by (simp add: zc_peek_offset_def get_def split: if_splits)
    next
      case (Some x)
      then have "hex_digit x = None" using \<open>Option.bind _ _ = None\<close> by simp
      then show ?thesis using drop_peek [OF Some [unfolded zc_peek_offset_def]] by (simp add: is_hex_def)
    qed
    then show ?thesis using None "1.prems" by (simp add: hex_loop.simps [of c k number digits] hex_value_def)
  next
    case (Some d)
    then obtain x where x: "zc_peek_offset c digits = Some x" "hex_digit x = Some d" by (auto simp: Option.bind_eq_Some_conv)
    note dr = drop_peek [OF x(1) [unfolded zc_peek_offset_def]]
    show ?thesis
    proof (cases "k \<le> digits")
      case True
      then show ?thesis using Some x(2) dr "1.prems" by (subst hex_loop.simps) (simp add: is_hex_def)
    next
      case False
      then show ?thesis
        using "1.IH" [OF Some] Some x(2) dr "1.prems"
        by (simp add: hex_loop.simps [of c k number digits] is_hex_def hex_value_def Let_def)
    qed
  qed
qed

lemma parse_hex_number_run:
  "parse_hex_number c k =
    (let ds = takeWhile is_hex (drop (zc_pos c) (zc_bytes c)) in
     if k < length ds then (c, Inl (TooLong (zc_pos c + k)))
     else if ds = [] then (c, Inl NoDigits) else (zc_advance c (length ds), Inr (hex_value 0 ds)))"
  by (simp add: parse_hex_number_def hex_loop_run Let_def not_le)

subsection \<open>Writing numbers\<close>

definition hex_char :: "nat \<Rightarrow> u8" where
  "hex_char d = (if d < 10 then 48 + of_nat d else 55 + of_nat d)"

definition hex_write :: "nat \<Rightarrow> nat \<Rightarrow> u8 list" where
  "hex_write n v = map (\<lambda>i. hex_char (v div 16 ^ i mod 16)) (rev [0..<n])"

lemma hex_digit_char: "d < 16 \<Longrightarrow> hex_digit (hex_char d) = Some (of_nat d)"
proof -
  assume "d < 16"
  then have "d = 0 \<or> d = 1 \<or> d = 2 \<or> d = 3 \<or> d = 4 \<or> d = 5 \<or> d = 6 \<or> d = 7 \<or> d = 8 \<or> d = 9 \<or> d = 10
      \<or> d = 11 \<or> d = 12 \<or> d = 13 \<or> d = 14 \<or> d = 15" by presburger
  then show ?thesis by (elim disjE) (simp_all add: hex_char_def hex_digit_def)
qed

lemma hex_write_all: "\<forall>c \<in> set (hex_write n v). is_hex c"
  using hex_digit_char by (auto simp: hex_write_def is_hex_def)

lemma length_hex_write [simp]: "length (hex_write n v) = n"
  by (simp add: hex_write_def)

lemma hex_value_write: "hex_value (of_nat a) (hex_write n v) = of_nat (a * 16 ^ n + v mod 16 ^ n)"
proof (induction n arbitrary: a)
  case (Suc n)
  have step: "hex_append (of_nat a) (of_nat d) = of_nat (a * 16 + d)" if "d < 16" for d
    using that by (simp add: hex_append_def unsigned_of_nat take_bit_nat_eq_self)
  have "hex_value (of_nat a) (hex_write (Suc n) v) = hex_value (of_nat (a * 16 + v div 16 ^ n mod 16)) (hex_write n v)"
    using hex_digit_char [of "v div 16 ^ n mod 16"] step [of "v div 16 ^ n mod 16"]
    by (simp add: hex_write_def hex_value_def)
  also have "\<dots> = of_nat ((a * 16 + v div 16 ^ n mod 16) * 16 ^ n + v mod 16 ^ n)" by (rule Suc)
  also have "(a * 16 + v div 16 ^ n mod 16) * 16 ^ n + v mod 16 ^ n = a * 16 ^ Suc n + v mod 16 ^ Suc n"
    using mod_mult2_eq [of v "16 ^ n" 16] by (simp add: algebra_simps)
  finally show ?case .
qed (simp add: hex_write_def hex_value_def)

subsection \<open>Writing commands\<close>

text \<open>The command forms of \<open>docs/wozmon.md\<close>, each with the address it starts at.\<close>

datatype stmt =
  Examine u64
| ExamineRange u64 u64
| Deposit u64 "u8 list"
| Go u64

fun stmt_write :: "stmt \<Rightarrow> u8 list" where
  "stmt_write (Examine a) = 32 # hex_write 16 (unat a)"
| "stmt_write (ExamineRange a b) = 32 # hex_write 16 (unat a) @ 46 # hex_write 16 (unat b)"
| "stmt_write (Deposit a bs) = 32 # hex_write 16 (unat a) @ 58 # concat (map (\<lambda>b. 32 # hex_write 2 (unat b)) bs)"
| "stmt_write (Go a) = 32 # hex_write 16 (unat a) @ [82]"

fun stmt_commands :: "stmt \<Rightarrow> parsed_command list" where
  "stmt_commands (Examine a) = [ExamineOne a]"
| "stmt_commands (ExamineRange a b) = [SetAddress a, ExamineContinuing b]"
| "stmt_commands (Deposit a bs) = SetAddress a # map StoreContinuing bs"
| "stmt_commands (Go a) = [SetAddress a, Run]"

fun stmt_ok :: "stmt \<Rightarrow> bool" where
  "stmt_ok (Deposit a bs) \<longleftrightarrow> bs \<noteq> []"
| "stmt_ok _ \<longleftrightarrow> True"

definition line_write :: "stmt list \<Rightarrow> u8 list" where
  "line_write ss = concat (map stmt_write ss)"

subsection \<open>Reading them back\<close>

abbreviation pst :: "u8 list \<Rightarrow> usize \<Rightarrow> mode \<Rightarrow> parser" where
  "pst bs i m \<equiv> \<lparr>pa_cursor = \<lparr>zc_bytes = bs, zc_pos = i\<rparr>, pa_mode = m\<rparr>"

lemma peek_drop: "zc_peek \<lparr>zc_bytes = bs, zc_pos = i\<rparr> = (case drop i bs of [] \<Rightarrow> None | x # r \<Rightarrow> Some x)"
proof (cases "i < length bs")
  case True
  then have "zc_peek \<lparr>zc_bytes = bs, zc_pos = i\<rparr> = Some (bs ! i)" by (simp add: zc_peek_def)
  moreover have "drop i bs = bs ! i # drop (Suc i) bs" using Cons_nth_drop_Suc [OF True] by simp
  ultimately show ?thesis by simp
qed (simp add: zc_peek_def)

lemma drop_append: "drop i bs = xs @ r \<Longrightarrow> drop (i + length xs) bs = r"
  by (metis add.commute append_eq_conv_conj drop_drop)

lemma consume_none: "drop i bs = [] \<or> hd (drop i bs) \<noteq> 32 \<Longrightarrow> zc_consume_spaces \<lparr>zc_bytes = bs, zc_pos = i\<rparr> = \<lparr>zc_bytes = bs, zc_pos = i\<rparr>"
  by (subst zc_consume_spaces.simps) (auto simp: peek_drop split: list.splits)

lemma consume_space: "drop i bs = 32 # r \<Longrightarrow> zc_consume_spaces \<lparr>zc_bytes = bs, zc_pos = i\<rparr> = zc_consume_spaces \<lparr>zc_bytes = bs, zc_pos = i + 1\<rparr>"
  by (subst zc_consume_spaces.simps) (simp add: peek_drop zc_advance_def)

lemma consume_twice: "zc_consume_spaces (zc_consume_spaces c) = zc_consume_spaces c"
proof (induction c rule: zc_consume_spaces.induct)
  case (1 c)
  show ?case
  proof (cases "zc_peek c = Some 32")
    case False
    then have "zc_consume_spaces c = c" by (simp add: zc_consume_spaces.simps [of c])
    then show ?thesis by simp
  qed (use 1 in \<open>simp add: zc_consume_spaces.simps [of c]\<close>)
qed

lemma parse_next_consumed: "parse_next (p\<lparr>pa_cursor := zc_consume_spaces (pa_cursor p)\<rparr>) = parse_next p"
  by (subst (1 2) parse_next.simps) (simp add: consume_twice)

lemma parse_next_space: "drop i bs = 32 # r \<Longrightarrow> parse_next (pst bs i m) = parse_next (pst bs (i + 1) m)"
  using parse_next_consumed [of "pst bs i m"] parse_next_consumed [of "pst bs (i + 1) m"] by (simp add: consume_space)

lemma parse_all_next: "parse_next p = parse_next q \<Longrightarrow> parse_all p = parse_all q"
  by (simp add: parse_all.simps [of p] parse_all.simps [of q])

lemma parse_all_Some: "parse_next p = (p', Inr (Some c)) \<Longrightarrow> parse_all p = (c # fst (parse_all p'), snd (parse_all p'))"
  by (simp add: parse_all.simps [of p] split: prod.splits)

definition ends_number :: "u8 list \<Rightarrow> bool" where
  "ends_number r \<longleftrightarrow> r = [] \<or> \<not> is_hex (hd r)"

lemma takeWhile_write: "ends_number r \<Longrightarrow> takeWhile is_hex (hex_write n v @ r) = hex_write n v"
  using hex_write_all [of n v] by (cases r) (auto simp: takeWhile_append2 ends_number_def)

lemma hex_value_word: "hex_value 0 (hex_write 16 (unat a)) = a" "ucast (hex_value 0 (hex_write 2 (unat b))) = (b :: u8)"
proof -
  have "unat a < 16 ^ 16" using unat_lt_pow [of a] by simp
  then show "hex_value 0 (hex_write 16 (unat a)) = a" using hex_value_write [of 0 16 "unat a"] by simp
  have b: "unat b < 256" using unat_lt_pow [of b] by simp
  then have "hex_value 0 (hex_write 2 (unat b)) = of_nat (unat b)" using hex_value_write [of 0 2 "unat b"] by simp
  then have "hex_value 0 (hex_write 2 (unat b)) = ucast b" by simp
  moreover have "ucast (ucast b :: u64) = b" by (rule bit_word_eqI) (simp add: bit_simps)
  ultimately show "ucast (hex_value 0 (hex_write 2 (unat b))) = b" by simp
qed

lemma hex_write_ne: "0 < n \<Longrightarrow> hex_write n v \<noteq> []"
  using length_hex_write [of n v] by (metis length_0_conv less_irrefl)

lemma parse_address_write:
  "drop i bs = hex_write 16 (unat a) @ r \<Longrightarrow> ends_number r \<Longrightarrow> parse_address (pst bs i m) = (pst bs (i + 16) m, Inr a)"
  by (simp add: parse_address_def parse_hex_number_run takeWhile_write MAX_ADDRESS_DIGITS_def hex_write_ne hex_value_word zc_advance_def)

lemma parse_byte_write:
  "drop i bs = hex_write 2 (unat b) @ r \<Longrightarrow> ends_number r \<Longrightarrow> parse_byte (pst bs i m) = (pst bs (i + 2) m, Inr b)"
  by (simp add: parse_byte_def parse_hex_number_run takeWhile_write MAX_BYTE_DIGITS_def hex_write_ne hex_value_word zc_advance_def)

lemma parse_byte_address:
  "drop i bs = hex_write 16 v @ r \<Longrightarrow> ends_number r \<Longrightarrow> parse_byte (pst bs i m) = (pst bs i m, Inl (ByteTooLong (i + 2)))"
  by (simp add: parse_byte_def parse_hex_number_run takeWhile_write MAX_BYTE_DIGITS_def)

lemma write_first:
  assumes "drop i bs = hex_write n v @ r" "0 < n"
  obtains ch where "zc_peek \<lparr>zc_bytes = bs, zc_pos = i\<rparr> = Some ch" "is_hex ch" "hex_digit ch \<noteq> None"
    and "zc_consume_spaces \<lparr>zc_bytes = bs, zc_pos = i\<rparr> = \<lparr>zc_bytes = bs, zc_pos = i\<rparr>"
proof -
  obtain ch w where w: "hex_write n v = ch # w" using hex_write_ne [OF assms(2)] by (cases "hex_write n v") auto
  then have h: "is_hex ch" using hex_write_all [of n v] by simp
  then have "ch \<noteq> 32" by (auto simp: is_hex_def hex_digit_def)
  then have "zc_consume_spaces \<lparr>zc_bytes = bs, zc_pos = i\<rparr> = \<lparr>zc_bytes = bs, zc_pos = i\<rparr>"
    using assms(1) w by (intro consume_none) simp
  moreover have "zc_peek \<lparr>zc_bytes = bs, zc_pos = i\<rparr> = Some ch" using assms(1) w by (simp add: peek_drop)
  ultimately show thesis using that h by (auto simp: is_hex_def)
qed

text \<open>After stored bytes, sixteen digits are too many for a byte and are read as an address.\<close>

lemma parse_next_default:
  assumes "drop i bs = hex_write 16 v @ r" "ends_number r"
  shows "parse_next (pst bs i (SetMode True)) = parse_next (pst bs i DefaultMode)"
proof -
  obtain ch where ch: "zc_peek \<lparr>zc_bytes = bs, zc_pos = i\<rparr> = Some ch" "hex_digit ch \<noteq> None"
    "zc_consume_spaces \<lparr>zc_bytes = bs, zc_pos = i\<rparr> = \<lparr>zc_bytes = bs, zc_pos = i\<rparr>"
    by (rule write_first [OF assms(1)]) auto
  then have "parse_one (pst bs i (SetMode True)) ch = (pst bs i DefaultMode, Inr None)"
    by (auto simp: parse_one_def parse_set_command_def parse_byte_address [OF assms] Let_def zc_set_pos_def)
  then show ?thesis using ch by (subst parse_next.simps) simp
qed

lemma parse_next_address:
  assumes d: "drop i bs = hex_write 16 (unat a) @ r" "ends_number r" and m: "m = DefaultMode \<or> m = SetMode True"
    and j: "j = i + 16"
  shows "parse_next (pst bs i m) =
    (let c = zc_consume_spaces \<lparr>zc_bytes = bs, zc_pos = j\<rparr> in
     (\<lparr>pa_cursor = c, pa_mode = DefaultMode\<rparr>,
      Inr (Some (case zc_peek c of None \<Rightarrow> ExamineOne a | Some x \<Rightarrow> if is_instruction x then SetAddress a else ExamineOne a))))"
proof -
  obtain ch where ch: "zc_peek \<lparr>zc_bytes = bs, zc_pos = i\<rparr> = Some ch" "hex_digit ch \<noteq> None"
    "zc_consume_spaces \<lparr>zc_bytes = bs, zc_pos = i\<rparr> = \<lparr>zc_bytes = bs, zc_pos = i\<rparr>"
    by (rule write_first [OF d(1)]) auto
  have "parse_next (pst bs i m) = parse_next (pst bs i DefaultMode)" using m parse_next_default [OF d] by auto
  also have "\<dots> = (let c = zc_consume_spaces \<lparr>zc_bytes = bs, zc_pos = j\<rparr> in
     (\<lparr>pa_cursor = c, pa_mode = DefaultMode\<rparr>,
      Inr (Some (case zc_peek c of None \<Rightarrow> ExamineOne a | Some x \<Rightarrow> if is_instruction x then SetAddress a else ExamineOne a))))"
    using ch by (subst parse_next.simps)
      (auto simp: parse_one_def parse_address_command_def parse_address_write [OF d] j Let_def split: option.splits)
  finally show ?thesis .
qed

lemma drop_rest: "drop i bs = xs @ r \<Longrightarrow> j = i + length xs \<Longrightarrow> drop j bs = r"
  using drop_append by simp

lemma not_hex: "\<not> is_hex 32" "\<not> is_hex 46" "\<not> is_hex 58" "\<not> is_hex 82"
  by (simp_all add: is_hex_def hex_digit_def)

lemma line_write_simps: "line_write [] = []" "line_write (s # ss) = stmt_write s @ line_write ss"
  by (simp_all add: line_write_def)

lemma stmt_write_head: obtains v r where "stmt_write s = 32 # hex_write 16 v @ r"
  by (cases s) auto

lemma line_ends_number: "ends_number (line_write ss)"
proof (cases ss)
  case (Cons s ss')
  then show ?thesis using not_hex by (cases s) (simp_all add: ends_number_def line_write_simps)
qed (simp add: ends_number_def line_write_simps)

definition after_stmt :: "mode \<Rightarrow> bool" where
  "after_stmt m \<longleftrightarrow> m = DefaultMode \<or> m = SetMode True"

text \<open>Where an address is followed by the next statement, the character that decides is a digit.\<close>

lemma no_instruction_ahead:
  assumes "drop i bs = line_write ss"
  shows "case zc_peek (zc_consume_spaces \<lparr>zc_bytes = bs, zc_pos = i\<rparr>) of None \<Rightarrow> True | Some x \<Rightarrow> \<not> is_instruction x"
proof (cases ss)
  case Nil
  then have d: "drop i bs = []" using assms by (simp only: line_write_simps)
  then have "zc_consume_spaces \<lparr>zc_bytes = bs, zc_pos = i\<rparr> = \<lparr>zc_bytes = bs, zc_pos = i\<rparr>" by (intro consume_none disjI1)
  moreover have "zc_peek \<lparr>zc_bytes = bs, zc_pos = i\<rparr> = None" unfolding peek_drop d by simp
  ultimately show ?thesis by simp
next
  case (Cons s ss')
  obtain v r where "stmt_write s = 32 # hex_write 16 v @ r" by (rule stmt_write_head)
  then have d: "drop i bs = 32 # hex_write 16 v @ (r @ line_write ss')" using assms Cons by (simp add: line_write_simps)
  have d': "drop (i + 1) bs = hex_write 16 v @ (r @ line_write ss')" by (rule drop_rest [of i bs "[32]"]) (use d in simp_all)
  obtain ch where "zc_peek \<lparr>zc_bytes = bs, zc_pos = i + 1\<rparr> = Some ch" "is_hex ch"
    "zc_consume_spaces \<lparr>zc_bytes = bs, zc_pos = i + 1\<rparr> = \<lparr>zc_bytes = bs, zc_pos = i + 1\<rparr>"
    by (rule write_first [OF d']) simp_all
  moreover from this(2) have "\<not> is_instruction ch" by (auto simp: is_hex_def hex_digit_def is_instruction_def)
  ultimately show ?thesis using consume_space [OF d] by simp
qed

lemma parse_next_instruction:
  assumes "drop i bs = x # r" "\<not> is_hex x" "x \<noteq> 32"
  shows "parse_next (pst bs i m) =
    (case parse_instruction (pst bs i m) of (p, res) \<Rightarrow>
      (case res of Inl e \<Rightarrow> (p, Inl e) | Inr (Some c) \<Rightarrow> (p, Inr (Some c)) | Inr None \<Rightarrow> parse_next p))"
proof -
  have "zc_consume_spaces \<lparr>zc_bytes = bs, zc_pos = i\<rparr> = \<lparr>zc_bytes = bs, zc_pos = i\<rparr>" by (rule consume_none) (use assms in simp)
  moreover have "zc_peek \<lparr>zc_bytes = bs, zc_pos = i\<rparr> = Some x" using assms by (simp add: peek_drop)
  moreover have "hex_digit x = None" using assms(2) by (simp add: is_hex_def)
  ultimately show ?thesis by (subst parse_next.simps) (simp add: parse_one_def)
qed

lemma parse_next_bytes:
  assumes "drop i bs = 32 # hex_write 2 (unat b) @ r" "ends_number r"
  shows "parse_next (pst bs i (SetMode any)) = (pst bs (i + 3) (SetMode True), Inr (Some (StoreContinuing b)))"
proof -
  have d: "drop (i + 1) bs = hex_write 2 (unat b) @ r" by (rule drop_rest [of i bs "[32]"]) (use assms(1) in simp_all)
  obtain ch where "zc_peek \<lparr>zc_bytes = bs, zc_pos = i + 1\<rparr> = Some ch" "hex_digit ch \<noteq> None"
    "zc_consume_spaces \<lparr>zc_bytes = bs, zc_pos = i + 1\<rparr> = \<lparr>zc_bytes = bs, zc_pos = i + 1\<rparr>"
    by (rule write_first [OF d]) simp_all
  then have "parse_next (pst bs (i + 1) (SetMode any)) = (pst bs (i + 3) (SetMode True), Inr (Some (StoreContinuing b)))"
    by (subst parse_next.simps) (auto simp: parse_one_def parse_set_command_def parse_byte_write [OF d assms(2), simplified] Let_def)
  then show ?thesis using parse_next_space [OF assms(1)] by simp
qed

lemma parse_all_bytes:
  "drop i bs = concat (map (\<lambda>b. 32 # hex_write 2 (unat b)) ds) @ r \<Longrightarrow> ends_number r \<Longrightarrow> ds \<noteq> [] \<Longrightarrow>
    \<exists>j. drop j bs = r \<and> parse_all (pst bs i (SetMode any))
      = (map StoreContinuing ds @ fst (parse_all (pst bs j (SetMode True))), snd (parse_all (pst bs j (SetMode True))))"
proof (induction ds arbitrary: i any)
  case (Cons b ds)
  let ?r = "concat (map (\<lambda>b. 32 # hex_write 2 (unat b)) ds) @ r"
  have d: "drop i bs = 32 # hex_write 2 (unat b) @ ?r" using Cons.prems(1) by simp
  have "ends_number ?r" using Cons.prems(2) not_hex by (cases ds) (simp_all add: ends_number_def)
  note step = parse_all_Some [OF parse_next_bytes [OF d this]]
  have rest: "drop (i + 3) bs = ?r" by (rule drop_rest [of i bs "32 # hex_write 2 (unat b)"]) (use d in simp_all)
  show ?case
  proof (cases ds)
    case Nil
    then show ?thesis using step rest by (intro exI [of _ "i + 3"]) simp
  next
    case (Cons b' ds')
    then obtain j where "drop j bs = r" "parse_all (pst bs (i + 3) (SetMode True))
        = (map StoreContinuing ds @ fst (parse_all (pst bs j (SetMode True))), snd (parse_all (pst bs j (SetMode True))))"
      using Cons.IH [OF rest Cons.prems(2)] by blast
    then show ?thesis using step by (intro exI [of _ j]) simp
  qed
qed simp

lemma parse_all_stmt:
  assumes d: "drop i bs = stmt_write s @ line_write ss" and ok: "stmt_ok s" and m: "after_stmt m"
  shows "\<exists>j m'. drop j bs = line_write ss \<and> after_stmt m' \<and> parse_all (pst bs i m)
    = (stmt_commands s @ fst (parse_all (pst bs j m')), snd (parse_all (pst bs j m')))"
proof -
  obtain v r0 where "stmt_write s = 32 # hex_write 16 v @ r0" by (rule stmt_write_head)
  then have "drop i bs = 32 # hex_write 16 v @ r0 @ line_write ss" using d by simp
  note space = parse_all_next [OF parse_next_space [OF this, of m]]
  have d1: "drop (i + 1) bs = tl (stmt_write s) @ line_write ss"
    by (rule drop_rest [of i bs "[32]"]) (use d \<open>stmt_write s = _\<close> in simp_all)
  note m' = m [unfolded after_stmt_def]
  have inst: "parse_all (pst bs (i + 1) m) = (SetAddress a # fst (parse_all (pst bs (i + 17) DefaultMode)),
      snd (parse_all (pst bs (i + 17) DefaultMode))) \<and> drop (i + 17) bs = x # r"
    if a: "drop (i + 1) bs = hex_write 16 (unat a) @ x # r" and x: "x = 46 \<or> x = 58 \<or> x = 82" for a x r
  proof -
    have e: "ends_number (x # r)" using x not_hex by (auto simp: ends_number_def)
    have dr: "drop (i + 17) bs = x # r" by (rule drop_rest [of "i + 1" bs "hex_write 16 (unat a)"]) (use a in simp_all)
    then have "zc_consume_spaces \<lparr>zc_bytes = bs, zc_pos = i + 17\<rparr> = \<lparr>zc_bytes = bs, zc_pos = i + 17\<rparr>"
      using x by (intro consume_none) auto
    then have "parse_next (pst bs (i + 1) m) = (pst bs (i + 17) DefaultMode, Inr (Some (SetAddress a)))"
      using parse_next_address [OF a e m', of "i + 17"] x dr by (auto simp: Let_def peek_drop is_instruction_def)
    then show ?thesis using parse_all_Some dr by blast
  qed
  show ?thesis
  proof (cases s)
    case (Examine a)
    then have a: "drop (i + 1) bs = hex_write 16 (unat a) @ line_write ss" using d1 by simp
    have dr: "drop (i + 17) bs = line_write ss" by (rule drop_rest [of "i + 1" bs "hex_write 16 (unat a)"]) (use a in simp_all)
    have "parse_next (pst bs (i + 1) m) =
        (pst bs (i + 17) DefaultMode\<lparr>pa_cursor := zc_consume_spaces \<lparr>zc_bytes = bs, zc_pos = i + 17\<rparr>\<rparr>, Inr (Some (ExamineOne a)))"
      using parse_next_address [OF a line_ends_number m', of "i + 17"] no_instruction_ahead [OF dr]
      by (cases "zc_peek (zc_consume_spaces \<lparr>zc_bytes = bs, zc_pos = i + 17\<rparr>)") (simp_all add: Let_def)
    from parse_all_Some [OF this] have "parse_all (pst bs (i + 1) m)
        = (ExamineOne a # fst (parse_all (pst bs (i + 17) DefaultMode)), snd (parse_all (pst bs (i + 17) DefaultMode)))"
      using parse_all_next [OF parse_next_consumed, of "pst bs (i + 17) DefaultMode"] by simp
    then show ?thesis using Examine space dr by (intro exI [of _ "i + 17"] exI [of _ DefaultMode]) (simp add: after_stmt_def)
  next
    case (ExamineRange a b)
    then have a: "drop (i + 1) bs = hex_write 16 (unat a) @ 46 # hex_write 16 (unat b) @ line_write ss" using d1 by simp
    note i1 = inst [OF a, simplified]
    have db: "drop (i + 18) bs = hex_write 16 (unat b) @ line_write ss" by (rule drop_rest [of "i + 17" bs "[46]"]) (use i1 in simp_all)
    then have "zc_consume_spaces \<lparr>zc_bytes = bs, zc_pos = i + 18\<rparr> = \<lparr>zc_bytes = bs, zc_pos = i + 18\<rparr>"
      by (rule write_first) simp_all
    then have "parse_next (pst bs (i + 17) DefaultMode) = (pst bs (i + 34) DefaultMode, Inr (Some (ExamineContinuing b)))"
      using i1 not_hex parse_address_write [OF db line_ends_number]
      by (subst parse_next_instruction [of _ _ 46]) (simp_all add: parse_instruction_def Let_def peek_drop zc_advance_def add.commute [of 18 i] add.commute [of 34 i])
    note i2 = parse_all_Some [OF this]
    have "drop (i + 34) bs = line_write ss" by (rule drop_rest [of "i + 18" bs "hex_write 16 (unat b)"]) (use db in simp_all)
    then show ?thesis using ExamineRange space i1 i2 by (intro exI [of _ "i + 34"] exI [of _ DefaultMode]) (simp add: after_stmt_def)
  next
    case (Deposit a ds)
    let ?ds = "concat (map (\<lambda>b. 32 # hex_write 2 (unat b)) ds)"
    have a: "drop (i + 1) bs = hex_write 16 (unat a) @ 58 # ?ds @ line_write ss" using d1 Deposit by simp
    note i1 = inst [OF a, simplified]
    have db: "drop (i + 18) bs = ?ds @ line_write ss" by (rule drop_rest [of "i + 17" bs "[58]"]) (use i1 in simp_all)
    have "parse_next (pst bs (i + 17) DefaultMode) = parse_next (pst bs (i + 18) (SetMode False))"
      using i1 not_hex by (subst parse_next_instruction [of _ _ 58]) (simp_all add: parse_instruction_def Let_def peek_drop zc_advance_def add.commute [of 18 i] add.commute [of 34 i])
    note i2 = parse_all_next [OF this]
    obtain j where "drop j bs = line_write ss" "parse_all (pst bs (i + 18) (SetMode False))
        = (map StoreContinuing ds @ fst (parse_all (pst bs j (SetMode True))), snd (parse_all (pst bs j (SetMode True))))"
      using parse_all_bytes [OF db line_ends_number] ok Deposit by auto
    then show ?thesis using Deposit space i1 i2 by (intro exI [of _ j] exI [of _ "SetMode True"]) (simp add: after_stmt_def)
  next
    case (Go a)
    then have a: "drop (i + 1) bs = hex_write 16 (unat a) @ 82 # line_write ss" using d1 by simp
    note i1 = inst [OF a, simplified]
    have "parse_next (pst bs (i + 17) DefaultMode) = (pst bs (i + 18) DefaultMode, Inr (Some Run))"
      using i1 not_hex by (subst parse_next_instruction [of _ _ 82]) (simp_all add: parse_instruction_def Let_def peek_drop zc_advance_def add.commute [of 18 i] add.commute [of 34 i])
    note i2 = parse_all_Some [OF this]
    have "drop (i + 18) bs = line_write ss" by (rule drop_rest [of "i + 17" bs "[82]"]) (use i1 in simp_all)
    then show ?thesis using Go space i1 i2 by (intro exI [of _ "i + 18"] exI [of _ DefaultMode]) (simp add: after_stmt_def)
  qed
qed

lemma parse_line:
  "drop i bs = line_write ss \<Longrightarrow> \<forall>s \<in> set ss. stmt_ok s \<Longrightarrow> after_stmt m \<Longrightarrow>
    parse_all (pst bs i m) = (concat (map stmt_commands ss), None)"
proof (induction ss arbitrary: i m)
  case Nil
  then have d: "drop i bs = []" by (simp only: line_write_simps)
  then have "zc_consume_spaces \<lparr>zc_bytes = bs, zc_pos = i\<rparr> = \<lparr>zc_bytes = bs, zc_pos = i\<rparr>" by (intro consume_none disjI1)
  moreover have "zc_peek \<lparr>zc_bytes = bs, zc_pos = i\<rparr> = None" unfolding peek_drop d by simp
  moreover have "m \<noteq> SetMode False" using Nil.prems(3) by (auto simp: after_stmt_def)
  ultimately have "parse_next (pst bs i m) = (pst bs i m, Inr None)" by (subst parse_next.simps) simp
  then show ?case by (subst parse_all.simps) simp
next
  case (Cons s ss)
  then obtain j m' where "drop j bs = line_write ss" "after_stmt m'" "parse_all (pst bs i m)
      = (stmt_commands s @ fst (parse_all (pst bs j m')), snd (parse_all (pst bs j m')))"
    using parse_all_stmt [of i bs s ss m] by (auto simp: line_write_simps)
  then show ?case using Cons.IH [of j m'] Cons.prems(2) by simp
qed

end
