(* ===== verification/Console.thy ===== *)
theory Console
  imports Prelude
begin

text \<open>
  The console (\<open>src/src/tty/console.rs\<close>, \<open>src/src/tty/print.rs\<close>, \<open>Write for UARTDriver\<close>): the line
  editor and formatted output. What goes out over the serial line is a list of bytes; what comes in is
  a list of characters, each with the error flag of the receiver. A line that is still being typed when
  the input ends has no result yet: \<open>getc\<close> blocks.
\<close>

subsection \<open>Output\<close>

definition write_new_line :: "u8 list" where
  "write_new_line = [13, 10]"

definition ERASE_SEQUENCE :: "u8 list" where
  "ERASE_SEQUENCE = [8, 32, 8]"

text \<open>\<open>write_str\<close>: a line feed goes out as carriage return and line feed.\<close>

definition write_str :: "u8 list \<Rightarrow> u8 list" where
  "write_str s = concat (map (\<lambda>c. if c = 10 then [13, c] else [c]) s)"

lemma write_str_plain: "10 \<notin> set s \<Longrightarrow> write_str s = s"
  by (induction s) (auto simp: write_str_def)

definition println :: "u8 list \<Rightarrow> u8 list" where
  "println s = write_str (s @ [10])"

subsection \<open>Characters\<close>

datatype input_char = Char u8 | Backspace | Newline | Escape | NonPrintable

definition is_backspace :: "u8 \<Rightarrow> bool" where
  "is_backspace c \<longleftrightarrow> c = 0x08 \<or> c = 0x7F"

definition is_newline :: "u8 \<Rightarrow> bool" where
  "is_newline c \<longleftrightarrow> c = 13 \<or> c = 10"

definition is_escape :: "u8 \<Rightarrow> bool" where
  "is_escape c \<longleftrightarrow> c = 0x1B"

definition is_non_printable :: "u8 \<Rightarrow> bool" where
  "is_non_printable c \<longleftrightarrow> c < 0x20 \<or> 0x7E < c"

definition char_from_byte :: "u8 \<Rightarrow> input_char" where
  "char_from_byte b =
    (if is_newline b then Newline
     else if is_backspace b then Backspace
     else if is_escape b then Escape
     else if is_non_printable b then NonPrintable
     else Char b)"

subsection \<open>Reading a line\<close>

record readline_result =
  rl_buf :: "u8 list"
  rl_device_error :: bool

datatype line = Ready readline_result | Abandoned

text \<open>
  \<open>read_line\<close> over the characters still to come. It returns the line, the buffer, the characters left
  and what it echoed; \<open>None\<close> while no Enter and no Escape has come.
\<close>

fun read_line_from ::
  "u8 list \<Rightarrow> usize \<Rightarrow> bool \<Rightarrow> u8 list \<Rightarrow> (u8 \<times> bool) list \<Rightarrow> (line \<times> u8 list \<times> (u8 \<times> bool) list \<times> u8 list) option"
where
  "read_line_from buf i device_error out [] = None"
| "read_line_from buf i device_error out ((byte, error) # rest) =
    (let device_error = (device_error \<or> error) in
     case char_from_byte byte of
       NonPrintable \<Rightarrow> read_line_from buf i device_error out rest
     | Newline \<Rightarrow>
         Some (Ready \<lparr>rl_buf = (if i \<le> length buf then take i buf else []), rl_device_error = device_error\<rparr>,
           buf, rest, out @ write_new_line)
     | Backspace \<Rightarrow>
         if 0 < i then read_line_from buf (i - 1) device_error (out @ ERASE_SEQUENCE) rest
         else read_line_from buf i device_error out rest
     | Escape \<Rightarrow> Some (Abandoned, buf, rest, out @ write_new_line)
     | Char c \<Rightarrow>
         if i < length buf then read_line_from (buf[i := c]) (i + 1) device_error (out @ [c]) rest
         else read_line_from buf i device_error out rest)"

definition read_line :: "u8 list \<Rightarrow> (u8 \<times> bool) list \<Rightarrow> (line \<times> u8 list \<times> (u8 \<times> bool) list \<times> u8 list) option" where
  "read_line buf input = read_line_from buf 0 False [] input"

lemma read_line_from_shorter:
  "read_line_from buf i e out input = Some (l, buf', rest, out') \<Longrightarrow> length rest < length input"
proof (induction buf i e out input rule: read_line_from.induct)
  case (2 buf i e out byte err rest0)
  then show ?case
    by (cases "char_from_byte byte") (auto simp: Let_def split: if_splits intro: less_SucI)
qed simp

lemma read_line_from_buffer:
  "read_line_from buf i e out input = Some (l, buf', rest, out') \<Longrightarrow> length buf' = length buf"
proof (induction buf i e out input rule: read_line_from.induct)
  case (2 buf i e out byte err rest0)
  then show ?case
    by (cases "char_from_byte byte") (auto simp: Let_def split: if_splits)
qed simp

subsection \<open>What the user sees\<close>

text \<open>
  A reference editor: the line as a list, a printable character appended while there is room, a
  backspace dropping the last one. And a terminal: one row with a cursor, a printable character
  written at the cursor, a backspace moving it left.
\<close>

definition edit :: "nat \<Rightarrow> u8 list \<Rightarrow> u8 \<Rightarrow> u8 list" where
  "edit n l b =
    (case char_from_byte b of
       Char c \<Rightarrow> if length l < n then l @ [c] else l
     | Backspace \<Rightarrow> butlast l
     | _ \<Rightarrow> l)"

type_synonym row = "u8 list \<times> nat"

fun show_byte :: "row \<Rightarrow> u8 \<Rightarrow> row" where
  "show_byte (r, k) b =
    (if b = 8 then (r, k - 1)
     else if k < length r then (r[k := b], k + 1)
     else (r @ [b], k + 1))"

definition show_bytes :: "row \<Rightarrow> u8 list \<Rightarrow> row" where
  "show_bytes r bs = foldl show_byte r bs"

text \<open>Where the line ends, ignoring the blanks a backspace leaves behind.\<close>

definition shows_line :: "u8 list \<Rightarrow> row \<Rightarrow> bool" where
  "shows_line l r \<longleftrightarrow> snd r = length l \<and> (\<exists>blanks. fst r = l @ replicate blanks 32)"

definition ends_line :: "u8 \<Rightarrow> bool" where
  "ends_line b \<longleftrightarrow> char_from_byte b \<in> {Newline, Escape}"

lemma char_from_byte_Char: "char_from_byte b = Char c \<Longrightarrow> c = b \<and> 0x20 \<le> b \<and> b \<le> 0x7E"
  by (auto simp: char_from_byte_def is_non_printable_def not_less split: if_splits)

lemma shows_line_append:
  assumes "shows_line l r" "b \<noteq> 8"
  shows "shows_line (l @ [b]) (show_byte r b)"
proof -
  obtain k where r: "r = (l @ replicate k 32, length l)" using assms(1) by (cases r) (auto simp: shows_line_def)
  show ?thesis
  proof (cases k)
    case 0
    then show ?thesis using r assms(2) by (auto simp: shows_line_def intro!: exI [of _ 0])
  next
    case (Suc k')
    then have "(l @ replicate k 32)[length l := b] = (l @ [b]) @ replicate k' 32" by (simp add: list_update_append)
    then show ?thesis using r assms(2) Suc by (auto simp: shows_line_def)
  qed
qed

lemma shows_line_erase:
  assumes "shows_line l r" "l \<noteq> []"
  shows "shows_line (butlast l) (show_bytes r ERASE_SEQUENCE)"
proof -
  obtain l' b where l: "l = l' @ [b]" using assms(2) by (cases l rule: rev_cases) auto
  obtain k where r: "r = (l' @ b # replicate k 32, Suc (length l'))" using assms(1) l by (cases r) (auto simp: shows_line_def)
  have "show_bytes r ERASE_SEQUENCE = (l' @ replicate (Suc k) 32, length l')"
    by (simp add: r show_bytes_def ERASE_SEQUENCE_def list_update_append)
  then show ?thesis using l by (auto simp: shows_line_def intro!: exI [of _ "Suc k"])
qed

definition edited_line :: "nat \<Rightarrow> u8 list \<Rightarrow> bool \<Rightarrow> (u8 \<times> bool) list \<Rightarrow> u8 \<times> bool \<Rightarrow> line" where
  "edited_line n l e input stop =
    (if char_from_byte (fst stop) = Escape then Abandoned
     else Ready \<lparr>rl_buf = foldl (edit n) l (map fst input),
       rl_device_error = (e \<or> (\<exists>x \<in> set (input @ [stop]). snd x))\<rparr>)"

lemma edited_line_Cons:
  "edited_line n l e ((b, err) # input) stop = edited_line n (edit n l b) (e \<or> err) input stop"
  by (simp add: edited_line_def disj_assoc)

text \<open>The editor refines the reference, and the row always shows the line.\<close>

lemma read_line_from_edit:
  assumes "length l \<le> length buf" "take (length l) buf = l" "shows_line l (show_bytes r0 out)"
    and "\<forall>x \<in> set input. \<not> ends_line (fst x)" and "ends_line (fst stop)"
  shows "\<exists>buf' echoed. read_line_from buf (length l) e out (input @ stop # rest) =
      Some (edited_line (length buf) l e input stop, buf', rest, echoed @ write_new_line)
    \<and> shows_line (foldl (edit (length buf)) l (map fst input)) (show_bytes r0 echoed)"
  using assms(1-4)
proof (induction input arbitrary: l buf e out)
  case Nil
  obtain b err where stop: "stop = (b, err)" by (cases stop)
  then show ?case using Nil assms(5) by (auto simp: ends_line_def edited_line_def)
next
  case (Cons x input)
  obtain b err where x: "x = (b, err)" by (cases x)
  define n where "n = length buf"
  have len: "length l \<le> n" using Cons.prems(1) by (simp add: n_def)
  have IH: "\<exists>buf'' echoed. read_line_from buf' (length l') (e \<or> err) out' (input @ stop # rest) =
      Some (edited_line n l' (e \<or> err) input stop, buf'', rest, echoed @ write_new_line)
    \<and> shows_line (foldl (edit n) l' (map fst input)) (show_bytes r0 echoed)"
    if "length buf' = n" "length l' \<le> n" "take (length l') buf' = l'" "shows_line l' (show_bytes r0 out')" for l' buf' out'
    using Cons.IH [of l' buf' out' "e \<or> err"] that Cons.prems(4) by simp
  have same: ?case if "edit n l b = l" "read_line_from buf (length l) e out (x # input @ stop # rest) =
      read_line_from buf (length l) (e \<or> err) out (input @ stop # rest)"
    using IH [OF n_def [symmetric] len Cons.prems(2,3)] that by (simp add: n_def x edited_line_Cons del: split_paired_Ex)
  show ?case
  proof (cases "char_from_byte b")
    case (Char c)
    show ?thesis
    proof (cases "length l < n")
      case True
      have take: "take (length (l @ [c])) (buf[length l := c]) = l @ [c]"
        using True Cons.prems(2) by (simp add: take_Suc_conv_app_nth n_def)
      have c: "c = b" "c \<noteq> 8" using char_from_byte_Char [OF Char] by auto
      have "shows_line (l @ [c]) (show_bytes r0 (out @ [c]))"
        using shows_line_append [OF Cons.prems(3) c(2)] by (simp add: show_bytes_def)
      moreover have "edit n l b = l @ [c]" using True Char by (simp add: edit_def)
      ultimately show ?thesis
        using IH [OF _ _ take] True x Char by (simp add: n_def edited_line_Cons c del: split_paired_Ex)
    qed (use same x Char in \<open>simp add: n_def edit_def\<close>)
  next
    case Backspace
    show ?thesis
    proof (cases "l = []")
      case False
      have take: "take (length (butlast l)) buf = butlast l"
        using Cons.prems(2) by (metis butlast_take Cons.prems(1) length_butlast)
      have "shows_line (butlast l) (show_bytes r0 (out @ ERASE_SEQUENCE))"
        using shows_line_erase [OF Cons.prems(3) False] by (simp add: show_bytes_def)
      moreover have "edit n l b = butlast l" using Backspace by (simp add: edit_def)
      ultimately show ?thesis
        using IH [OF n_def [symmetric] _ take] False len x Backspace by (simp add: n_def edited_line_Cons del: split_paired_Ex)
    qed (use same x Backspace in \<open>simp add: n_def edit_def\<close>)
  qed (use same x Cons.prems(4) in \<open>simp_all add: n_def edit_def ends_line_def\<close>)
qed

end
