(* ===== verification/Zhemon.thy ===== *)
theory Zhemon
  imports LineParser Console
begin

text \<open>
  The monitor (\<open>src/src/zhemon/mod.rs\<close>): the current address, the memory it examines and changes, and
  what it writes to the serial line. Code it runs is an argument: a function on the machine that has no
  value where the code never comes back. So is the task listing the \<open>ps\<close> line asks the scheduler for.
\<close>

record zhemon =
  last_address :: u64
  next_address :: u64

record machine =
  mc_mem :: "u64 \<Rightarrow> u8"
  mc_out :: "u8 list"

type_synonym code = "u64 \<Rightarrow> machine \<Rightarrow> machine option"

definition PROMPT :: u8 where
  "PROMPT = 92"

definition zhemon_new :: zhemon where
  "zhemon_new = \<lparr>last_address = 0, next_address = 0\<rparr>"

definition put :: "u8 list \<Rightarrow> machine \<Rightarrow> machine" where
  "put bs m = m\<lparr>mc_out := mc_out m @ bs\<rparr>"

subsection \<open>Commands\<close>

definition handle_set_address :: "u64 \<Rightarrow> zhemon \<Rightarrow> zhemon" where
  "handle_set_address address z = z\<lparr>last_address := address, next_address := address\<rparr>"

definition handle_examine_one :: "u64 \<Rightarrow> zhemon \<times> machine \<Rightarrow> zhemon \<times> machine" where
  "handle_examine_one address = (\<lambda>(z, m).
    (z\<lparr>last_address := address, next_address := address + 1\<rparr>,
     put (println (fmt_hex 16 (unat address) @ ascii '': '' @ fmt_hex 2 (unat (mc_mem m address)))) m))"

text \<open>The body of the loop over \<open>start..=end\<close>: what one address adds to the output.\<close>

definition examine_address :: "(u64 \<Rightarrow> u8) \<Rightarrow> u64 \<Rightarrow> u64 \<Rightarrow> u8 list" where
  "examine_address mem start address =
    (let carry = address mod 8; is_start = (address = start) in
     (if \<not> is_start \<and> carry = 0 then write_new_line else [])
     @ (if carry = 0 \<or> is_start then write_str (fmt_hex 16 (unat address) @ ascii '':'') else [])
     @ (if is_start \<and> carry \<noteq> 0 then concat (replicate (unat carry) (write_str (ascii ''   ''))) else [])
     @ write_str (ascii '' '' @ fmt_hex 2 (unat (mem address))))"

definition addresses :: "u64 \<Rightarrow> u64 \<Rightarrow> u64 list" where
  "addresses start end_address = map of_nat [unat start..<Suc (unat end_address)]"

definition handle_examine_continuing :: "u64 \<Rightarrow> zhemon \<times> machine \<Rightarrow> zhemon \<times> machine" where
  "handle_examine_continuing end_address = (\<lambda>(z, m).
    let start = next_address z; z1 = z\<lparr>last_address := end_address, next_address := end_address + 1\<rparr> in
    if end_address < start then (z1, m)
    else (z1, put (concat (map (examine_address (mc_mem m) start) (addresses start end_address)) @ write_new_line) m))"

definition handle_store_continuing :: "u8 \<Rightarrow> zhemon \<times> machine \<Rightarrow> zhemon \<times> machine" where
  "handle_store_continuing byte = (\<lambda>(z, m).
    (z\<lparr>next_address := next_address z + 1\<rparr>, m\<lparr>mc_mem := (mc_mem m)(next_address z := byte)\<rparr>))"

definition handle_run :: "code \<Rightarrow> zhemon \<times> machine \<Rightarrow> (zhemon \<times> machine) option" where
  "handle_run run = (\<lambda>(z, m).
    if last_address z mod 4 \<noteq> 0 then Some (z, put (println (ascii ''Error: Address is not aligned'')) m)
    else map_option (Pair z) (run (last_address z) m))"

definition describe :: "line_parse_error \<Rightarrow> usize \<times> u8 list" where
  "describe err =
    (case err of
       UnexpectedCharacter i \<Rightarrow> (i, ascii ''Unexpected character'')
     | AddressTooLong i \<Rightarrow> (i + 1, ascii ''Address too long'')
     | ByteTooLong i \<Rightarrow> (i + 1, ascii ''Byte too long'')
     | ExpectedAByte i \<Rightarrow> (i, ascii ''Expected a byte'')
     | ExpectedAnAddress i \<Rightarrow> (i, ascii ''Expected an address''))"

definition on_parse_error :: "line_parse_error \<Rightarrow> machine \<Rightarrow> machine" where
  "on_parse_error err m =
    (case describe err of (position, description) \<Rightarrow>
      put (println (ascii ''Error: '' @ description))
        (put (replicate position 32 @ [94] @ write_new_line) m))"

subsection \<open>Lines\<close>

definition handle_command :: "code \<Rightarrow> parsed_command \<Rightarrow> zhemon \<times> machine \<Rightarrow> (zhemon \<times> machine) option" where
  "handle_command run command st =
    (case command of
       SetAddress address \<Rightarrow> Some (handle_set_address address (fst st), snd st)
     | ExamineOne address \<Rightarrow> Some (handle_examine_one address st)
     | ExamineContinuing end_address \<Rightarrow> Some (handle_examine_continuing end_address st)
     | StoreContinuing byte \<Rightarrow> Some (handle_store_continuing byte st)
     | Run \<Rightarrow> handle_run run st)"

function handle_line :: "code \<Rightarrow> parser \<Rightarrow> zhemon \<times> machine \<Rightarrow> (zhemon \<times> machine) option" where
  "handle_line run p st =
    (case parse_next p of (p', r) \<Rightarrow>
     (case r of
        Inl err \<Rightarrow> Some (fst st, on_parse_error err (snd st))
      | Inr None \<Rightarrow> Some st
      | Inr (Some command) \<Rightarrow> Option.bind (handle_command run command st) (handle_line run p')))"
  by pat_completeness auto
termination
proof (relation "measure (\<lambda>(run, p, st). length (zc_bytes (pa_cursor p)) - zc_pos (pa_cursor p))", simp)
  fix run p st p' r v command st'
  assume eq: "(p', r) = parse_next p" "r = Inr v" "v = Some command"
  then show "((run, p', st'), run, p, st) \<in> measure (\<lambda>(run, p, st). length (zc_bytes (pa_cursor p)) - zc_pos (pa_cursor p))"
    using parse_next_advances [of p p' command] parse_next_inside [of p p' command] by (auto simp: advances_def)
qed

declare handle_line.simps [simp del]

text \<open>What \<open>start\<close> does with one line: \<open>False\<close> to leave, and no value where code does not come back.\<close>

definition one_line ::
  "code \<Rightarrow> (machine \<Rightarrow> u8 list) \<Rightarrow> line \<Rightarrow> zhemon \<times> machine \<Rightarrow> (bool \<times> zhemon \<times> machine) option"
where
  "one_line run listing l st =
    (case l of
       Abandoned \<Rightarrow> Some (True, st)
     | line.Ready r \<Rightarrow>
         if rl_device_error r then Some (True, fst st, put (println (ascii ''Device Error'')) (snd st))
         else if rl_buf r = ascii ''exit'' then Some (False, st)
         else if rl_buf r = ascii ''ps'' then Some (True, fst st, put (listing (snd st)) (snd st))
         else (case snd (validate (parser_new (rl_buf r))) of
             Inl err \<Rightarrow> Some (True, fst st, on_parse_error err (snd st))
           | Inr _ \<Rightarrow> map_option (Pair True) (handle_line run (parser_new (rl_buf r)) st)))"

text \<open>
  \<open>start\<close>: prompt, read, carry out, until \<open>exit\<close>. It has no value while the input does not hold an
  \<open>exit\<close> line, or when code it ran does not come back.
\<close>

function start_loop ::
  "code \<Rightarrow> (machine \<Rightarrow> u8 list) \<Rightarrow> u8 list \<Rightarrow> (u8 \<times> bool) list \<Rightarrow> zhemon \<times> machine
    \<Rightarrow> ((u8 \<times> bool) list \<times> zhemon \<times> machine) option"
where
  "start_loop run listing line_buff input st =
    (case read_line line_buff input of
       None \<Rightarrow> None
     | Some (l, line_buff', rest, echoed) \<Rightarrow>
         (case one_line run listing l (fst st, put (PROMPT # echoed) (snd st)) of
            None \<Rightarrow> None
          | Some (True, st') \<Rightarrow> start_loop run listing line_buff' rest st'
          | Some (False, st') \<Rightarrow> Some (rest, st')))"
  by pat_completeness auto
termination
  by (relation "measure (\<lambda>(run, listing, line_buff, input, st). length input)")
    (auto simp: read_line_def dest: read_line_from_shorter)

declare start_loop.simps [simp del]

definition zhemon_start ::
  "code \<Rightarrow> (machine \<Rightarrow> u8 list) \<Rightarrow> (u8 \<times> bool) list \<Rightarrow> zhemon \<times> machine
    \<Rightarrow> ((u8 \<times> bool) list \<times> zhemon \<times> machine) option"
where
  "zhemon_start run listing input st = start_loop run listing (replicate 128 0) input st"

subsection \<open>Commands in a row\<close>

fun run_commands :: "code \<Rightarrow> parsed_command list \<Rightarrow> zhemon \<times> machine \<Rightarrow> (zhemon \<times> machine) option" where
  "run_commands run [] st = Some st"
| "run_commands run (c # cs) st = Option.bind (handle_command run c st) (run_commands run cs)"

lemma run_commands_append:
  "run_commands run (cs @ ds) st = Option.bind (run_commands run cs st) (run_commands run ds)"
  by (induction cs arbitrary: st) (auto simp: bind_assoc split: bind_split)

lemma handle_line_all:
  "snd (parse_all p) = None \<Longrightarrow> handle_line run p st = run_commands run (fst (parse_all p)) st"
proof (induction run p st rule: handle_line.induct)
  case (1 run p st)
  obtain p' r where pn: "parse_next p = (p', r)" by (cases "parse_next p")
  note all = parse_all.simps [of p, unfolded pn]
  show ?case
  proof (cases r)
    case (Inl e)
    then show ?thesis using 1(2) all by simp
  next
    case (Inr v)
    show ?thesis
    proof (cases v)
      case None
      then show ?thesis using Inr pn all by (subst handle_line.simps) simp
    next
      case (Some c)
      have "snd (parse_all p') = None" using 1(2) all Inr Some by (simp add: Let_def split: prod.splits)
      moreover have "fst (parse_all p) = c # fst (parse_all p')" using all Inr Some by (simp add: Let_def split: prod.splits)
      ultimately show ?thesis
        using 1(1) [OF pn [symmetric] Inr Some] Inr Some pn
        by (subst handle_line.simps) (auto split: bind_split)
    qed
  qed
qed

text \<open>A line is carried out as a whole or not at all.\<close>

lemma one_line_commands:
  assumes "rl_buf r \<noteq> ascii ''exit''" "rl_buf r \<noteq> ascii ''ps''" "\<not> rl_device_error r"
  shows "one_line run listing (line.Ready r) st =
    (case parse_all (parser_new (rl_buf r)) of
       (_, Some err) \<Rightarrow> Some (True, fst st, on_parse_error err (snd st))
     | (commands, None) \<Rightarrow> map_option (Pair True) (run_commands run commands st))"
  using assms validate_all [of "parser_new (rl_buf r)"] handle_line_all [of "parser_new (rl_buf r)" run st]
  by (auto simp: one_line_def split: prod.splits option.splits)

subsection \<open>Statements\<close>

text \<open>
  What a statement means, without the parser and without the position each command leaves for the
  next one: the rows of a range are laid out as \<open>docs/wozmon.md\<close> lays them out, bytes land side by side.
\<close>

definition layout_row :: "(u64 \<Rightarrow> u8) \<Rightarrow> nat \<Rightarrow> nat \<Rightarrow> nat \<Rightarrow> u8 list" where
  "layout_row mem s e b =
    (let lo = max s (8 * b); hi = min e (8 * b + 7) in
     fmt_hex 16 lo @ ascii '':'' @ replicate (3 * (lo mod 8)) 32
     @ concat (map (\<lambda>a. 32 # fmt_hex 2 (unat (mem (of_nat a)))) [lo..<Suc hi]) @ [13, 10])"

definition layout :: "(u64 \<Rightarrow> u8) \<Rightarrow> nat \<Rightarrow> nat \<Rightarrow> u8 list" where
  "layout mem s e = (if e < s then [] else concat (map (layout_row mem s e) [s div 8..<Suc (e div 8)]))"

definition deposit :: "u64 \<Rightarrow> u8 list \<Rightarrow> (u64 \<Rightarrow> u8) \<Rightarrow> u64 \<Rightarrow> u8" where
  "deposit a bs mem x = (if unat (x - a) < length bs then bs ! unat (x - a) else mem x)"

fun stmt_exec :: "code \<Rightarrow> stmt \<Rightarrow> zhemon \<times> machine \<Rightarrow> (zhemon \<times> machine) option" where
  "stmt_exec run (Examine a) (z, m) = Some (\<lparr>last_address = a, next_address = a + 1\<rparr>,
    put (fmt_hex 16 (unat a) @ ascii '': '' @ fmt_hex 2 (unat (mc_mem m a)) @ [13, 10]) m)"
| "stmt_exec run (ExamineRange a b) (z, m) = Some (\<lparr>last_address = b, next_address = b + 1\<rparr>,
    put (layout (mc_mem m) (unat a) (unat b)) m)"
| "stmt_exec run (Deposit a bs) (z, m) = Some (\<lparr>last_address = a, next_address = a + of_nat (length bs)\<rparr>,
    m\<lparr>mc_mem := deposit a bs (mc_mem m)\<rparr>)"
| "stmt_exec run (Go a) (z, m) =
    (let z' = \<lparr>last_address = a, next_address = a\<rparr> in
     if 4 dvd unat a then map_option (Pair z') (run a m)
     else Some (z', put (ascii ''Error: Address is not aligned'' @ [13, 10]) m))"

fun stmts_exec :: "code \<Rightarrow> stmt list \<Rightarrow> zhemon \<times> machine \<Rightarrow> (zhemon \<times> machine) option" where
  "stmts_exec run [] st = Some st"
| "stmts_exec run (s # ss) st = Option.bind (stmt_exec run s st) (stmts_exec run ss)"

subsection \<open>Output without line feeds\<close>

lemma println_plain: "10 \<notin> set s \<Longrightarrow> println s = s @ [13, 10]"
  using write_str_plain [of s] by (simp add: println_def write_str_def)

lemma ascii_texts:
  "ascii '':'' = [58]" "ascii '': '' = [58, 32]" "ascii '' '' = [32]" "ascii ''   '' = [32, 32, 32]"
  by (simp_all add: ascii_def of_char_def)

lemma ascii_not_aligned: "10 \<notin> set (ascii ''Error: Address is not aligned'')"
  by (simp add: ascii_def of_char_def)

subsection \<open>The layout of a range\<close>

definition row_text :: "(u64 \<Rightarrow> u8) \<Rightarrow> nat \<Rightarrow> nat \<Rightarrow> u8 list" where
  "row_text mem lo hi = fmt_hex 16 lo @ 58 # replicate (3 * (lo mod 8)) 32
     @ concat (map (\<lambda>a. 32 # fmt_hex 2 (unat (mem (of_nat a)))) [lo..<Suc hi])"

lemma layout_row_text: "layout_row mem s e b = row_text mem (max s (8 * b)) (min e (8 * b + 7)) @ [13, 10]"
  by (simp add: layout_row_def row_text_def Let_def ascii_texts)

lemma replicate_blanks: "concat (replicate n [32, 32, 32]) = replicate (3 * n) (32 :: u8)"
  by (induction n) (simp_all add: numeral_3_eq_3 replicate_add)

lemma examine_address_text:
  assumes "n < 2 ^ 64" "s \<le> n"
  shows "examine_address mem (of_nat s) (of_nat n) =
    (if n = s then fmt_hex 16 n @ 58 # replicate (3 * (n mod 8)) 32
     else if n mod 8 = 0 then [13, 10] @ fmt_hex 16 n @ [58] else [])
    @ 32 # fmt_hex 2 (unat (mem (of_nat n)))"
proof -
  have u: "unat (of_nat n :: u64) = n" "unat (of_nat s :: u64) = s"
    using assms by (simp_all add: unsigned_of_nat take_bit_nat_eq_self)
  have c: "unat ((of_nat n :: u64) mod 8) = n mod 8" by (simp add: unat_mod u)
  have cs: "unat ((of_nat s :: u64) mod 8) = s mod 8" by (simp add: unat_mod u)
  have eq: "(of_nat n :: u64) = of_nat s \<longleftrightarrow> n = s" using u by metis
  have z: "(of_nat n :: u64) mod 8 = 0 \<longleftrightarrow> n mod 8 = 0" using c by (metis unat_eq_0)
  show ?thesis
    using c cs u by (auto simp: examine_address_def Let_def eq z c write_str_plain write_new_line_def ascii_texts replicate_blanks)
qed

lemma row_text_extend:
  "lo \<le> e \<Longrightarrow> row_text mem lo (Suc e) = row_text mem lo e @ 32 # fmt_hex 2 (unat (mem (of_nat (Suc e))))"
  by (simp add: row_text_def)

lemma layout_row_inner: "8 * b + 7 \<le> e \<Longrightarrow> layout_row mem s (Suc e) b = layout_row mem s e b"
  by (simp add: layout_row_def)

lemma examine_rows:
  assumes "s \<le> e" "e < 2 ^ 64"
  shows "concat (map (examine_address mem (of_nat s)) (map of_nat [s..<Suc e])) =
    concat (map (layout_row mem s e) [s div 8..<e div 8]) @ row_text mem (max s (8 * (e div 8))) e"
  using assms
proof (induction e rule: dec_induct)
  case base
  have "max s (8 * (s div 8)) = s" by simp
  then show ?case using base by (simp add: examine_address_text row_text_def del: max.absorb1 max.absorb2)
next
  case (step e)
  let ?rows = "\<lambda>e'. concat (map (layout_row mem s e') [s div 8..<e div 8])"
  have rows: "?rows (Suc e) = ?rows e"
  proof (rule arg_cong [of _ _ concat], rule map_cong [OF refl])
    fix b assume "b \<in> set [s div 8..<e div 8]"
    then have "8 * b + 7 \<le> e" by auto
    then show "layout_row mem s (Suc e) b = layout_row mem s e b" by (rule layout_row_inner)
  qed
  have lo: "max s (8 * (e div 8)) \<le> e" using step(1) by simp
  have add: "examine_address mem (of_nat s) (of_nat (Suc e)) =
    (if Suc e mod 8 = 0 then [13, 10] @ fmt_hex 16 (Suc e) @ [58] else []) @ 32 # fmt_hex 2 (unat (mem (of_nat (Suc e))))"
    using examine_address_text [of "Suc e" s mem] step by (simp del: of_nat_Suc)
  have split: "concat (map (examine_address mem (of_nat s)) (map of_nat [s..<Suc (Suc e)])) =
      ?rows e @ row_text mem (max s (8 * (e div 8))) e @ examine_address mem (of_nat s) (of_nat (Suc e))"
    using step by (simp add: upt_Suc [of s "Suc e"] del: upt_Suc of_nat_Suc)
  show ?case
  proof (cases "Suc e mod 8 = 0")
    case True
    then have e: "e = 8 * (e div 8) + 7" "Suc e div 8 = Suc (e div 8)" "8 * (Suc e div 8) = Suc e"
      using True mult_div_mod_eq [of 8 e] mult_div_mod_eq [of 8 "Suc e"]
      by (simp_all only: div_Suc mod_Suc split: if_splits)
    have "layout_row mem s (Suc e) (e div 8) = row_text mem (max s (8 * (e div 8))) e @ [13, 10]"
      using e(1) by (simp add: layout_row_text)
    moreover have "row_text mem (max s (8 * (Suc e div 8))) (Suc e) = fmt_hex 16 (Suc e) @ 58 # 32 # fmt_hex 2 (unat (mem (of_nat (Suc e))))"
      unfolding e(3) using True step(1) by (simp add: row_text_def max_def del: of_nat_Suc)
    moreover have "[s div 8..<Suc e div 8] = [s div 8..<e div 8] @ [e div 8]"
      unfolding e(2) using step(1) by (simp add: div_le_mono)
    ultimately show ?thesis
      unfolding split add by (simp only: True rows if_True refl map_append concat_append list.map concat.simps append_assoc append.simps)
  next
    case False
    then have "Suc e div 8 = e div 8" by (simp only: div_Suc if_False)
    then show ?thesis
      unfolding split add using False by (simp add: rows row_text_extend [OF lo] del: of_nat_Suc)
  qed
qed

lemma examine_layout:
  assumes "s \<le> e" "e < 2 ^ 64"
  shows "concat (map (examine_address mem (of_nat s)) (map of_nat [s..<Suc e])) @ [13, 10] = layout mem s e"
proof -
  have "s div 8 \<le> e div 8" using assms(1) by (rule div_le_mono)
  moreover have "layout_row mem s e (e div 8) = row_text mem (max s (8 * (e div 8))) e @ [13, 10]"
  proof -
    have "min e (8 * (e div 8) + 7) = e" by simp
    then show ?thesis by (simp only: layout_row_text)
  qed
  ultimately show ?thesis using assms by (simp add: examine_rows layout_def del: upt_Suc map_map) (simp add: upt_Suc)
qed

subsection \<open>Statements are carried out\<close>

lemma deposit_Nil: "deposit a [] mem = mem"
  by (simp add: deposit_def fun_eq_iff)

lemma deposit_snoc:
  assumes "Suc (length bs) < 2 ^ 64"
  shows "deposit a (bs @ [b]) mem = (deposit a bs mem)(a + of_nat (length bs) := b)"
proof
  fix x
  have "unat (x - a) = length bs \<longleftrightarrow> x = a + of_nat (length bs)"
  proof
    assume "unat (x - a) = length bs"
    then have "x - a = of_nat (length bs)" by (metis of_nat_unat ucast_id)
    then show "x = a + of_nat (length bs)" by (simp add: algebra_simps)
  next
    assume "x = a + of_nat (length bs)"
    then show "unat (x - a) = length bs" using assms by (simp add: unsigned_of_nat take_bit_nat_eq_self)
  qed
  then show "deposit a (bs @ [b]) mem x = ((deposit a bs mem)(a + of_nat (length bs) := b)) x"
    by (auto simp: deposit_def nth_append less_Suc_eq)
qed

lemma run_stores:
  "length bs < 2 ^ 64 \<Longrightarrow> next_address z = a \<Longrightarrow> run_commands run (map StoreContinuing bs) (z, m) =
    Some (z\<lparr>next_address := a + of_nat (length bs)\<rparr>, m\<lparr>mc_mem := deposit a bs (mc_mem m)\<rparr>)"
proof (induction bs rule: rev_induct)
  case (snoc b bs)
  then show ?case
    by (simp add: run_commands_append handle_command_def handle_store_continuing_def deposit_snoc ac_simps)
      (simp add: fun_upd_def)
qed (simp add: deposit_Nil)

lemma stmt_exec_commands:
  assumes "\<forall>a bs. s = Deposit a bs \<longrightarrow> length bs < 2 ^ 64"
  shows "run_commands run (stmt_commands s) st = stmt_exec run s st"
proof (cases st)
  case (Pair z m)
  show ?thesis
  proof (cases s)
    case (Examine a)
    then show ?thesis using Pair
      by (simp add: handle_command_def handle_examine_one_def println_plain ascii_texts)
  next
    case (ExamineRange a b)
    have "unat a \<le> unat b \<Longrightarrow> concat (map (examine_address (mc_mem m) a) (addresses a b)) @ write_new_line
        = layout (mc_mem m) (unat a) (unat b)"
      using examine_layout [of "unat a" "unat b" "mc_mem m"] unsigned_less [of b] by (simp add: addresses_def write_new_line_def del: upt_Suc)
    then show ?thesis using Pair ExamineRange
      by (simp add: handle_command_def handle_set_address_def handle_examine_continuing_def layout_def word_less_nat_alt
        put_def Let_def not_less)
  next
    case (Deposit a bs)
    then show ?thesis using Pair assms run_stores [of bs "handle_set_address a z" a run m]
      by (simp add: handle_command_def handle_set_address_def)
  next
    case (Go a)
    have "a mod 4 = 0 \<longleftrightarrow> 4 dvd unat a" by (simp add: dvd_eq_mod_eq_0 word_unat_eq_iff unat_mod)
    then show ?thesis using Pair Go println_plain [OF ascii_not_aligned]
      by (simp add: handle_command_def handle_set_address_def handle_run_def Let_def split: bind_split option.split)
  qed
qed

lemma stmts_exec_commands:
  "\<forall>s \<in> set ss. \<forall>a bs. s = Deposit a bs \<longrightarrow> length bs < 2 ^ 64 \<Longrightarrow>
    run_commands run (concat (map stmt_commands ss)) st = stmts_exec run ss st"
proof (induction ss arbitrary: st)
  case (Cons s ss)
  then show ?case
    using stmt_exec_commands [of s run st] by (auto simp: run_commands_append split: bind_split)
qed simp

lemma stmt_write_length: "length bs \<le> length (stmt_write (Deposit a bs))"
  by (induction bs) simp_all

lemma line_write_length: "s \<in> set ss \<Longrightarrow> length (stmt_write s) \<le> length (line_write ss)"
  by (induction ss) (auto simp: line_write_simps)

lemma line_not_word: "line_write ss \<noteq> ascii ''exit'' \<and> line_write ss \<noteq> ascii ''ps''"
proof (cases ss)
  case (Cons s ss')
  moreover obtain v r where "stmt_write s = 32 # hex_write 16 v @ r" by (rule stmt_write_head)
  ultimately show ?thesis by (simp add: line_write_simps ascii_def of_char_def)
qed (simp add: line_write_simps ascii_def)

lemma one_line_write:
  assumes "\<forall>s \<in> set ss. stmt_ok s" "length (line_write ss) \<le> 128"
  shows "one_line run listing (line.Ready \<lparr>rl_buf = line_write ss, rl_device_error = False\<rparr>) st =
    map_option (Pair True) (stmts_exec run ss st)"
proof -
  have "length bs < 2 ^ 64" if "Deposit a bs \<in> set ss" for a bs
  proof -
    have "length bs \<le> 128"
      using that stmt_write_length [of bs a] line_write_length [OF that] assms(2) by linarith
    then show ?thesis by simp
  qed
  then have "run_commands run (concat (map stmt_commands ss)) st = stmts_exec run ss st"
    by (intro stmts_exec_commands) auto
  moreover have "parse_all (parser_new (line_write ss)) = (concat (map stmt_commands ss), None)"
    using parse_line [of 0 "line_write ss" ss DefaultMode] assms(1)
    by (simp add: parser_new_def zc_new_def after_stmt_def)
  ultimately show ?thesis using line_not_word by (simp add: one_line_commands)
qed

subsection \<open>Typed lines\<close>

definition typed :: "u8 list \<Rightarrow> (u8 \<times> bool) list" where
  "typed bs = map (\<lambda>b. (b, False)) (bs @ [13])"

lemma read_line_typed:
  assumes "length l + length bs \<le> length buf" "take (length l) buf = l" "\<forall>b \<in> set bs. 0x20 \<le> b \<and> b \<le> 0x7E"
  shows "\<exists>buf'. read_line_from buf (length l) False out (typed bs @ rest) =
    Some (line.Ready \<lparr>rl_buf = l @ bs, rl_device_error = False\<rparr>, buf', rest, out @ bs @ write_new_line)"
  using assms
proof (induction bs arbitrary: l buf out)
  case Nil
  then show ?case by (simp add: typed_def char_from_byte_def is_newline_def)
next
  case (Cons b bs)
  have b: "char_from_byte b = Char b"
  proof -
    have "b \<noteq> 13" "b \<noteq> 10" "b \<noteq> 8" "b \<noteq> 0x7F" "b \<noteq> 0x1B" using Cons.prems(3) by auto
    then show ?thesis using Cons.prems(3)
      by (simp add: char_from_byte_def is_newline_def is_backspace_def is_escape_def is_non_printable_def not_less)
  qed
  have "take (length (l @ [b])) (buf[length l := b]) = l @ [b]"
    using Cons.prems(1,2) by (simp add: take_Suc_conv_app_nth)
  then show ?case
    using Cons.IH [of "l @ [b]" "buf[length l := b]" "out @ [b]"] Cons.prems b by (simp add: typed_def)
qed

lemma start_typed:
  assumes "length bs \<le> length buf" "\<forall>b \<in> set bs. 0x20 \<le> b \<and> b \<le> 0x7E"
  shows "\<exists>buf'. length buf' = length buf \<and> start_loop run listing buf (typed bs @ rest) st =
    (case one_line run listing (line.Ready \<lparr>rl_buf = bs, rl_device_error = False\<rparr>)
        (fst st, put (PROMPT # bs @ write_new_line) (snd st)) of
       None \<Rightarrow> None
     | Some (True, st') \<Rightarrow> start_loop run listing buf' rest st'
     | Some (False, st') \<Rightarrow> Some (rest, st'))"
proof -
  obtain buf' where b: "read_line buf (typed bs @ rest) =
      Some (line.Ready \<lparr>rl_buf = bs, rl_device_error = False\<rparr>, buf', rest, bs @ write_new_line)"
    using read_line_typed [of "[]" bs buf "[]" rest] assms by (auto simp: read_line_def)
  then have "length buf' = length buf" unfolding read_line_def by (rule read_line_from_buffer)
  then show ?thesis using b by (intro exI [of _ buf']) (subst start_loop.simps, simp)
qed

end
