(* ===== verification/LineFaults.thy ===== *)
theory LineFaults
  imports LineParser
begin

text \<open>
  What the parser (\<open>src/src/zhemon/parser.rs\<close>) reports of a line it refuses: that the position of every error
  it can return is the place \<open>docs/wozmon.md\<close> says the caret points at.
\<close>

subsection \<open>Where the caret points\<close>

text \<open>
  \<open>docs/wozmon.md\<close>, section 6: the character at fault, for each of the five errors. A position counts the
  prompt, or is shifted by it when the error is reported.
\<close>

definition hex_at :: "u8 list \<Rightarrow> nat \<Rightarrow> bool" where
  "hex_at bs i \<longleftrightarrow> i < length bs \<and> is_hex (bs ! i)"

definition blanks_from :: "u8 list \<Rightarrow> u8 \<Rightarrow> nat \<Rightarrow> bool" where
  "blanks_from bs c i \<longleftrightarrow> (\<exists>k < i. bs ! k = c \<and> (\<forall>j \<in> {k<..<i}. bs ! j = 32))"

definition caret_ok :: "u8 list \<Rightarrow> line_parse_error \<Rightarrow> bool" where
  "caret_ok bs err =
    (case err of
       UnexpectedCharacter i \<Rightarrow> 0 < i \<and> i \<le> length bs \<and> \<not> is_hex (bs ! (i - 1)) \<and> \<not> is_instruction (bs ! (i - 1)) \<and> bs ! (i - 1) \<noteq> 32
     | AddressTooLong i \<Rightarrow> 16 \<le> i \<and> (\<forall>k \<in> {i - 16..i}. hex_at bs k)
     | ByteTooLong i \<Rightarrow> 2 \<le> i \<and> (\<forall>k \<in> {i - 2..i}. hex_at bs k)
     | ExpectedAByte i \<Rightarrow> i = length bs \<and> blanks_from bs 58 i
     | ExpectedAnAddress i \<Rightarrow> i \<le> length bs \<and> \<not> hex_at bs i \<and> blanks_from bs 46 i)"

lemma consume_spaces_run:
  "zc_pos c \<le> length (zc_bytes c) \<Longrightarrow> zc_pos (zc_consume_spaces c) \<le> length (zc_bytes c)
    \<and> (\<forall>j. zc_pos c \<le> j \<and> j < zc_pos (zc_consume_spaces c) \<longrightarrow> zc_bytes c ! j = 32)
    \<and> zc_peek (zc_consume_spaces c) \<noteq> Some 32"
proof (induction c rule: zc_consume_spaces.induct)
  case (1 c)
  show ?case
  proof (cases "zc_peek c = Some 32")
    case True
    then have pos: "zc_pos c < length (zc_bytes c)" "zc_bytes c ! zc_pos c = 32" by (auto simp: zc_peek_def get_eq_Some)
    have "zc_consume_spaces c = zc_consume_spaces (zc_advance c 1)" using True by (subst zc_consume_spaces.simps) simp
    moreover have "j = zc_pos c \<or> zc_pos c + 1 \<le> j" if "zc_pos c \<le> j" for j using that by linarith
    ultimately show ?thesis using "1.IH" [OF True] pos by auto
  next
    case False
    then show ?thesis using "1.prems" by (subst (1 2 3) zc_consume_spaces.simps) auto
  qed
qed

lemma blanks_from_consume:
  assumes "blanks_from (zc_bytes c) x (zc_pos c)" "zc_pos c \<le> length (zc_bytes c)"
  shows "blanks_from (zc_bytes c) x (zc_pos (zc_consume_spaces c))"
proof -
  obtain k where k: "k < zc_pos c" "zc_bytes c ! k = x" "\<forall>j \<in> {k<..<zc_pos c}. zc_bytes c ! j = 32"
    using assms(1) by (auto simp: blanks_from_def)
  have "zc_bytes c ! j = 32" if "k < j" "j < zc_pos (zc_consume_spaces c)" for j
    using that k(3) consume_spaces_run [OF assms(2)] by (cases "j < zc_pos c") auto
  then show ?thesis using k(1,2) consume_spaces_le [of c] by (auto simp: blanks_from_def intro!: exI [of _ k])
qed

lemma parse_hex_number_faults:
  assumes "parse_hex_number c k = (c', r)"
  shows "r = Inl (TooLong i) \<Longrightarrow> i = zc_pos c + k \<and> (\<forall>j \<in> {zc_pos c..i}. hex_at (zc_bytes c) j)"
    and "r = Inl NoDigits \<Longrightarrow> c' = c \<and> \<not> hex_at (zc_bytes c) (zc_pos c)"
    and "r = Inr v \<Longrightarrow> zc_pos c' \<le> length (zc_bytes c)"
proof -
  define ds where "ds = takeWhile is_hex (drop (zc_pos c) (zc_bytes c))"
  have run: "(c', r) = (if k < length ds then (c, Inl (TooLong (zc_pos c + k)))
     else if ds = [] then (c, Inl NoDigits) else (zc_advance c (length ds), Inr (hex_value 0 ds)))"
    by (simp only: assms [symmetric] parse_hex_number_run Let_def ds_def)
  have le: "length ds \<le> length (zc_bytes c) - zc_pos c" using length_takeWhile_le [of is_hex "drop (zc_pos c) (zc_bytes c)"] by (simp add: ds_def)
  have hex: "hex_at (zc_bytes c) (zc_pos c + n)" if "n < length ds" for n
  proof -
    have "ds ! n = zc_bytes c ! (zc_pos c + n)" using that le by (simp add: ds_def takeWhile_nth)
    moreover have "is_hex (ds ! n)" using set_takeWhileD [OF nth_mem [OF that, unfolded ds_def]] by (simp add: ds_def)
    ultimately show ?thesis using that le by (simp add: hex_at_def)
  qed
  show "i = zc_pos c + k \<and> (\<forall>j \<in> {zc_pos c..i}. hex_at (zc_bytes c) j)" if "r = Inl (TooLong i)"
  proof
    show i: "i = zc_pos c + k" using run that by (auto split: if_splits)
    have k: "k < length ds" using run that by (auto split: if_splits)
    show "\<forall>j \<in> {zc_pos c..i}. hex_at (zc_bytes c) j"
    proof
      fix j assume "j \<in> {zc_pos c..i}"
      then have "j - zc_pos c < length ds" "zc_pos c + (j - zc_pos c) = j" using i k by auto
      then show "hex_at (zc_bytes c) j" using hex [of "j - zc_pos c"] by simp
    qed
  qed
  show "c' = c \<and> \<not> hex_at (zc_bytes c) (zc_pos c)" if "r = Inl NoDigits"
  proof -
    have "c' = c" "ds = []" using run that by (auto split: if_splits)
    then show ?thesis
      by (cases "drop (zc_pos c) (zc_bytes c)")
        (auto simp: ds_def hex_at_def hd_drop_conv_nth [symmetric] split: if_splits)
  qed
  show "zc_pos c' \<le> length (zc_bytes c)" if "r = Inr v"
  proof -
    have "c' = zc_advance c (length ds)" "ds \<noteq> []" using run that by (auto split: if_splits)
    then show ?thesis using le by (cases "zc_pos c \<le> length (zc_bytes c)") auto
  qed
qed

definition line_inv :: "u8 list \<Rightarrow> parser \<Rightarrow> bool" where
  "line_inv bs p \<longleftrightarrow> zc_bytes (pa_cursor p) = bs \<and> zc_pos (pa_cursor p) \<le> length bs
    \<and> (pa_mode p = SetMode False \<longrightarrow> blanks_from bs 58 (zc_pos (pa_cursor p)))"

lemma line_inv_consume: "line_inv bs p \<Longrightarrow> line_inv bs (p\<lparr>pa_cursor := zc_consume_spaces (pa_cursor p)\<rparr>)"
  using consume_spaces_run [of "pa_cursor p"] blanks_from_consume [of "pa_cursor p" 58] by (auto simp: line_inv_def)

definition parsed_ok :: "u8 list \<Rightarrow> 'a parsed \<Rightarrow> bool" where
  "parsed_ok bs x \<longleftrightarrow> (case snd x of Inl err \<Rightarrow> caret_ok bs err | Inr _ \<Rightarrow> line_inv bs (fst x))"

lemma parse_address_ok:
  assumes inv: "line_inv bs p" and mode: "pa_mode p = DefaultMode"
    and "\<not> hex_at bs (zc_pos (pa_cursor p)) \<Longrightarrow> blanks_from bs 46 (zc_pos (pa_cursor p))"
  shows "parsed_ok bs (parse_address p)"
proof -
  obtain c r where h: "parse_hex_number (pa_cursor p) MAX_ADDRESS_DIGITS = (c, r)"
    by (cases "parse_hex_number (pa_cursor p) MAX_ADDRESS_DIGITS")
  note f = parse_hex_number_faults [OF h]
  have bytes: "zc_bytes (pa_cursor p) = bs" "zc_bytes c = bs" "zc_pos (pa_cursor p) \<le> length bs"
    using inv parse_hex_number_pos(1) [OF h] by (simp_all add: line_inv_def)
  show ?thesis
  proof (cases r)
    case (Inl e)
    show ?thesis
    proof (cases e)
      case (TooLong i)
      then show ?thesis using f(1) [of i] Inl h bytes
        by (simp add: parsed_ok_def parse_address_def caret_ok_def MAX_ADDRESS_DIGITS_def)
    next
      case NoDigits
      then show ?thesis using f(2) Inl h bytes assms(3) by (simp add: parsed_ok_def parse_address_def caret_ok_def)
    qed
  next
    case (Inr v)
    then show ?thesis using f(3) h bytes mode by (simp add: parsed_ok_def parse_address_def line_inv_def)
  qed
qed

lemma parse_set_command_ok:
  assumes inv: "line_inv bs p" and ch: "hex_at bs (zc_pos (pa_cursor p))"
  shows "parsed_ok bs (parse_set_command p)"
proof -
  obtain c r where h: "parse_hex_number (pa_cursor p) MAX_BYTE_DIGITS = (c, r)"
    by (cases "parse_hex_number (pa_cursor p) MAX_BYTE_DIGITS")
  note f = parse_hex_number_faults [OF h]
  have bytes: "zc_bytes (pa_cursor p) = bs" "zc_bytes c = bs" "zc_pos (pa_cursor p) \<le> length bs"
    using inv parse_hex_number_pos(1) [OF h] by (simp_all add: line_inv_def)
  show ?thesis
  proof (cases r)
    case (Inl e)
    then obtain i where i: "r = Inl (TooLong i)" using f(2) ch bytes by (cases e) auto
    show ?thesis using f(1) [OF i] i h bytes
      by (simp add: parsed_ok_def parse_set_command_def parse_byte_def caret_ok_def MAX_BYTE_DIGITS_def line_inv_def Let_def)
  next
    case (Inr v)
    then show ?thesis using f(3) h bytes by (simp add: parsed_ok_def parse_set_command_def parse_byte_def line_inv_def Let_def)
  qed
qed

lemma parse_address_command_ok:
  assumes inv: "line_inv bs p" and ch: "hex_at bs (zc_pos (pa_cursor p))" and mode: "pa_mode p = DefaultMode"
  shows "parsed_ok bs (parse_address_command p)"
proof -
  obtain p1 r where a: "parse_address p = (p1, r)" by (cases "parse_address p")
  have "parsed_ok bs (p1, r)" using parse_address_ok [OF inv mode] ch a by simp
  then show ?thesis using a line_inv_consume [of bs p1]
    by (auto simp: parsed_ok_def parse_address_command_def Let_def split: sum.splits option.splits)
qed

lemma parse_instruction_ok:
  assumes inv: "line_inv bs p" and ch: "zc_peek (pa_cursor p) = Some ch" "ch \<noteq> 32" "\<not> is_hex ch"
  shows "parsed_ok bs (parse_instruction p)"
proof -
  define c1 where "c1 = zc_advance (pa_cursor p) 1"
  have bytes: "zc_bytes c1 = bs" "zc_pos c1 \<le> length bs" "zc_pos c1 - 1 = zc_pos (pa_cursor p)" "0 < zc_pos c1"
    and at: "bs ! (zc_pos c1 - 1) = ch"
    using inv ch(1) by (auto simp: line_inv_def zc_peek_def get_eq_Some c1_def)
  have blanks: "blanks_from bs ch (zc_pos c1)" using bytes at by (auto simp: blanks_from_def intro!: exI [of _ "zc_pos c1 - 1"])
  consider (dot) "ch = 46" | (colon) "ch = 58" | (run) "ch = 82 \<or> ch = 114"
    | (other) "ch \<noteq> 46" "ch \<noteq> 58" "ch \<noteq> 82" "ch \<noteq> 114" by blast
  then show ?thesis
  proof cases
    case dot
    let ?p = "p\<lparr>pa_mode := DefaultMode, pa_cursor := zc_consume_spaces c1\<rparr>"
    have "line_inv bs ?p" using bytes consume_spaces_run [of c1] by (simp add: line_inv_def)
    moreover have "blanks_from bs 46 (zc_pos (zc_consume_spaces c1))"
      using blanks_from_consume [of c1 46] bytes blanks dot by simp
    ultimately have "parsed_ok bs (parse_address ?p)" by (intro parse_address_ok) simp_all
    moreover have "p\<lparr>pa_cursor := zc_consume_spaces c1, pa_mode := DefaultMode\<rparr> = ?p" by simp
    ultimately show ?thesis using dot ch(1)
      by (auto simp: parsed_ok_def parse_instruction_def Let_def c1_def split: prod.splits sum.splits)
  next
    case colon
    then show ?thesis using ch(1) bytes blanks by (simp add: parsed_ok_def parse_instruction_def Let_def line_inv_def c1_def)
  next
    case run
    then show ?thesis using ch(1) bytes by (auto simp: parsed_ok_def parse_instruction_def Let_def line_inv_def c1_def)
  next
    case other
    then show ?thesis using ch bytes at
      by (simp add: parsed_ok_def parse_instruction_def Let_def c1_def caret_ok_def is_instruction_def)
  qed
qed

lemma parse_one_ok:
  assumes inv: "line_inv bs p" and ch: "zc_peek (pa_cursor p) = Some ch" "ch \<noteq> 32"
  shows "parsed_ok bs (parse_one p ch)"
proof (cases "is_hex ch")
  case True
  then have at: "hex_at bs (zc_pos (pa_cursor p))"
    using inv ch(1) by (auto simp: hex_at_def line_inv_def zc_peek_def get_eq_Some)
  show ?thesis
  proof (cases "pa_mode p")
    case DefaultMode
    then show ?thesis using parse_address_command_ok [OF inv at] True
      by (auto simp: parsed_ok_def parse_one_def is_hex_def split: prod.splits sum.splits)
  next
    case (SetMode any)
    then show ?thesis using parse_set_command_ok [OF inv at] True by (auto simp: parse_one_def is_hex_def)
  qed
next
  case False
  then show ?thesis using parse_instruction_ok [OF inv ch False] by (simp add: parse_one_def is_hex_def)
qed

lemma parse_next_ok: "line_inv bs p \<Longrightarrow> parsed_ok bs (parse_next p)"
proof (induction p rule: parse_next.induct)
  case (1 p)
  let ?p1 = "p\<lparr>pa_cursor := zc_consume_spaces (pa_cursor p)\<rparr>"
  note inv = line_inv_consume [OF "1.prems"]
  have not_space: "zc_peek (pa_cursor ?p1) \<noteq> Some 32"
    using consume_spaces_run [of "pa_cursor p"] "1.prems" by (simp add: line_inv_def)
  show ?case
  proof (cases "zc_peek (pa_cursor ?p1)")
    case None
    then have "zc_pos (pa_cursor ?p1) = length bs" using inv by (auto simp: line_inv_def zc_peek_def get_def split: if_splits)
    then show ?thesis using None inv
      by (auto simp: parse_next.simps [of p] parsed_ok_def caret_ok_def line_inv_def Let_def)
  next
    case (Some ch)
    obtain p2 r where one: "parse_one ?p1 ch = (p2, r)" by (cases "parse_one ?p1 ch")
    have ok: "parsed_ok bs (p2, r)" using parse_one_ok [OF inv Some] not_space Some one by auto
    show ?thesis
    proof (cases "r = Inr None")
      case True
      then have "parsed_ok bs (parse_next p2)"
        using "1.IH" [OF refl Some one [symmetric] True refl] ok by (simp add: parsed_ok_def)
      then show ?thesis using Some one True by (subst parse_next.simps) simp
    next
      case False
      then show ?thesis using Some one ok
        by (subst parse_next.simps) (auto simp: parsed_ok_def split: sum.splits option.splits)
    qed
  qed
qed

lemma parse_all_caret: "line_inv bs p \<Longrightarrow> snd (parse_all p) = Some err \<Longrightarrow> caret_ok bs err"
proof (induction p rule: parse_all.induct)
  case (1 p)
  obtain p' r where pn: "parse_next p = (p', r)" by (cases "parse_next p")
  have ok: "parsed_ok bs (p', r)" using parse_next_ok [OF "1.prems"(1)] pn by simp
  show ?case
  proof (cases r)
    case (Inl e)
    then show ?thesis using ok "1.prems"(2) pn by (simp add: parse_all.simps [of p] parsed_ok_def)
  next
    case (Inr v)
    show ?thesis
    proof (cases v)
      case None
      then show ?thesis using "1.prems"(2) pn Inr by (simp add: parse_all.simps [of p])
    next
      case (Some c)
      then have "snd (parse_all p') = Some err" using "1.prems"(2) pn Inr by (simp add: parse_all.simps [of p] split: prod.splits)
      then show ?thesis using "1.IH" [OF pn [symmetric] Inr Some] ok Inr by (simp add: parsed_ok_def)
    qed
  qed
qed

lemma line_inv_new: "line_inv bs (parser_new bs)"
  by (simp add: line_inv_def parser_new_def zc_new_def)

end
