(* ===== verification/MonitorProperties.thy ===== *)
theory MonitorProperties
  imports Zhemon LineFaults
begin

text \<open>
  The properties of the monitor: what a session does from the keystrokes to the bytes on the serial line,
  what happens to a line that is refused, the layout of a range, and the line editor.
\<close>











text \<open>
  C35. The loop that examines a range byte by byte, deciding at every address whether a row starts, prints the
  layout of \<open>docs/wozmon.md\<close>: eight bytes to a row, each row with the address of its first byte, the first row
  padded so that a byte's column is its place in the row, nothing when the end is below the start.
\<close>

theorem examine_layout_correct:
  "handle_examine_continuing e (z, m) =
    (\<lparr>last_address = e, next_address = e + 1\<rparr>, put (layout (mc_mem m) (unat (next_address z)) (unat e)) m)"
proof -
  have "unat (next_address z) \<le> unat e \<Longrightarrow>
      concat (map (examine_address (mc_mem m) (next_address z)) (addresses (next_address z) e)) @ write_new_line
      = layout (mc_mem m) (unat (next_address z)) (unat e)"
    using examine_layout [of "unat (next_address z)" "unat e" "mc_mem m"] unsigned_less [of e]
    by (simp add: addresses_def write_new_line_def del: upt_Suc)
  then show ?thesis
    by (simp add: handle_examine_continuing_def layout_def word_less_nat_alt put_def Let_def not_less)
qed

text \<open>
  C36. The line editor is the plain one: over any characters before the one that ends the line, what it returns
  is what the reference editor makes of them (up to the room in the buffer), the error flag is that of any
  character received, and the terminal shows that line at every length, erased characters gone.
\<close>

theorem read_line_correct:
  assumes "\<forall>x \<in> set input. \<not> ends_line (fst x)" and "ends_line (fst stop)"
  shows "\<exists>buf' echoed. read_line buf (input @ stop # rest) =
      Some (edited_line (length buf) [] False input stop, buf', rest, echoed @ write_new_line)
    \<and> shows_line (foldl (edit (length buf)) [] (map fst input)) (show_bytes ([], 0) echoed)"
  using read_line_from_edit [of "[]" buf "([], 0)" "[]" input stop False rest] assms
  by (simp add: read_line_def shows_line_def show_bytes_def)

theorem read_line_correct_witness:
  "\<exists>buf' echoed. read_line [0, 0] ([(65, False), (66, False), (8, True), (67, False), (68, False)] @ (13, False) # [(69, False)]) =
      Some (line.Ready \<lparr>rl_buf = [65, 67], rl_device_error = True\<rparr>, buf', [(69, False)], echoed @ write_new_line)
    \<and> shows_line [65, 67] (show_bytes ([], 0) echoed)"
  using read_line_correct [of "[(65, False), (66, False), (8, True), (67, False), (68, False)]" "(13, False)" "[0, 0]" "[(69, False)]"]
  by (simp add: ends_line_def edited_line_def edit_def char_from_byte_def is_newline_def is_backspace_def is_escape_def is_non_printable_def)

end
