(* ===== verification/Dtb.thy ===== *)
theory Dtb
  imports Region
begin

text \<open>
  The flattened device tree (\<open>src/src/platform/dtb/cursor.rs\<close>, \<open>header.rs\<close>, \<open>structure.rs\<close>, \<open>mod.rs\<close>): a
  cursor over a blob of bytes, the header, the nodes of the structure block in the order they begin,
  their properties, and what the kernel reads from them. A lazy iterator is the list of everything it
  yields. Offsets are sums of a few 32-bit values, so they are added without wrap-around.
\<close>

subsection \<open>The cursor\<close>

record cursor =
  cu_blob :: "u8 list"
  cu_offset :: usize

definition U32_SIZE :: usize where
  "U32_SIZE = 4"

text \<open>\<open>slice.get(start..end)\<close>, \<open>slice.get(start..)\<close> and \<open>u32::from_be_bytes\<close>.\<close>

definition get_range :: "'a list \<Rightarrow> usize \<Rightarrow> usize \<Rightarrow> 'a list option" where
  "get_range xs start stop =
    (if start \<le> stop \<and> stop \<le> length xs then Some (take (stop - start) (drop start xs)) else None)"

definition get_from :: "'a list \<Rightarrow> usize \<Rightarrow> 'a list option" where
  "get_from xs start = (if start \<le> length xs then Some (drop start xs) else None)"

definition from_be_bytes :: "u8 list \<Rightarrow> u32" where
  "from_be_bytes bs = foldl (\<lambda>v b. v * 256 + ucast b) 0 bs"

definition cu_new :: "u8 list \<Rightarrow> usize \<Rightarrow> cursor" where
  "cu_new blob offset = \<lparr>cu_blob = blob, cu_offset = offset\<rparr>"

definition cu_read_u32 :: "cursor \<Rightarrow> (cursor \<times> u32) option" where
  "cu_read_u32 c = map_option (\<lambda>bytes. (c\<lparr>cu_offset := cu_offset c + U32_SIZE\<rparr>, from_be_bytes bytes))
    (get_range (cu_blob c) (cu_offset c) (cu_offset c + U32_SIZE))"

definition cu_bytes :: "cursor \<Rightarrow> usize \<Rightarrow> (cursor \<times> u8 list) option" where
  "cu_bytes c n = map_option (\<lambda>bytes. (c\<lparr>cu_offset := cu_offset c + n\<rparr>, bytes))
    (get_range (cu_blob c) (cu_offset c) (cu_offset c + n))"

definition cu_cstring :: "cursor \<Rightarrow> (cursor \<times> u8 list) option" where
  "cu_cstring c =
    (case get_from (cu_blob c) (cu_offset c) of
       None \<Rightarrow> None
     | Some bytes \<Rightarrow>
         (let len = length (takeWhile (\<lambda>byte. byte \<noteq> 0) bytes) in
          if len < length bytes then Some (c\<lparr>cu_offset := cu_offset c + len + 1\<rparr>, take len bytes) else None))"

definition cu_done :: "cursor \<Rightarrow> bool" where
  "cu_done c \<longleftrightarrow> length (cu_blob c) < cu_offset c + U32_SIZE"

text \<open>\<open>(offset + 3) & !3\<close>: the next multiple of four.\<close>

definition cu_align_u32 :: "cursor \<Rightarrow> cursor" where
  "cu_align_u32 c = c\<lparr>cu_offset := (cu_offset c + 3) div 4 * 4\<rparr>"

subsection \<open>Properties\<close>

definition TOKEN_BEGIN_NODE :: u32 where
  "TOKEN_BEGIN_NODE = 1"

definition TOKEN_END_NODE :: u32 where
  "TOKEN_END_NODE = 2"

definition TOKEN_PROP :: u32 where
  "TOKEN_PROP = 3"

definition TOKEN_NOOP :: u32 where
  "TOKEN_NOOP = 4"

definition TOKEN_END :: u32 where
  "TOKEN_END = 9"

definition string_at :: "u8 list \<Rightarrow> usize \<Rightarrow> u8 list option" where
  "string_at strings offset = map_option snd (cu_cstring (cu_new strings offset))"

record property =
  p_name :: "u8 list"
  p_value :: "u8 list"

record properties =
  pr_cursor :: cursor
  pr_strings :: "u8 list"

definition properties_next :: "properties \<Rightarrow> (properties \<times> property) option" where
  "properties_next ps =
    (if cu_done (pr_cursor ps) then None
     else Option.bind (cu_read_u32 (pr_cursor ps)) (\<lambda>(c1, token).
       if token = TOKEN_PROP then
         Option.bind (cu_read_u32 c1) (\<lambda>(c2, len).
         Option.bind (cu_read_u32 c2) (\<lambda>(c3, name_offset).
         Option.bind (string_at (pr_strings ps) (unat name_offset)) (\<lambda>name.
         Option.bind (cu_bytes c3 (unat len)) (\<lambda>(c4, value).
         Some (ps\<lparr>pr_cursor := cu_align_u32 c4\<rparr>, \<lparr>p_name = name, p_value = value\<rparr>)))))
       else None))"

lemma cu_read_u32_offset:
  "cu_read_u32 c = Some (c', w) \<Longrightarrow> cu_blob c' = cu_blob c \<and> cu_offset c' = cu_offset c + 4 \<and> cu_offset c + 4 \<le> length (cu_blob c)"
  by (auto simp: cu_read_u32_def get_range_def U32_SIZE_def split: if_splits)

lemma cu_bytes_offset:
  "cu_bytes c n = Some (c', bs) \<Longrightarrow> cu_blob c' = cu_blob c \<and> cu_offset c' = cu_offset c + n"
  by (auto simp: cu_bytes_def get_range_def split: if_splits)

lemma cu_cstring_offset:
  "cu_cstring c = Some (c', bs) \<Longrightarrow> cu_blob c' = cu_blob c \<and> cu_offset c < cu_offset c'"
  by (auto simp: cu_cstring_def Let_def split: option.splits if_splits)

lemma cu_align_offset [simp]: "cu_blob (cu_align_u32 c) = cu_blob c" "cu_offset c \<le> cu_offset (cu_align_u32 c)"
  by (auto simp: cu_align_u32_def)

definition remaining :: "cursor \<Rightarrow> nat" where
  "remaining c = length (cu_blob c) - cu_offset c"

lemma properties_next_shorter:
  assumes "properties_next ps = Some (ps', p)"
  shows "remaining (pr_cursor ps') < remaining (pr_cursor ps)"
proof -
  obtain c1 c2 c3 c4 token len name_offset bs where c: "cu_read_u32 (pr_cursor ps) = Some (c1, token)"
      "cu_read_u32 c1 = Some (c2, len)" "cu_read_u32 c2 = Some (c3, name_offset)" "cu_bytes c3 (unat len) = Some (c4, bs)"
      "pr_cursor ps' = cu_align_u32 c4"
    using assms by (auto simp: properties_next_def Option.bind_eq_Some_conv split: if_splits)
  show ?thesis
    using cu_read_u32_offset [OF c(1)] cu_read_u32_offset [OF c(2)] cu_read_u32_offset [OF c(3)] cu_bytes_offset [OF c(4)]
      cu_align_offset(2) [of c4] by (auto simp: c(5) remaining_def simp del: cu_align_offset(2))
qed

function properties_list :: "properties \<Rightarrow> property list" where
  "properties_list ps = (case properties_next ps of None \<Rightarrow> [] | Some (ps', p) \<Rightarrow> p # properties_list ps')"
  by pat_completeness auto
termination
  by (relation "measure (\<lambda>ps. remaining (pr_cursor ps))") (auto dest: properties_next_shorter)

declare properties_list.simps [simp del]

subsection \<open>Nodes\<close>

record node =
  no_depth :: u32
  no_properties :: properties

record nodes =
  ns_cursor :: cursor
  ns_strings :: "u8 list"
  ns_depth :: u32

definition nodes_new :: "u8 list \<Rightarrow> u8 list \<Rightarrow> nodes" where
  "nodes_new blob strings = \<lparr>ns_cursor = cu_new blob 0, ns_strings = strings, ns_depth = 0\<rparr>"

definition saturating_dec :: "u32 \<Rightarrow> u32" where
  "saturating_dec d = (if d = 0 then 0 else d - 1)"

text \<open>
  One turn of the loop of \<open>next\<close>: a node (on the left), or nothing yet (on the right); no value where
  the iterator ends.
\<close>

definition nodes_turn :: "nodes \<Rightarrow> (nodes \<times> node option) option" where
  "nodes_turn ns =
    (if cu_done (ns_cursor ns) then None
     else Option.bind (cu_read_u32 (ns_cursor ns)) (\<lambda>(c1, token).
       if token = TOKEN_BEGIN_NODE then
         Option.bind (cu_cstring c1) (\<lambda>(c2, _).
         let c3 = cu_align_u32 c2 in
         Some (ns\<lparr>ns_cursor := c3, ns_depth := ns_depth ns + 1\<rparr>,
           Some \<lparr>no_depth = ns_depth ns, no_properties = \<lparr>pr_cursor = c3, pr_strings = ns_strings ns\<rparr>\<rparr>))
       else if token = TOKEN_PROP then
         Option.bind (cu_read_u32 c1) (\<lambda>(c2, len).
         Option.bind (cu_read_u32 c2) (\<lambda>(c3, _).
         Option.bind (cu_bytes c3 (unat len)) (\<lambda>(c4, _).
         Some (ns\<lparr>ns_cursor := cu_align_u32 c4\<rparr>, None))))
       else if token = TOKEN_END_NODE then
         Some (ns\<lparr>ns_cursor := c1, ns_depth := saturating_dec (ns_depth ns)\<rparr>, None)
       else if token = TOKEN_NOOP \<or> token = TOKEN_END then Some (ns\<lparr>ns_cursor := c1\<rparr>, None)
       else None))"

lemma nodes_turn_shorter:
  assumes "nodes_turn ns = Some (ns', r)"
  shows "remaining (ns_cursor ns') < remaining (ns_cursor ns)"
proof -
  obtain c1 token where c1: "cu_read_u32 (ns_cursor ns) = Some (c1, token)"
    using assms by (auto simp: nodes_turn_def Option.bind_eq_Some_conv split: if_splits)
  have nd: "\<not> cu_done (ns_cursor ns)" using assms by (auto simp: nodes_turn_def)
  note turn = assms [unfolded nodes_turn_def c1 bind.bind_lunit prod.case]
  consider (node) "token = TOKEN_BEGIN_NODE" | (property) "token = TOKEN_PROP" "token \<noteq> TOKEN_BEGIN_NODE"
    | (other) "token \<noteq> TOKEN_BEGIN_NODE" "token \<noteq> TOKEN_PROP" by blast
  then have "cu_blob (ns_cursor ns') = cu_blob c1 \<and> cu_offset c1 \<le> cu_offset (ns_cursor ns')"
  proof cases
    case node
    then obtain c2 nm where c: "cu_cstring c1 = Some (c2, nm)" "ns_cursor ns' = cu_align_u32 c2"
      using turn nd by (auto simp: Option.bind_eq_Some_conv Let_def)
    then show ?thesis using cu_cstring_offset [OF c(1)] cu_align_offset(2) [of c2] by (simp del: cu_align_offset(2))
  next
    case property
    then obtain c2 c3 c4 len off bs where c: "cu_read_u32 c1 = Some (c2, len)" "cu_read_u32 c2 = Some (c3, off)"
        "cu_bytes c3 (unat len) = Some (c4, bs)" "ns_cursor ns' = cu_align_u32 c4"
      using turn nd by (auto simp: Option.bind_eq_Some_conv)
    then show ?thesis
      using cu_read_u32_offset [OF c(1)] cu_read_u32_offset [OF c(2)] cu_bytes_offset [OF c(3)] cu_align_offset(2) [of c4]
      by (simp del: cu_align_offset(2))
  next
    case other
    then show ?thesis using turn nd by (auto split: if_splits)
  qed
  then show ?thesis using cu_read_u32_offset [OF c1] by (auto simp: remaining_def)
qed

function nodes_list :: "nodes \<Rightarrow> node list" where
  "nodes_list ns =
    (case nodes_turn ns of
       None \<Rightarrow> []
     | Some (ns', None) \<Rightarrow> nodes_list ns'
     | Some (ns', Some n) \<Rightarrow> n # nodes_list ns')"
  by pat_completeness auto
termination
  by (relation "measure (\<lambda>ns. remaining (ns_cursor ns))") (auto dest: nodes_turn_shorter)

declare nodes_list.simps [simp del]

subsection \<open>What a node says\<close>

definition DEFAULT_ADDRESS_CELLS :: u32 where
  "DEFAULT_ADDRESS_CELLS = 2"

definition DEFAULT_SIZE_CELLS :: u32 where
  "DEFAULT_SIZE_CELLS = 1"

definition INTERRUPT_CELLS :: usize where
  "INTERRUPT_CELLS = 3"

definition node_property :: "node \<Rightarrow> u8 list \<Rightarrow> property option" where
  "node_property n name = find (\<lambda>p. p_name p = name) (properties_list (no_properties n))"

definition is_memory :: "node \<Rightarrow> bool" where
  "is_memory n =
    (case node_property n (ascii ''device_type'') of None \<Rightarrow> False | Some p \<Rightarrow> p_value p = ascii ''memory'' @ [0])"

text \<open>\<open>value.split(|byte| byte == 0)\<close>.\<close>

fun split_zero :: "u8 list \<Rightarrow> u8 list list" where
  "split_zero [] = [[]]"
| "split_zero (b # bs) =
    (if b = 0 then [] # split_zero bs else (b # hd (split_zero bs)) # tl (split_zero bs))"

definition is_compatible :: "node \<Rightarrow> u8 list \<Rightarrow> bool" where
  "is_compatible n compatible =
    (case node_property n (ascii ''compatible'') of
       None \<Rightarrow> False
     | Some p \<Rightarrow> list_ex (\<lambda>entry. entry = compatible) (split_zero (p_value p)))"

fun read_cells_from :: "nat \<Rightarrow> cursor \<Rightarrow> u64 \<Rightarrow> u64 option" where
  "read_cells_from 0 c acc = Some acc"
| "read_cells_from (Suc k) c acc =
    Option.bind (cu_read_u32 c) (\<lambda>(c', w). read_cells_from k c' (push_bit 32 acc OR ucast w))"

definition read_cells :: "u8 list \<Rightarrow> usize \<Rightarrow> u64 option" where
  "read_cells bytes cells = (if 2 < cells then None else read_cells_from cells (cu_new bytes 0) 0)"

definition node_region :: "node \<Rightarrow> usize \<Rightarrow> usize \<times> usize \<Rightarrow> region option" where
  "node_region n index = (\<lambda>(address, size_cells).
    Option.bind (node_property n (ascii ''reg'')) (\<lambda>reg.
    Option.bind (get_from (p_value reg) (index * (address + size_cells) * 4)) (\<lambda>entry.
    Option.bind (read_cells entry address) (\<lambda>base.
    Option.bind (get_from entry (address * 4)) (\<lambda>entry'.
    Option.bind (read_cells entry' size_cells) (\<lambda>bytes.
    Some \<lparr>r_base = unat base, r_size = unat bytes\<rparr>))))))"

definition node_interrupt :: "node \<Rightarrow> usize \<Rightarrow> (u32 \<times> u32) option" where
  "node_interrupt n index =
    Option.bind (node_property n (ascii ''interrupts'')) (\<lambda>interrupts.
    Option.bind (get_from (p_value interrupts) (index * INTERRUPT_CELLS * 4)) (\<lambda>entry.
    Option.bind (cu_read_u32 (cu_new entry 0)) (\<lambda>(c1, kind).
    Option.bind (cu_read_u32 c1) (\<lambda>(_, number).
    Some (kind, number)))))"

definition property_as_u32 :: "property \<Rightarrow> u32 option" where
  "property_as_u32 p = map_option snd (cu_read_u32 (cu_new (p_value p) 0))"

definition node_cells :: "node \<Rightarrow> usize \<times> usize" where
  "node_cells n =
    (let cells = (\<lambda>name default. unat (case Option.bind (node_property n name) property_as_u32 of
           None \<Rightarrow> default | Some w \<Rightarrow> w)) in
     (cells (ascii ''#address-cells'') DEFAULT_ADDRESS_CELLS, cells (ascii ''#size-cells'') DEFAULT_SIZE_CELLS))"

subsection \<open>The header and the blob\<close>

definition HEADER_SIZE :: usize where
  "HEADER_SIZE = 0x28"

definition MAGIC :: u32 where
  "MAGIC = 0xd00dfeed"

definition SUPPORTED_VERSION :: u32 where
  "SUPPORTED_VERSION = 17"

definition u32_at :: "u8 list \<Rightarrow> usize \<Rightarrow> u32" where
  "u32_at blob offset = from_be_bytes (take 4 (drop offset blob))"

text \<open>A header is its forty bytes.\<close>

type_synonym header = "u8 list"

definition header_from_ptr :: "mem \<Rightarrow> usize \<Rightarrow> header option" where
  "header_from_ptr m base =
    (let blob = load_bytes m base HEADER_SIZE in
     if u32_at blob 0 \<noteq> MAGIC then None
     else if SUPPORTED_VERSION < u32_at blob 0x18 then None
     else Some blob)"

definition total_size :: "header \<Rightarrow> u32" where
  "total_size h = u32_at h 0x04"

definition off_dt_struct :: "header \<Rightarrow> u32" where
  "off_dt_struct h = u32_at h 0x08"

definition off_dt_strings :: "header \<Rightarrow> u32" where
  "off_dt_strings h = u32_at h 0x0C"

definition size_dt_strings :: "header \<Rightarrow> u32" where
  "size_dt_strings h = u32_at h 0x20"

definition size_dt_struct :: "header \<Rightarrow> u32" where
  "size_dt_struct h = u32_at h 0x24"

record dtb =
  dt_base :: usize
  dt_blob :: "u8 list"
  dt_header :: header
  dt_strings :: "u8 list"

definition dtb_from_ptr :: "mem \<Rightarrow> usize \<Rightarrow> dtb option" where
  "dtb_from_ptr m base =
    Option.bind (header_from_ptr m base) (\<lambda>header.
    let blob = load_bytes m base (unat (total_size header));
        strings_start = unat (off_dt_strings header);
        strings_end = strings_start + unat (size_dt_strings header) in
    Option.bind (get_range blob strings_start strings_end) (\<lambda>strings.
    Some \<lparr>dt_base = base, dt_blob = blob, dt_header = header, dt_strings = strings\<rparr>))"

definition dtb_nodes :: "dtb \<Rightarrow> nodes option" where
  "dtb_nodes d =
    (let start = unat (off_dt_struct (dt_header d)); fin = start + unat (size_dt_struct (dt_header d)) in
     map_option (\<lambda>struct_blob. nodes_new struct_blob (dt_strings d)) (get_range (dt_blob d) start fin))"

definition dtb_region :: "dtb \<Rightarrow> region" where
  "dtb_region d = \<lparr>r_base = dt_base d, r_size = length (dt_blob d)\<rparr>"

definition ROOT_CHILD_DEPTH :: u32 where
  "ROOT_CHILD_DEPTH = 1"

definition root_cells :: "dtb \<Rightarrow> (usize \<times> usize) option" where
  "root_cells d = Option.bind (dtb_nodes d) (\<lambda>ns.
    case nodes_list ns of [] \<Rightarrow> None | n # _ \<Rightarrow> Some (node_cells n))"

definition dtb_find :: "dtb \<Rightarrow> (node \<Rightarrow> bool) \<Rightarrow> node option" where
  "dtb_find d predicate = Option.bind (dtb_nodes d) (\<lambda>ns.
    find (\<lambda>n. no_depth n = ROOT_CHILD_DEPTH \<and> predicate n) (nodes_list ns))"

definition find_compatible :: "dtb \<Rightarrow> u8 list \<Rightarrow> node option" where
  "find_compatible d compatible = dtb_find d (\<lambda>n. is_compatible n compatible)"

definition find_memory :: "dtb \<Rightarrow> node option" where
  "find_memory d = dtb_find d is_memory"

end
