(* ===== verification/Board.thy ===== *)
theory Board
  imports Dtb
begin

text \<open>
  What the kernel takes from the device tree (\<open>src/src/platform/board.rs\<close>, \<open>src/src/platform/mod.rs\<close>): the devices it
  drives, the memory, and how to reach PSCI. A failed lookup names what it wanted.
\<close>

definition MEMORY :: string where
  "MEMORY = ''/memory''"

definition UART :: string where
  "UART = ''arm,pl011''"

definition GIC :: string where
  "GIC = ''arm,cortex-a15-gic''"

definition TIMER :: string where
  "TIMER = ''arm,armv8-timer''"

definition PSCI :: string where
  "PSCI = ''arm,psci-0.2''"

definition NON_SECURE_PHYSICAL :: usize where
  "NON_SECURE_PHYSICAL = 1"

datatype conduit = Hvc | Smc

record gic_bases =
  distributor_base :: usize
  cpu_base :: usize

record device =
  dev_base :: usize
  dev_intid :: u32

record board =
  b_uart :: device
  b_gic :: gic_bases
  b_memory :: region
  b_timer_intid :: u32
  b_psci :: conduit

definition ok_or :: "'a option \<Rightarrow> 'e \<Rightarrow> 'e + 'a" where
  "ok_or x e = (case x of None \<Rightarrow> Inl e | Some v \<Rightarrow> Inr v)"

definition ebind :: "'e + 'a \<Rightarrow> ('a \<Rightarrow> 'e + 'b) \<Rightarrow> 'e + 'b" where
  "ebind x f = (case x of Inl e \<Rightarrow> Inl e | Inr v \<Rightarrow> f v)"

lemma ok_or_simps [simp]: "ok_or None e = Inl e" "ok_or (Some v) e = Inr v"
  by (simp_all add: ok_or_def)

lemma ebind_simps [simp]: "ebind (Inl e) f = Inl e" "ebind (Inr v) f = f v"
  by (simp_all add: ebind_def)

definition intid :: "node \<Rightarrow> usize \<Rightarrow> u32 option" where
  "intid n index = Option.bind (node_interrupt n index) (\<lambda>(kind, number).
    if kind = 0 then Some (number + 32) else if kind = 1 then Some (number + 16) else None)"

definition board_discover :: "dtb \<Rightarrow> string + board" where
  "board_discover d =
    ebind (ok_or (root_cells d) ''/'') (\<lambda>cells.
    ebind (ok_or (find_memory d) MEMORY) (\<lambda>n.
    ebind (ok_or (node_region n 0 cells) MEMORY) (\<lambda>memory.
    ebind (ok_or (find_compatible d (ascii UART)) UART) (\<lambda>n.
    ebind (ok_or (node_region n 0 cells) UART) (\<lambda>uart.
    ebind (ok_or (intid n 0) UART) (\<lambda>uart_intid.
    ebind (ok_or (find_compatible d (ascii GIC)) GIC) (\<lambda>n.
    ebind (ok_or (node_region n 0 cells) GIC) (\<lambda>distributor.
    ebind (ok_or (node_region n 1 cells) GIC) (\<lambda>cpu.
    ebind (ok_or (find_compatible d (ascii TIMER)) TIMER) (\<lambda>n.
    ebind (ok_or (intid n NON_SECURE_PHYSICAL) TIMER) (\<lambda>timer_intid.
    ebind (ok_or (find_compatible d (ascii PSCI)) PSCI) (\<lambda>n.
    ebind (ok_or (node_property n (ascii ''method'')) PSCI) (\<lambda>p.
    ebind (if p_value p = ascii ''hvc'' @ [0] then Inr Hvc
           else if p_value p = ascii ''smc'' @ [0] then Inr Smc
           else Inl PSCI) (\<lambda>psci.
    Inr \<lparr>b_uart = \<lparr>dev_base = r_base uart, dev_intid = uart_intid\<rparr>,
      b_gic = \<lparr>distributor_base = r_base distributor, cpu_base = r_base cpu\<rparr>,
      b_memory = memory, b_timer_intid = timer_intid, b_psci = psci\<rparr>))))))))))))))"

datatype discover_error = NoTree usize | Missing string

definition discover :: "mem \<Rightarrow> usize \<Rightarrow> discover_error + (dtb \<times> board)" where
  "discover m dtb_ptr =
    ebind (ok_or (dtb_from_ptr m dtb_ptr) (NoTree dtb_ptr)) (\<lambda>d.
    case board_discover d of Inl missing \<Rightarrow> Inl (Missing missing) | Inr b \<Rightarrow> Inr (d, b))"

end
