(* ===== verification/DtbCorrect.thy ===== *)
theory DtbCorrect
  imports Board
begin

text \<open>
  Device trees as trees, the blob of bytes that flattens one (the format the Devicetree specification gives),
  and what the reader of \<open>Dtb\<close> makes of such a blob: its nodes in the order they begin, with their depth and
  their properties.
\<close>

subsection \<open>Flattened trees\<close>

datatype dt_node = DtNode (dn_name: "u8 list") (dn_props: "(u8 list \<times> u8 list) list") (dn_children: "dt_node list")

definition be_bytes :: "u32 \<Rightarrow> u8 list" where
  "be_bytes w = [ucast (drop_bit 24 w), ucast (drop_bit 16 w), ucast (drop_bit 8 w), ucast w]"

definition padding :: "nat \<Rightarrow> nat" where
  "padding n = (4 - n mod 4) mod 4"

definition padded :: "u8 list \<Rightarrow> u8 list" where
  "padded bs = bs @ replicate (padding (length bs)) 0"

fun string_offset :: "u8 list list \<Rightarrow> u8 list \<Rightarrow> nat" where
  "string_offset [] n = 0"
| "string_offset (m # ms) n = (if m = n then 0 else length m + 1 + string_offset ms n)"

definition strings_block :: "u8 list list \<Rightarrow> u8 list" where
  "strings_block ms = concat (map (\<lambda>m. m @ [0]) ms)"

definition enc_prop :: "u8 list list \<Rightarrow> u8 list \<times> u8 list \<Rightarrow> u8 list" where
  "enc_prop ms = (\<lambda>(n, v). be_bytes TOKEN_PROP @ be_bytes (of_nat (length v)) @ be_bytes (of_nat (string_offset ms n)) @ padded v)"

fun enc_node :: "u8 list list \<Rightarrow> dt_node \<Rightarrow> u8 list" where
  "enc_node ms (DtNode nm ps cs) = be_bytes TOKEN_BEGIN_NODE @ padded (nm @ [0])
    @ concat (map (enc_prop ms) ps) @ concat (map (enc_node ms) cs) @ be_bytes TOKEN_END_NODE"

fun dt_names :: "dt_node \<Rightarrow> u8 list list" where
  "dt_names (DtNode nm ps cs) = map fst ps @ concat (map dt_names cs)"

fun preorder :: "nat \<Rightarrow> dt_node \<Rightarrow> (nat \<times> (u8 list \<times> u8 list) list) list" where
  "preorder k (DtNode nm ps cs) = (k, ps) # concat (map (preorder (Suc k)) cs)"

subsection \<open>Reading what was written\<close>

abbreviation cur :: "u8 list \<Rightarrow> nat \<Rightarrow> cursor" where
  "cur bl i \<equiv> \<lparr>cu_blob = bl, cu_offset = i\<rparr>"

lemma length_be_bytes [simp]: "length (be_bytes w) = 4"
  by (simp add: be_bytes_def)

lemma from_be_bytes_be [simp]: "from_be_bytes (be_bytes w) = w"
proof -
  define x where "x = unat w"
  have w: "w = of_nat x" and x: "x < 2 ^ 32" using unat_lt_pow [of w] by (simp_all add: x_def)
  have byte: "unat (ucast (drop_bit k w) :: u8) = x div 2 ^ k mod 256" for k
  proof -
    have "unat (drop_bit k w) = x div 2 ^ k" by (simp only: x_def unsigned_drop_bit_eq drop_bit_eq_div [where ?'a = nat])
        (use unat_lt_pow [of w] in \<open>simp add: take_bit_nat_eq_self\<close>)
    then show ?thesis by (simp add: unsigned_ucast_eq take_bit_eq_mod)
  qed
  have word: "(ucast b :: u32) = of_nat (unat b)" for b :: u8 by simp
  have cut: "x div 2 ^ k = (x div 2 ^ (k + 8)) * 256 + x div 2 ^ k mod 256" for k
    by (simp add: power_add div_mult2_eq)
  have "from_be_bytes (be_bytes w) =
      of_nat ((((x div 2 ^ 24 mod 256) * 256 + x div 2 ^ 16 mod 256) * 256 + x div 2 ^ 8 mod 256) * 256 + x div 2 ^ 0 mod 256)"
    using byte [of 24] byte [of 16] byte [of 8] byte [of 0]
    by (simp add: from_be_bytes_def be_bytes_def word del: of_nat_unat)
  also have "x div 2 ^ 24 mod 256 = x div 2 ^ 24" using x by (simp add: less_mult_imp_div_less)
  also have "x div 2 ^ 24 * 256 + x div 2 ^ 16 mod 256 = x div 2 ^ 16" using cut [of 16] by simp
  also have "x div 2 ^ 16 * 256 + x div 2 ^ 8 mod 256 = x div 2 ^ 8" using cut [of 8] by simp
  also have "x div 2 ^ 8 * 256 + x div 2 ^ 0 mod 256 = x" using cut [of 0] by simp
  finally show ?thesis by (simp add: w)
qed

lemma be_bytes_ne [simp]: "be_bytes w \<noteq> []"
  by (simp add: be_bytes_def)

lemma drop_more: "drop i bl = v @ r \<Longrightarrow> drop (i + length v) bl = r"
  by (metis add.commute append_eq_conv_conj drop_drop)

lemma drop_fits: "drop i bl = v @ r \<Longrightarrow> v \<noteq> [] \<Longrightarrow> i + length v + length r = length bl"
  by (metis Nil_is_append_conv add.assoc drop_eq_Nil2 le_add_diff_inverse length_append length_drop nle_le)

lemma read_at: "drop i bl = be_bytes w @ r \<Longrightarrow> cu_read_u32 (cur bl i) = Some (cur bl (i + 4), w)"
  using drop_fits [of i bl "be_bytes w" r] by (auto simp: cu_read_u32_def get_range_def U32_SIZE_def)

lemma bytes_at: "drop i bl = v @ r \<Longrightarrow> i \<le> length bl \<Longrightarrow> cu_bytes (cur bl i) (length v) = Some (cur bl (i + length v), v)"
  by (auto simp: cu_bytes_def get_range_def) (metis length_drop le_add_diff_inverse length_append nat_add_left_cancel_le le_add1)

lemma cstring_at:
  assumes "drop i bl = v @ 0 # r" "0 \<notin> set v"
  shows "cu_cstring (cur bl i) = Some (cur bl (i + length v + 1), v)"
proof -
  have "i \<le> length bl" using drop_fits [of i bl "v @ [0]" r] assms(1) by simp
  moreover have "takeWhile (\<lambda>b. b \<noteq> 0) (v @ 0 # r) = v" using assms(2) by (induction v) auto
  ultimately show ?thesis using assms(1) by (simp add: cu_cstring_def get_from_def Let_def)
qed

lemma not_done_at: "drop i bl = be_bytes w @ r \<Longrightarrow> \<not> cu_done (cur bl i)"
  using drop_fits [of i bl "be_bytes w" r] by (auto simp: cu_done_def U32_SIZE_def be_bytes_def)

lemma done_at: "drop i bl = [] \<Longrightarrow> cu_done (cur bl i)"
  by (simp add: cu_done_def U32_SIZE_def)

lemma padding_eq: "n + padding n = 4 * ((n + 3) div 4)"
proof -
  define q r where "q = n div 4" and "r = n mod 4"
  have n: "n = 4 * q + r" and "r < 4" by (simp_all add: q_def r_def)
  have up: "(n + 3) div 4 = q + (r + 3) div 4" using div_mult_self2 [of 4 "r + 3" q] by (simp add: n ac_simps)
  have "r = 0 \<or> r = 1 \<or> r = 2 \<or> r = 3" using \<open>r < 4\<close> by linarith
  then show ?thesis unfolding up padding_def r_def [symmetric] by (elim disjE) (simp_all add: n)
qed

lemma align_at: "4 dvd i \<Longrightarrow> cu_align_u32 (cur bl (i + k)) = cur bl (i + k + padding k)"
proof -
  assume "4 dvd i"
  then obtain j where i: "i = 4 * j" by blast
  have "(4 * j + k + 3) div 4 = j + (k + 3) div 4" using div_mult_self2 [of 4 "k + 3" j] by (simp add: ac_simps)
  then show ?thesis using padding_eq [of k] by (simp add: i cu_align_u32_def)
qed

lemma length_padded: "length (padded bs) = length bs + padding (length bs)"
  by (simp add: padded_def)

lemma padded_dvd [simp]: "4 dvd length (padded bs)"
  unfolding length_padded padding_eq by simp

subsection \<open>Properties\<close>

lemma string_at_offset:
  "n \<in> set ms \<Longrightarrow> \<forall>m \<in> set ms. 0 \<notin> set m \<Longrightarrow> string_at (strings_block ms) (string_offset ms n) = Some n"
proof -
  assume n: "n \<in> set ms" and ok: "\<forall>m \<in> set ms. 0 \<notin> set m"
  have "\<exists>r. drop (string_offset ms n) (strings_block ms) = n @ 0 # r"
    using n by (induction ms) (auto simp: strings_block_def)
  then show ?thesis using cstring_at [of "string_offset ms n" "strings_block ms" n] n ok
    by (auto simp: string_at_def cu_new_def)
qed

definition prop_wf :: "u8 list list \<Rightarrow> u8 list \<times> u8 list \<Rightarrow> bool" where
  "prop_wf ms = (\<lambda>(n, v). n \<in> set ms \<and> length v < 2 ^ 32 \<and> string_offset ms n < 2 ^ 32)"

lemma unat_of_nat_32: "n < 2 ^ 32 \<Longrightarrow> unat (of_nat n :: u32) = n"
  by (simp add: unsigned_of_nat take_bit_nat_eq_self)

text \<open>Where a written property has been read up to: the length, the offset of the name, the value.\<close>

lemma enc_prop_at:
  assumes d: "drop i bl = enc_prop ms (n, v) @ r" and al: "4 dvd i" and wf: "prop_wf ms (n, v)"
  defines "j \<equiv> i + length (enc_prop ms (n, v))"
  shows "cu_read_u32 (cur bl i) = Some (cur bl (i + 4), TOKEN_PROP)"
    and "cu_read_u32 (cur bl (i + 4)) = Some (cur bl (i + 8), of_nat (length v))"
    and "cu_read_u32 (cur bl (i + 8)) = Some (cur bl (i + 12), of_nat (string_offset ms n))"
    and "cu_bytes (cur bl (i + 12)) (length v) = Some (cur bl (i + 12 + length v), v)"
    and "cu_align_u32 (cur bl (i + 12 + length v)) = cur bl j" and "drop j bl = r" and "4 dvd j"
    and "\<not> cu_done (cur bl i)"
proof -
  have d0: "drop i bl = be_bytes TOKEN_PROP @ be_bytes (of_nat (length v)) @ be_bytes (of_nat (string_offset ms n)) @ padded v @ r"
    using d by (simp add: enc_prop_def)
  have d4: "drop (i + 4) bl = be_bytes (of_nat (length v)) @ be_bytes (of_nat (string_offset ms n)) @ padded v @ r"
    using drop_more [OF d0] by simp
  have d8: "drop (i + 8) bl = be_bytes (of_nat (string_offset ms n)) @ padded v @ r"
    using drop_more [OF d4] by (simp add: add.commute)
  have d12: "drop (i + 12) bl = v @ replicate (padding (length v)) 0 @ r"
    using drop_more [OF d8] by (simp add: padded_def add.commute)
  show "cu_read_u32 (cur bl i) = Some (cur bl (i + 4), TOKEN_PROP)" by (rule read_at [OF d0])
  show "cu_read_u32 (cur bl (i + 4)) = Some (cur bl (i + 8), of_nat (length v))" using read_at [OF d4] by simp
  show "cu_read_u32 (cur bl (i + 8)) = Some (cur bl (i + 12), of_nat (string_offset ms n))" using read_at [OF d8] by simp
  have "i + 12 \<le> length bl" using drop_fits [OF d8] by simp
  then show "cu_bytes (cur bl (i + 12)) (length v) = Some (cur bl (i + 12 + length v), v)" by (rule bytes_at [OF d12])
  have "4 dvd i + 12" using al by simp
  then show "cu_align_u32 (cur bl (i + 12 + length v)) = cur bl j"
    using align_at [of "i + 12" bl "length v"] by (simp add: j_def enc_prop_def length_padded)
  show "drop j bl = r" unfolding j_def by (rule drop_more [OF d])
  show "4 dvd j" using al by (simp add: j_def enc_prop_def)
  show "\<not> cu_done (cur bl i)" by (rule not_done_at [OF d0])
qed

lemma properties_list_written:
  assumes "drop i bl = concat (map (enc_prop ms) ps) @ be_bytes w @ r" "4 dvd i" "w \<noteq> TOKEN_PROP"
    and "\<forall>p \<in> set ps. prop_wf ms p" "\<forall>m \<in> set ms. 0 \<notin> set m"
  shows "map (\<lambda>p. (p_name p, p_value p)) (properties_list \<lparr>pr_cursor = cur bl i, pr_strings = strings_block ms\<rparr>) = ps"
  using assms(1,2,4)
proof (induction ps arbitrary: i)
  case Nil
  then have d: "drop i bl = be_bytes w @ r" by simp
  show ?case using read_at [OF d] not_done_at [OF d] assms(3)
    by (subst properties_list.simps) (simp add: properties_next_def)
next
  case (Cons p ps)
  obtain n v where p: "p = (n, v)" by (cases p)
  have d: "drop i bl = enc_prop ms (n, v) @ concat (map (enc_prop ms) ps) @ be_bytes w @ r" using Cons.prems(1) p by simp
  have wf: "prop_wf ms (n, v)" using Cons.prems(3) p by simp
  note at = enc_prop_at [OF d Cons.prems(2) wf]
  have lens: "unat (of_nat (length v) :: u32) = length v" "unat (of_nat (string_offset ms n) :: u32) = string_offset ms n"
    using wf by (simp_all add: prop_wf_def unat_of_nat_32)
  have name: "string_at (strings_block ms) (string_offset ms n) = Some n"
    using wf assms(5) by (intro string_at_offset) (simp_all add: prop_wf_def)
  have next_p: "properties_next \<lparr>pr_cursor = cur bl i, pr_strings = strings_block ms\<rparr> =
      Some (\<lparr>pr_cursor = cur bl (i + length (enc_prop ms (n, v))), pr_strings = strings_block ms\<rparr>, \<lparr>p_name = n, p_value = v\<rparr>)"
    using at name by (simp add: properties_next_def lens)
  have "map (\<lambda>p. (p_name p, p_value p)) (properties_list
      \<lparr>pr_cursor = cur bl (i + length (enc_prop ms (n, v))), pr_strings = strings_block ms\<rparr>) = ps"
    using Cons.IH at(6,7) Cons.prems(3) by simp
  then show ?case by (subst properties_list.simps) (simp add: next_p p)
qed

subsection \<open>Nodes\<close>

abbreviation nst :: "u8 list \<Rightarrow> u8 list \<Rightarrow> nat \<Rightarrow> u32 \<Rightarrow> nodes" where
  "nst bl ss i d \<equiv> \<lparr>ns_cursor = cur bl i, ns_strings = ss, ns_depth = d\<rparr>"

lemma nodes_skip_props:
  assumes "drop i bl = concat (map (enc_prop ms) ps) @ r" "4 dvd i" "\<forall>p \<in> set ps. prop_wf ms p"
  shows "nodes_list (nst bl ss i d) = nodes_list (nst bl ss (i + length (concat (map (enc_prop ms) ps))) d)
    \<and> 4 dvd i + length (concat (map (enc_prop ms) ps))"
  using assms
proof (induction ps arbitrary: i)
  case (Cons p ps)
  obtain n v where p: "p = (n, v)" by (cases p)
  have dr: "drop i bl = enc_prop ms (n, v) @ concat (map (enc_prop ms) ps) @ r" using Cons.prems(1) p by simp
  have wf: "prop_wf ms (n, v)" using Cons.prems(3) p by simp
  note at = enc_prop_at [OF dr Cons.prems(2) wf]
  have len: "unat (of_nat (length v) :: u32) = length v" using wf by (simp add: prop_wf_def unat_of_nat_32)
  have "TOKEN_PROP \<noteq> TOKEN_BEGIN_NODE" by (simp add: TOKEN_PROP_def TOKEN_BEGIN_NODE_def)
  then have "nodes_turn (nst bl ss i d) = Some (nst bl ss (i + length (enc_prop ms (n, v))) d, None)"
    using at by (simp add: nodes_turn_def len)
  then have "nodes_list (nst bl ss i d) = nodes_list (nst bl ss (i + length (enc_prop ms (n, v))) d)"
    by (subst nodes_list.simps) simp
  then show ?case using Cons.IH [OF at(6,7)] Cons.prems(3) by (simp add: p add.assoc)
qed simp

fun tree_wf :: "u8 list list \<Rightarrow> dt_node \<Rightarrow> bool" where
  "tree_wf ms (DtNode nm ps cs) \<longleftrightarrow> 0 \<notin> set nm \<and> (\<forall>p \<in> set ps. prop_wf ms p) \<and> (\<forall>c \<in> set cs. tree_wf ms c)"

definition shows_node :: "node \<Rightarrow> nat \<times> (u8 list \<times> u8 list) list \<Rightarrow> bool" where
  "shows_node n x \<longleftrightarrow> no_depth n = of_nat (fst x) \<and> map (\<lambda>p. (p_name p, p_value p)) (properties_list (no_properties n)) = snd x"

lemma tokens [simp]:
  "TOKEN_BEGIN_NODE \<noteq> TOKEN_PROP" "TOKEN_END_NODE \<noteq> TOKEN_PROP" "TOKEN_END_NODE \<noteq> TOKEN_BEGIN_NODE"
  "TOKEN_END \<noteq> TOKEN_PROP" "TOKEN_END \<noteq> TOKEN_BEGIN_NODE" "TOKEN_END \<noteq> TOKEN_END_NODE"
  by (simp_all add: TOKEN_BEGIN_NODE_def TOKEN_PROP_def TOKEN_END_NODE_def TOKEN_END_def)

lemma enc_node_begins: "\<exists>r. enc_node ms t = be_bytes TOKEN_BEGIN_NODE @ r"
  by (cases t) simp

text \<open>After the properties of a node comes a token that is not a property.\<close>

lemma after_props: "\<exists>w r'. w \<noteq> TOKEN_PROP \<and> concat (map (enc_node ms) cs) @ be_bytes TOKEN_END_NODE @ r = be_bytes w @ r'"
proof (cases cs)
  case (Cons c cs')
  obtain x where "enc_node ms c = be_bytes TOKEN_BEGIN_NODE @ x" using enc_node_begins by blast
  then show ?thesis using Cons by (intro exI [of _ TOKEN_BEGIN_NODE]) simp
qed (auto intro!: exI [of _ TOKEN_END_NODE])

lemma nodes_end:
  assumes "drop i bl = be_bytes TOKEN_END_NODE @ r"
  shows "nodes_list (nst bl ss i d) = nodes_list (nst bl ss (i + 4) (saturating_dec d))"
  using read_at [OF assms] not_done_at [OF assms] by (subst nodes_list.simps) (simp add: nodes_turn_def)

lemma nodes_begin:
  assumes d: "drop i bl = be_bytes TOKEN_BEGIN_NODE @ padded (nm @ [0]) @ r" and al: "4 dvd i" and nm: "0 \<notin> set nm"
  defines "j \<equiv> i + 4 + length (padded (nm @ [0]))"
  shows "nodes_list (nst bl ss i k) = \<lparr>no_depth = k, no_properties = \<lparr>pr_cursor = cur bl j, pr_strings = ss\<rparr>\<rparr> # nodes_list (nst bl ss j (k + 1))"
    and "drop j bl = r" and "4 dvd j"
proof -
  have d4: "drop (i + 4) bl = padded (nm @ [0]) @ r" using drop_more [OF d] by simp
  then have "drop (i + 4) bl = nm @ 0 # replicate (padding (length nm + 1)) 0 @ r" by (simp add: padded_def)
  note c = cstring_at [OF this nm]
  have "4 dvd i + 4" using al by simp
  then have a: "cu_align_u32 (cur bl (i + 4 + length nm + 1)) = cur bl j"
    using align_at [of "i + 4" bl "length nm + 1"] by (simp add: j_def length_padded)
  show "nodes_list (nst bl ss i k) = \<lparr>no_depth = k, no_properties = \<lparr>pr_cursor = cur bl j, pr_strings = ss\<rparr>\<rparr> # nodes_list (nst bl ss j (k + 1))"
    using read_at [OF d] not_done_at [OF d] c a by (subst nodes_list.simps) (simp add: nodes_turn_def Let_def)
  show "drop j bl = r" unfolding j_def by (rule drop_more [OF d4])
  show "4 dvd j" using al by (simp add: j_def)
qed

lemma saturating_dec_Suc: "Suc k < 2 ^ 32 \<Longrightarrow> saturating_dec (of_nat (Suc k)) = of_nat k"
proof -
  assume "Suc k < 2 ^ 32"
  then have "unat (of_nat (Suc k) :: u32) = Suc k" by (rule unat_of_nat_32)
  then have "(of_nat (Suc k) :: u32) \<noteq> 0" by (metis unat_0 nat.distinct(1))
  then show ?thesis by (simp add: saturating_dec_def)
qed

text \<open>A tree is read as its nodes in the order they begin, and reading goes on behind it.\<close>

lemma nodes_list_tree:
  assumes "\<forall>m \<in> set ms. 0 \<notin> set m"
  shows "drop i bl = enc_node ms t @ r \<Longrightarrow> 4 dvd i \<Longrightarrow> tree_wf ms t \<Longrightarrow> k + length (enc_node ms t) < 2 ^ 32 \<Longrightarrow>
    \<exists>ns. nodes_list (nst bl (strings_block ms) i (of_nat k))
        = ns @ nodes_list (nst bl (strings_block ms) (i + length (enc_node ms t)) (of_nat k))
      \<and> list_all2 shows_node ns (preorder k t) \<and> 4 dvd i + length (enc_node ms t)"
proof (induction t arbitrary: i k r)
  case (DtNode nm ps cs)
  let ?ss = "strings_block ms"
  let ?P = "concat (map (enc_prop ms) ps)"
  let ?C = "concat (map (enc_node ms) cs)"
  have wf: "0 \<notin> set nm" "\<forall>p \<in> set ps. prop_wf ms p" "\<forall>c \<in> set cs. tree_wf ms c" using DtNode.prems(3) by simp_all
  have d: "drop i bl = be_bytes TOKEN_BEGIN_NODE @ padded (nm @ [0]) @ ?P @ ?C @ be_bytes TOKEN_END_NODE @ r"
    using DtNode.prems(1) by simp
  define j where "j = i + 4 + length (padded (nm @ [0]))"
  note b = nodes_begin [OF d DtNode.prems(2) wf(1), folded j_def]
  obtain w r' where w: "w \<noteq> TOKEN_PROP" "?C @ be_bytes TOKEN_END_NODE @ r = be_bytes w @ r'" using after_props by blast
  have head: "shows_node \<lparr>no_depth = of_nat k, no_properties = \<lparr>pr_cursor = cur bl j, pr_strings = ?ss\<rparr>\<rparr> (k, ps)"
    using properties_list_written [of j bl ms ps w r'] b(2,3) w wf(2) assms by (simp add: shows_node_def)
  define p where "p = j + length ?P"
  have skip: "nodes_list (nst bl ?ss j d') = nodes_list (nst bl ?ss p d')" "4 dvd p" for d'
    using nodes_skip_props [OF b(2,3) wf(2)] by (simp_all add: p_def)
  have dp: "drop p bl = ?C @ be_bytes TOKEN_END_NODE @ r" unfolding p_def by (rule drop_more [OF b(2)])
  have kids: "\<exists>ns. nodes_list (nst bl ?ss q (of_nat (Suc k))) = ns @ nodes_list (nst bl ?ss (q + length (concat (map (enc_node ms) cs'))) (of_nat (Suc k)))
      \<and> list_all2 shows_node ns (concat (map (preorder (Suc k)) cs')) \<and> 4 dvd q + length (concat (map (enc_node ms) cs'))"
    if "drop q bl = concat (map (enc_node ms) cs') @ x" "4 dvd q" "set cs' \<subseteq> set cs"
      "Suc k + length (concat (map (enc_node ms) cs')) < 2 ^ 32" for q cs' x
    using that
  proof (induction cs' arbitrary: q)
    case (Cons c cs')
    have dc: "drop q bl = enc_node ms c @ concat (map (enc_node ms) cs') @ x" using Cons.prems(1) by simp
    have c: "c \<in> set cs" "tree_wf ms c" using Cons.prems(3) wf(3) by auto
    obtain ns where ns: "nodes_list (nst bl ?ss q (of_nat (Suc k))) = ns @ nodes_list (nst bl ?ss (q + length (enc_node ms c)) (of_nat (Suc k)))"
        "list_all2 shows_node ns (preorder (Suc k) c)" "4 dvd q + length (enc_node ms c)"
      using DtNode.IH [OF c(1) dc Cons.prems(2) c(2), of "Suc k"] Cons.prems(4) by auto
    obtain ns' where ns': "nodes_list (nst bl ?ss (q + length (enc_node ms c)) (of_nat (Suc k)))
          = ns' @ nodes_list (nst bl ?ss (q + length (enc_node ms c) + length (concat (map (enc_node ms) cs'))) (of_nat (Suc k)))"
        "list_all2 shows_node ns' (concat (map (preorder (Suc k)) cs'))" "4 dvd q + length (enc_node ms c) + length (concat (map (enc_node ms) cs'))"
      using Cons.IH [OF drop_more [OF dc] ns(3)] Cons.prems(3,4) by auto
    show ?case using ns ns' by (intro exI [of _ "ns @ ns'"]) (simp add: list_all2_appendI add.assoc)
  qed simp
  obtain ns where ns: "nodes_list (nst bl ?ss p (of_nat (Suc k))) = ns @ nodes_list (nst bl ?ss (p + length ?C) (of_nat (Suc k)))"
      "list_all2 shows_node ns (concat (map (preorder (Suc k)) cs))" "4 dvd p + length ?C"
    using kids [OF dp skip(2)] DtNode.prems(4) by auto
  have finish: "nodes_list (nst bl ?ss (p + length ?C) (of_nat (Suc k))) = nodes_list (nst bl ?ss (p + length ?C + 4) (of_nat k))"
    using nodes_end [OF drop_more [OF dp], of ?ss "of_nat (Suc k)"] saturating_dec_Suc [of k] DtNode.prems(4) by simp
  have stop: "i + length (enc_node ms (DtNode nm ps cs)) = p + length ?C + 4" by (simp add: p_def j_def)
  have "nodes_list (nst bl ?ss i (of_nat k)) = (\<lparr>no_depth = of_nat k, no_properties = \<lparr>pr_cursor = cur bl j, pr_strings = ?ss\<rparr>\<rparr> # ns)
      @ nodes_list (nst bl ?ss (p + length ?C + 4) (of_nat k))"
    using b(1) [of ?ss "of_nat k"] skip(1) [of "of_nat (Suc k)"] ns(1) finish by (simp add: add.commute)
  moreover have "list_all2 shows_node (\<lparr>no_depth = of_nat k, no_properties = \<lparr>pr_cursor = cur bl j, pr_strings = ?ss\<rparr>\<rparr> # ns) (preorder k (DtNode nm ps cs))"
    using head ns(2) by simp
  moreover have "4 dvd p + length ?C + 4" using ns(3) by simp
  ultimately show ?case unfolding stop by blast
qed

lemma nodes_list_done: "drop i bl = be_bytes TOKEN_END \<Longrightarrow> nodes_list (nst bl ss i d) = []"
proof -
  assume "drop i bl = be_bytes TOKEN_END"
  then have d: "drop i bl = be_bytes TOKEN_END @ []" by simp
  have "cu_done (cur bl (i + 4))" using drop_more [OF d] by (intro done_at) simp
  then have "nodes_list (nst bl ss (i + 4) d) = []" by (subst nodes_list.simps) (simp add: nodes_turn_def)
  then show ?thesis using read_at [OF d] not_done_at [OF d] by (subst nodes_list.simps) (simp add: nodes_turn_def)
qed

lemma nodes_list_struct:
  assumes "\<forall>m \<in> set ms. 0 \<notin> set m" "tree_wf ms t" "length (enc_node ms t) < 2 ^ 32"
  shows "list_all2 shows_node (nodes_list (nodes_new (enc_node ms t @ be_bytes TOKEN_END) (strings_block ms))) (preorder 0 t)"
  using nodes_list_tree [OF assms(1), of 0 "enc_node ms t @ be_bytes TOKEN_END" t "be_bytes TOKEN_END" 0] assms(2,3)
    nodes_list_done [of "length (enc_node ms t)" "enc_node ms t @ be_bytes TOKEN_END"]
  by (auto simp: nodes_new_def cu_new_def)

end
