(* ===== verification/BoardCorrect.thy ===== *)
theory BoardCorrect
  imports DtbCorrect
begin

text \<open>
  The board of a device tree: what the tree says, over the tree itself, and that \<open>discover\<close> reads exactly this
  from the blob that flattens it.
\<close>

subsection \<open>What a tree says\<close>

definition dt_get :: "dt_node \<Rightarrow> string \<Rightarrow> u8 list option" where
  "dt_get t name = map_of (dn_props t) (ascii name)"

definition dt_is_memory :: "dt_node \<Rightarrow> bool" where
  "dt_is_memory t \<longleftrightarrow> dt_get t ''device_type'' = Some (ascii ''memory'' @ [0])"

definition dt_is_compatible :: "string \<Rightarrow> dt_node \<Rightarrow> bool" where
  "dt_is_compatible name t \<longleftrightarrow> (case dt_get t ''compatible'' of None \<Rightarrow> False | Some v \<Rightarrow> ascii name \<in> set (split_zero v))"

definition dt_child :: "dt_node \<Rightarrow> (dt_node \<Rightarrow> bool) \<Rightarrow> dt_node option" where
  "dt_child t P = find P (dn_children t)"

definition dt_cell_count :: "dt_node \<Rightarrow> string \<Rightarrow> nat \<Rightarrow> nat" where
  "dt_cell_count t name dflt = (case dt_get t name of
      None \<Rightarrow> dflt | Some v \<Rightarrow> if 4 \<le> length v then unat (from_be_bytes (take 4 v)) else dflt)"

definition dt_cells :: "dt_node \<Rightarrow> nat \<times> nat" where
  "dt_cells t = (dt_cell_count t ''#address-cells'' 2, dt_cell_count t ''#size-cells'' 1)"

text \<open>Numbers of up to two cells, the entries of \<open>reg\<close>, the entries of \<open>interrupts\<close>.\<close>

definition enc_cells :: "nat \<Rightarrow> u64 \<Rightarrow> u8 list" where
  "enc_cells k w = (if k = 0 then [] else if k = 1 then be_bytes (ucast w)
     else be_bytes (ucast (drop_bit 32 w)) @ be_bytes (ucast w))"

definition cells_fit :: "nat \<Rightarrow> u64 \<Rightarrow> bool" where
  "cells_fit k w \<longleftrightarrow> k \<le> 2 \<and> drop_bit (32 * k) w = 0"

definition enc_reg :: "nat \<times> nat \<Rightarrow> (u64 \<times> u64) list \<Rightarrow> u8 list" where
  "enc_reg = (\<lambda>(a, s) rs. concat (map (\<lambda>(b, n). enc_cells a b @ enc_cells s n) rs))"

definition enc_interrupts :: "(u32 \<times> u32 \<times> u32) list \<Rightarrow> u8 list" where
  "enc_interrupts js = concat (map (\<lambda>(k, n, f). be_bytes k @ be_bytes n @ be_bytes f) js)"

definition has_reg :: "nat \<times> nat \<Rightarrow> dt_node \<Rightarrow> (u64 \<times> u64) list \<Rightarrow> bool" where
  "has_reg cells t rs \<longleftrightarrow> dt_get t ''reg'' = Some (enc_reg cells rs)
    \<and> (\<forall>(b, n) \<in> set rs. cells_fit (fst cells) b \<and> cells_fit (snd cells) n)"

definition has_interrupts :: "dt_node \<Rightarrow> (u32 \<times> u32 \<times> u32) list \<Rightarrow> bool" where
  "has_interrupts t js \<longleftrightarrow> dt_get t ''interrupts'' = Some (enc_interrupts js)"

text \<open>The number the GIC knows an interrupt by: shared ones from 32 on, private ones from 16 on.\<close>

definition gic_number :: "u32 \<times> u32 \<times> u32 \<Rightarrow> u32 \<Rightarrow> bool" where
  "gic_number x i \<longleftrightarrow> (case x of (k, n, f) \<Rightarrow> k = 0 \<and> i = n + 32 \<or> k = 1 \<and> i = n + 16)"

subsection \<open>Reading values\<close>

lemma read_cells_written:
  assumes "cells_fit k w"
  shows "read_cells (enc_cells k w @ r) k = Some w"
proof -
  have pair: "push_bit 32 (ucast (ucast (drop_bit 32 w) :: u32)) OR ucast (ucast w :: u32) = w"
    by (rule bit_word_eqI) (auto simp: bit_simps)
  have small: "ucast (ucast w :: u32) = w" if "drop_bit 32 w = 0"
  proof (rule bit_word_eqI)
    fix n assume n: "n < LENGTH(64)"
    have "\<not> bit w n" if "32 \<le> n"
    proof -
      have "bit (drop_bit 32 w) (n - 32) = bit w n" using that by (simp add: bit_simps)
      then show ?thesis using \<open>drop_bit 32 w = 0\<close> by simp
    qed
    then show "bit (ucast (ucast w :: u32) :: u64) n = bit w n" using n by (cases "32 \<le> n") (auto simp: bit_simps)
  qed
  have "k = 0 \<or> k = 1 \<or> k = 2" using assms by (auto simp: cells_fit_def)
  then show ?thesis
  proof (elim disjE)
    assume k: "k = 0"
    then show ?thesis using assms by (simp add: read_cells_def cells_fit_def)
  next
    assume k: "k = 1"
    then show ?thesis using assms small read_at [of 0 "be_bytes (ucast w) @ r" "ucast w" r]
      by (simp add: read_cells_def cells_fit_def enc_cells_def cu_new_def)
  next
    assume k: "k = 2"
    let ?bl = "be_bytes (ucast (drop_bit 32 w)) @ be_bytes (ucast w) @ r"
    have d: "drop 0 ?bl = be_bytes (ucast (drop_bit 32 w)) @ be_bytes (ucast w) @ r" by simp
    have "drop 4 ?bl = be_bytes (ucast w) @ r" using drop_more [OF d] by simp
    then show ?thesis using k read_at [OF d] read_at [of 4 ?bl "ucast w" r] pair
      by (simp add: read_cells_def enc_cells_def cu_new_def numeral_2_eq_2)
  qed
qed

lemma length_enc_cells: "k \<le> 2 \<Longrightarrow> length (enc_cells k w) = 4 * k"
  by (auto simp: enc_cells_def)

lemma length_enc_reg: "a \<le> 2 \<Longrightarrow> s \<le> 2 \<Longrightarrow> length (enc_reg (a, s) rs) = length rs * (a + s) * 4"
  by (induction rs) (auto simp: enc_reg_def length_enc_cells algebra_simps)

lemma enc_reg_split:
  assumes "i < length rs" "a \<le> 2" "s \<le> 2"
  shows "drop (i * (a + s) * 4) (enc_reg (a, s) rs) = enc_cells a (fst (rs ! i)) @ enc_cells s (snd (rs ! i)) @ enc_reg (a, s) (drop (Suc i) rs)"
proof -
  have "rs = take i rs @ rs ! i # drop (Suc i) rs" using assms(1) by (rule id_take_nth_drop)
  then have "enc_reg (a, s) rs = enc_reg (a, s) (take i rs) @ enc_cells a (fst (rs ! i)) @ enc_cells s (snd (rs ! i)) @ enc_reg (a, s) (drop (Suc i) rs)"
    by (metis (no_types, lifting) append_assoc case_prod_beta concat.simps(2) concat_append enc_reg_def list.simps(9) map_append old.prod.case)
  moreover have "length (enc_reg (a, s) (take i rs)) = i * (a + s) * 4" using assms by (simp add: length_enc_reg)
  ultimately show ?thesis by (metis append_eq_conv_conj)
qed

lemma length_enc_interrupts: "length (enc_interrupts js) = length js * 12"
  by (induction js) (auto simp: enc_interrupts_def)

lemma enc_interrupts_split:
  assumes "i < length js"
  shows "drop (i * 12) (enc_interrupts js) = be_bytes (fst (js ! i)) @ be_bytes (fst (snd (js ! i))) @ be_bytes (snd (snd (js ! i))) @ enc_interrupts (drop (Suc i) js)"
proof -
  have "js = take i js @ js ! i # drop (Suc i) js" using assms by (rule id_take_nth_drop)
  then have "enc_interrupts js = enc_interrupts (take i js) @ be_bytes (fst (js ! i)) @ be_bytes (fst (snd (js ! i))) @ be_bytes (snd (snd (js ! i))) @ enc_interrupts (drop (Suc i) js)"
    by (metis (no_types, lifting) append_assoc case_prod_beta concat.simps(2) concat_append enc_interrupts_def list.simps(9) map_append)
  moreover have "length (enc_interrupts (take i js)) = i * 12" using assms by (simp add: length_enc_interrupts)
  ultimately show ?thesis by (metis append_eq_conv_conj)
qed

subsection \<open>Nodes that show a tree node\<close>

definition shows_tree :: "node \<Rightarrow> dt_node \<Rightarrow> bool" where
  "shows_tree n t \<longleftrightarrow> map (\<lambda>p. (p_name p, p_value p)) (properties_list (no_properties n)) = dn_props t"

lemma find_map_of: "map_option p_value (find (\<lambda>p. p_name p = name) ps) = map_of (map (\<lambda>p. (p_name p, p_value p)) ps) name"
  by (induction ps) auto

lemma shows_property:
  assumes "shows_tree n t"
  shows "map_option p_value (node_property n (ascii name)) = dt_get t name"
  using assms by (simp add: node_property_def find_map_of dt_get_def shows_tree_def)

lemma shows_property_Some:
  assumes "shows_tree n t" "dt_get t name = Some v"
  obtains p where "node_property n (ascii name) = Some p" "p_value p = v"
  using shows_property [OF assms(1), of name] assms(2) by auto

lemma shows_memory: "shows_tree n t \<Longrightarrow> is_memory n = dt_is_memory t"
  using shows_property [of n t "''device_type''"] by (auto simp: is_memory_def dt_is_memory_def split: option.splits)

lemma shows_compatible: "shows_tree n t \<Longrightarrow> is_compatible n (ascii c) = dt_is_compatible c t"
  using shows_property [of n t "''compatible''"]
  by (auto simp: is_compatible_def dt_is_compatible_def list_ex_iff split: option.splits)

lemma shows_cells: "shows_tree n t \<Longrightarrow> node_cells n = dt_cells t"
proof -
  assume n: "shows_tree n t"
  have "unat (case Option.bind (node_property n (ascii name)) property_as_u32 of None \<Rightarrow> dflt | Some w \<Rightarrow> w) =
      dt_cell_count t name (unat dflt)" for name dflt
    using shows_property [OF n, of name]
    by (cases "node_property n (ascii name)")
      (auto simp: dt_cell_count_def property_as_u32_def cu_read_u32_def cu_new_def get_range_def U32_SIZE_def split: option.splits)
  then show ?thesis by (simp add: node_cells_def dt_cells_def Let_def DEFAULT_ADDRESS_CELLS_def DEFAULT_SIZE_CELLS_def)
qed

lemma shows_region:
  assumes n: "shows_tree n t" and reg: "has_reg cells t rs" and i: "i < length rs" and c: "fst cells \<le> 2" "snd cells \<le> 2"
  shows "node_region n i cells = Some \<lparr>r_base = unat (fst (rs ! i)), r_size = unat (snd (rs ! i))\<rparr>"
proof -
  obtain a s where as: "cells = (a, s)" by (cases cells)
  have v: "dt_get t ''reg'' = Some (enc_reg (a, s) rs)" and fit: "cells_fit a (fst (rs ! i))" "cells_fit s (snd (rs ! i))"
    using reg nth_mem [OF i] as by (auto simp: has_reg_def case_prod_beta)
  obtain p where p: "node_property n (ascii ''reg'') = Some p" "p_value p = enc_reg (a, s) rs"
    by (rule shows_property_Some [OF n v])
  have le: "a \<le> 2" "s \<le> 2" using c as by simp_all
  have "i * (a + s) * 4 \<le> length rs * (a + s) * 4" using i by (intro mult_le_mono1) simp
  then have entry: "get_from (p_value p) (i * (a + s) * 4) =
      Some (enc_cells a (fst (rs ! i)) @ enc_cells s (snd (rs ! i)) @ enc_reg (a, s) (drop (Suc i) rs))"
    using length_enc_reg [OF le, of rs] by (simp add: get_from_def p(2) enc_reg_split [OF i le])
  have "get_from (enc_cells a (fst (rs ! i)) @ enc_cells s (snd (rs ! i)) @ enc_reg (a, s) (drop (Suc i) rs)) (a * 4) =
      Some (enc_cells s (snd (rs ! i)) @ enc_reg (a, s) (drop (Suc i) rs))"
    using length_enc_cells [OF le(1), of "fst (rs ! i)"] by (simp add: get_from_def)
  then show ?thesis
    using p(1) entry read_cells_written [OF fit(1)] read_cells_written [OF fit(2)] by (simp add: as node_region_def)
qed

lemma shows_interrupt:
  assumes n: "shows_tree n t" and ints: "has_interrupts t js" and i: "i < length js"
  shows "node_interrupt n i = Some (fst (js ! i), fst (snd (js ! i)))"
proof -
  obtain p where p: "node_property n (ascii ''interrupts'') = Some p" "p_value p = enc_interrupts js"
    using shows_property_Some [OF n] ints unfolding has_interrupts_def by blast
  let ?e = "be_bytes (fst (js ! i)) @ be_bytes (fst (snd (js ! i))) @ be_bytes (snd (snd (js ! i))) @ enc_interrupts (drop (Suc i) js)"
  have "i * INTERRUPT_CELLS * 4 = i * 12" by (simp add: INTERRUPT_CELLS_def)
  then have e: "get_from (p_value p) (i * INTERRUPT_CELLS * 4) = Some ?e"
    unfolding \<open>i * INTERRUPT_CELLS * 4 = i * 12\<close>
    using i length_enc_interrupts [of js] by (simp add: get_from_def p(2) enc_interrupts_split [OF i])
  have d: "drop 0 ?e = ?e" by simp
  have "drop 4 ?e = be_bytes (fst (snd (js ! i))) @ be_bytes (snd (snd (js ! i))) @ enc_interrupts (drop (Suc i) js)"
    using drop_more [OF d] by simp
  then show ?thesis using p(1) e read_at [OF d] read_at [of 4 ?e] by (simp add: node_interrupt_def cu_new_def)
qed

lemma shows_intid:
  assumes "shows_tree n t" "has_interrupts t js" "i < length js" "gic_number (js ! i) g"
  shows "intid n i = Some g"
  using shows_interrupt [OF assms(1-3)] assms(4) by (auto simp: intid_def gic_number_def split: prod.splits)

subsection \<open>Finding nodes\<close>

lemma preorder_depth: "x \<in> set (preorder k t) \<Longrightarrow> k \<le> fst x \<and> fst x < k + length (enc_node ms t)"
proof (induction t arbitrary: k)
  case (DtNode nm ps cs)
  show ?case
  proof (cases "x = (k, ps)")
    case False
    then obtain c where c: "c \<in> set cs" "x \<in> set (preorder (Suc k) c)" using DtNode.prems by auto
    have "length (enc_node ms c) \<le> length (concat (map (enc_node ms) cs))"
      using c(1) by (induction cs) auto
    then show ?thesis using DtNode.IH [OF c] by auto
  qed simp
qed

lemma filter_preorder:
  "filter (\<lambda>x. fst x = 1) (preorder 0 t) = map (\<lambda>c. (1, dn_props c)) (dn_children t)"
proof (cases t)
  case (DtNode nm ps cs)
  have "filter (\<lambda>x. fst x = 1) (preorder 1 c) = [(1, dn_props c)]" for c
  proof (cases c)
    case (DtNode nm' ps' cs')
    have "fst x \<noteq> 1" if "x \<in> set (concat (map (preorder (Suc 1)) cs'))" for x
      using that preorder_depth by fastforce
    then have "filter (\<lambda>x. fst x = 1) (concat (map (preorder (Suc 1)) cs')) = []" by (simp only: filter_empty_conv) blast
    then show ?thesis using DtNode by simp
  qed
  then have "filter (\<lambda>x. fst x = 1) (concat (map (preorder 1) cs)) = map (\<lambda>c. (1, dn_props c)) cs"
    by (induction cs) auto
  then show ?thesis using DtNode by simp
qed

lemma find_filter: "find (\<lambda>x. Q x \<and> P x) xs = find P (filter Q xs)"
  by (induction xs) auto

lemma find_all2:
  assumes "list_all2 R xs ys" "\<And>x y. R x y \<Longrightarrow> y \<in> set ys \<Longrightarrow> P x = Q y" "find Q ys = Some y"
  shows "\<exists>x. find P xs = Some x \<and> R x y"
  using assms
proof (induction xs ys rule: list_all2_induct)
  case (Cons x xs y' ys)
  show ?case
  proof (cases "Q y'")
    case True
    then show ?thesis using Cons.prems(2) Cons.hyps(1) Cons.prems by auto
  next
    case False
    then show ?thesis using Cons by auto
  qed
qed simp

text \<open>A lookup among the children of the root, by what it says of their properties.\<close>

text \<open>A lookup among the children of the root, by what it says of their properties.\<close>

lemma find_of_map: "find P (map f xs) = map_option f (find (P \<circ> f) xs)"
  by (induction xs) auto

lemma find_child:
  assumes ns: "list_all2 shows_node ns (preorder 0 t)" and len: "length (enc_node ms t) < 2 ^ 32"
    and P: "\<And>n c. shows_tree n c \<Longrightarrow> P n = Q c" and c: "dt_child t Q = Some c"
    and Q: "\<And>c. Q (DtNode [] (dn_props c) []) = Q c"
  shows "\<exists>n. find (\<lambda>n. no_depth n = ROOT_CHILD_DEPTH \<and> P n) ns = Some n \<and> shows_tree n c"
proof -
  let ?Q = "\<lambda>x. Q (DtNode [] (snd x) [])"
  have depth: "(of_nat (fst x) :: u32) = 1 \<longleftrightarrow> fst x = 1" if "x \<in> set (preorder 0 t)" for x
  proof -
    have "fst x < 2 ^ 32" using preorder_depth [OF that, of ms] len by simp
    then have "unat (of_nat (fst x) :: u32) = fst x" by (rule unat_of_nat_32)
    then show ?thesis by (metis unat_1 of_nat_1)
  qed
  have comp: "?Q \<circ> (\<lambda>c. (1 :: nat, dn_props c)) = Q" by (simp add: fun_eq_iff Q)
  have "find ?Q (map (\<lambda>c. (1 :: nat, dn_props c)) (dn_children t)) = Some (1, dn_props c)"
    unfolding find_of_map comp using c by (simp add: dt_child_def)
  then have "find (\<lambda>x. fst x = 1 \<and> ?Q x) (preorder 0 t) = Some (1, dn_props c)"
    by (simp only: find_filter filter_preorder)
  then obtain n where "find (\<lambda>n. no_depth n = ROOT_CHILD_DEPTH \<and> P n) ns = Some n" "shows_node n (1, dn_props c)"
    using find_all2 [OF ns, of "\<lambda>n. no_depth n = ROOT_CHILD_DEPTH \<and> P n" "\<lambda>x. fst x = 1 \<and> ?Q x" "(1, dn_props c)"]
      depth P [of _ "DtNode [] (snd _) []"]
    by (auto simp: shows_node_def ROOT_CHILD_DEPTH_def shows_tree_def)
  then show ?thesis by (auto simp: shows_node_def shows_tree_def)
qed

subsection \<open>The blob\<close>

fun dt_zero_free :: "dt_node \<Rightarrow> bool" where
  "dt_zero_free (DtNode nm ps cs) \<longleftrightarrow> 0 \<notin> set nm \<and> (\<forall>p \<in> set ps. 0 \<notin> set (fst p)) \<and> (\<forall>c \<in> set cs. dt_zero_free c)"

definition structure_block :: "dt_node \<Rightarrow> u8 list" where
  "structure_block t = enc_node (dt_names t) t @ be_bytes TOKEN_END"

text \<open>Header, an empty memory reservation block, the structure block, the strings block.\<close>

definition flatten :: "dt_node \<Rightarrow> u8 list" where
  "flatten t =
    (let st = structure_block t; ss = strings_block (dt_names t) in
     be_bytes MAGIC @ be_bytes (of_nat (56 + length st + length ss)) @ be_bytes 56 @ be_bytes (of_nat (56 + length st))
     @ be_bytes 40 @ be_bytes 17 @ be_bytes 16 @ be_bytes 0 @ be_bytes (of_nat (length ss)) @ be_bytes (of_nat (length st))
     @ replicate 16 0 @ st @ ss)"

lemma length_flatten: "length (flatten t) = 56 + length (structure_block t) + length (strings_block (dt_names t))"
  by (simp add: flatten_def Let_def)

lemma names_zero_free: "dt_zero_free t \<Longrightarrow> \<forall>m \<in> set (dt_names t). 0 \<notin> set m"
  by (induction t) auto

lemma string_offset_le: "string_offset ms n \<le> length (strings_block ms)"
  by (induction ms) (auto simp: strings_block_def)

lemma enc_prop_le: "length v \<le> length (enc_prop ms (n, v))"
  by (simp add: enc_prop_def length_padded)

lemma length_in_concat: "x \<in> set xs \<Longrightarrow> length (f x) \<le> length (concat (map f xs))"
  by (induction xs) auto

lemma tree_wf_sub:
  "dt_zero_free t \<Longrightarrow> set (dt_names t) \<subseteq> set ms \<Longrightarrow> length (enc_node ms t) < 2 ^ 32 \<Longrightarrow> length (strings_block ms) < 2 ^ 32 \<Longrightarrow> tree_wf ms t"
proof (induction t)
  case (DtNode nm ps cs)
  have "prop_wf ms p" if "p \<in> set ps" for p
  proof -
    obtain n v where p: "p = (n, v)" by (cases p)
    have "n \<in> set ms" using DtNode.prems(2) that p by force
    moreover have "length v < 2 ^ 32"
      using length_in_concat [OF that, of "enc_prop ms"] enc_prop_le [of v ms n] DtNode.prems(3) p by simp
    ultimately show ?thesis using string_offset_le [of ms n] DtNode.prems(4) p by (simp add: prop_wf_def)
  qed
  moreover have "tree_wf ms c" if "c \<in> set cs" for c
  proof (rule DtNode.IH [OF that _ _ _ DtNode.prems(4)])
    show "dt_zero_free c" using DtNode.prems(1) that by simp
    show "set (dt_names c) \<subseteq> set ms" using DtNode.prems(2) that by auto
    show "length (enc_node ms c) < 2 ^ 32" using length_in_concat [OF that, of "enc_node ms"] DtNode.prems(3) by simp
  qed
  ultimately show ?case using DtNode.prems(1) by simp
qed

lemma load_bytes_take: "load_bytes m a n = xs \<Longrightarrow> k \<le> n \<Longrightarrow> load_bytes m a k = take k xs"
  by (auto simp: load_bytes_def take_map)

lemma dtb_from_ptr_flatten:
  assumes blob: "load_bytes m base (length (flatten t)) = flatten t" and len: "length (flatten t) < 2 ^ 32"
  shows "\<exists>d. dtb_from_ptr m base = Some d \<and> dt_base d = base \<and> dt_blob d = flatten t
    \<and> dtb_nodes d = Some (nodes_new (structure_block t) (strings_block (dt_names t)))"
proof -
  define st ss where "st = structure_block t" and "ss = strings_block (dt_names t)"
  define h where "h = take 40 (flatten t)"
  have fl: "flatten t = be_bytes MAGIC @ be_bytes (of_nat (56 + length st + length ss)) @ be_bytes 56 @ be_bytes (of_nat (56 + length st))
     @ be_bytes 40 @ be_bytes 17 @ be_bytes 16 @ be_bytes 0 @ be_bytes (of_nat (length ss)) @ be_bytes (of_nat (length st))
     @ replicate 16 0 @ st @ ss"
    by (simp add: flatten_def st_def ss_def Let_def)
  have lens: "length (flatten t) = 56 + length st + length ss" by (simp add: length_flatten st_def ss_def)
  have h: "load_bytes m base HEADER_SIZE = h"
    unfolding h_def using load_bytes_take [OF blob] lens by (simp add: HEADER_SIZE_def)
  have fields: "u32_at h 0 = MAGIC" "u32_at h 0x18 = 16" "total_size h = of_nat (56 + length st + length ss)"
    "off_dt_struct h = 56" "off_dt_strings h = of_nat (56 + length st)" "size_dt_strings h = of_nat (length ss)"
    "size_dt_struct h = of_nat (length st)"
    by (simp_all add: u32_at_def total_size_def off_dt_struct_def off_dt_strings_def size_dt_strings_def size_dt_struct_def h_def fl
        del: of_nat_add)
  have hd: "header_from_ptr m base = Some h"
    using fields(1,2) h by (simp add: header_from_ptr_def Let_def SUPPORTED_VERSION_def)
  have nums: "unat (total_size h) = length (flatten t)" "unat (off_dt_strings h) = 56 + length st" "unat (size_dt_strings h) = length ss"
    "unat (size_dt_struct h) = length st" "unat (off_dt_struct h) = 56"
    using len lens by (simp_all only: fields unat_of_nat_32 lens) simp_all
  have strings: "get_range (flatten t) (56 + length st) (56 + length st + length ss) = Some ss"
    by (simp add: get_range_def lens) (simp add: fl)
  have struct: "get_range (flatten t) 56 (56 + length st) = Some st"
    by (simp add: get_range_def lens) (simp add: fl)
  let ?d = "\<lparr>dt_base = base, dt_blob = flatten t, dt_header = h, dt_strings = ss\<rparr>"
  have "dtb_from_ptr m base = Some ?d" using hd nums strings blob by (simp add: dtb_from_ptr_def Let_def)
  moreover have "dtb_nodes ?d = Some (nodes_new st ss)" using nums struct by (simp add: dtb_nodes_def Let_def)
  ultimately show ?thesis by (auto simp: st_def ss_def)
qed

lemma dt_is_memory_props: "dt_is_memory (DtNode [] (dn_props c) []) = dt_is_memory c"
  by (simp add: dt_is_memory_def dt_get_def)

lemma dt_is_compatible_props: "dt_is_compatible s (DtNode [] (dn_props c) []) = dt_is_compatible s c"
  by (simp add: dt_is_compatible_def dt_get_def)

text \<open>A blob that reads as a tree: the nodes of the one are those of the other.\<close>

definition reads :: "dtb \<Rightarrow> dt_node \<Rightarrow> bool" where
  "reads d t \<longleftrightarrow> (\<exists>ns. map_option nodes_list (dtb_nodes d) = Some ns \<and> list_all2 shows_node ns (preorder 0 t))
    \<and> (\<exists>ms. length (enc_node ms t) < 2 ^ 32)"

lemma dtb_from_ptr_reads:
  assumes "load_bytes m base (length (flatten t)) = flatten t" "length (flatten t) < 2 ^ 32" "dt_zero_free t"
  shows "\<exists>d. dtb_from_ptr m base = Some d \<and> dt_base d = base \<and> dt_blob d = flatten t \<and> reads d t"
proof -
  have small: "length (enc_node (dt_names t) t) < 2 ^ 32" "length (strings_block (dt_names t)) < 2 ^ 32"
    using assms(2) by (simp_all add: length_flatten structure_block_def)
  have "list_all2 shows_node (nodes_list (nodes_new (structure_block t) (strings_block (dt_names t)))) (preorder 0 t)"
    unfolding structure_block_def
    by (rule nodes_list_struct [OF names_zero_free [OF assms(3)] tree_wf_sub [OF assms(3) subset_refl small] small(1)])
  then show ?thesis using dtb_from_ptr_flatten [OF assms(1,2)] small(1) unfolding reads_def by fastforce
qed

lemma reads_cells: "reads d t \<Longrightarrow> root_cells d = Some (dt_cells t)"
proof -
  assume "reads d t"
  then obtain st ns where ns: "dtb_nodes d = Some st" "nodes_list st = ns" "list_all2 shows_node ns (preorder 0 t)"
    unfolding reads_def by auto
  obtain k ps rest where pre: "preorder 0 t = (k, ps) # rest" "ps = dn_props t" by (cases t) auto
  then obtain n ns' where n: "ns = n # ns'" "shows_node n (k, ps)" using ns(3) by (auto simp: list_all2_Cons2)
  then have "node_cells n = dt_cells t" using pre(2) by (intro shows_cells) (simp add: shows_tree_def shows_node_def)
  then show ?thesis using ns(1,2) n(1) by (simp add: root_cells_def)
qed

lemma reads_find:
  assumes "reads d t" "\<And>n c. shows_tree n c \<Longrightarrow> P n = Q c" "dt_child t Q = Some c" "\<And>c. Q (DtNode [] (dn_props c) []) = Q c"
  shows "\<exists>n. dtb_find d P = Some n \<and> shows_tree n c"
proof -
  obtain st ms where st: "dtb_nodes d = Some st" "list_all2 shows_node (nodes_list st) (preorder 0 t)" "length (enc_node ms t) < 2 ^ 32"
    using assms(1) unfolding reads_def by auto
  show ?thesis using find_child [OF st(2,3) assms(2-4)] st(1) by (simp add: dtb_find_def)
qed

lemma reads_memory: "reads d t \<Longrightarrow> dt_child t dt_is_memory = Some c \<Longrightarrow> \<exists>n. find_memory d = Some n \<and> shows_tree n c"
  unfolding find_memory_def by (rule reads_find [where Q = dt_is_memory]) (simp_all add: shows_memory dt_is_memory_props)

lemma reads_compatible:
  "reads d t \<Longrightarrow> dt_child t (dt_is_compatible s) = Some c \<Longrightarrow> \<exists>n. find_compatible d (ascii s) = Some n \<and> shows_tree n c"
  unfolding find_compatible_def by (rule reads_find [where Q = "dt_is_compatible s"]) (simp_all add: shows_compatible dt_is_compatible_props)

end
