(* ===== verification/PlatformProperties.thy ===== *)
theory PlatformProperties
  imports BoardCorrect
begin

text \<open>
  The property of the device tree reader: what the kernel finds out about its board is what the tree says.
\<close>

definition reg_at :: "dt_node \<Rightarrow> dt_node \<Rightarrow> nat \<Rightarrow> region \<Rightarrow> bool" where
  "reg_at root t i r \<longleftrightarrow> (\<exists>rs. has_reg (dt_cells root) t rs \<and> i < length rs
    \<and> r = \<lparr>r_base = unat (fst (rs ! i)), r_size = unat (snd (rs ! i))\<rparr>)"

definition interrupt_at :: "dt_node \<Rightarrow> nat \<Rightarrow> u32 \<Rightarrow> bool" where
  "interrupt_at t i g \<longleftrightarrow> (\<exists>js. has_interrupts t js \<and> i < length js \<and> gic_number (js ! i) g)"

text \<open>What a tree must say for a board, node by node: always the first child of the root that fits.\<close>

definition describes :: "dt_node \<Rightarrow> board \<Rightarrow> bool" where
  "describes t b \<longleftrightarrow> fst (dt_cells t) \<le> 2 \<and> snd (dt_cells t) \<le> 2 \<and>
    (\<exists>memory uart gic timer psci uart_size distributor_size cpu_size.
      dt_child t dt_is_memory = Some memory \<and> reg_at t memory 0 (b_memory b)
    \<and> dt_child t (dt_is_compatible ''arm,pl011'') = Some uart
    \<and> reg_at t uart 0 \<lparr>r_base = dev_base (b_uart b), r_size = uart_size\<rparr> \<and> interrupt_at uart 0 (dev_intid (b_uart b))
    \<and> dt_child t (dt_is_compatible ''arm,cortex-a15-gic'') = Some gic
    \<and> reg_at t gic 0 \<lparr>r_base = distributor_base (b_gic b), r_size = distributor_size\<rparr>
    \<and> reg_at t gic 1 \<lparr>r_base = cpu_base (b_gic b), r_size = cpu_size\<rparr>
    \<and> dt_child t (dt_is_compatible ''arm,armv8-timer'') = Some timer \<and> interrupt_at timer 1 (b_timer_intid b)
    \<and> dt_child t (dt_is_compatible ''arm,psci-0.2'') = Some psci
    \<and> dt_get psci ''method'' = Some (ascii (case b_psci b of Hvc \<Rightarrow> ''hvc'' | Smc \<Rightarrow> ''smc'') @ [0]))"

lemma methods_differ: "ascii ''smc'' @ [0] \<noteq> ascii ''hvc'' @ [0]"
  by (simp add: ascii_def of_char_def)

lemma reg_at_reads: "describes t b \<Longrightarrow> shows_tree n c \<Longrightarrow> reg_at t c i r \<Longrightarrow> node_region n i (dt_cells t) = Some r"
  using shows_region [of n c "dt_cells t" _ i] by (auto simp: reg_at_def describes_def)

lemma interrupt_at_reads: "shows_tree n c \<Longrightarrow> interrupt_at c i g \<Longrightarrow> intid n i = Some g"
  using shows_intid [of n c] by (auto simp: interrupt_at_def)

lemma board_discover_reads:
  assumes reads: "reads d t" and board: "describes t b"
  shows "board_discover d = Inr b"
proof -
  note reg = reg_at_reads [OF board] and int = interrupt_at_reads
  obtain memory uart gic timer psci uart_size distributor_size cpu_size where
      memory: "dt_child t dt_is_memory = Some memory" "reg_at t memory 0 (b_memory b)"
    and uart: "dt_child t (dt_is_compatible ''arm,pl011'') = Some uart"
      "reg_at t uart 0 \<lparr>r_base = dev_base (b_uart b), r_size = uart_size\<rparr>" "interrupt_at uart 0 (dev_intid (b_uart b))"
    and gic: "dt_child t (dt_is_compatible ''arm,cortex-a15-gic'') = Some gic"
      "reg_at t gic 0 \<lparr>r_base = distributor_base (b_gic b), r_size = distributor_size\<rparr>"
      "reg_at t gic 1 \<lparr>r_base = cpu_base (b_gic b), r_size = cpu_size\<rparr>"
    and timer: "dt_child t (dt_is_compatible ''arm,armv8-timer'') = Some timer" "interrupt_at timer 1 (b_timer_intid b)"
    and psci: "dt_child t (dt_is_compatible ''arm,psci-0.2'') = Some psci"
      "dt_get psci ''method'' = Some (ascii (case b_psci b of Hvc \<Rightarrow> ''hvc'' | Smc \<Rightarrow> ''smc'') @ [0])"
    using board unfolding describes_def by blast
  obtain n1 where n1: "find_memory d = Some n1" "shows_tree n1 memory" using reads_memory [OF reads memory(1)] by blast
  obtain n2 n3 n4 n5 where n: "find_compatible d (ascii UART) = Some n2" "shows_tree n2 uart"
      "find_compatible d (ascii GIC) = Some n3" "shows_tree n3 gic"
      "find_compatible d (ascii TIMER) = Some n4" "shows_tree n4 timer"
      "find_compatible d (ascii PSCI) = Some n5" "shows_tree n5 psci"
    using reads_compatible [OF reads uart(1)] reads_compatible [OF reads gic(1)]
      reads_compatible [OF reads timer(1)] reads_compatible [OF reads psci(1)]
    unfolding UART_def GIC_def TIMER_def PSCI_def by blast
  obtain p where p: "node_property n5 (ascii ''method'') = Some p"
      "p_value p = ascii (case b_psci b of Hvc \<Rightarrow> ''hvc'' | Smc \<Rightarrow> ''smc'') @ [0]"
    by (rule shows_property_Some [OF n(8) psci(2)])
  have conduit: "(if p_value p = ascii ''hvc'' @ [0] then Inr Hvc else if p_value p = ascii ''smc'' @ [0] then Inr Smc else Inl PSCI)
      = Inr (b_psci b)"
    using p(2) methods_differ by (cases "b_psci b") simp_all
  show ?thesis
    unfolding board_discover_def reads_cells [OF reads] n1(1) n(1,3,5,7) reg [OF n1(2) memory(2)] reg [OF n(2) uart(2)]
      int [OF n(2) uart(3)] reg [OF n(4) gic(2)] reg [OF n(4) gic(3)] NON_SECURE_PHYSICAL_def int [OF n(6) timer(2)] p(1)
      ok_or_simps ebind_simps conduit
    by simp
qed

lemma discover_reads:
  assumes blob: "load_bytes m base (length (flatten t)) = flatten t" and len: "length (flatten t) < 2 ^ 32"
    and zero: "dt_zero_free t" and board: "describes t b"
  shows "\<exists>d. discover m base = Inr (d, b) \<and> dtb_region d = \<lparr>r_base = base, r_size = length (flatten t)\<rparr>"
proof -
  obtain d where d: "dtb_from_ptr m base = Some d" "dt_base d = base" "dt_blob d = flatten t" "reads d t"
    using dtb_from_ptr_reads [OF blob len zero] by blast
  have "discover m base = Inr (d, b)" using board_discover_reads [OF d(4) board] by (simp add: discover_def d(1))
  then show ?thesis using d(2,3) by (auto simp: dtb_region_def)
qed

text \<open>
  C37. The board is read from the device tree as it is: when memory at the pointer holds the flattened form of a
  tree (any tree whose names hold no zero byte, below 4 GiB) and the tree describes a board, \<open>discover\<close> returns
  exactly this board, and the blob's own region. The pass over tokens, padding, string offsets and cell counts,
  the iterators and the skipping of deeper nodes are all behind this statement.
\<close>

theorem discover_correct:
  assumes blob: "load_bytes m base (length (flatten t)) = flatten t" and len: "length (flatten t) < 2 ^ 32"
    and zero: "dt_zero_free t" and board: "describes t b"
  shows "\<exists>d. discover m base = Inr (d, b) \<and> dtb_region d = \<lparr>r_base = base, r_size = length (flatten t)\<rparr>"
  using assms by (rule discover_reads)

lemma unat_of_char: "unat (of_char c :: u8) = of_char c"
proof -
  have "(of_char c :: u8) = of_nat (of_char c)" by (simp only: of_nat_of_char)
  moreover have "(of_char c :: nat) < 2 ^ 8" using nat_of_char_less_256 [of c] by simp
  ultimately show ?thesis by (simp add: unsigned_of_nat take_bit_nat_eq_self)
qed

lemma ascii_eq: "ascii s = ascii t \<longleftrightarrow> s = t"
proof -
  have "inj (of_char :: char \<Rightarrow> u8)" by (rule injI) (metis unat_of_char of_char_eq_iff)
  then show ?thesis by (simp add: ascii_def inj_map_eq_map)
qed

lemma ascii_zero: "0 \<in> set (ascii s) \<longleftrightarrow> CHR 0x00 \<in> set s"
proof -
  have zero: "(of_char (CHR 0x00) :: nat) = 0" by (simp add: of_char_def)
  have "of_char c = (0 :: u8) \<longleftrightarrow> c = CHR 0x00" for c
  proof -
    have "of_char c = (0 :: u8) \<longleftrightarrow> (of_char c :: nat) = 0"
      using unat_of_char [of c] unat_eq_0 [of "of_char c :: u8"] by simp
    also have "\<dots> \<longleftrightarrow> c = CHR 0x00" by (metis zero of_char_eq_iff)
    finally show ?thesis .
  qed
  then show ?thesis by (force simp: ascii_def)
qed

lemma ascii_Nil: "ascii s = [] \<longleftrightarrow> s = []"
  by (simp add: ascii_def)

lemma split_zero_append: "0 \<notin> set s \<Longrightarrow> split_zero (s @ 0 # r) = s # split_zero r"
  by (induction s) auto

text \<open>A board with the devices of the \<open>virt\<close> machine, small enough to compute with.\<close>

definition demo_tree :: dt_node where
  "demo_tree = DtNode [] [(ascii ''#address-cells'', be_bytes 1), (ascii ''#size-cells'', be_bytes 1)]
    [DtNode [99] [(ascii ''compatible'', ascii ''syscon'' @ [0]), (ascii ''reg'', [7])] [DtNode [100] [(ascii ''device_type'', ascii ''memory'' @ [0])] []],
     DtNode [109] [(ascii ''device_type'', ascii ''memory'' @ [0]), (ascii ''reg'', be_bytes 0x40000000 @ be_bytes 0x8000000)] [],
     DtNode [117] [(ascii ''compatible'', ascii ''arm,pl011'' @ [0]), (ascii ''reg'', be_bytes 0x9000000 @ be_bytes 0x1000),
       (ascii ''interrupts'', be_bytes 0 @ be_bytes 1 @ be_bytes 4)] [],
     DtNode [103] [(ascii ''compatible'', ascii ''arm,cortex-a15-gic'' @ [0]),
       (ascii ''reg'', be_bytes 0x8000000 @ be_bytes 0x10000 @ be_bytes 0x8010000 @ be_bytes 0x10000)] [],
     DtNode [116] [(ascii ''compatible'', ascii ''arm,armv8-timer'' @ 0 # ascii ''arm,armv7-timer'' @ [0]),
       (ascii ''interrupts'', be_bytes 1 @ be_bytes 13 @ be_bytes 4 @ be_bytes 1 @ be_bytes 14 @ be_bytes 4)] [],
     DtNode [112] [(ascii ''compatible'', ascii ''arm,psci-0.2'' @ [0]), (ascii ''method'', ascii ''hvc'' @ [0])] []]"

definition demo_board :: board where
  "demo_board = \<lparr>b_uart = \<lparr>dev_base = 0x9000000, dev_intid = 33\<rparr>,
    b_gic = \<lparr>distributor_base = 0x8000000, cpu_base = 0x8010000\<rparr>,
    b_memory = \<lparr>r_base = 0x40000000, r_size = 0x8000000\<rparr>, b_timer_intid = 30, b_psci = Hvc\<rparr>"

lemmas demo_eval = demo_tree_def dt_child_def dt_is_memory_def dt_is_compatible_def dt_get_def ascii_eq ascii_zero ascii_Nil split_zero_append

lemma demo_cells: "dt_cells demo_tree = (1, 1)"
  by (simp add: demo_eval dt_cells_def dt_cell_count_def from_be_bytes_be be_bytes_def from_be_bytes_def)

lemma demo_child:
  "dt_child demo_tree dt_is_memory = Some (dn_children demo_tree ! 1)"
  "dt_child demo_tree (dt_is_compatible ''arm,pl011'') = Some (dn_children demo_tree ! 2)"
  "dt_child demo_tree (dt_is_compatible ''arm,cortex-a15-gic'') = Some (dn_children demo_tree ! 3)"
  "dt_child demo_tree (dt_is_compatible ''arm,armv8-timer'') = Some (dn_children demo_tree ! 4)"
  "dt_child demo_tree (dt_is_compatible ''arm,psci-0.2'') = Some (dn_children demo_tree ! 5)"
  by (simp_all add: demo_eval)

lemma demo_reg:
  "has_reg (1, 1) (dn_children demo_tree ! 1) [(0x40000000, 0x8000000)]"
  "has_reg (1, 1) (dn_children demo_tree ! 2) [(0x9000000, 0x1000)]"
  "has_reg (1, 1) (dn_children demo_tree ! 3) [(0x8000000, 0x10000), (0x8010000, 0x10000)]"
  by (simp_all add: has_reg_def demo_eval enc_reg_def enc_cells_def cells_fit_def drop_bit_eq_div)

lemma demo_interrupts:
  "has_interrupts (dn_children demo_tree ! 2) [(0, 1, 4)]"
  "has_interrupts (dn_children demo_tree ! 4) [(1, 13, 4), (1, 14, 4)]"
  by (simp_all add: has_interrupts_def demo_eval enc_interrupts_def)

lemma demo_describes: "describes demo_tree demo_board"
proof -
  have reg: "reg_at demo_tree (dn_children demo_tree ! 1) 0 (b_memory demo_board)"
    "reg_at demo_tree (dn_children demo_tree ! 2) 0 \<lparr>r_base = dev_base (b_uart demo_board), r_size = 0x1000\<rparr>"
    "reg_at demo_tree (dn_children demo_tree ! 3) 0 \<lparr>r_base = distributor_base (b_gic demo_board), r_size = 0x10000\<rparr>"
    "reg_at demo_tree (dn_children demo_tree ! 3) 1 \<lparr>r_base = cpu_base (b_gic demo_board), r_size = 0x10000\<rparr>"
    using demo_reg unfolding reg_at_def demo_cells
    by (auto simp: demo_board_def intro!: exI)
  have int: "interrupt_at (dn_children demo_tree ! 2) 0 (dev_intid (b_uart demo_board))"
    "interrupt_at (dn_children demo_tree ! 4) 1 (b_timer_intid demo_board)"
    using demo_interrupts unfolding interrupt_at_def by (auto simp: demo_board_def gic_number_def intro!: exI)
  have "dt_get (dn_children demo_tree ! 5) ''method'' = Some (ascii ''hvc'' @ [0])" by (simp add: demo_eval)
  then show ?thesis
    unfolding describes_def using demo_child reg int by (auto simp: demo_cells demo_board_def)
qed

lemma demo_length: "length (flatten demo_tree) < 2 ^ 32"
  by (simp add: length_flatten structure_block_def strings_block_def demo_tree_def enc_prop_def length_padded padding_def ascii_def)

lemma demo_zero_free: "dt_zero_free demo_tree"
  by (simp add: demo_eval)

theorem discover_correct_witness:
  "\<exists>d. discover (\<lambda>a. flatten demo_tree ! (a - 64)) 64 = Inr (d, demo_board)
    \<and> dtb_region d = \<lparr>r_base = 64, r_size = length (flatten demo_tree)\<rparr>"
proof -
  have "load_bytes (\<lambda>a. flatten demo_tree ! (a - 64)) 64 (length (flatten demo_tree)) = flatten demo_tree"
    by (simp add: load_bytes_def map_nth)
  then show ?thesis by (rule discover_correct [OF _ demo_length demo_zero_free demo_describes])
qed

end
