(* ===== verification/Uart.thy ===== *)
theory Uart
  imports Input
begin

text \<open>
  The PL011 driver (\<open>src/src/drivers/pl011.rs\<close>) over the volatile accesses of \<open>src/src/lib/mmio.rs\<close>. The devices
  are not code of the kernel: they are a state of an arbitrary type and an argument \<open>hw\<close> that says what
  reading and writing their registers does (the system registers of the generic timer among them). A loop that waits for a device has no value when the device
  keeps it waiting for ever; what the documents say of the device is stated where it is needed.
\<close>

record 'd hardware =
  hw_read32 :: "usize \<Rightarrow> 'd \<Rightarrow> u32 \<times> 'd"
  hw_write32 :: "usize \<Rightarrow> u32 \<Rightarrow> 'd \<Rightarrow> 'd"
  hw_write8 :: "usize \<Rightarrow> u8 \<Rightarrow> 'd \<Rightarrow> 'd"
  hw_frequency :: "'d \<Rightarrow> u64"
  hw_count :: "'d \<Rightarrow> u64 \<times> 'd"
  hw_compare :: "'d \<Rightarrow> u64"
  hw_set_compare :: "u64 \<Rightarrow> 'd \<Rightarrow> 'd"
  hw_set_timer_value :: "u64 \<Rightarrow> 'd \<Rightarrow> 'd"
  hw_set_control :: "u64 \<Rightarrow> 'd \<Rightarrow> 'd"

subsection \<open>Registers\<close>

definition reg_DR :: usize where "reg_DR = 0x00"

definition reg_RSR_ECR :: usize where "reg_RSR_ECR = 0x04"

definition reg_FR :: usize where "reg_FR = 0x18"

definition reg_IBRD :: usize where "reg_IBRD = 0x24"

definition reg_FBRD :: usize where "reg_FBRD = 0x28"

definition reg_LCR_H :: usize where "reg_LCR_H = 0x2C"

definition reg_CR :: usize where "reg_CR = 0x30"

definition reg_IMSC :: usize where "reg_IMSC = 0x38"

definition reg_ICR :: usize where "reg_ICR = 0x44"

definition fr_BUSY :: u32 where "fr_BUSY = push_bit 3 1"

definition fr_RXFE :: u32 where "fr_RXFE = push_bit 4 1"

definition fr_TXFF :: u32 where "fr_TXFF = push_bit 5 1"

definition lcr_h_FEN :: u32 where "lcr_h_FEN = push_bit 4 1"

definition lcr_h_WLEN_8BIT :: u32 where "lcr_h_WLEN_8BIT = push_bit 5 3"

definition cr_DISABLE :: u32 where "cr_DISABLE = 0"

definition cr_ENABLE :: u32 where "cr_ENABLE = 0x301"

definition icr_ALL_MASK :: u32 where "icr_ALL_MASK = 0x7FF"

definition imsc_RX :: u32 where "imsc_RX = push_bit 4 1"

definition imsc_RT :: u32 where "imsc_RT = push_bit 6 1"

subsection \<open>Received bytes\<close>

type_synonym rx_flags = u32

definition FRAMING_ERROR :: u32 where "FRAMING_ERROR = push_bit 0 1"

definition PARITY_ERROR :: u32 where "PARITY_ERROR = push_bit 1 1"

definition BREAK_ERROR :: u32 where "BREAK_ERROR = push_bit 2 1"

definition OVERRUN_ERROR :: u32 where "OVERRUN_ERROR = push_bit 3 1"

definition framing :: "rx_flags \<Rightarrow> bool" where
  "framing f \<longleftrightarrow> f AND FRAMING_ERROR \<noteq> 0"

definition parity :: "rx_flags \<Rightarrow> bool" where
  "parity f \<longleftrightarrow> f AND PARITY_ERROR \<noteq> 0"

definition brk :: "rx_flags \<Rightarrow> bool" where
  "brk f \<longleftrightarrow> f AND BREAK_ERROR \<noteq> 0"

definition overrun :: "rx_flags \<Rightarrow> bool" where
  "overrun f \<longleftrightarrow> f AND OVERRUN_ERROR \<noteq> 0"

definition rx_from_data :: "u32 \<Rightarrow> rx_flags" where
  "rx_from_data data = drop_bit 8 data"

definition data_byte_mask :: "u32 \<Rightarrow> u8" where
  "data_byte_mask c = ucast (c AND 0xFF)"

record uart_byte =
  ub_byte :: u8
  ub_flags :: rx_flags

definition into_input_byte :: "uart_byte \<Rightarrow> input_byte" where
  "into_input_byte b = \<lparr>ib_byte = ub_byte b,
    ib_error = (framing (ub_flags b) \<or> parity (ub_flags b) \<or> brk (ub_flags b) \<or> overrun (ub_flags b))\<rparr>"

subsection \<open>The driver\<close>

definition read_register :: "'d hardware \<Rightarrow> usize \<Rightarrow> usize \<Rightarrow> 'd \<Rightarrow> u32 \<times> 'd" where
  "read_register hw base offset d = hw_read32 hw (usize_add base offset) d"

definition write_register :: "'d hardware \<Rightarrow> usize \<Rightarrow> usize \<Rightarrow> u32 \<Rightarrow> 'd \<Rightarrow> 'd" where
  "write_register hw base offset data d = hw_write32 hw (usize_add base offset) data d"

text \<open>\<open>while self.read_register(reg::FR) & flag != 0 {}\<close>.\<close>

partial_function (option) wait_while :: "'d hardware \<Rightarrow> usize \<Rightarrow> u32 \<Rightarrow> 'd \<Rightarrow> 'd option" where
  "wait_while hw base flag d =
    (case read_register hw base reg_FR d of (v, d') \<Rightarrow>
      if v AND flag \<noteq> 0 then wait_while hw base flag d' else Some d')"

definition UARTCLK :: u32 where
  "UARTCLK = 24000000"

definition BAUD :: u32 where
  "BAUD = 115200"

definition SCALED_DIVISOR :: u32 where
  "SCALED_DIVISOR = (4 * UARTCLK + BAUD div 2) div BAUD"

definition clear_interrupts :: "'d hardware \<Rightarrow> usize \<Rightarrow> 'd \<Rightarrow> 'd" where
  "clear_interrupts hw base d = write_register hw base reg_ICR icr_ALL_MASK d"

definition uart_init :: "'d hardware \<Rightarrow> usize \<Rightarrow> 'd \<Rightarrow> 'd option" where
  "uart_init hw base d =
    map_option (\<lambda>d.
      let d = write_register hw base reg_LCR_H 0 d;
          d = write_register hw base reg_IBRD (SCALED_DIVISOR div 64) d;
          d = write_register hw base reg_FBRD (SCALED_DIVISOR mod 64) d;
          d = write_register hw base reg_LCR_H (lcr_h_WLEN_8BIT OR lcr_h_FEN) d;
          d = write_register hw base reg_IMSC 0 d;
          d = clear_interrupts hw base d
      in write_register hw base reg_CR cr_ENABLE d)
    (wait_while hw base fr_BUSY (write_register hw base reg_CR cr_DISABLE d))"

definition enable_interrupt :: "'d hardware \<Rightarrow> usize \<Rightarrow> 'd \<Rightarrow> 'd" where
  "enable_interrupt hw base d = write_register hw base reg_IMSC (imsc_RX OR imsc_RT) d"

definition write_data :: "'d hardware \<Rightarrow> usize \<Rightarrow> u8 \<Rightarrow> 'd \<Rightarrow> 'd" where
  "write_data hw base c d = write_register hw base reg_DR (ucast c) d"

definition putc :: "'d hardware \<Rightarrow> usize \<Rightarrow> u8 \<Rightarrow> 'd \<Rightarrow> 'd option" where
  "putc hw base c d = map_option (write_data hw base c) (wait_while hw base fr_TXFF d)"

definition uart_flush :: "'d hardware \<Rightarrow> usize \<Rightarrow> 'd \<Rightarrow> 'd option" where
  "uart_flush hw base d = wait_while hw base fr_BUSY d"

definition read_data :: "'d hardware \<Rightarrow> usize \<Rightarrow> 'd \<Rightarrow> u32 \<times> 'd" where
  "read_data hw base d = read_register hw base reg_DR d"

definition has_byte :: "'d hardware \<Rightarrow> usize \<Rightarrow> 'd \<Rightarrow> bool \<times> 'd" where
  "has_byte hw base d = (case read_register hw base reg_FR d of (v, d') \<Rightarrow> (v AND fr_RXFE = 0, d'))"

definition read_error_status :: "'d hardware \<Rightarrow> usize \<Rightarrow> 'd \<Rightarrow> rx_flags \<times> 'd" where
  "read_error_status hw base d = read_register hw base reg_RSR_ECR d"

definition clear_error_status :: "'d hardware \<Rightarrow> usize \<Rightarrow> 'd \<Rightarrow> 'd" where
  "clear_error_status hw base d = write_register hw base reg_RSR_ECR 0x00 d"

definition try_getc :: "'d hardware \<Rightarrow> usize \<Rightarrow> 'd \<Rightarrow> uart_byte option \<times> 'd" where
  "try_getc hw base d =
    (case has_byte hw base d of (has, d1) \<Rightarrow>
      if has then (case read_data hw base d1 of (c, d2) \<Rightarrow>
        (Some \<lparr>ub_byte = data_byte_mask c, ub_flags = rx_from_data c\<rparr>, d2))
      else (None, d1))"

text \<open>The bytes of a string, with a carriage return before every line feed, one \<open>putc\<close> each.\<close>

fun put_bytes :: "'d hardware \<Rightarrow> usize \<Rightarrow> u8 list \<Rightarrow> 'd \<Rightarrow> 'd option" where
  "put_bytes hw base [] d = Some d"
| "put_bytes hw base (c # cs) d =
    Option.bind (if c = 10 then putc hw base 13 d else Some d) (\<lambda>d.
    Option.bind (putc hw base c d) (put_bytes hw base cs))"

subsection \<open>The receive interrupt\<close>

text \<open>\<open>while let Some(uart_byte) = uart.try_getc()\<close>; the characters go to the console input.\<close>

partial_function (option) drain ::
  "'d hardware \<Rightarrow> usize \<Rightarrow> 'd \<Rightarrow> kernel \<Rightarrow> tty_input \<Rightarrow> ('d \<times> kernel \<times> tty_input) outcome option"
where
  "drain hw base d k inp =
    (case try_getc hw base d of (r, d') \<Rightarrow>
     (case r of
        None \<Rightarrow> Some (Inr (d', k, inp))
      | Some b \<Rightarrow>
          (case push_character (into_input_byte b) k inp of
             Inl e \<Rightarrow> Some (Inl e)
           | Inr s \<Rightarrow> drain hw base d' (fst s) (snd s))))"

definition uart_handle_interrupt ::
  "'d hardware \<Rightarrow> usize \<Rightarrow> 'd \<Rightarrow> kernel \<Rightarrow> tty_input \<Rightarrow> ('d \<times> kernel \<times> tty_input) outcome option"
where
  "uart_handle_interrupt hw base d k inp = drain hw base (clear_interrupts hw base d) k inp"

subsection \<open>What the device does\<close>

text \<open>
  Of the receiver: \<open>stream d\<close> is everything it holds or will receive while the driver reads. \<open>FR.RXFE\<close> clear
  means there is a character, and reading \<open>DR\<close> takes the first one; nothing else takes any.
\<close>

definition receives :: "'d hardware \<Rightarrow> usize \<Rightarrow> ('d \<Rightarrow> u32 list) \<Rightarrow> bool" where
  "receives hw base stream \<longleftrightarrow>
    (\<forall>d. stream (snd (read_register hw base reg_FR d)) = stream d)
    \<and> (\<forall>d. fst (read_register hw base reg_FR d) AND fr_RXFE = 0 \<longrightarrow>
        (let d' = snd (read_register hw base reg_FR d) in
         stream d = fst (read_register hw base reg_DR d') # stream (snd (read_register hw base reg_DR d'))))
    \<and> (\<forall>v d. stream (write_register hw base reg_ICR v d) = stream d)"

text \<open>Of the transmitter: a full FIFO drains.\<close>

definition transmits :: "'d hardware \<Rightarrow> usize \<Rightarrow> ('d \<Rightarrow> nat) \<Rightarrow> bool" where
  "transmits hw base pending \<longleftrightarrow>
    (\<forall>d. fst (read_register hw base reg_FR d) AND fr_TXFF \<noteq> 0 \<longrightarrow> pending (snd (read_register hw base reg_FR d)) < pending d)"

lemma wait_while_some:
  assumes "\<And>d. fst (read_register hw base reg_FR d) AND flag \<noteq> 0 \<Longrightarrow> pending (snd (read_register hw base reg_FR d)) < (pending d :: nat)"
  shows "\<exists>d'. wait_while hw base flag d = Some d'"
proof (induction "pending d" arbitrary: d rule: less_induct)
  case less
  obtain v d' where r: "read_register hw base reg_FR d = (v, d')" by (cases "read_register hw base reg_FR d")
  show ?case
  proof (cases "v AND flag = 0")
    case False
    then have "pending d' < pending d" using assms [of d] r by simp
    then obtain d2 where "wait_while hw base flag d' = Some d2" using less by blast
    then show ?thesis using r False by (subst wait_while.simps) simp
  qed (use r in \<open>subst wait_while.simps, simp\<close>)
qed

lemma wait_while_ends: "transmits hw base pending \<Longrightarrow> \<exists>d'. wait_while hw base fr_TXFF d = Some d'"
  by (rule wait_while_some [of _ _ _ pending]) (simp add: transmits_def)

lemma put_bytes_ends:
  assumes "transmits hw base pending"
  shows "\<exists>d'. put_bytes hw base cs d = Some d'"
proof (induction cs arbitrary: d)
  case (Cons c cs)
  have p: "\<exists>d'. putc hw base x d = Some d'" for x d
    using wait_while_ends [OF assms, of d] by (auto simp: putc_def)
  obtain d1 where d1: "(if c = 10 then putc hw base 13 d else Some d) = Some d1" using p [of 13 d] by (cases "c = 10") auto
  obtain d2 where d2: "putc hw base c d1 = Some d2" using p by blast
  show ?case using Cons.IH [of d2] d1 d2 by simp
qed simp

fun push_all :: "u32 list \<Rightarrow> kernel \<Rightarrow> tty_input \<Rightarrow> (kernel \<times> tty_input) outcome" where
  "push_all [] k inp = Inr (k, inp)"
| "push_all (c # cs) k inp =
    obind (push_character (into_input_byte \<lparr>ub_byte = data_byte_mask c, ub_flags = rx_from_data c\<rparr>) k inp) (\<lambda>(k', inp'). push_all cs k' inp')"

text \<open>
  The loop ends: it pushes a front part of what the receiver gives, in order, and stops when the receiver
  says it is empty.
\<close>

lemma drain_pushes:
  assumes rx: "receives hw base stream"
  shows "\<exists>got. (\<forall>e. push_all got k inp = Inl e \<longrightarrow> drain hw base d k inp = Some (Inl e))
    \<and> (\<forall>k' inp'. push_all got k inp = Inr (k', inp') \<longrightarrow> (\<exists>d0 d'. drain hw base d k inp = Some (Inr (d', k', inp'))
        \<and> stream d = got @ stream d' \<and> d' = snd (read_register hw base reg_FR d0)
        \<and> fst (read_register hw base reg_FR d0) AND fr_RXFE \<noteq> 0))"
proof (induction "length (stream d)" arbitrary: d k inp rule: less_induct)
  case less
  obtain v d1 where fr: "read_register hw base reg_FR d = (v, d1)" by (cases "read_register hw base reg_FR d")
  show ?case
  proof (cases "v AND fr_RXFE = 0")
    case False
    then have "drain hw base d k inp = Some (Inr (d1, k, inp))"
      using fr by (subst drain.simps) (simp add: try_getc_def has_byte_def)
    moreover have "stream d = stream d1" using rx fr unfolding receives_def by (metis snd_conv)
    ultimately show ?thesis using False fr by (intro exI [of _ "[]"]) (auto intro!: exI [of _ d])
  next
    case True
    obtain c d2 where dr: "read_register hw base reg_DR d1 = (c, d2)" by (cases "read_register hw base reg_DR d1")
    have s: "stream d = c # stream d2" using rx True fr dr unfolding receives_def Let_def by (metis fst_conv snd_conv)
    let ?b = "\<lparr>ub_byte = data_byte_mask c, ub_flags = rx_from_data c\<rparr>"
    have get: "try_getc hw base d = (Some ?b, d2)" using fr True dr by (simp add: try_getc_def has_byte_def read_data_def)
    show ?thesis
    proof (cases "push_character (into_input_byte ?b) k inp")
      case (Inl e)
      then have "drain hw base d k inp = Some (Inl e)" using get by (subst drain.simps) simp
      then show ?thesis using Inl by (intro exI [of _ "[c]"]) simp
    next
      case (Inr a)
      obtain k1 inp1 where a: "a = (k1, inp1)" by (cases a)
      have step: "drain hw base d k inp = drain hw base d2 k1 inp1" using get Inr a by (subst drain.simps) simp
      have "length (stream d2) < length (stream d)" using s by simp
      from less [OF this, of k1 inp1] obtain got where
        got: "\<forall>e. push_all got k1 inp1 = Inl e \<longrightarrow> drain hw base d2 k1 inp1 = Some (Inl e)"
          "\<forall>k' inp'. push_all got k1 inp1 = Inr (k', inp') \<longrightarrow> (\<exists>d0 d'. drain hw base d2 k1 inp1 = Some (Inr (d', k', inp'))
            \<and> stream d2 = got @ stream d' \<and> d' = snd (read_register hw base reg_FR d0)
            \<and> fst (read_register hw base reg_FR d0) AND fr_RXFE \<noteq> 0)" by blast
      show ?thesis using got s Inr a step by (intro exI [of _ "c # got"]) auto
    qed
  qed
qed

end
