(* ===== verification/Interrupts.thy ===== *)
theory Interrupts
  imports Uart KernelRuns Board
begin

text \<open>
  Interrupts and time: the GIC (\<open>src/src/drivers/gic.rs\<close>), the generic timer (\<open>src/src/arch/aarch64/timer.rs\<close>), the
  heartbeat and \<open>sleep\<close> (\<open>src/src/kernel/time.rs\<close>), and the dispatch of interrupts to their handlers
  (\<open>src/src/kernel/irq.rs\<close>). A handler is named by the function it is; the kernel registers two.
\<close>

subsection \<open>The interrupt controller\<close>

definition GICD_CTLR :: usize where "GICD_CTLR = 0x0"

definition ISENABLER :: usize where "ISENABLER = 0x100"

definition ITARGETSR :: usize where "ITARGETSR = 0x800"

definition FIRST_SPI :: u32 where "FIRST_SPI = 32"

definition TARGET_CPU0 :: u8 where "TARGET_CPU0 = 1"

definition GICC_CTLR :: usize where "GICC_CTLR = 0x0"

definition PMR :: usize where "PMR = 0x4"

definition IAR :: usize where "IAR = 0x0C"

definition IRQ_MASK :: u32 where "IRQ_MASK = 0x3FF"

definition EOIR :: usize where "EOIR = 0x10"

definition SPURIOUS_INTERRUPT_ID :: u32 where "SPURIOUS_INTERRUPT_ID = 1023"

definition distributor_init :: "'d hardware \<Rightarrow> usize \<Rightarrow> 'd \<Rightarrow> 'd" where
  "distributor_init hw base d = hw_write32 hw (usize_add base GICD_CTLR) 1 d"

definition cpu_init :: "'d hardware \<Rightarrow> usize \<Rightarrow> 'd \<Rightarrow> 'd" where
  "cpu_init hw base d = hw_write32 hw (usize_add base PMR) 0xFF (hw_write32 hw (usize_add base GICC_CTLR) 1 d)"

definition gic_init :: "'d hardware \<Rightarrow> gic_bases \<Rightarrow> 'd \<Rightarrow> 'd" where
  "gic_init hw gic d = cpu_init hw (cpu_base gic) (distributor_init hw (distributor_base gic) d)"

definition gic_enable :: "'d hardware \<Rightarrow> gic_bases \<Rightarrow> u32 \<Rightarrow> 'd \<Rightarrow> 'd" where
  "gic_enable hw gic n d =
    (let base = distributor_base gic; block = unat n div 32; bit = n mod 32;
         enable_addr = usize_add (usize_add base ISENABLER) (block * 4);
         d1 = hw_write32 hw enable_addr (push_bit (unat bit) 1) d
     in if FIRST_SPI \<le> n then hw_write8 hw (usize_add (usize_add base ITARGETSR) (unat n)) TARGET_CPU0 d1 else d1)"

type_synonym interrupt = u32

definition interrupt_intid :: "interrupt \<Rightarrow> u32" where
  "interrupt_intid i = i AND IRQ_MASK"

definition is_spurious :: "interrupt \<Rightarrow> bool" where
  "is_spurious i \<longleftrightarrow> interrupt_intid i = SPURIOUS_INTERRUPT_ID"

definition acknowledge :: "'d hardware \<Rightarrow> gic_bases \<Rightarrow> 'd \<Rightarrow> interrupt option \<times> 'd" where
  "acknowledge hw gic d =
    (case hw_read32 hw (usize_add (cpu_base gic) IAR) d of (iar, d') \<Rightarrow>
      (if is_spurious iar then None else Some iar, d'))"

definition interrupt_end :: "'d hardware \<Rightarrow> gic_bases \<Rightarrow> interrupt \<Rightarrow> 'd \<Rightarrow> 'd" where
  "interrupt_end hw gic i d = hw_write32 hw (usize_add (cpu_base gic) EOIR) i d"

subsection \<open>The timer\<close>

definition frequency :: "'d hardware \<Rightarrow> 'd \<Rightarrow> u64" where
  "frequency hw d = ucast (ucast (hw_frequency hw d) :: u32)"

definition timer_start :: "'d hardware \<Rightarrow> u64 \<Rightarrow> 'd \<Rightarrow> 'd" where
  "timer_start hw interval d = hw_set_control hw (push_bit 0 1) (hw_set_timer_value hw interval d)"

text \<open>The loop of \<open>rearm\<close>: the deadline moves on by whole intervals until the counter has not reached it.\<close>

partial_function (option) rearm_loop :: "'d hardware \<Rightarrow> u64 \<Rightarrow> u64 \<Rightarrow> 'd \<Rightarrow> (u64 \<times> 'd) option" where
  "rearm_loop hw interval deadline d =
    (case hw_count hw d of (now, d') \<Rightarrow>
      if now < deadline + interval then Some (deadline + interval, d')
      else rearm_loop hw interval (deadline + interval) d')"

definition rearm :: "'d hardware \<Rightarrow> u64 \<Rightarrow> 'd \<Rightarrow> 'd option" where
  "rearm hw interval d =
    map_option (\<lambda>(deadline, d'). hw_set_compare hw deadline d') (rearm_loop hw interval (hw_compare hw d) d)"

subsection \<open>Handlers\<close>

datatype handler = UartHandler | TimeHandler

definition IRQ_COUNT :: nat where
  "IRQ_COUNT = 64"

record irq =
  ir_live :: bool
  ir_handlers :: "handler option list"

definition irq_new :: irq where
  "irq_new = \<lparr>ir_live = False, ir_handlers = replicate IRQ_COUNT None\<rparr>"

definition handlers_set :: "handler option list \<Rightarrow> u32 \<Rightarrow> handler \<Rightarrow> bool \<times> handler option list" where
  "handlers_set hs n h = (if unat n < length hs then (True, hs[unat n := Some h]) else (False, hs))"

definition handlers_get :: "handler option list \<Rightarrow> u32 \<Rightarrow> handler option" where
  "handlers_get hs n = (if unat n < length hs then hs ! unat n else None)"

text \<open>The kernel with its devices: the bases the drivers keep, and the statics of \<open>time\<close> and \<open>irq\<close>.\<close>

record 'd world =
  w_dev :: 'd
  w_kernel :: kernel
  w_input :: tty_input
  w_gic :: gic_bases
  w_uart :: usize
  w_irq :: irq
  w_interval :: u64
  w_hz :: u64
  w_ticks :: u64

text \<open>A line on the console.\<close>

definition print_line :: "'d hardware \<Rightarrow> u8 list \<Rightarrow> 'd world \<Rightarrow> 'd world option" where
  "print_line hw s w = map_option (\<lambda>d. w\<lparr>w_dev := d\<rparr>) (put_bytes hw (w_uart w) (s @ [10]) (w_dev w))"

definition register :: "'d hardware \<Rightarrow> u32 \<Rightarrow> handler \<Rightarrow> 'd world \<Rightarrow> 'd world option" where
  "register hw n h w =
    (if ir_live (w_irq w) then
       print_line hw (ascii ''IRQ '' @ fmt_dec (unat n) @ ascii '' registered after interrupts went live'') w
     else (case handlers_set (ir_handlers (w_irq w)) n h of (done_it, hs) \<Rightarrow>
       if \<not> done_it then
         print_line hw (ascii ''IRQ '' @ fmt_dec (unat n) @ ascii '' is past the '' @ fmt_dec IRQ_COUNT
           @ ascii '' the handler table holds'') w
       else Some (w\<lparr>w_irq := (w_irq w)\<lparr>ir_handlers := hs\<rparr>, w_dev := gic_enable hw (w_gic w) n (w_dev w)\<rparr>)))"

definition irq_unmask :: "'d world \<Rightarrow> 'd world" where
  "irq_unmask w = w\<lparr>w_irq := (w_irq w)\<lparr>ir_live := True\<rparr>\<rparr>"

subsection \<open>Time\<close>

definition NANOSECONDS_PER_SECOND :: u64 where
  "NANOSECONDS_PER_SECOND = 1000000000"

definition time_init :: "'d hardware \<Rightarrow> u32 \<Rightarrow> u32 \<Rightarrow> 'd world \<Rightarrow> 'd world option" where
  "time_init hw hz n w =
    (let interval = frequency hw (w_dev w) div ucast hz in
     map_option (\<lambda>w. w\<lparr>w_dev := timer_start hw interval (w_dev w)\<rparr>)
       (register hw n TimeHandler (w\<lparr>w_interval := interval, w_hz := ucast hz\<rparr>)))"

definition time_handle_interrupt :: "'d hardware \<Rightarrow> 'd world \<Rightarrow> 'd world outcome option" where
  "time_handle_interrupt hw w =
    map_option (\<lambda>d. obind (sched_tick (w_kernel w)) (\<lambda>k.
      Inr (w\<lparr>w_dev := d, w_kernel := k, w_ticks := w_ticks w + 1\<rparr>))) (rearm hw (w_interval w) (w_dev w))"

record duration =
  du_secs :: u64
  du_nanos :: u32

definition u64_div_ceil :: "u64 \<Rightarrow> u64 \<Rightarrow> u64" where
  "u64_div_ceil a b = (if 0 < a mod b then a div b + 1 else a div b)"

definition ticks_from :: "duration \<Rightarrow> u64 \<Rightarrow> u64" where
  "ticks_from du rate =
    (let whole = du_secs du * rate;
         fraction = u64_div_ceil (ucast (du_nanos du) * rate) NANOSECONDS_PER_SECOND
     in whole + fraction)"

text \<open>\<open>sleep\<close> over the values \<open>KERNEL_TICKS\<close> has when it is read: the number of the reading it returns at.\<close>

partial_function (option) sleep_loop :: "(nat \<Rightarrow> u64) \<Rightarrow> u64 \<Rightarrow> nat \<Rightarrow> nat option" where
  "sleep_loop ticks target i = (if ticks i < target then sleep_loop ticks target (i + 1) else Some i)"

definition time_sleep :: "(nat \<Rightarrow> u64) \<Rightarrow> u64 \<Rightarrow> duration \<Rightarrow> nat option" where
  "time_sleep ticks hz du =
    (let start = ticks 0; target = start + ticks_from du hz + 1 in sleep_loop ticks target 1)"

subsection \<open>Dispatch\<close>

definition uart_handler :: "'d hardware \<Rightarrow> 'd world \<Rightarrow> 'd world outcome option" where
  "uart_handler hw w = map_option (\<lambda>r. obind r (\<lambda>(d, k, inp). Inr (w\<lparr>w_dev := d, w_kernel := k, w_input := inp\<rparr>)))
    (uart_handle_interrupt hw (w_uart w) (w_dev w) (w_kernel w) (w_input w))"

definition call_handler :: "'d hardware \<Rightarrow> handler \<Rightarrow> 'd world \<Rightarrow> 'd world outcome option" where
  "call_handler hw h w = (case h of UartHandler \<Rightarrow> uart_handler hw w | TimeHandler \<Rightarrow> time_handle_interrupt hw w)"

definition irq_handle_interrupt :: "'d hardware \<Rightarrow> 'd world \<Rightarrow> 'd world outcome option" where
  "irq_handle_interrupt hw w =
    (case acknowledge hw (w_gic w) (w_dev w) of (acked, d) \<Rightarrow>
     (case acked of
        None \<Rightarrow> Some (Inr (w\<lparr>w_dev := d\<rparr>))
      | Some i \<Rightarrow>
          (let w1 = w\<lparr>w_dev := d\<rparr>; n = interrupt_intid i in
           map_option (\<lambda>r. obind r (\<lambda>w2.
             let w3 = w2\<lparr>w_dev := interrupt_end hw (w_gic w2) i (w_dev w2)\<rparr> in
             obind (preempt (w_kernel w3)) (\<lambda>(k, _). Inr (w3\<lparr>w_kernel := k\<rparr>))))
           (case handlers_get (ir_handlers (w_irq w1)) n of
              Some h \<Rightarrow> call_handler hw h w1
            | None \<Rightarrow> map_option Inr (print_line hw (ascii ''No handler for IRQ '' @ fmt_dec (unat n)) w1)))))"

end
