(* ===== verification/InterruptProperties.thy ===== *)
theory InterruptProperties
  imports Interrupts KernelProperties
begin

text \<open>
  The properties of interrupts and time: an interrupt, from the acknowledgement to the preemption, is a run
  of the kernel's steps and is always ended; the timer keeps its grid; \<open>sleep\<close> sleeps long enough.
\<close>

subsection \<open>The timer\<close>

definition counts_below :: "'d hardware \<Rightarrow> nat \<Rightarrow> bool" where
  "counts_below hw limit \<longleftrightarrow> (\<forall>d. unat (fst (hw_count hw d)) < limit) \<and> (\<forall>d. unat (hw_compare hw d) < limit)"

lemma unat_add_small: "unat x + unat y < 2 ^ 64 \<Longrightarrow> unat (x + y) = unat x + unat y" for x y :: u64
  by (simp add: unat_word_ariths)

lemma rearm_loop_grid:
  assumes law: "counts_below hw limit" and fits: "limit + unat interval \<le> 2 ^ 64" and pos: "0 < unat interval"
  shows "unat deadline < limit \<Longrightarrow> \<exists>n deadline' d0. rearm_loop hw interval deadline d = Some (deadline', snd (hw_count hw d0))
    \<and> unat deadline' = unat deadline + Suc n * unat interval \<and> fst (hw_count hw d0) < deadline'
    \<and> (n = 0 \<or> (\<exists>d1. deadline' - interval \<le> fst (hw_count hw d1)))"
proof (induction "limit - unat deadline" arbitrary: deadline d rule: less_induct)
  case less
  obtain now d' where c: "hw_count hw d = (now, d')" by (cases "hw_count hw d")
  have sum: "unat (deadline + interval) = unat deadline + unat interval"
    using less.prems fits by (intro unat_add_small) simp
  show ?case
  proof (cases "now < deadline + interval")
    case True
    then show ?thesis using c sum
      by (intro exI [of _ 0] exI [of _ "deadline + interval"] exI [of _ d]) (subst rearm_loop.simps, simp)
  next
    case False
    have step: "rearm_loop hw interval deadline d = rearm_loop hw interval (deadline + interval) d'"
      using False c by (subst rearm_loop.simps) simp
    have "unat now < limit" using law c unfolding counts_below_def by (metis fst_conv)
    moreover have "unat (deadline + interval) \<le> unat now" using False by (simp add: not_less word_le_nat_alt)
    ultimately have lt: "unat (deadline + interval) < limit" by simp
    have "limit - unat (deadline + interval) < limit - unat deadline" using sum pos less.prems by simp
    from less.hyps [OF this lt, of d'] obtain n deadline' d0 where
      IH: "rearm_loop hw interval (deadline + interval) d' = Some (deadline', snd (hw_count hw d0))"
        "unat deadline' = unat (deadline + interval) + Suc n * unat interval" "fst (hw_count hw d0) < deadline'"
        "n = 0 \<or> (\<exists>d1. deadline' - interval \<le> fst (hw_count hw d1))" by blast
    have "\<exists>d1. deadline' - interval \<le> fst (hw_count hw d1)"
    proof (cases "n = 0")
      case True
      then have "unat deadline' = unat (deadline + interval + interval)"
        using IH(2) lt fits unat_add_small [of "deadline + interval" interval] by simp
      then have "deadline' = deadline + interval + interval" by (simp only: word_unat_eq_iff)
      then have "deadline' - interval = deadline + interval" by simp
      then show ?thesis using False c by (intro exI [of _ d]) (simp add: not_less add.commute)
    qed (use IH(4) in blast)
    then show ?thesis using IH step sum by (intro exI [of _ "Suc n"] exI [of _ deadline'] exI [of _ d0]) simp
  qed
qed

subsection \<open>Time to sleep\<close>

lemma unat_mult_small: "unat x * unat y < 2 ^ 64 \<Longrightarrow> unat (x * y) = unat x * unat y" for x y :: u64
  by (simp add: unat_word_ariths)

lemma u64_div_ceil_nat: "0 < unat b \<Longrightarrow> unat (u64_div_ceil a b) = div_ceil (unat a) (unat b)" for a b :: u64
proof -
  assume b: "0 < unat b"
  have mod0: "0 < a mod b \<longleftrightarrow> 0 < unat a mod unat b" by (simp add: word_less_nat_alt unat_mod)
  show ?thesis
  proof (cases "unat b = 1")
    case True
    then show ?thesis using mod0 by (simp add: u64_div_ceil_def div_ceil_def unat_div)
  next
    case False
    have "unat a div unat b < 2 ^ 63"
    proof -
      have "unat a < 2 * 2 ^ 63" using unat_lt_pow [of a] by simp
      moreover have "2 * 2 ^ 63 \<le> unat b * 2 ^ 63" using False b by (intro mult_le_mono1) linarith
      ultimately have "unat a < 2 ^ 63 * unat b" by (simp only: mult.commute)
      then show ?thesis using b by (simp add: div_less_iff_less_mult)
    qed
    then have "unat (a div b + 1) = unat a div unat b + 1" by (simp add: unat_add_small unat_div)
    then show ?thesis using mod0 by (simp add: u64_div_ceil_def div_ceil_def unat_div)
  qed
qed

definition du_ns :: "duration \<Rightarrow> nat" where
  "du_ns du = unat (du_secs du) * 10 ^ 9 + unat (du_nanos du)"

lemma div_ceil_add_mult: "0 < b \<Longrightarrow> a * 1 + div_ceil c b = div_ceil (a * b + c) b" for a b c :: nat
  by (simp add: div_ceil_def)

text \<open>The ticks of a duration are its length in intervals, rounded up.\<close>

lemma ticks_from_ceiling:
  assumes fits: "du_ns du * unat rate < 2 ^ 64"
  shows "unat (ticks_from du rate) = div_ceil (du_ns du * unat rate) (10 ^ 9)"
proof -
  let ?s = "unat (du_secs du)" and ?n = "unat (du_nanos du)" and ?r = "unat rate"
  have split: "du_ns du * ?r = ?s * ?r * 10 ^ 9 + ?n * ?r" by (simp add: du_ns_def algebra_simps)
  have nano: "unat (ucast (du_nanos du) :: u64) = ?n"
    using unat_lt_pow [of "du_nanos du"] by (simp add: unsigned_ucast_eq take_bit_nat_eq_self)
  have b: "unat NANOSECONDS_PER_SECOND = 10 ^ 9" by (simp add: NANOSECONDS_PER_SECOND_def)
  have "?s * ?r \<le> du_ns du * ?r" "?n * ?r \<le> du_ns du * ?r" unfolding split by simp_all
  then have small: "?s * ?r < 2 ^ 64" "?n * ?r < 2 ^ 64" using fits by linarith+
  have whole: "unat (du_secs du * rate) = ?s * ?r" by (rule unat_mult_small) (rule small(1))
  have "unat (ucast (du_nanos du) * rate) = ?n * ?r" using unat_mult_small [of "ucast (du_nanos du)" rate] small(2) nano by simp
  then have frac: "unat (u64_div_ceil (ucast (du_nanos du) * rate) NANOSECONDS_PER_SECOND) = div_ceil (?n * ?r) (10 ^ 9)"
    using u64_div_ceil_nat [of NANOSECONDS_PER_SECOND] b by simp
  have sum: "?s * ?r + div_ceil (?n * ?r) (10 ^ 9) = div_ceil (du_ns du * ?r) (10 ^ 9)"
    unfolding split by (simp add: div_ceil_def)
  have "div_ceil (du_ns du * ?r) (10 ^ 9) \<le> du_ns du * ?r" by (subst div_ceil_le_iff) simp_all
  then have "?s * ?r + div_ceil (?n * ?r) (10 ^ 9) < 2 ^ 64" using sum fits by linarith
  then show ?thesis unfolding ticks_from_def Let_def using whole frac sum by (simp add: unat_add_small)
qed

lemma sleep_loop_returns:
  "target \<le> ticks (i + n) \<Longrightarrow> \<exists>j. sleep_loop ticks target i = Some j \<and> i \<le> j \<and> j \<le> i + n \<and> target \<le> ticks j"
proof (induction n arbitrary: i)
  case 0
  then show ?case by (subst sleep_loop.simps) auto
next
  case (Suc n)
  show ?case
  proof (cases "ticks i < target")
    case True
    then obtain j where "sleep_loop ticks target (i + 1) = Some j" "i + 1 \<le> j" "j \<le> i + 1 + n" "target \<le> ticks j"
      using Suc.IH [of "i + 1"] Suc.prems by auto
    then show ?thesis using True by (subst sleep_loop.simps) auto
  next
    case False
    then show ?thesis by (subst sleep_loop.simps) (auto simp: not_less intro!: exI [of _ i])
  qed
qed

text \<open>
  C39. \<open>sleep\<close> returns, and never early: with a heartbeat of \<open>hz\<close> ticks a second, whatever the moments at
  which it looks at the tick counter (nanosecond \<open>t i\<close> at the reading \<open>i\<close>), it returns at one of the readings up
  to any reading that is two ticks past the requested time, and by then the whole duration has passed.
\<close>

theorem sleep_at_least:
  assumes beat: "\<forall>i \<le> n. unat (ticks i) = t i * unat hz div 10 ^ 9"
    and past: "t 0 * unat hz + du_ns du * unat hz + 2 * 10 ^ 9 \<le> t n * unat hz" and fits: "du_ns du * unat hz < 2 ^ 64"
  shows "\<exists>i \<le> n. time_sleep ticks hz du = Some i \<and> t 0 + du_ns du \<le> t i"
proof -
  let ?h = "unat hz" and ?D = "du_ns du * unat hz"
  define k where "k = div_ceil ?D (10 ^ 9)"
  define s where "s = t 0 * ?h div 10 ^ 9"
  have ceil: "?D \<le> k * 10 ^ 9" unfolding k_def by (rule le_div_ceil_mult) simp
  have up: "k * 10 ^ 9 < ?D + 10 ^ 9"
    using less_div_ceil_iff [of "10 ^ 9" "k - 1" ?D] by (cases k) (simp_all add: k_def)
  have s: "s * 10 ^ 9 \<le> t 0 * ?h" "t 0 * ?h < (s + 1) * 10 ^ 9"
    using div_mult_mod_eq [of "t 0 * ?h" "10 ^ 9"] mod_less_divisor [of "10 ^ 9" "t 0 * ?h"] by (simp_all add: s_def)
  have "(s + k + 1) * 10 ^ 9 \<le> t n * ?h" using past s(1) up by simp
  then have "s + k + 1 \<le> unat (ticks n)" using beat by (simp add: less_eq_div_iff_mult_less_eq)
  moreover have "unat (ticks 0) = s" "unat (ticks_from du hz) = k"
    using beat ticks_from_ceiling [OF fits] by (simp_all add: s_def k_def)
  moreover have "unat (ticks n) < 2 ^ 64" using unat_lt_pow [of "ticks n"] by simp
  ultimately have target: "unat (ticks 0 + ticks_from du hz + 1) = s + k + 1" by (simp add: unat_add_small)
  have n: "n \<noteq> 0" using past by (cases n) auto
  have "ticks 0 + ticks_from du hz + 1 \<le> ticks (1 + (n - 1))"
    using target \<open>s + k + 1 \<le> unat (ticks n)\<close> n by (simp add: word_le_nat_alt)
  then obtain i where i: "time_sleep ticks hz du = Some i" "i \<le> n" "ticks 0 + ticks_from du hz + 1 \<le> ticks i"
    using sleep_loop_returns [of _ ticks 1 "n - 1"] n unfolding time_sleep_def Let_def by fastforce
  have "s + k + 1 \<le> t i * ?h div 10 ^ 9" using i(2,3) beat target by (simp add: word_le_nat_alt)
  then have "(s + k + 1) * 10 ^ 9 \<le> t i * ?h" by (simp add: less_eq_div_iff_mult_less_eq)
  then have "(t 0 + du_ns du) * ?h < t i * ?h" using s(2) ceil by (simp add: algebra_simps)
  then have "t 0 + du_ns du < t i" using mult_less_cancel2 by blast
  then show ?thesis using i by (intro exI [of _ i]) simp
qed

theorem sleep_at_least_witness:
  "\<exists>i \<le> 5. time_sleep (\<lambda>i. of_nat (i * 300000000 * 100 div 10 ^ 9)) 100 \<lparr>du_secs = 1, du_nanos = 0\<rparr> = Some i
    \<and> 10 ^ 9 \<le> i * (300000000 :: nat)"
proof -
  have "unat (of_nat (i * 300000000 * 100 div 10 ^ 9) :: u64) = i * 300000000 * unat (100 :: u64) div 10 ^ 9" if "i \<le> 5" for i
  proof -
    have "i * 300000000 * 100 div 10 ^ 9 < 2 ^ 64" using that by simp
    then have "unat (of_nat (i * 300000000 * 100 div 10 ^ 9) :: u64) = i * 300000000 * 100 div 10 ^ 9"
      by (simp only: unsigned_of_nat take_bit_nat_eq_self) (simp add: take_bit_nat_eq_self)
    then show ?thesis by simp
  qed
  then have "\<forall>i \<le> 5. unat (of_nat (i * 300000000 * 100 div 10 ^ 9) :: u64) = i * 300000000 * unat (100 :: u64) div 10 ^ 9" by blast
  from sleep_at_least [OF this, of "\<lparr>du_secs = 1, du_nanos = 0\<rparr>"] show ?thesis by (simp add: du_ns_def)
qed

subsection \<open>An interrupt\<close>

abbreviation sys :: "'d world \<Rightarrow> system" where
  "sys w \<equiv> (w_kernel w, w_input w)"

lemma kernel_runs_trans: "kernel_runs U s1 s2 \<Longrightarrow> kernel_runs U s s1 \<Longrightarrow> kernel_runs U s s2"
  by (induction rule: kernel_runs.induct) (auto intro: kernel_runs.run_step)

text \<open>Neither a character nor a tick moves the stack pointer or the stack of the running task.\<close>

lemma running_ok_cong:
  assumes "kn_regs k' = kn_regs k" "kn_heap k' = kn_heap k" "sd_current (kn_sched k') = sd_current (kn_sched k)"
    and "map_option tk_stack (sd_tasks (kn_sched k') ! sd_current (kn_sched k)) = map_option tk_stack (sd_tasks (kn_sched k) ! sd_current (kn_sched k))"
  shows "running_ok U k' = running_ok U k"
  using assms
  by (cases "sd_tasks (kn_sched k') ! sd_current (kn_sched k)"; cases "sd_tasks (kn_sched k) ! sd_current (kn_sched k)")
    (auto simp: running_ok_def cong: option.case_cong)

lemma push_character_running:
  assumes ok: "system_ok U (k, inp)"
  obtains k' inp' where "push_character b k inp = Inr (k', inp')" and "system_ok U (k', inp')"
    and "running_ok U k' = running_ok U k"
proof -
  obtain live saved where inv: "kernel_inv U live saved k" and inp: "input_inv (kn_sched k) inp" using ok by (auto simp: system_ok_def)
  obtain k' inp' where p: "push_character b k inp = Inr (k', inp')" "kernel_inv U live saved k'" "input_inv (kn_sched k') inp'"
    by (rule push_character_ok [OF inv inp, of b]) blast
  have exact: "wait_exact (ti_queue inp) (kn_sched k)" using inp by (simp add: input_inv_def)
  obtain s' woke where w: "wq_wake_all (ti_queue inp) (kn_sched k) = Inr (0, s', woke)" "sd_current s' = sd_current (kn_sched k)"
      "\<And>i. i < 4 \<Longrightarrow> \<not> in_state Blocked (kn_sched k) i \<Longrightarrow> sd_tasks s' ! i = sd_tasks (kn_sched k) ! i"
    by (rule wq_wake_all_ok [OF inv exact]) blast
  have "in_state Ready (kn_sched k) (sd_current (kn_sched k))" using inp by (simp add: input_inv_def)
  then have "\<not> in_state Blocked (kn_sched k) (sd_current (kn_sched k))" by (auto simp: in_state_def)
  moreover have "sd_current (kn_sched k) < 4" using inv by (simp add: kernel_inv_def tasks_inv_def)
  ultimately have same: "sd_tasks s' ! sd_current (kn_sched k) = sd_tasks (kn_sched k) ! sd_current (kn_sched k)" using w(3) by blast
  have k': "k' = k\<lparr>kn_sched := s', kn_resched := (kn_resched k \<or> woke)\<rparr>" using p(1) w(1) by (simp add: push_character_def Let_def)
  have "running_ok U k' = running_ok U k" by (rule running_ok_cong) (simp_all add: k' w(2) same)
  moreover have "system_ok U (k', inp')" using p(2,3) by (auto simp: system_ok_def)
  ultimately show thesis using that p(1) by blast
qed

lemma push_all_runs:
  assumes "system_ok U (k, inp)"
  shows "\<exists>k' inp'. push_all cs k inp = Inr (k', inp') \<and> kernel_runs U (k, inp) (k', inp') \<and> system_ok U (k', inp')
    \<and> running_ok U k' = running_ok U k"
  using assms
proof (induction cs arbitrary: k inp)
  case Nil
  then show ?case by (auto intro: kernel_runs.start)
next
  case (Cons c cs)
  let ?b = "into_input_byte \<lparr>ub_byte = data_byte_mask c, ub_flags = rx_from_data c\<rparr>"
  obtain k1 inp1 where p: "push_character ?b k inp = Inr (k1, inp1)" "system_ok U (k1, inp1)" "running_ok U k1 = running_ok U k"
    by (rule push_character_running [OF Cons.prems])
  obtain k' inp' where IH: "push_all cs k1 inp1 = Inr (k', inp')" "kernel_runs U (k1, inp1) (k', inp')" "system_ok U (k', inp')"
      "running_ok U k' = running_ok U k1"
    using Cons.IH [OF p(2)] by blast
  have "kernel_runs U (k, inp) (k1, inp1)" by (rule kernel_runs.run_step [OF kernel_runs.start kernel_step.Character [OF p(1)]])
  then show ?case using IH p kernel_runs_trans [OF IH(2)] by simp
qed

text \<open>What a handler leaves alone, and what it does to the kernel.\<close>

definition handled :: "pfn set \<Rightarrow> 'd world \<Rightarrow> 'd world \<Rightarrow> bool" where
  "handled U w w' \<longleftrightarrow> kernel_runs U (sys w) (sys w') \<and> system_ok U (sys w') \<and> running_ok U (w_kernel w') = running_ok U (w_kernel w)
    \<and> w_gic w' = w_gic w"

lemma uart_handler_ok:
  assumes ok: "system_ok U (sys w)" and rx: "receives hw (w_uart w) stream"
  shows "\<exists>w' got. uart_handler hw w = Some (Inr w') \<and> handled U w w' \<and> w_ticks w' = w_ticks w
    \<and> push_all got (w_kernel w) (w_input w) = Inr (sys w') \<and> stream (w_dev w) = got @ stream (w_dev w')"
proof -
  let ?d = "clear_interrupts hw (w_uart w) (w_dev w)"
  have s: "stream ?d = stream (w_dev w)" using rx unfolding receives_def clear_interrupts_def by blast
  obtain got where got: "\<forall>k' inp'. push_all got (w_kernel w) (w_input w) = Inr (k', inp') \<longrightarrow> (\<exists>d0 d'.
      drain hw (w_uart w) ?d (w_kernel w) (w_input w) = Some (Inr (d', k', inp')) \<and> stream ?d = got @ stream d'
      \<and> d' = snd (read_register hw (w_uart w) reg_FR d0) \<and> fst (read_register hw (w_uart w) reg_FR d0) AND fr_RXFE \<noteq> 0)"
    using drain_pushes [OF rx, of "w_kernel w" "w_input w" ?d] by blast
  obtain k' inp' where p: "push_all got (w_kernel w) (w_input w) = Inr (k', inp')" "kernel_runs U (sys w) (k', inp')" "system_ok U (k', inp')"
      "running_ok U k' = running_ok U (w_kernel w)"
    using push_all_runs [OF ok, of got] by blast
  obtain d' where d': "drain hw (w_uart w) ?d (w_kernel w) (w_input w) = Some (Inr (d', k', inp'))" "stream ?d = got @ stream d'"
    using got p(1) by blast
  let ?w = "w\<lparr>w_dev := d', w_kernel := k', w_input := inp'\<rparr>"
  have "uart_handler hw w = Some (Inr ?w)" using d'(1) by (simp add: uart_handler_def uart_handle_interrupt_def)
  then show ?thesis using p d'(2) s by (intro exI [of _ ?w] exI [of _ got]) (simp add: handled_def)
qed

lemma time_handler_ok:
  assumes ok: "system_ok U (sys w)" and law: "counts_below hw limit" and fits: "limit + unat (w_interval w) \<le> 2 ^ 64"
    and pos: "0 < unat (w_interval w)"
  shows "\<exists>w'. time_handle_interrupt hw w = Some (Inr w') \<and> handled U w w' \<and> w_ticks w' = w_ticks w + 1 \<and> w_input w' = w_input w"
proof -
  obtain live saved where inv: "kernel_inv U live saved (w_kernel w)" and inp: "input_inv (kn_sched (w_kernel w)) (w_input w)"
    using ok by (auto simp: system_ok_def)
  obtain k' where k': "sched_tick (w_kernel w) = Inr k'" "kernel_inv U live saved k'" "input_inv (kn_sched k') (w_input w)"
    by (rule sched_tick_ok [OF inv inp])
  let ?s = "kn_sched (w_kernel w)"
  have c: "sd_current ?s < length (sd_tasks ?s)" using inv by (simp add: kernel_inv_def tasks_inv_def)
  obtain t where t: "sd_tasks ?s ! sd_current ?s = Some t" using inv by (auto simp: kernel_inv_def tasks_inv_def)
  have "k' = (w_kernel w)\<lparr>kn_resched := True, kn_sched := ?s\<lparr>sd_tasks := (sd_tasks ?s)[sd_current ?s := Some (task_tick t)]\<rparr>\<rparr>"
    using k'(1) table_update_eq [OF c t, of task_tick] by (simp add: sched_tick_def)
  then have run: "running_ok U k' = running_ok U (w_kernel w)"
    using c t by (intro running_ok_cong) (simp_all add: task_tick_def)
  have "unat (hw_compare hw (w_dev w)) < limit" using law by (simp add: counts_below_def)
  then obtain dl d' where "rearm_loop hw (w_interval w) (hw_compare hw (w_dev w)) (w_dev w) = Some (dl, d')"
    using rearm_loop_grid [OF law fits pos] by blast
  then have rearm: "rearm hw (w_interval w) (w_dev w) = Some (hw_set_compare hw dl d')" by (simp add: rearm_def)
  have "kernel_runs U (sys w) (k', w_input w)"
    by (rule kernel_runs.run_step [OF kernel_runs.start kernel_step.Timer [OF k'(1)]])
  moreover have "system_ok U (k', w_input w)" using k'(2,3) by (auto simp: system_ok_def)
  ultimately show ?thesis
    using rearm k'(1) run by (intro exI [of _ "w\<lparr>w_dev := hw_set_compare hw dl d', w_kernel := k', w_ticks := w_ticks w + 1\<rparr>"])
      (simp add: time_handle_interrupt_def handled_def)
qed

definition dispatch :: "'d hardware \<Rightarrow> u32 \<Rightarrow> 'd world \<Rightarrow> 'd world outcome option" where
  "dispatch hw n w = (case handlers_get (ir_handlers (w_irq w)) n of
      Some h \<Rightarrow> call_handler hw h w
    | None \<Rightarrow> map_option Inr (print_line hw (ascii ''No handler for IRQ '' @ fmt_dec (unat n)) w))"

lemma dispatch_ok:
  assumes ok: "system_ok U (sys w)" and rx: "receives hw (w_uart w) stream" and tx: "transmits hw (w_uart w) pending"
    and law: "counts_below hw limit" "limit + unat (w_interval w) \<le> 2 ^ 64" "0 < unat (w_interval w)"
  obtains w' where "dispatch hw n w = Some (Inr w')" and "handled U w w'"
    and "w_ticks w' = w_ticks w + (if handlers_get (ir_handlers (w_irq w)) n = Some TimeHandler then 1 else 0)"
proof (cases "handlers_get (ir_handlers (w_irq w)) n")
  case None
  obtain d where "put_bytes hw (w_uart w) ((ascii ''No handler for IRQ '' @ fmt_dec (unat n)) @ [10]) (w_dev w) = Some d"
    using put_bytes_ends [OF tx] by blast
  then show thesis using that [of "w\<lparr>w_dev := d\<rparr>"] None ok
    by (simp add: dispatch_def print_line_def handled_def kernel_runs.start)
next
  case (Some h)
  show thesis
  proof (cases h)
    case UartHandler
    obtain w' where "uart_handler hw w = Some (Inr w')" "handled U w w'" "w_ticks w' = w_ticks w"
      using uart_handler_ok [OF ok rx] by auto
    then show thesis using that [of w'] Some UartHandler by (simp add: dispatch_def call_handler_def)
  next
    case TimeHandler
    obtain w' where "time_handle_interrupt hw w = Some (Inr w')" "handled U w w'" "w_ticks w' = w_ticks w + 1"
      using time_handler_ok [OF ok law] by auto
    then show thesis using that [of w'] Some TimeHandler by (simp add: dispatch_def call_handler_def)
  qed
qed

lemma irq_handle_dispatch:
  assumes "hw_read32 hw (usize_add (cpu_base (w_gic w)) 0x0C) (w_dev w) = (i, d)" and "i AND 0x3FF \<noteq> 1023"
  shows "irq_handle_interrupt hw w = map_option (\<lambda>r. obind r (\<lambda>w2.
      obind (preempt (w_kernel w2)) (\<lambda>(k, _).
        Inr (w2\<lparr>w_dev := hw_write32 hw (usize_add (cpu_base (w_gic w2)) 0x10) i (w_dev w2), w_kernel := k\<rparr>))))
    (dispatch hw (i AND 0x3FF) (w\<lparr>w_dev := d\<rparr>))"
  using assms
  by (simp add: irq_handle_interrupt_def acknowledge_def IAR_def is_spurious_def interrupt_intid_def IRQ_MASK_def
      SPURIOUS_INTERRUPT_ID_def dispatch_def interrupt_end_def EOIR_def Let_def case_prod_unfold)

text \<open>
  C38. An interrupt is handled to its end, from any state the kernel can be in: \<open>handle_interrupt\<close> returns without a
  panic; what it did to tasks, scheduler and console input is a run of the kernel's steps (characters pushed in the
  order received, or one tick, then the preemption), so all that is proved of these runs holds across it; the
  heartbeat advances exactly for the timer's interrupt; and unless the interrupt was spurious the last thing the
  devices see is the value that was acknowledged written to the end-of-interrupt register, before another task
  goes on.
\<close>

theorem interrupt_handled:
  assumes ok: "system_ok U (sys w)" and run: "running_ok U (w_kernel w)"
    and rx: "receives hw (w_uart w) stream" and tx: "transmits hw (w_uart w) pending"
    and law: "counts_below hw limit" "limit + unat (w_interval w) \<le> 2 ^ 64" "0 < unat (w_interval w)"
    and iar: "hw_read32 hw (usize_add (cpu_base (w_gic w)) 0x0C) (w_dev w) = (i, d)"
  shows "\<exists>w'. irq_handle_interrupt hw w = Some (Inr w') \<and> kernel_runs U (sys w) (sys w') \<and> system_ok U (sys w')
    \<and> (if i AND 0x3FF = 1023 then w' = w\<lparr>w_dev := d\<rparr>
       else (\<exists>d'. w_dev w' = hw_write32 hw (usize_add (cpu_base (w_gic w)) 0x10) i d')
         \<and> w_ticks w' = w_ticks w + (if handlers_get (ir_handlers (w_irq w)) (i AND 0x3FF) = Some TimeHandler then 1 else 0))"
proof (cases "i AND 0x3FF = 1023")
  case True
  then have "irq_handle_interrupt hw w = Some (Inr (w\<lparr>w_dev := d\<rparr>))"
    using iar by (simp add: irq_handle_interrupt_def acknowledge_def IAR_def is_spurious_def interrupt_intid_def IRQ_MASK_def SPURIOUS_INTERRUPT_ID_def)
  then show ?thesis using True ok by (auto intro: kernel_runs.start)
next
  case False
  let ?w1 = "w\<lparr>w_dev := d\<rparr>" and ?n = "i AND 0x3FF"
  obtain w2 where w2: "dispatch hw ?n ?w1 = Some (Inr w2)" "handled U ?w1 w2"
      "w_ticks w2 = w_ticks w + (if handlers_get (ir_handlers (w_irq w)) ?n = Some TimeHandler then 1 else 0)"
    by (rule dispatch_ok [of U ?w1 hw stream pending limit ?n]) (use ok rx tx law in simp_all)
  obtain live saved where inv: "kernel_inv U live saved (w_kernel w2)" and inp: "input_inv (kn_sched (w_kernel w2)) (w_input w2)"
    using w2(2) by (auto simp: handled_def system_ok_def)
  have run2: "running_ok U (w_kernel w2)" using w2(2) run by (simp add: handled_def)
  obtain k' sw live' saved' where p: "preempt (w_kernel w2) = Inr (k', sw)" "kernel_inv U live' saved' k'" "input_inv (kn_sched k') (w_input w2)"
    by (rule preempt_input [OF inv run2 inp])
  let ?w' = "w2\<lparr>w_dev := hw_write32 hw (usize_add (cpu_base (w_gic w)) 0x10) i (w_dev w2), w_kernel := k'\<rparr>"
  have "irq_handle_interrupt hw w = Some (Inr ?w')"
    using irq_handle_dispatch [OF iar False] w2(1,2) p(1) by (simp add: handled_def)
  moreover have "kernel_runs U (sys w) (k', w_input w2)"
    using kernel_runs.run_step [OF _ kernel_step.Preempt [OF run2 p(1)]] w2(2) by (simp add: handled_def)
  moreover have "system_ok U (k', w_input w2)" using p(2,3) by (auto simp: system_ok_def)
  ultimately show ?thesis using False w2(3) by (intro exI [of _ ?w']) auto
qed

text \<open>A machine whose receiver holds the characters of the state, and which always reports interrupt 33.\<close>

definition demo_hw :: "u32 list hardware" where
  "demo_hw = \<lparr>
    hw_read32 = (\<lambda>a d. if a = 0x9000018 then (if d = [] then 16 else 0, d) else if a = 0x9000000 then (hd d, tl d) else (33, d)),
    hw_write32 = (\<lambda>_ _ d. d), hw_write8 = (\<lambda>_ _ d. d), hw_frequency = (\<lambda>_. 62500000), hw_count = (\<lambda>d. (5, d)),
    hw_compare = (\<lambda>_. 3), hw_set_compare = (\<lambda>_ d. d), hw_set_timer_value = (\<lambda>_ d. d), hw_set_control = (\<lambda>_ d. d)\<rparr>"

definition demo_world :: "kernel \<Rightarrow> u32 list world" where
  "demo_world k = \<lparr>w_dev = [65, 66], w_kernel = k, w_input = tty_input_new,
    w_gic = \<lparr>distributor_base = 0x8000000, cpu_base = 0x8010000\<rparr>, w_uart = 0x9000000,
    w_irq = \<lparr>ir_live = True, ir_handlers = (replicate 64 None)[33 := Some UartHandler]\<rparr>,
    w_interval = 625000, w_hz = 100, w_ticks = 7\<rparr>"

lemma demo_hw_laws:
  "receives demo_hw 0x9000000 (\<lambda>d. d)" "transmits demo_hw 0x9000000 (\<lambda>_. 0)" "counts_below demo_hw 10"
proof -
  have fr: "read_register demo_hw 0x9000000 reg_FR d = (if d = [] then 16 else 0, d)" for d
    by (simp add: read_register_def demo_hw_def reg_FR_def usize_add_def)
  have dr: "read_register demo_hw 0x9000000 reg_DR d = (hd d, tl d)" for d
    by (simp add: read_register_def demo_hw_def reg_DR_def usize_add_def)
  have icr: "write_register demo_hw 0x9000000 reg_ICR v d = d" for v d by (simp add: write_register_def demo_hw_def)
  show "receives demo_hw 0x9000000 (\<lambda>d. d)" by (simp add: receives_def fr dr icr fr_RXFE_def)
  show "transmits demo_hw 0x9000000 (\<lambda>_. 0)" by (simp add: transmits_def fr fr_TXFF_def)
  show "counts_below demo_hw 10" by (simp add: counts_below_def demo_hw_def)
qed

theorem interrupt_handled_witness:
  "case heap_init demo_mem heap_empty demo_map of Inl e \<Rightarrow> False
   | Inr (m, h, mm) \<Rightarrow> (\<exists>w'. irq_handle_interrupt demo_hw (demo_world (demo_kernel m h)) = Some (Inr w')
       \<and> system_ok demo_U (sys w') \<and> w_ticks w' = 7)"
proof -
  obtain m h where k: "heap_init demo_mem heap_empty demo_map = Inr (m, h, demo_map')"
    and ok: "system_ok demo_U (demo_kernel m h, tty_input_new)" and run: "running_ok demo_U (demo_kernel m h)"
    by (rule demo_system_ok)
  let ?w = "demo_world (demo_kernel m h)"
  have ok': "system_ok demo_U (sys ?w)" and run': "running_ok demo_U (w_kernel ?w)" using ok run by (simp_all add: demo_world_def)
  have laws: "receives demo_hw (w_uart ?w) (\<lambda>d. d)" "transmits demo_hw (w_uart ?w) (\<lambda>_. 0)"
    "10 + unat (w_interval ?w) \<le> 2 ^ 64" "0 < unat (w_interval ?w)"
    using demo_hw_laws by (simp_all add: demo_world_def)
  have iar: "hw_read32 demo_hw (usize_add (cpu_base (w_gic ?w)) 0x0C) (w_dev ?w) = (33, [65, 66])"
    by (simp add: demo_hw_def demo_world_def usize_add_def)
  obtain w' where w': "irq_handle_interrupt demo_hw ?w = Some (Inr w')" "system_ok demo_U (sys w')"
      "w_ticks w' = w_ticks ?w + (if handlers_get (ir_handlers (w_irq ?w)) (33 AND 0x3FF) = Some TimeHandler then 1 else 0)"
    using interrupt_handled [OF ok' run' laws(1,2) demo_hw_laws(3) laws(3,4) iar] by auto
  have "w_ticks w' = 7" using w'(3) by (simp add: demo_world_def handlers_get_def)
  then show ?thesis using k w'(1,2) by auto
qed

subsection \<open>Before the scheduler is there\<close>

lemma tick_before_init: "kn_sched k = scheduler_new \<Longrightarrow> sched_tick k = Inl UnwrapNone"
  by (simp add: sched_tick_def table_update_def table_task_def table_get_def scheduler_new_def TASKS_COUNT_def unwrap_def)

text \<open>
  C40. \<open>kmain\<close> starts the timer and unmasks interrupts before it calls \<open>sched::init\<close>: whenever the timer's interrupt comes
  while the task table is still the one the kernel is linked with, the handler finds no current task, and \<open>tick\<close>
  panics.
\<close>

theorem boot_tick_panics:
  assumes boot: "kn_sched (w_kernel w) = scheduler_new"
    and handler: "handlers_get (ir_handlers (w_irq w)) (i AND 0x3FF) = Some TimeHandler" and "i AND 0x3FF \<noteq> 1023"
    and iar: "hw_read32 hw (usize_add (cpu_base (w_gic w)) 0x0C) (w_dev w) = (i, d)"
    and law: "counts_below hw limit" "limit + unat (w_interval w) \<le> 2 ^ 64" "0 < unat (w_interval w)"
  shows "irq_handle_interrupt hw w = Some (Inl UnwrapNone)"
proof -
  have ack: "acknowledge hw (w_gic w) (w_dev w) = (Some i, d)"
    using iar assms(3) by (simp add: acknowledge_def IAR_def is_spurious_def interrupt_intid_def IRQ_MASK_def SPURIOUS_INTERRUPT_ID_def)
  have "unat (hw_compare hw d) < limit" using law by (simp add: counts_below_def)
  then obtain dl d' where "rearm_loop hw (w_interval w) (hw_compare hw d) d = Some (dl, d')"
    using rearm_loop_grid [OF law] by blast
  then have "rearm hw (w_interval w) d = Some (hw_set_compare hw dl d')" by (simp add: rearm_def)
  then show ?thesis
    using ack handler tick_before_init [OF boot]
    by (simp add: irq_handle_interrupt_def call_handler_def time_handle_interrupt_def interrupt_intid_def IRQ_MASK_def Let_def)
qed

theorem boot_tick_panics_witness:
  "irq_handle_interrupt demo_hw ((demo_world ((demo_kernel (\<lambda>_. 0) heap_empty)\<lparr>kn_sched := scheduler_new\<rparr>))
    \<lparr>w_irq := \<lparr>ir_live = True, ir_handlers = (replicate 64 None)[33 := Some TimeHandler]\<rparr>\<rparr>) = Some (Inl UnwrapNone)"
proof -
  let ?w = "(demo_world ((demo_kernel (\<lambda>_. 0) heap_empty)\<lparr>kn_sched := scheduler_new\<rparr>))
    \<lparr>w_irq := \<lparr>ir_live = True, ir_handlers = (replicate 64 None)[33 := Some TimeHandler]\<rparr>\<rparr>"
  have iar: "hw_read32 demo_hw (usize_add (cpu_base (w_gic ?w)) 0x0C) (w_dev ?w) = (33, [65, 66])"
    by (simp add: demo_hw_def demo_world_def usize_add_def)
  show ?thesis
    by (rule boot_tick_panics [OF _ _ _ iar demo_hw_laws(3)]) (simp_all add: demo_world_def handlers_get_def)
qed

end
