(* ===== verification/Exception.thy ===== *)
theory Exception
  imports Console Board
begin

text \<open>
  Where the kernel stops: the exception report (\<open>src/src/arch/aarch64/exception.rs\<close>), the panic handler
  (\<open>src/src/kernel/panic.rs\<close>), halting and powering off (\<open>src/src/kernel/power.rs\<close>, \<open>src/src/arch/aarch64/psci.rs\<close>). None of
  them comes back: what is modelled is what they decode and what they write to the console first. At the end: the
  report loses nothing of what it was given.
\<close>

subsection \<open>The syndrome\<close>

datatype esr_class = UnknownReason | DataAbortCurrentEL | InstrAbortCurrentEL | Brk | OtherClass u8

definition has_fault_address :: "esr_class \<Rightarrow> bool" where
  "has_fault_address c \<longleftrightarrow> c = DataAbortCurrentEL \<or> c = InstrAbortCurrentEL"

definition esr_class_from :: "u64 \<Rightarrow> esr_class" where
  "esr_class_from val =
    (if val = 0x00 then UnknownReason
     else if val = 0x25 then DataAbortCurrentEL
     else if val = 0x21 then InstrAbortCurrentEL
     else if val = 0x3C then Brk
     else OtherClass (ucast val))"

datatype fault_status =
  AddressSize u8
| Translation u8
| AccessFlag u8
| Permission u8
| External
| Alignment
| TlbConflict
| OtherStatus u8

definition fault_status_from_syndrome :: "u64 \<Rightarrow> fault_status" where
  "fault_status_from_syndrome syndrome =
    (let code = syndrome AND 0x3F; level = ucast (code AND 3) in
     if drop_bit 2 code = 0 then AddressSize level
     else if drop_bit 2 code = 1 then Translation level
     else if drop_bit 2 code = 2 then AccessFlag level
     else if drop_bit 2 code = 3 then Permission level
     else if code = 0x10 then External
     else if code = 0x21 then Alignment
     else if code = 0x30 then TlbConflict
     else OtherStatus (ucast code))"

record esr =
  es_class :: esr_class
  es_syndrome :: u64

definition esr_new :: "u64 \<Rightarrow> esr" where
  "esr_new val = \<lparr>es_class = esr_class_from (drop_bit 26 val AND 0x3F), es_syndrome = val AND 0x1FFFFFF\<rparr>"

subsection \<open>The report\<close>

definition class_line :: "esr_class \<Rightarrow> u8 list" where
  "class_line c =
    (case c of
       UnknownReason \<Rightarrow> println (ascii ''Unknown reason (undefined instruction)'')
     | DataAbortCurrentEL \<Rightarrow> println (ascii ''Data Abort Current EL'')
     | InstrAbortCurrentEL \<Rightarrow> println (ascii ''Instruction Abort Current EL'')
     | Brk \<Rightarrow> println (ascii ''Breakpoint'')
     | OtherClass val \<Rightarrow> println (ascii ''Other '' @ fmt_hex_prefixed 4 (unat val)))"

definition fault_line :: "fault_status \<Rightarrow> u8 list" where
  "fault_line f =
    (case f of
       AddressSize level \<Rightarrow> println (ascii ''address size, level '' @ fmt_dec (unat level)
         @ ascii '' - address is outside the range TCR_EL1 was told to translate'')
     | Translation level \<Rightarrow> println (ascii ''translation, level '' @ fmt_dec (unat level) @ ascii '' - nothing is mapped there'')
     | AccessFlag level \<Rightarrow> println (ascii ''access flag, level '' @ fmt_dec (unat level)
         @ ascii '' - mapped, but bit 10 of the descriptor is clear'')
     | Permission level \<Rightarrow> println (ascii ''permission, level '' @ fmt_dec (unat level)
         @ ascii '' - mapped, but not for this kind of access'')
     | External \<Rightarrow> println (ascii ''external abort - nothing answered on the bus'')
     | Alignment \<Rightarrow> println (ascii ''alignment - unaligned access. With the MMU off every address is Device memory, which forbids it'')
     | TlbConflict \<Rightarrow> println (ascii ''TLB conflict - stale entries, a table changed without an invalidate'')
     | OtherStatus code \<Rightarrow> println (ascii ''unknown status '' @ fmt_hex_prefixed 4 (unat code)))"

definition register_lines :: "u64 list \<Rightarrow> u8 list" where
  "register_lines frame = concat (map (\<lambda>(i, v). println (ascii ''x'' @ fmt_dec i @ ascii '': '' @ fmt_hex_prefixed 18 (unat v)))
    (zip [0..<length frame] frame))"

text \<open>\<open>handle_exception\<close>: the flag \<open>ALREADY_FAULTED\<close> after it, and everything it writes before it waits for ever.\<close>

definition handle_exception :: "bool \<Rightarrow> u64 \<Rightarrow> u64 \<Rightarrow> u64 \<Rightarrow> u64 \<Rightarrow> u64 list \<Rightarrow> bool \<times> u8 list" where
  "handle_exception already_faulted esr_el1 far_el1 elr_el1 kind frame =
    (if already_faulted then (True, [13, 10] @ ascii ''!! DOUBLE FAULT'' @ [13, 10])
     else
       (let esr = esr_new esr_el1 in
        (True,
         println (ascii ''Kind: '' @ (if kind = 1 then ascii ''unexpected slot'' else ascii ''sync''))
         @ println (ascii ''Exception Syndrome Register: '' @ fmt_hex_prefixed 18 (unat esr_el1))
         @ write_str (ascii ''Exception Syndrome Class: '') @ class_line (es_class esr)
         @ println (ascii ''Exception Syndrome Syndrome: '' @ fmt_hex_prefixed 18 (unat (es_syndrome esr)))
         @ (if has_fault_address (es_class esr) then
              write_str (ascii ''Fault: '') @ fault_line (fault_status_from_syndrome (es_syndrome esr))
              @ (if es_class esr = DataAbortCurrentEL then
                   println (ascii ''Access: '' @ (if es_syndrome esr AND push_bit 6 1 \<noteq> 0 then ascii ''write'' else ascii ''read''))
                 else [])
              @ println (ascii ''Fault Address Register: '' @ fmt_hex_prefixed 18 (unat far_el1))
            else [])
         @ println (ascii ''Exception Link Register: '' @ fmt_hex_prefixed 18 (unat elr_el1))
         @ register_lines frame)))"

subsection \<open>Panics and the end\<close>

definition panic_handler :: "bool \<Rightarrow> u8 list \<Rightarrow> bool \<times> u8 list" where
  "panic_handler already_panicked info =
    (if already_panicked then (True, [])
     else (True, println (ascii ''ZheOS has panicked!'') @ println info))"

text \<open>The calls into PSCI: the instruction, and \<open>x0\<close>.\<close>

datatype psci_call = HvcCall u32 | SmcCall u32

definition SYSTEM_OFF :: u32 where
  "SYSTEM_OFF = 0x84000008"

definition system_off :: "conduit \<Rightarrow> psci_call" where
  "system_off c = (case c of Hvc \<Rightarrow> HvcCall SYSTEM_OFF | Smc \<Rightarrow> SmcCall SYSTEM_OFF)"

text \<open>\<open>shutdown\<close>: the call, and what is written if it refuses, before the core waits for ever.\<close>

definition shutdown :: "conduit \<Rightarrow> psci_call \<times> u8 list" where
  "shutdown c = (system_off c, println (ascii ''PSCI refused to power the machine off''))"

subsection \<open>Nothing of the code is lost\<close>

definition fault_code :: "fault_status \<Rightarrow> u64" where
  "fault_code f =
    (case f of
       AddressSize level \<Rightarrow> ucast level
     | Translation level \<Rightarrow> 4 + ucast level
     | AccessFlag level \<Rightarrow> 8 + ucast level
     | Permission level \<Rightarrow> 12 + ucast level
     | External \<Rightarrow> 0x10
     | Alignment \<Rightarrow> 0x21
     | TlbConflict \<Rightarrow> 0x30
     | OtherStatus code \<Rightarrow> ucast code)"

definition class_code :: "esr_class \<Rightarrow> u64" where
  "class_code c = (case c of UnknownReason \<Rightarrow> 0 | DataAbortCurrentEL \<Rightarrow> 0x25 | InstrAbortCurrentEL \<Rightarrow> 0x21
    | Brk \<Rightarrow> 0x3C | OtherClass val \<Rightarrow> ucast val)"

lemma ucast_byte: "unat w < 256 \<Longrightarrow> ucast (ucast w :: u8) = w" for w :: u64
  by (simp add: word_unat_eq_iff unsigned_ucast_eq unsigned_take_bit_eq take_bit_nat_eq_self)

lemma unat_mask6: "unat (w AND 0x3F) = unat w mod 64" for w :: u64
proof -
  have "w AND 0x3F = take_bit 6 w" by (simp add: take_bit_eq_mask mask_eq_exp_minus_1)
  then show ?thesis by (simp add: take_bit_eq_mod unat_mod)
qed

lemma class_code_from: "class_code (es_class (esr_new val)) = drop_bit 26 val AND 0x3F"
proof -
  have "unat (drop_bit 26 val AND 0x3F) < 256" using unat_mask6 [of "drop_bit 26 val"] by simp
  then show ?thesis by (simp add: esr_new_def esr_class_from_def class_code_def ucast_byte)
qed

lemma fault_code_from: "fault_code (fault_status_from_syndrome s) = s AND 0x3F"
proof -
  define c where "c = s AND 0x3F"
  have c: "unat c < 64" using unat_mask6 [of s] by (simp add: c_def)
  have level: "unat (c AND 3) = unat c mod 4"
  proof -
    have "c AND 3 = take_bit 2 c" by (simp add: take_bit_eq_mask mask_eq_exp_minus_1)
    then show ?thesis by (simp add: take_bit_eq_mod unat_mod)
  qed
  then have byte: "ucast (ucast (c AND 3) :: u8) = c AND 3" by (intro ucast_byte) simp
  have sum: "of_nat k * 4 + (c AND 3) = c" if "drop_bit 2 c = of_nat k" "k < 4" for k
  proof -
    have "unat (drop_bit 2 c) = unat c div 4" by (simp add: drop_bit_eq_div unat_div)
    then have "unat c div 4 = k" using that by (simp add: unsigned_of_nat take_bit_nat_eq_self)
    then have "unat c = k * 4 + unat c mod 4" by presburger
    then have "of_nat (unat c) = (of_nat (k * 4 + unat (c AND 3)) :: u64)" using level by simp
    then show ?thesis by simp
  qed
  show ?thesis
    using sum [of 0] sum [of 1] sum [of 2] sum [of 3] byte ucast_byte [of c] c
    by (simp add: fault_status_from_syndrome_def fault_code_def Let_def c_def [symmetric])
qed

subsection \<open>Nothing of the report is ambiguous\<close>

lemma fmt_hex_mod: "fmt_hex w v = fmt_hex w v' \<Longrightarrow> v mod 16 ^ w = v' mod 16 ^ w"
proof (induction w)
  case (Suc w)
  have "v div 16 ^ w mod 16 = v' div 16 ^ w mod 16" "v mod 16 ^ w = v' mod 16 ^ w"
    using Suc by (auto simp: fmt_hex_Suc intro: lower_hex_digit_inj)
  moreover have "x mod 16 ^ Suc w = 16 ^ w * (x div 16 ^ w mod 16) + x mod 16 ^ w" for x :: nat
    using mod_mult2_eq [of x "16 ^ w" 16] by (simp add: mult.commute)
  ultimately show ?case by presburger
qed simp

lemma fmt_hex_u64: "fmt_hex_prefixed 18 (unat v) = fmt_hex_prefixed 18 (unat v') \<longleftrightarrow> v = v'" for v v' :: u64
proof
  assume "fmt_hex_prefixed 18 (unat v) = fmt_hex_prefixed 18 (unat v')"
  then have "unat v mod 16 ^ 16 = unat v' mod 16 ^ 16" by (intro fmt_hex_mod) (simp add: fmt_hex_prefixed_def)
  moreover have "unat x < 16 ^ 16" for x :: u64 using unsigned_less [where w = x and ?'a = nat] by simp
  ultimately show "v = v'" by (simp add: word_unat_eq_iff)
qed simp

lemma fmt_hex_chars: "10 \<notin> set (fmt_hex_prefixed w v)"
  by (simp add: fmt_hex_prefixed_def)

lemma length_fmt_hex_prefixed [simp]: "length (fmt_hex_prefixed w v) = 2 + (w - 2)"
  by (simp add: fmt_hex_prefixed_def fmt_hex_def)

lemma write_str_append [simp]: "write_str (s @ t) = write_str s @ write_str t"
  by (simp add: write_str_def)

text \<open>A line that ends in the digits of a word: the text before it, then the word.\<close>

lemma hex_line_eq:
  fixes v v' :: u64
  shows "println (s @ fmt_hex_prefixed 18 (unat v)) @ rest = println (s @ fmt_hex_prefixed 18 (unat v')) @ rest' \<longleftrightarrow> v = v' \<and> rest = rest'"
proof -
  have line: "println (s @ fmt_hex_prefixed 18 (unat x)) = write_str s @ fmt_hex_prefixed 18 (unat x) @ [13, 10]" for x :: u64
    using write_str_plain [OF fmt_hex_chars] by (simp add: println_def write_str_def)
  show ?thesis unfolding line append_assoc by (simp add: fmt_hex_u64)
qed

lemma register_lines_inj:
  assumes "length vs = length vs'" and "register_lines vs = register_lines vs'"
  shows "vs = vs'"
proof -
  let ?lines = "\<lambda>k vs. concat (map (\<lambda>(i, v). println (ascii ''x'' @ fmt_dec i @ ascii '': '' @ fmt_hex_prefixed 18 (unat v))) (zip [k..<k + length vs] vs))"
  have step: "?lines k (v # vs) = println ((ascii ''x'' @ fmt_dec k @ ascii '': '') @ fmt_hex_prefixed 18 (unat v)) @ ?lines (Suc k) vs" for k v vs
    by (simp add: upt_conv_Cons del: upt_Suc)
  have "length vs = length vs' \<Longrightarrow> ?lines k vs = ?lines k vs' \<Longrightarrow> vs = vs'" for k
  proof (induction vs arbitrary: vs' k)
    case (Cons v vs)
    obtain v' us where vs': "vs' = v' # us" using Cons.prems(1) by (cases vs') auto
    from Cons.prems(2) have "v = v' \<and> ?lines (Suc k) vs = ?lines (Suc k) us"
      unfolding vs' step hex_line_eq .
    then have "v = v'" and l: "?lines (Suc k) vs = ?lines (Suc k) us" by blast+
    moreover have "vs = us" by (rule Cons.IH [OF _ l]) (use Cons.prems(1) vs' in simp)
    ultimately show ?case using vs' by blast
  qed simp
  from this [of 0] show ?thesis using assms by (simp add: register_lines_def)
qed

text \<open>The parts of a report between the words it prints.\<close>

definition class_part :: "u64 \<Rightarrow> u8 list" where
  "class_part e = write_str (ascii ''Exception Syndrome Class: '') @ class_line (es_class (esr_new e))
    @ println (ascii ''Exception Syndrome Syndrome: '' @ fmt_hex_prefixed 18 (unat (es_syndrome (esr_new e))))"

definition fault_part :: "u64 \<Rightarrow> u8 list" where
  "fault_part e = write_str (ascii ''Fault: '') @ fault_line (fault_status_from_syndrome (es_syndrome (esr_new e)))
    @ (if es_class (esr_new e) = DataAbortCurrentEL then
         println (ascii ''Access: '' @ (if es_syndrome (esr_new e) AND push_bit 6 1 \<noteq> 0 then ascii ''write'' else ascii ''read''))
       else [])"

definition kind_part :: "u64 \<Rightarrow> u8 list" where
  "kind_part kind = println (ascii ''Kind: '' @ (if kind = 1 then ascii ''unexpected slot'' else ascii ''sync''))"

lemma report_parts:
  "snd (handle_exception False e f l kind fr) = kind_part kind
    @ println (ascii ''Exception Syndrome Register: '' @ fmt_hex_prefixed 18 (unat e)) @ class_part e
    @ (if has_fault_address (es_class (esr_new e))
       then fault_part e @ println (ascii ''Fault Address Register: '' @ fmt_hex_prefixed 18 (unat f)) else [])
    @ println (ascii ''Exception Link Register: '' @ fmt_hex_prefixed 18 (unat l)) @ register_lines fr"
  unfolding handle_exception_def Let_def class_part_def fault_part_def kind_part_def
  by (simp only: append_assoc snd_conv if_False split: if_split)

lemma kind_part_eq: "kind_part k @ x = kind_part k' @ y \<longleftrightarrow> (k = 1) = (k' = 1) \<and> x = y"
proof -
  have "kind_part k = kind_part k'" if "(k = 1) = (k' = 1)" using that by (simp add: kind_part_def)
  moreover have "kind_part 1 @ x \<noteq> kind_part k' @ y" if "k' \<noteq> 1" for k' x y
    using that by (simp add: kind_part_def println_def write_str_def ascii_def)
  ultimately show ?thesis by (metis same_append_eq)
qed

text \<open>
  C18. The report of an exception tells exceptions apart: two that differ in their syndrome, in where they happened, in a
  register or in the kind of slot, or in the fault address where that means anything, give different reports.
\<close>

theorem reports_differ:
  assumes len: "length frame = 31" "length frame' = 31"
    and ne: "esr \<noteq> esr' \<or> elr \<noteq> elr' \<or> frame \<noteq> frame' \<or> (kind = 1) \<noteq> (kind' = 1)
      \<or> has_fault_address (es_class (esr_new esr)) \<and> far \<noteq> far'"
  shows "snd (handle_exception False esr far elr kind frame) \<noteq> snd (handle_exception False esr' far' elr' kind' frame')"
proof
  assume "snd (handle_exception False esr far elr kind frame) = snd (handle_exception False esr' far' elr' kind' frame')"
  note eq = this [unfolded report_parts kind_part_eq hex_line_eq]
  then have e: "esr = esr'" and k: "(kind = 1) = (kind' = 1)" by blast+
  have "(has_fault_address (es_class (esr_new esr)) \<longrightarrow> far = far') \<and> elr = elr' \<and> register_lines frame = register_lines frame'"
  proof (cases "has_fault_address (es_class (esr_new esr))")
    case True
    then show ?thesis using eq unfolding e by (simp only: if_True append_assoc same_append_eq hex_line_eq) simp
  next
    case False
    then show ?thesis using eq unfolding e by (simp only: if_False append_Nil same_append_eq hex_line_eq) simp
  qed
  moreover have "length frame = length frame'" using len by simp
  ultimately show False using ne e k register_lines_inj by blast
qed

theorem reports_differ_witness:
  "snd (handle_exception False 0x96000045 0x1000 0x40080000 0 (replicate 31 7))
    \<noteq> snd (handle_exception False 0x96000045 0x1008 0x40080000 0 (replicate 31 7))"
proof (rule reports_differ)
  have "has_fault_address (es_class (esr_new 0x96000045))"
    by (simp add: has_fault_address_def esr_new_def esr_class_from_def drop_bit_eq_div)
  then show "(0x96000045 :: u64) \<noteq> 0x96000045 \<or> (0x40080000 :: u64) \<noteq> 0x40080000 \<or> replicate 31 (7 :: u64) \<noteq> replicate 31 7
      \<or> ((0 :: u64) = 1) \<noteq> ((0 :: u64) = 1) \<or> has_fault_address (es_class (esr_new 0x96000045)) \<and> (0x1000 :: u64) \<noteq> 0x1008" by simp
qed simp_all

end
