(* ===== verification/Boot.thy ===== *)
theory Boot
  imports Interrupts PageTable Console
begin

text \<open>
  The way up (\<open>src/src/main.rs\<close>, \<open>src/src/demo.rs\<close>): \<open>kmain\<close> from the pointer to the device tree to the point where
  the monitor starts, with the messages it prints on the way and those it stops with. No interrupt comes in
  between in this model; what the timer's would do is \<open>boot_tick_panics\<close>. Function addresses are the linker's.
\<close>

subsection \<open>Messages\<close>

definition region_text :: "region \<Rightarrow> u8 list" where
  "region_text r = fmt_hex_padded 12 (r_base r) @ ascii '': '' @ hex_digits (r_size r) @ ascii '' bytes''"

definition frames_text :: "frames \<Rightarrow> u8 list" where
  "frames_text fr = fmt_dec (fl_pages (fr_lists fr)) @ ascii '' of '' @ fmt_dec (fr_total fr) @ ascii '' pages free''"

definition heap_text :: "heap \<Rightarrow> u8 list" where
  "heap_text h = frames_text (hp_frames h)"

text \<open>The flags of a received character: the names of those set, with spaces between them.\<close>

definition rx_flags_text :: "rx_flags \<Rightarrow> u8 list" where
  "rx_flags_text f =
    (case fold (\<lambda>(present, name) (text, any).
         if present then (text @ (if any then ascii '' '' else []) @ ascii name, True) else (text, any))
       [(framing f, ''FE''), (parity f, ''PE''), (brk f, ''BE''), (overrun f, ''OE'')] ([], False) of
       (text, any) \<Rightarrow> if any then text else ascii ''none'')"

lemma rx_flags_text_error: "ib_error (into_input_byte b) \<longleftrightarrow> rx_flags_text (ub_flags b) \<noteq> ascii ''none''"
  by (cases "framing (ub_flags b)"; cases "parity (ub_flags b)"; cases "brk (ub_flags b)"; cases "overrun (ub_flags b)")
    (simp_all add: rx_flags_text_def into_input_byte_def ascii_def of_char_def)

text \<open>\<open>sched::ps\<close>: what the monitor's \<open>ps\<close> line prints.\<close>

definition ps :: "kernel \<Rightarrow> u8 list" where
  "ps k =
    concat (map (\<lambda>t. println (ascii ''Task '' @ fmt_dec (tk_id t) @ ascii '': ticks = '' @ fmt_dec (tk_ticks t)))
      (List.map_filter (\<lambda>t. t) (sd_tasks (kn_sched k))))
    @ println (ascii ''Heap: '' @ heap_text (kn_heap k))"

definition map_error_text :: "map_error \<Rightarrow> u8 list" where
  "map_error_text e = (case e of
      OutOfMemory \<Rightarrow> ascii ''no room for another table''
    | Unaligned va \<Rightarrow> fmt_hex_padded 12 va @ ascii '' is finer than a 4 KiB page''
    | BlockInTheWay va l \<Rightarrow> fmt_hex_padded 12 va @ ascii '' is already inside a level '' @ fmt_dec (level_number l) @ ascii '' block''
    | TableInTheWay va l \<Rightarrow> fmt_hex_padded 12 va @ ascii '' is already inside a level '' @ fmt_dec (level_number l) @ ascii '' table'')"

definition plan_error_text :: "plan_error \<Rightarrow> u8 list" where
  "plan_error_text e = (case e of
      NoTable \<Rightarrow> ascii ''No room to allocate a page table''
    | Failed name error \<Rightarrow> ascii ''failed to map '' @ ascii name @ ascii '': '' @ map_error_text error
    | Overlap one other \<Rightarrow> ascii one @ ascii '' and '' @ ascii other @ ascii '' claim the same memory'')"

definition discover_error_text :: "discover_error \<Rightarrow> u8 list" where
  "discover_error_text e = (case e of
      NoTree ptr \<Rightarrow> ascii ''No device tree at '' @ fmt_hex_padded 10 ptr
    | Missing missing \<Rightarrow> ascii ''Device tree has no '' @ ascii missing)"

text \<open>What \<open>kmain\<close> can stop with, by the call that failed.\<close>

datatype boot_error = NoBoard discover_error | NoMemory string | NoMap plan_error | NoTasks string

definition boot_error_text :: "boot_error \<Rightarrow> u8 list" where
  "boot_error_text e = (case e of
      NoBoard error \<Rightarrow> discover_error_text error
    | NoMemory message \<Rightarrow> ascii message
    | NoMap error \<Rightarrow> plan_error_text error
    | NoTasks message \<Rightarrow> ascii message)"

subsection \<open>Steps that may fail\<close>

text \<open>
  A step may wait for a device for ever (\<open>None\<close>), panic, stop with an error, or give a value. Stopping is
  \<open>power::halt\<close>: the world it stops in is kept with the error.
\<close>

type_synonym ('d, 'a) boot_step = "('d world \<times> boot_error + 'a) outcome option"

definition bbind :: "('d, 'a) boot_step \<Rightarrow> ('a \<Rightarrow> ('d, 'b) boot_step) \<Rightarrow> ('d, 'b) boot_step" where
  "bbind x f = (case x of
      None \<Rightarrow> None
    | Some (Inl p) \<Rightarrow> Some (Inl p)
    | Some (Inr (Inl e)) \<Rightarrow> Some (Inr (Inl e))
    | Some (Inr (Inr v)) \<Rightarrow> f v)"

lemma bbind_simps [simp]:
  "bbind None f = None" "bbind (Some (Inl p)) f = Some (Inl p)" "bbind (Some (Inr (Inl e))) f = Some (Inr (Inl e))"
  "bbind (Some (Inr (Inr v))) f = f v"
  by (simp_all add: bbind_def)

definition waits :: "'a option \<Rightarrow> ('d, 'a) boot_step" where
  "waits x = map_option (\<lambda>v. Inr (Inr v)) x"

lemma waits_simps [simp]: "waits None = None" "waits (Some v) = Some (Inr (Inr v))"
  by (simp_all add: waits_def)

definition halt :: "'d hardware \<Rightarrow> 'd world \<Rightarrow> 'd world option" where
  "halt hw w = map_option (\<lambda>d. w\<lparr>w_dev := d\<rparr>) (uart_flush hw (w_uart w) (w_dev w))"

definition or_halt :: "'d hardware \<Rightarrow> 'd world \<Rightarrow> boot_error + 'a \<Rightarrow> ('d, 'a) boot_step" where
  "or_halt hw w r = (case r of
      Inr v \<Rightarrow> Some (Inr (Inr v))
    | Inl e \<Rightarrow> map_option (\<lambda>w'. Inr (Inl (w', e))) (Option.bind (print_line hw (boot_error_text e) w) (halt hw)))"

subsection \<open>The parts\<close>

text \<open>\<open>uart().init()\<close>, and \<open>pl011::adopt\<close>, which moves the console first.\<close>

definition console_init :: "'d hardware \<Rightarrow> 'd world \<Rightarrow> 'd world option" where
  "console_init hw w = map_option (\<lambda>d. w\<lparr>w_dev := d\<rparr>) (uart_init hw (w_uart w) (w_dev w))"

definition adopt :: "'d hardware \<Rightarrow> usize \<Rightarrow> 'd world \<Rightarrow> 'd world option" where
  "adopt hw base w = console_init hw (w\<lparr>w_uart := base\<rparr>)"

definition TIMER_HZ :: u32 where
  "TIMER_HZ = 100"

text \<open>From \<open>pl011::adopt\<close> to \<open>irq::unmask\<close>.\<close>

definition drivers_init :: "'d hardware \<Rightarrow> board \<Rightarrow> 'd world \<Rightarrow> 'd world option" where
  "drivers_init hw board w =
    Option.bind (adopt hw (dev_base (b_uart board)) w) (\<lambda>w.
    let w = w\<lparr>w_gic := b_gic board, w_dev := gic_init hw (b_gic board) (w_dev w)\<rparr> in
    Option.bind (register hw (dev_intid (b_uart board)) UartHandler w) (\<lambda>w.
    let w = w\<lparr>w_dev := enable_interrupt hw (w_uart w) (w_dev w)\<rparr> in
    map_option irq_unmask (time_init hw TIMER_HZ (b_timer_intid board) w)))"

text \<open>\<open>mm::init\<close> with what it prints.\<close>

definition memory_init :: "'d hardware \<Rightarrow> linker_symbols \<Rightarrow> region \<Rightarrow> region \<Rightarrow> 'd world \<Rightarrow> ('d, 'd world) boot_step" where
  "memory_init hw ld memory dtb w =
    (case mm_init (kn_mem (w_kernel w)) (kn_heap (w_kernel w)) ld memory dtb of
       Inl p \<Rightarrow> Some (Inl p)
     | Inr (Inl message) \<Rightarrow> or_halt hw w (Inl (NoMemory message))
     | Inr (Inr (m, h, _)) \<Rightarrow>
         let w = w\<lparr>w_kernel := (w_kernel w)\<lparr>kn_mem := m, kn_heap := h\<rparr>\<rparr> in
         waits (Option.bind (print_line hw (ascii ''memory: '' @ region_text memory) w)
           (print_line hw (ascii ''heap: '' @ heap_text h))))"

definition paging_init ::
  "'d hardware \<Rightarrow> linker_symbols \<Rightarrow> region \<Rightarrow> region \<Rightarrow> mmu_registers \<Rightarrow> 'd world \<Rightarrow> ('d, 'd world \<times> mmu_registers) boot_step"
where
  "paging_init hw ld memory dtb sr w =
    (case mmu_init (kn_mem (w_kernel w)) (kn_heap (w_kernel w)) sr ld memory dtb of
       Inl p \<Rightarrow> Some (Inl p)
     | Inr (m, h, r) \<Rightarrow>
         let w = w\<lparr>w_kernel := (w_kernel w)\<lparr>kn_mem := m, kn_heap := h\<rparr>\<rparr> in
         or_halt hw w (case r of Inl e \<Rightarrow> Inl (NoMap e) | Inr sr' \<Rightarrow> Inr (w, sr')))"

record code_addresses =
  ca_trampoline :: usize
  ca_idle :: usize
  ca_task_a :: usize
  ca_task_b :: usize

text \<open>\<open>demo::start\<close>: two tasks, and which of them failed.\<close>

definition demo_start :: "code_addresses \<Rightarrow> kernel \<Rightarrow> (kernel \<times> (string + unit)) outcome" where
  "demo_start ca k =
    obind (spawn (ca_trampoline ca) (ca_task_a ca) k) (\<lambda>(k1, r1). case r1 of
      Inl _ \<Rightarrow> Inr (k1, Inl ''Failed to spawn task_a'')
    | Inr _ \<Rightarrow>
        obind (spawn (ca_trampoline ca) (ca_task_b ca) k1) (\<lambda>(k2, r2). case r2 of
          Inl _ \<Rightarrow> Inr (k2, Inl ''Failed to spawn task_b'')
        | Inr _ \<Rightarrow> Inr (k2, Inr ())))"

definition tasks_init :: "'d hardware \<Rightarrow> code_addresses \<Rightarrow> 'd world \<Rightarrow> ('d, 'd world) boot_step" where
  "tasks_init hw ca w =
    (case obind (sched_init (ca_trampoline ca) (ca_idle ca) (w_kernel w)) (demo_start ca) of
       Inl p \<Rightarrow> Some (Inl p)
     | Inr (k, r) \<Rightarrow>
         let w = w\<lparr>w_kernel := k\<rparr> in
         or_halt hw w (case r of Inl message \<Rightarrow> Inl (NoTasks message) | Inr _ \<Rightarrow> Inr w))"

definition greet :: "'d hardware \<Rightarrow> 'd world \<Rightarrow> 'd world option" where
  "greet hw w =
    Option.bind (print_line hw (ascii ''Hello, ZheOS!'') w) (\<lambda>w.
    Option.bind (print_line hw (ascii ''Type '' @ [39] @ ascii ''exit'' @ [39] @ ascii '' to shutdown the system'') w)
      (print_line hw (ascii ''----------------------------------'')))"

subsection \<open>\<open>kmain\<close>\<close>

definition kmain ::
  "'d hardware \<Rightarrow> linker_symbols \<Rightarrow> code_addresses \<Rightarrow> usize \<Rightarrow> mmu_registers \<Rightarrow> 'd world \<Rightarrow> ('d, 'd world \<times> mmu_registers \<times> board) boot_step"
where
  "kmain hw ld ca dtb_ptr sr w =
    bbind (waits (console_init hw w)) (\<lambda>w.
    bbind (or_halt hw w (case discover (kn_mem (w_kernel w)) dtb_ptr of Inl e \<Rightarrow> Inl (NoBoard e) | Inr v \<Rightarrow> Inr v)) (\<lambda>(dtb, board).
    bbind (waits (drivers_init hw board w)) (\<lambda>w.
    bbind (memory_init hw ld (b_memory board) (dtb_region dtb) w) (\<lambda>w.
    bbind (paging_init hw ld (b_memory board) (dtb_region dtb) sr w) (\<lambda>(w, sr).
    bbind (tasks_init hw ca w) (\<lambda>w.
    bbind (waits (greet hw w)) (\<lambda>w.
    Some (Inr (Inr (w, sr, board))))))))))"

end
