(* ===== verification/BootCorrect.thy ===== *)
theory BootCorrect
  imports Boot MmuProperties InterruptProperties PlatformProperties
begin

text \<open>
  Correctness of the way up: what \<open>mm::init\<close>, \<open>mmu::init\<close> and \<open>sched::init\<close> leave behind fits together, and the
  translation tables they leave behind are out of reach of everything that runs later.
\<close>

subsection \<open>The pages the heap starts with\<close>

text \<open>
  The whole pages of the memory that neither the kernel image nor the device tree nor the metadata of the heap
  reaches into, and all that the heap may write: these pages and the metadata.
\<close>

definition free_at_boot :: "linker_symbols \<Rightarrow> region \<Rightarrow> region \<Rightarrow> heap \<Rightarrow> pfn set" where
  "free_at_boot ld memory dtb h = {p. page_bytes p \<subseteq> region_bytes memory
    \<and> (\<forall>r \<in> {image ld, dtb, pg_region (hp_pages h)}. page_bytes p \<inter> {r_base r..<region_end r} = {})}"

lemma page_inside:
  "page_bytes p \<subseteq> {lo..<hi} \<longleftrightarrow> lo \<le> p * 4096 \<and> p * 4096 + 4096 \<le> hi"
proof
  assume s: "page_bytes p \<subseteq> {lo..<hi}"
  have "p * 4096 \<in> page_bytes p" "p * 4096 + 4095 \<in> page_bytes p" by (simp_all add: page_bytes_def)
  then have "p * 4096 \<in> {lo..<hi}" "p * 4096 + 4095 \<in> {lo..<hi}" using s by blast+
  then show "lo \<le> p * 4096 \<and> p * 4096 + 4096 \<le> hi" by simp
qed (auto simp: page_bytes_def)

lemma arena_pages_memory:
  assumes m: "region_fits memory" and mm: "memory_map_new memory = Some mm"
  shows "p \<in> arena_pages (mm_arena mm) \<longleftrightarrow> page_bytes p \<subseteq> region_bytes memory"
proof -
  let ?b = "r_base memory" and ?e = "r_base memory + r_size memory" and ?a = "mm_arena mm"
  have e: "region_end memory = ?e" using m by (simp add: region_fits_end)
  have lim: "?b + 4096 \<le> usize_limit" "?e < usize_limit" using m by (simp_all add: region_fits_def)
  have base: "r_base ?a = div_ceil ?b 4096 * 4096" and fin: "r_base ?a + r_size ?a = ?e div 4096 * 4096"
    using mm lim e by (auto simp: memory_map_new_def align_up_page align_down_page Let_def split: if_splits)
  have "p \<in> arena_pages ?a \<longleftrightarrow> div_ceil ?b 4096 \<le> p \<and> p < ?e div 4096"
    unfolding arena_pages_def base [symmetric] fin using base by simp
  also have "\<dots> \<longleftrightarrow> ?b \<le> p * 4096 \<and> p * 4096 + 4096 \<le> ?e"
    by (auto simp: div_ceil_le_iff less_eq_div_iff_mult_less_eq Suc_le_eq [symmetric])
  finally show ?thesis by (simp add: region_bytes_def page_inside)
qed

text \<open>
  \<open>mm::init\<close> on the memory of a board. The boot stack lies in the image, so it is not the heap's to write.
\<close>

lemma mm_init_boot:
  assumes m: "region_fits memory"
  obtains "mm_init m heap_empty ld memory dtb = Inl (Panicked ''Failed to initialize heap pages'')"
  | "mm_init m heap_empty ld memory dtb = Inr (Inl ''The device tree reported no usable memory'')"
      and "memory_map_new memory = None"
  | m' h' mm where "mm_init m heap_empty ld memory dtb = Inr (Inr (m', h', mm))"
      and "heap_inv m' h' (free_at_boot ld memory dtb h') (free_at_boot ld memory dtb h') Map.empty"
      and "\<And>p. p \<in> covered (hp_pages h') \<longleftrightarrow> page_bytes p \<subseteq> region_bytes memory"
      and "meta_bytes (hp_pages h') \<inter> {r_base (image ld)..<region_end (image ld)} = {}"
proof -
  have z: "pg_len (hp_pages heap_empty) = 0" by (simp add: heap_empty_def pages_empty_def)
  have lim: "r_base memory + 4096 \<le> usize_limit" using m by (simp add: region_fits_def)
  show thesis
  proof (cases "memory_map_new memory")
    case None
    then show thesis using that(2) by (simp add: mm_init_def)
  next
    case (Some mm)
    obtain mm1 mm2 where r: "reserve mm (image ld) = Inr mm1" "reserve mm1 dtb = Inr mm2" and wf: "map_wf mm2"
      and ar: "mm_arena mm2 = mm_arena mm" and rs: "reserved mm2 = [image ld, dtb]"
      using mm_init_maps [OF lim, of ld dtb] Some by auto
    obtain m1 mm3 found where p: "pages_new m mm2 = (m1, mm3, found)" by (cases "pages_new m mm2")
    show thesis
    proof (cases found)
      case None
      then show thesis using that(1) Some r heap_init_none [OF p [unfolded None] z] by (simp add: mm_init_def)
    next
      case found: (Some pg)
      note wp = pages_new_wf [OF wf p [unfolded found]] and reg = pages_new_region [OF wf p [unfolded found]]
      obtain m' h' where h: "heap_init m heap_empty mm2 = Inr (m', h', mm3)" "hp_pages h' = pg"
        "heap_inv m' h' (boot_pages mm3) (boot_pages mm3) Map.empty"
        by (rule heap_init_ok [OF wf p [unfolded found] z])
      have cov: "p \<in> covered (hp_pages h') \<longleftrightarrow> page_bytes p \<subseteq> region_bytes memory" for p
        using arena_pages_memory [OF m Some] wp(2) ar h(2) by simp
      have U: "boot_pages mm3 = free_at_boot ld memory dtb h'"
        using arena_pages_memory [OF m Some] wp(5,6) ar rs h(2)
        unfolding boot_pages_def free_at_boot_def by auto
      have "x \<notin> {r_base (image ld)..<region_end (image ld)}" if x: "x \<in> meta_bytes pg" for x
      proof -
        obtain b where b: "r_base (pg_region pg) = 4096 * b" using reg(1) by (auto simp: mod_eq_0_iff_dvd elim!: dvdE)
        have "x \<in> range_of (r_base (pg_region pg)) (r_size (pg_region pg))" using wp(3) x by blast
        then have "x div 4096 \<in> arena_pages (pg_region pg)"
          using b reg(2) by (auto simp: arena_pages_def less_mult_imp_div_less less_eq_div_iff_mult_less_eq)
        then have "\<forall>y \<in> page_bytes (x div 4096). \<not> (r_base (image ld) \<le> y \<and> y < region_end (image ld))"
          using reg(3) unreserved_pages [OF wf] rs by auto
        moreover have "x \<in> page_bytes (x div 4096)" by (simp add: page_bytes_def)
        ultimately show ?thesis by auto
      qed
      then have "meta_bytes (hp_pages h') \<inter> {r_base (image ld)..<region_end (image ld)} = {}" using h(2) by blast
      then show thesis using that(3) [of m' h' mm3] Some r h cov U by (simp add: mm_init_def)
    qed
  qed
qed

subsection \<open>The page metadata stays where it is\<close>

lemma alloc_layout_pages: "alloc_layout m h l = Inr (m', h', p) \<Longrightarrow> hp_pages h' = hp_pages h"
  by (auto simp: alloc_layout_def heap_slab_alloc_def heap_alloc_pages_def obind_eq_Inr Let_def split: option.splits)

lemma table_new_pages: "table_new m h = Inr (m', h', t) \<Longrightarrow> hp_pages h' = hp_pages h"
  by (auto simp: table_new_def obind_eq_Inr alloc_layout_pages split: option.splits)

lemma child_table_pages: "child_table m h t va l = Inr (m', h', c) \<Longrightarrow> hp_pages h' = hp_pages h"
  by (auto simp: child_table_def obind_eq_Inr Let_def dest!: table_new_pages split: kind.splits option.splits)

lemma map_loop_pages:
  assumes "\<And>f m h c r m' h' res. below = Some f \<Longrightarrow> f m h c r = Inr (m', h', res) \<Longrightarrow> hp_pages h' = hp_pages h"
    and "map_loop below l template t fin fuel m h addr = Inr (m', h', res)"
  shows "hp_pages h' = hp_pages h"
  using assms(2)
proof (induction fuel arbitrary: m h addr)
  case 0
  then show ?case by (simp split: if_splits)
next
  case (Suc fuel)
  show ?case
  proof (cases "addr < fin \<and> \<not> (level_is_aligned l addr \<and> chunk_end l addr fin = slot_end l addr)")
    case True
    show ?thesis
    proof (cases below)
      case None
      then show ?thesis using Suc.prems True by simp
    next
      case (Some f)
      from Suc.prems True Some obtain m1 h1 found where c: "child_table m h t addr l = Inr (m1, h1, found)"
        by (auto simp: obind_eq_Inr)
      have p1: "hp_pages h1 = hp_pages h" by (rule child_table_pages [OF c])
      show ?thesis
      proof (cases found)
        case (Inl e)
        then show ?thesis using Suc.prems True Some c p1 by simp
      next
        case (Inr child)
        from Suc.prems True Some c Inr obtain m2 h2 r2 where
          b: "f m1 h1 child \<lparr>r_base = addr, r_size = usize_sub (chunk_end l addr fin) addr\<rparr> = Inr (m2, h2, r2)"
          by (auto simp: obind_eq_Inr)
        have p2: "hp_pages h2 = hp_pages h1" by (rule assms(1) [OF Some b])
        show ?thesis
        proof (cases r2)
          case (Inl e)
          then show ?thesis using Suc.prems True Some c Inr b p1 p2 by simp
        next
          case (Inr u)
          then have "map_loop below l template t fin fuel m2 h2 (chunk_end l addr fin) = Inr (m', h', res)"
            using Suc.prems True Some c \<open>found = Inr child\<close> b by simp
          then show ?thesis using Suc.IH p1 p2 by fastforce
        qed
      qed
    qed
  next
    case False
    then show ?thesis using Suc.prems Suc.IH by (auto simp: Let_def split: if_splits)
  qed
qed

lemma map_range_pages: "map_range m h t r template l = Inr (m', h', res) \<Longrightarrow> hp_pages h' = hp_pages h"
proof (induction "3 - level_number l" arbitrary: l m h t r m' h' res rule: less_induct)
  case less
  show ?case
  proof (rule map_loop_pages [OF _ less.prems(1) [unfolded map_range.simps [of m h t r template l]]])
    fix f m1 h1 c r1 m2 h2 res2
    assume f: "(case level_next l of None \<Rightarrow> None | Some n \<Rightarrow> Some (\<lambda>m' h' child part. map_range m' h' child part template n)) = Some f"
      and e: "f m1 h1 c r1 = Inr (m2, h2, res2)"
    obtain n where n: "level_next l = Some n" "f = (\<lambda>m' h' child part. map_range m' h' child part template n)"
      using f by (auto split: option.splits)
    have "3 - level_number n < 3 - level_number l" using n(1) by (cases l) auto
    then show "hp_pages h2 = hp_pages h1" using less.hyps e n(2) by blast
  qed
qed

lemma map_all_pages: "map_all m h t jobs = Inr (m', h', res) \<Longrightarrow> hp_pages h' = hp_pages h"
proof (induction jobs arbitrary: m h)
  case (Cons j jobs)
  obtain name r tpl where j: "j = (name, r, tpl)" by (cases j)
  from Cons.prems j obtain m1 h1 r1 where a: "identity_map m h t r tpl = Inr (m1, h1, r1)" by (auto simp: obind_eq_Inr)
  have "hp_pages h1 = hp_pages h" using a map_range_pages by (simp add: identity_map_def)
  then show ?case using Cons j a by (cases r1) auto
qed simp

lemma table_apply_pages:
  assumes "table_apply m h t arena plan fill = Inr (m', h', res)"
  shows "hp_pages h' = hp_pages h"
proof (cases "plan_overlap plan")
  case None
  with assms obtain m1 h1 r1 where a: "map_all m h t (plan_jobs plan) = Inr (m1, h1, r1)"
    by (auto simp: table_apply_def obind_eq_Inr)
  then show ?thesis using assms None map_all_pages [OF a] map_all_pages by (cases r1) (auto simp: table_apply_def)
qed (use assms in \<open>auto simp: table_apply_def\<close>)

lemma mmu_init_pages:
  assumes i: "mmu_init m h sr ld memory dtb = Inr (m', h', res)"
  shows "hp_pages h' = hp_pages h"
proof -
  obtain m0 h0 found where n: "table_new m h = Inr (m0, h0, found)" using i by (auto simp: mmu_init_def obind_eq_Inr)
  note p0 = table_new_pages [OF n]
  show ?thesis
  proof (cases found)
    case (Some t)
    obtain m1 h1 r1 where a: "table_apply m0 h0 t memory (boot_plan ld dtb) NORMAL_BLOCK = Inr (m1, h1, r1)"
      using i n Some by (auto simp: mmu_init_def obind_eq_Inr)
    note p1 = table_apply_pages [OF a]
    show ?thesis
    proof (cases r1)
      case (Inr u)
      obtain m2 h2 r2 where "table_apply m1 h1 t \<lparr>r_base = 0, r_size = r_base memory\<rparr> [] DEVICE_BLOCK = Inr (m2, h2, r2)"
        using i n Some a Inr by (auto simp: mmu_init_def obind_eq_Inr)
      then show ?thesis using i n Some a Inr p0 p1 table_apply_pages by (auto simp: mmu_init_def)
    qed (use i n Some a p0 p1 in \<open>auto simp: mmu_init_def\<close>)
  qed (use i n p0 in \<open>auto simp: mmu_init_def\<close>)
qed

subsection \<open>The tables outlive every run\<close>

lemma tables_kept:
  assumes inv: "kernel_inv U live saved k" and pt: "pt_state U (kn_mem k) (kn_heap k) live t l"
  shows "kept (live |` tables (kn_mem k) t l) live (kn_sched k)"
    and "live_area (live |` tables (kn_mem k) t l) = table_bytes (tables (kn_mem k) t l)"
proof -
  let ?T = "tables (kn_mem k) t l"
  have T: "live x = Some table_layout" if "x \<in> ?T" for x using pt that by (simp add: pt_state_def)
  have "b \<notin> ?T" if u: "i < 4" "sd_tasks (kn_sched k) ! i = Some u" "stack_base u = Some b" for i u b
  proof
    assume "b \<in> ?T"
    have "stack_live live u" using inv u unfolding kernel_inv_def tasks_inv_def by blast
    then have "live b = Some CONTEXT_STACK_LAYOUT" using u(3) by (auto simp: stack_live_def stack_base_def)
    moreover have "l_size CONTEXT_STACK_LAYOUT \<noteq> l_size table_layout" by simp
    ultimately show False using T [OF \<open>b \<in> ?T\<close>] by auto
  qed
  then show "kept (live |` ?T) live (kn_sched k)"
    unfolding kept_def by (auto simp: map_le_def)
  show "live_area (live |` ?T) = table_bytes ?T"
    using T unfolding live_area_def table_bytes_def by (auto simp: restrict_map_def split: if_splits)
qed

lemma pt_state_kept:
  assumes pt: "pt_state U m h live t l" and inv: "heap_inv m' h' U F' live'"
    and sub: "(live |` tables m t l) \<subseteq>\<^sub>m live'" and same: "same_on (table_bytes (tables m t l)) m m'"
  shows "pt_state U m' h' live' t l" and "leaf m' t l va = leaf m t l va"
proof -
  have "pt_wf m t l" using pt by (simp add: pt_state_def)
  from tree_same_on [OF this same] have tree: "tables m' t l = tables m t l" "leaf m' t l va = leaf m t l va" "pt_wf m' t l"
    by simp_all
  have "live' x = Some table_layout" if "x \<in> tables m t l" for x
  proof -
    have "live x = Some table_layout" using pt that by (simp add: pt_state_def)
    then show ?thesis using sub that unfolding map_le_def by (metis domI restrict_in)
  qed
  then show "pt_state U m' h' live' t l" "leaf m' t l va = leaf m t l va"
    using inv tree unfolding pt_state_def by auto
qed

lemma tables_kept_runs:
  assumes inv: "kernel_inv U live saved k" and inp: "input_inv (kn_sched k) inp"
    and pt: "pt_state U (kn_mem k) (kn_heap k) live t l" and runs: "kernel_runs U (k, inp) (k', inp')"
  obtains live' where "pt_state U (kn_mem k') (kn_heap k') live' t l" and "\<And>va. leaf (kn_mem k') t l va = leaf (kn_mem k) t l va"
proof -
  let ?T = "tables (kn_mem k) t l"
  note kp = tables_kept [OF inv pt]
  have "system_keeps U (live |` ?T) (kn_mem k) (k, inp)" using inv inp kp(1) by (auto simp: system_keeps_def)
  then have "system_keeps U (live |` ?T) (kn_mem k) (k', inp')" by (rule kernel_runs_keeps [OF runs])
  then obtain F' live' where "heap_inv (kn_mem k') (kn_heap k') U F' live'" "(live |` ?T) \<subseteq>\<^sub>m live'"
    "same_on (table_bytes ?T) (kn_mem k) (kn_mem k')"
    unfolding system_keeps_def kept_def kernel_inv_def kp(2) by auto
  note k' = pt_state_kept [OF pt this]
  show thesis by (rule that [OF k'])
qed

subsection \<open>\<open>sched::init\<close> and the demonstration tasks\<close>

lemma task_boot_simps [simp]: "tk_id (task_boot i) = i" "tk_stack (task_boot i) = None" "tk_state (task_boot i) = task_state.Ready"
  by (simp_all add: task_boot_def)

lemma replicate_four: "replicate 4 x = [x, x, x, x]"
  by (simp add: numeral_eq_Suc)

lemma sched_init_ok:
  assumes inv: "heap_inv (kn_mem k) (kn_heap k) U F live" and below: "arena_below (hp_pages (kn_heap k))"
    and s: "kn_sched k = scheduler_new" and vals: "idle < usize_limit" "trampoline < usize_limit"
  obtains k' and c :: context_stack and saved where "sched_init trampoline idle k = Inr k'" and "live (cs_base c) = None"
      and "kernel_inv U (live(cs_base c \<mapsto> CONTEXT_STACK_LAYOUT)) saved k'" and "kn_regs k' = kn_regs k"
      and "sd_tasks (kn_sched k') ! 0 = Some (task_boot 0)" and "sd_current (kn_sched k') = 0"
      and "input_inv (kn_sched k') tty_input_new" and "same_on (live_area live) (kn_mem k) (kn_mem k')"
      and "hp_pages (kn_heap k') = hp_pages (kn_heap k)" and "\<And>i. i < 4 \<Longrightarrow> (sd_tasks (kn_sched k') ! i = None) = (2 \<le> i)"
  | "sched_init trampoline idle k = Inl UnwrapNone"
proof (rule task_new_ok [OF inv vals below, of IDLE_TASK_ID])
  assume "task_new (kn_mem k) (kn_heap k) IDLE_TASK_ID idle trampoline = Inr (kn_mem k, kn_heap k, None)"
  then show thesis using that(2) s by (simp add: sched_init_def Sched.table_set_def scheduler_new_def TASKS_COUNT_def unwrap_def)
next
  fix m' h' F' c
  let ?t = "\<lparr>tk_id = IDLE_TASK_ID, tk_context = \<lparr>ctx_sp = cs_base c + 16224\<rparr>, tk_stack = Some c, tk_ticks = 0, tk_state = task_state.Ready\<rparr>"
  let ?live = "live(cs_base c \<mapsto> CONTEXT_STACK_LAYOUT)"
  let ?s = "\<lparr>sd_tasks = [Some (task_boot 0), Some ?t, None, None], sd_current = 0\<rparr>"
  let ?k' = "k\<lparr>kn_mem := m', kn_heap := h', kn_sched := ?s\<rparr>"
  assume n: "task_new (kn_mem k) (kn_heap k) IDLE_TASK_ID idle trampoline = Inr (m', h', Some ?t)"
    and c: "live (cs_base c) = None" "cs_size c = CONTEXT_STACK_SIZE" and h': "heap_inv m' h' U F' ?live"
    and pg: "hp_pages h' = hp_pages (kn_heap k)" and same: "same_on (live_area live) (kn_mem k) m'"
    and fr: "read_frame m' (cs_base c + 16224) = frame_default\<lparr>x30 := trampoline, x19 := idle\<rparr>"
  have step: "sched_init trampoline idle k = Inr ?k'"
    using n s by (simp add: sched_init_def Sched.table_set_def scheduler_new_def TASKS_COUNT_def unwrap_def replicate_four BOOT_TASK_ID_def)
  have slots: "sd_tasks ?s ! i = (if i = 0 then Some (task_boot 0) else if i = 1 then Some ?t else None)" if "i < 4" for i
  proof -
    have "i = 0 \<or> i = 1 \<or> i = 2 \<or> i = 3" using that by linarith
    then show ?thesis by (elim disjE) simp_all
  qed
  have st: "i = 0 \<and> u = task_boot 0 \<or> i = 1 \<and> u = ?t" if "i < 4" "sd_tasks ?s ! i = Some u" for i u
    using that slots [of i] by (auto split: if_splits)
  have "tasks_inv ?live ?s"
    unfolding tasks_inv_def
  proof (intro conjI allI impI)
    show "\<not> dead_at ?s 1" by (simp add: dead_at_def)
    fix i u assume i: "i < 4" "sd_tasks ?s ! i = Some u"
    show "tk_id u = i" "stack_live ?live u" using st [OF i] c(2) by (auto simp: IDLE_TASK_ID_def stack_live_def)
    fix j v b assume j: "j < 4" "sd_tasks ?s ! j = Some v" "i \<noteq> j" "stack_base u = Some b"
    show "stack_base v \<noteq> Some b" using st [OF i] st [OF j(1,2)] j(3,4) by (auto simp: stack_base_def)
  qed simp_all
  moreover have "parked m' u (fresh_regs trampoline idle c)" if "j < 4" "j \<noteq> 0" "sd_tasks ?s ! j = Some u" for j u
    using st [OF that(1,3)] that(2) fr by (auto simp: parked_def fresh_regs_def)
  ultimately have "kernel_inv U ?live (\<lambda>_. fresh_regs trampoline idle c) ?k'"
    using h' below pg unfolding kernel_inv_def by auto
  moreover have "\<not> in_state Blocked ?s i" if "i < 4" for i using st [OF that] by (auto simp: in_state_def)
  then have "input_inv ?s tty_input_new"
    using ring.new_inv [of input_byte_EMPTY] ring.new_abs [of input_byte_EMPTY]
    by (auto simp: input_inv_def tty_input_new_def wait_queue_new_def wait_exact_def in_state_def IDLE_TASK_ID_def)
  moreover have "(sd_tasks ?s ! i = None) = (2 \<le> i)" if "i < 4" for i unfolding slots [OF that] by auto
  ultimately show thesis using that(1) [of ?k' c] step c(1) same pg by simp
qed

subsection \<open>The demonstration tasks\<close>

text \<open>No four free pages in a row, aligned: what a stack is made of.\<close>

definition no_stack_room :: "pfn set \<Rightarrow> kernel \<Rightarrow> bool" where
  "no_stack_room U k \<longleftrightarrow> (\<exists>F live. heap_inv (kn_mem k) (kn_heap k) U F live \<and> (\<forall>b. 4 dvd b \<longrightarrow> \<not> block b 2 \<subseteq> F))"

lemma task_new_pages: "task_new m h i entry trampoline = Inr (m', h', found) \<Longrightarrow> hp_pages h' = hp_pages h"
  by (auto simp: task_new_def context_stack_new_def obind_eq_Inr case_prod_unfold dest!: alloc_layout_pages split: option.split_asm)

lemma spawn_pages: "spawn trampoline entry k = Inr (k', r) \<Longrightarrow> hp_pages (kn_heap k') = hp_pages (kn_heap k)"
  by (auto simp: spawn_def obind_eq_Inr dest!: task_new_pages split: option.split_asm)

lemma spawn_slot:
  assumes inv: "kernel_inv U live saved k" and inp: "input_inv (kn_sched k) inp"
    and vals: "entry < usize_limit" "trampoline < usize_limit" and slot: "i < 4" "sd_tasks (kn_sched k) ! i = None"
  obtains k' live' saved' j t where "spawn trampoline entry k = Inr (k', Inr ())"
      and "kernel_inv U live' saved' k'" and "input_inv (kn_sched k') inp" and "keeps live k live' k'"
      and "kn_sched k' = (kn_sched k)\<lparr>sd_tasks := (sd_tasks (kn_sched k))[j := Some t]\<rparr>"
      and "j < 4" and "sd_tasks (kn_sched k) ! j = None" and "tk_state t = task_state.Ready" and "kn_regs k' = kn_regs k"
  | "spawn trampoline entry k = Inr (k, Inl RanOutOfMemory)" and "no_stack_room U k"
proof -
  obtain k1 r live1 saved1 where s: "spawn trampoline entry k = Inr (k1, r)" "kernel_inv U live1 saved1 k1"
    "input_inv (kn_sched k1) inp" "keeps live k live1 k1"
    by (rule spawn_input [OF inv inp vals])
  show thesis
    by (rule spawn_ok [OF inv vals]) (use s slot that in \<open>auto simp: no_stack_room_def\<close>)
qed

lemma demo_start_ok:
  assumes inv: "kernel_inv U live saved k" and inp: "input_inv (kn_sched k) inp"
    and ca: "ca_trampoline ca < usize_limit" "ca_task_a ca < usize_limit" "ca_task_b ca < usize_limit"
    and tasks: "\<And>i. i < 4 \<Longrightarrow> (sd_tasks (kn_sched k) ! i = None) = (2 \<le> i)" "sd_current (kn_sched k) = 0"
      "in_state task_state.Ready (kn_sched k) 0" "in_state task_state.Ready (kn_sched k) 1"
  obtains k' live' saved' where "demo_start ca k = Inr (k', Inr ())" and "kernel_inv U live' saved' k'"
      and "input_inv (kn_sched k') inp" and "keeps live k live' k'" and "\<forall>i<4. in_state task_state.Ready (kn_sched k') i"
      and "sd_current (kn_sched k') = 0" and "sd_tasks (kn_sched k') ! 0 = sd_tasks (kn_sched k) ! 0" and "kn_regs k' = kn_regs k"
      and "hp_pages (kn_heap k') = hp_pages (kn_heap k)"
  | k' message where "demo_start ca k = Inr (k', Inl message)" and "no_stack_room U k'"
      and "hp_pages (kn_heap k') = hp_pages (kn_heap k)"
proof -
  have len: "length (sd_tasks (kn_sched k)) = 4" using inv by (simp add: kernel_inv_def tasks_inv_def)
  show thesis
  proof (rule spawn_slot [OF inv inp ca(2,1), of 2])
    fix k1 live1 saved1 j t
    assume a: "spawn (ca_trampoline ca) (ca_task_a ca) k = Inr (k1, Inr ())" "kernel_inv U live1 saved1 k1"
      "input_inv (kn_sched k1) inp" "keeps live k live1 k1"
      and s1: "kn_sched k1 = (kn_sched k)\<lparr>sd_tasks := (sd_tasks (kn_sched k))[j := Some t]\<rparr>" "j < 4"
      "sd_tasks (kn_sched k) ! j = None" "tk_state t = task_state.Ready" "kn_regs k1 = kn_regs k"
    have j: "j = 2 \<or> j = 3" using tasks(1) [OF s1(2)] s1(2,3) by auto
    define i where "i = 5 - j"
    have i: "i < 4" "i \<noteq> j" "2 \<le> i" "sd_tasks (kn_sched k1) ! i = None" using j tasks(1) by (auto simp: i_def s1(1))
    show thesis
    proof (rule spawn_slot [OF a(2,3) ca(3,1) i(1,4)])
      fix k2 live2 saved2 j2 t2
      assume b: "spawn (ca_trampoline ca) (ca_task_b ca) k1 = Inr (k2, Inr ())" "kernel_inv U live2 saved2 k2"
        "input_inv (kn_sched k2) inp" "keeps live1 k1 live2 k2"
        and s2: "kn_sched k2 = (kn_sched k1)\<lparr>sd_tasks := (sd_tasks (kn_sched k1))[j2 := Some t2]\<rparr>" "j2 < 4"
        "sd_tasks (kn_sched k1) ! j2 = None" "tk_state t2 = task_state.Ready" "kn_regs k2 = kn_regs k1"
      have j2: "j2 = i"
      proof (rule ccontr)
        assume "j2 \<noteq> i"
        then have "j2 = 0 \<or> j2 = 1 \<or> j2 = j" using s2(2) j i_def by auto
        then show False using s2(3) s1(2) len tasks(1) [of 0] tasks(1) [of 1] j by (auto simp: s1(1))
      qed
      have slots: "sd_tasks (kn_sched k2) ! n = (if n = i then Some t2 else if n = j then Some t else sd_tasks (kn_sched k) ! n)" if "n < 4" for n
        using that len i(1,2) s1(2) by (simp add: s2(1) s1(1) j2 nth_list_update)
      have "in_state task_state.Ready (kn_sched k2) n" if "n < 4" for n
      proof -
        have "n = i \<or> n = j \<or> n = 0 \<or> n = 1" using that j i_def by auto
        then show ?thesis using slots [OF that] s1(4) s2(4) tasks(3,4) by (auto simp: in_state_def)
      qed
      moreover have "sd_tasks (kn_sched k2) ! 0 = sd_tasks (kn_sched k) ! 0" using slots [of 0] i(3) j by auto
      moreover have "keeps live k live2 k2" by (rule keeps_trans [OF a(4) b(4)])
      ultimately show thesis
        using that(1) [of k2 live2 saved2] a(1) b(1,2,3) s1(5) s2(1,5) tasks(2) spawn_pages [OF a(1)] spawn_pages [OF b(1)]
        by (simp add: demo_start_def s1(1))
    next
      assume "spawn (ca_trampoline ca) (ca_task_b ca) k1 = Inr (k1, Inl RanOutOfMemory)" "no_stack_room U k1"
      then show thesis using that(2) [of k1] a(1) spawn_pages [OF a(1)] by (simp add: demo_start_def)
    qed
  next
    assume "spawn (ca_trampoline ca) (ca_task_a ca) k = Inr (k, Inl RanOutOfMemory)" "no_stack_room U k"
    then show thesis using that(2) [of k] by (simp add: demo_start_def)
  qed (use tasks(1) [of 2] in simp_all)
qed

lemma pt_state_keeps:
  assumes inv: "kernel_inv U live saved k" and pt: "pt_state U (kn_mem k) (kn_heap k) live t l"
    and inv': "kernel_inv U live' saved' k'" and kp: "keeps live k live' k'"
  shows "pt_state U (kn_mem k') (kn_heap k') live' t l" and "leaf (kn_mem k') t l va = leaf (kn_mem k) t l va"
proof -
  note tk = tables_kept [OF inv pt]
  have s: "(live |` tables (kn_mem k) t l) \<subseteq>\<^sub>m live'" "same_on (table_bytes (tables (kn_mem k) t l)) (kn_mem k) (kn_mem k')"
    using kp tk(1) unfolding keeps_def tk(2) [symmetric] kept_def by blast+
  obtain F where h: "heap_inv (kn_mem k') (kn_heap k') U F live'" using inv' unfolding kernel_inv_def by blast
  show "pt_state U (kn_mem k') (kn_heap k') live' t l" "leaf (kn_mem k') t l va = leaf (kn_mem k) t l va"
    by (rule pt_state_kept [OF pt h s])+
qed

subsection \<open>Everything a step of the boot can do\<close>

definition boot_wp :: "(panic \<Rightarrow> bool) \<Rightarrow> ('d world \<Rightarrow> boot_error \<Rightarrow> bool) \<Rightarrow> ('d, 'a) boot_step \<Rightarrow> ('a \<Rightarrow> bool) \<Rightarrow> bool" where
  "boot_wp P E x Q = (case x of
      None \<Rightarrow> False
    | Some (Inl p) \<Rightarrow> P p
    | Some (Inr (Inl (w, e))) \<Rightarrow> E w e
    | Some (Inr (Inr v)) \<Rightarrow> Q v)"

lemma boot_wp_simps [simp]:
  "boot_wp P E (Some (Inl p)) Q = P p" "boot_wp P E (Some (Inr (Inl (w, e)))) Q = E w e" "boot_wp P E (Some (Inr (Inr v))) Q = Q v"
  "boot_wp P E None Q = False"
  by (simp_all add: boot_wp_def)

lemma boot_wp_bind [simp]: "boot_wp P E (bbind x f) Q = boot_wp P E x (\<lambda>v. boot_wp P E (f v) Q)"
  by (auto simp: boot_wp_def bbind_def split: option.splits sum.splits)

lemma boot_wp_weaken:
  "boot_wp P E x Q \<Longrightarrow> (\<And>p. P p \<Longrightarrow> P' p) \<Longrightarrow> (\<And>w e. E w e \<Longrightarrow> E' w e) \<Longrightarrow> (\<And>v. Q v \<Longrightarrow> Q' v) \<Longrightarrow> boot_wp P' E' x Q'"
  by (auto simp: boot_wp_def split: option.splits sum.splits)

subsection \<open>Devices\<close>

text \<open>Of the serial port at a base: neither its transmitter nor its queue stays busy for ever.\<close>

definition settles :: "'d hardware \<Rightarrow> usize \<Rightarrow> ('d \<Rightarrow> nat) \<Rightarrow> bool" where
  "settles hw base pending \<longleftrightarrow> (\<forall>d. \<forall>flag \<in> {fr_BUSY, fr_TXFF}. fst (read_register hw base reg_FR d) AND flag \<noteq> 0 \<longrightarrow>
    pending (snd (read_register hw base reg_FR d)) < pending d)"

text \<open>A step that touches the devices only.\<close>

definition devices_only :: "'d world \<Rightarrow> 'd world \<Rightarrow> bool" where
  "devices_only w w' \<longleftrightarrow> (\<exists>d. w' = w\<lparr>w_dev := d\<rparr>)"

lemma devices_only_refl [intro]: "devices_only w (w\<lparr>w_dev := d\<rparr>)"
  by (auto simp: devices_only_def)

lemma devices_only_trans: "devices_only w w1 \<Longrightarrow> devices_only w1 w2 \<Longrightarrow> devices_only w w2"
  by (auto simp: devices_only_def)

lemma devices_only_fields:
  assumes "devices_only w w'"
  shows "w_kernel w' = w_kernel w" "w_input w' = w_input w" "w_uart w' = w_uart w" "w_irq w' = w_irq w" "w_gic w' = w_gic w"
  using assms by (auto simp: devices_only_def)

lemma settles_transmits: "settles hw base pending \<Longrightarrow> transmits hw base pending"
  by (simp add: settles_def transmits_def)

lemma settles_busy: "settles hw base pending \<Longrightarrow> \<exists>d'. wait_while hw base fr_BUSY d = Some d'"
  by (rule wait_while_some [of _ _ _ pending]) (simp add: settles_def)

lemma print_line_ok:
  assumes "settles hw (w_uart w) pending"
  obtains w' where "print_line hw s w = Some w'" and "devices_only w w'"
  using put_bytes_ends [OF settles_transmits [OF assms], of "s @ [10]" "w_dev w"] that by (auto simp: print_line_def)

lemma console_init_ok:
  assumes "settles hw (w_uart w) pending"
  obtains w' where "console_init hw w = Some w'" and "devices_only w w'"
  using settles_busy [OF assms, of "write_register hw (w_uart w) reg_CR cr_DISABLE (w_dev w)"] that
  by (auto simp: console_init_def uart_init_def Let_def)

lemma or_halt_ok:
  assumes "settles hw (w_uart w) pending" and "\<And>w'. devices_only w w' \<Longrightarrow> E w' e"
  shows "boot_wp P E (or_halt hw w (Inl e)) Q"
proof -
  obtain w1 where w1: "print_line hw (boot_error_text e) w = Some w1" "devices_only w w1" by (rule print_line_ok [OF assms(1)])
  have "settles hw (w_uart w1) pending" using assms(1) devices_only_fields(3) [OF w1(2)] by simp
  from settles_busy [OF this, of "w_dev w1"] obtain d where d: "uart_flush hw (w_uart w1) (w_dev w1) = Some d" by (auto simp: uart_flush_def)
  have "E (w1\<lparr>w_dev := d\<rparr>) e" by (rule assms(2)) (use w1(2) in \<open>auto simp: devices_only_def\<close>)
  then show ?thesis using w1(1) d by (simp add: or_halt_def halt_def)
qed

lemma or_halt_Inr [simp]: "or_halt hw w (Inr v) = Some (Inr (Inr v))"
  by (simp add: or_halt_def)

lemma register_ok:
  assumes "settles hw (w_uart w) pending" and "\<not> ir_live (w_irq w)" and "length (ir_handlers (w_irq w)) = 64"
  obtains w' where "register hw n h w = Some w'" and "w_kernel w' = w_kernel w" and "w_input w' = w_input w" and "w_uart w' = w_uart w"
    and "w_irq w' = (w_irq w)\<lparr>ir_handlers := if unat n < 64 then (ir_handlers (w_irq w))[unat n := Some h] else ir_handlers (w_irq w)\<rparr>"
proof (cases "unat n < 64")
  case True
  then show thesis using that assms(2,3) by (simp add: register_def handlers_set_def)
next
  case False
  obtain w' where w': "print_line hw (ascii ''IRQ '' @ fmt_dec (unat n) @ ascii '' is past the '' @ fmt_dec IRQ_COUNT
           @ ascii '' the handler table holds'') w = Some w'" "devices_only w w'"
    by (rule print_line_ok [OF assms(1)])
  show thesis
    by (rule that [of w']) (use w' False assms(2,3) devices_only_fields [OF w'(2)] in \<open>simp_all add: register_def handlers_set_def\<close>)
qed

lemma drivers_init_ok:
  assumes s: "settles hw (dev_base (b_uart board)) pending" and irq: "w_irq w = irq_new"
  obtains w' where "drivers_init hw board w = Some w'" and "w_kernel w' = w_kernel w" and "w_input w' = w_input w"
    and "w_uart w' = dev_base (b_uart board)" and "ir_live (w_irq w')" and "length (ir_handlers (w_irq w')) = 64"
    and "unat (b_timer_intid board) < 64 \<Longrightarrow> handlers_get (ir_handlers (w_irq w')) (b_timer_intid board) = Some TimeHandler"
    and "unat (dev_intid (b_uart board)) < 64 \<Longrightarrow> dev_intid (b_uart board) \<noteq> b_timer_intid board \<Longrightarrow>
      handlers_get (ir_handlers (w_irq w')) (dev_intid (b_uart board)) = Some UartHandler"
proof -
  let ?base = "dev_base (b_uart board)" and ?u = "dev_intid (b_uart board)" and ?t = "b_timer_intid board"
  obtain w1 where w1: "console_init hw (w\<lparr>w_uart := ?base\<rparr>) = Some w1" "devices_only (w\<lparr>w_uart := ?base\<rparr>) w1"
    by (rule console_init_ok [of hw "w\<lparr>w_uart := ?base\<rparr>"]) (use s in simp_all)
  note f1 = devices_only_fields [OF w1(2)]
  let ?w2 = "w1\<lparr>w_gic := b_gic board, w_dev := gic_init hw (b_gic board) (w_dev w1)\<rparr>"
  obtain w3 where w3: "register hw ?u UartHandler ?w2 = Some w3" "w_kernel w3 = w_kernel ?w2" "w_input w3 = w_input ?w2" "w_uart w3 = w_uart ?w2"
    "w_irq w3 = (w_irq ?w2)\<lparr>ir_handlers := if unat ?u < 64 then (ir_handlers (w_irq ?w2))[unat ?u := Some UartHandler] else ir_handlers (w_irq ?w2)\<rparr>"
    by (rule register_ok [of hw ?w2 pending]) (use s f1 irq in \<open>simp_all add: irq_new_def IRQ_COUNT_def\<close>)
  let ?w4 = "w3\<lparr>w_dev := enable_interrupt hw (w_uart w3) (w_dev w3)\<rparr>"
  let ?w5 = "?w4\<lparr>w_interval := frequency hw (w_dev ?w4) div ucast TIMER_HZ, w_hz := ucast TIMER_HZ\<rparr>"
  obtain w6 where w6: "register hw ?t TimeHandler ?w5 = Some w6" "w_kernel w6 = w_kernel ?w5" "w_input w6 = w_input ?w5" "w_uart w6 = w_uart ?w5"
    "w_irq w6 = (w_irq ?w5)\<lparr>ir_handlers := if unat ?t < 64 then (ir_handlers (w_irq ?w5))[unat ?t := Some TimeHandler] else ir_handlers (w_irq ?w5)\<rparr>"
    by (rule register_ok [of hw ?w5 pending]) (use s f1 irq w3 in \<open>simp_all add: irq_new_def IRQ_COUNT_def\<close>)
  define hs where "hs = (if unat ?u < 64 then (replicate 64 None)[unat ?u := Some UartHandler] else replicate 64 None)"
  have "w_irq ?w2 = \<lparr>ir_live = False, ir_handlers = replicate 64 None\<rparr>" using f1 irq by (simp add: irq_new_def IRQ_COUNT_def)
  then have i3: "w_irq ?w5 = \<lparr>ir_live = False, ir_handlers = hs\<rparr>" using w3(5) by (simp add: hs_def)
  have i6: "w_irq w6 = \<lparr>ir_live = False, ir_handlers = if unat ?t < 64 then hs[unat ?t := Some TimeHandler] else hs\<rparr>"
    using w6(5) unfolding i3 by simp
  have len: "length hs = 64" by (simp add: hs_def)
  let ?w7 = "irq_unmask (w6\<lparr>w_dev := timer_start hw (w_interval ?w5) (w_dev w6)\<rparr>)"
  have hu: "hs ! unat ?u = Some UartHandler" if "unat ?u < 64" using that by (simp add: hs_def)
  show thesis
  proof (rule that [of ?w7])
    show "drivers_init hw board w = Some ?w7"
      using w1(1) w3(1) w6(1) by (simp add: drivers_init_def adopt_def time_init_def Let_def)
    show "handlers_get (ir_handlers (w_irq ?w7)) ?t = Some TimeHandler" if "unat ?t < 64"
      using that i6 len by (simp add: irq_unmask_def handlers_get_def)
    show "handlers_get (ir_handlers (w_irq ?w7)) ?u = Some UartHandler" if "unat ?u < 64" "?u \<noteq> ?t"
    proof -
      have "unat ?t \<noteq> unat ?u" using that(2) by (simp add: word_unat_eq_iff)
      then show ?thesis using that(1) i6 len hu by (simp add: irq_unmask_def handlers_get_def)
    qed
  qed (use f1 w3(2,3,4) w6(2,3,4) i6 len in \<open>simp_all add: irq_unmask_def\<close>)
qed

subsection \<open>From the memory map to the greeting\<close>

text \<open>Everything but the devices, the memory and the heap is as it was.\<close>

definition same_besides :: "'d world \<Rightarrow> 'd world \<Rightarrow> bool" where
  "same_besides w w' \<longleftrightarrow> w_input w' = w_input w \<and> w_uart w' = w_uart w \<and> w_irq w' = w_irq w
    \<and> kn_sched (w_kernel w') = kn_sched (w_kernel w) \<and> kn_regs (w_kernel w') = kn_regs (w_kernel w)"

lemma same_besides_devices: "devices_only w w' \<Longrightarrow> same_besides w w'"
  using devices_only_fields [of w w'] by (simp add: same_besides_def)

lemma same_besides_trans: "same_besides w w1 \<Longrightarrow> same_besides w1 w2 \<Longrightarrow> same_besides w w2"
  by (simp add: same_besides_def)

lemma same_besides_kernel: "same_besides w (w\<lparr>w_kernel := (w_kernel w)\<lparr>kn_mem := m, kn_heap := h\<rparr>\<rparr>)"
  by (simp add: same_besides_def)

text \<open>The map the kernel runs under, as the policy of the boot plan says.\<close>

definition boot_map :: "mem \<Rightarrow> table \<Rightarrow> linker_symbols \<Rightarrow> region \<Rightarrow> region \<Rightarrow> bool" where
  "boot_map m t ld memory dtb \<longleftrightarrow> (\<forall>va < 2 ^ 39. case boot_template ld memory dtb va of
      None \<Rightarrow> leaf m t Level1 va = None
    | Some tpl \<Rightarrow> \<exists>l. leaf m t Level1 va = Some (leaf_desc tpl l va, l))"

text \<open>Why the boot stopped, told from the kernel as it was then.\<close>

definition boot_refused :: "linker_symbols \<Rightarrow> region \<Rightarrow> region \<Rightarrow> kernel \<Rightarrow> boot_error \<Rightarrow> bool" where
  "boot_refused ld memory dtb k e \<longleftrightarrow> (let U = free_at_boot ld memory dtb (kn_heap k) in case e of
      NoBoard _ \<Rightarrow> False
    | NoMemory _ \<Rightarrow> memory_map_new memory = None
    | NoMap fault \<Rightarrow> boot_fault U ld dtb (kn_mem k) (kn_heap k) fault
    | NoTasks _ \<Rightarrow> no_stack_room U k)"

lemma memory_init_ok:
  assumes s: "settles hw (w_uart w) pending" and h: "kn_heap (w_kernel w) = heap_empty" and m: "region_fits memory"
    and P: "P (Panicked ''Failed to initialize heap pages'')"
    and E: "\<And>w' message. memory_map_new memory = None \<Longrightarrow> E w' (NoMemory message)"
    and Q: "\<And>w'. same_besides w w' \<Longrightarrow>
      heap_inv (kn_mem (w_kernel w')) (kn_heap (w_kernel w')) (free_at_boot ld memory dtb (kn_heap (w_kernel w')))
        (free_at_boot ld memory dtb (kn_heap (w_kernel w'))) Map.empty \<Longrightarrow>
      (\<And>p. p \<in> covered (hp_pages (kn_heap (w_kernel w'))) \<longleftrightarrow> page_bytes p \<subseteq> region_bytes memory) \<Longrightarrow>
      meta_bytes (hp_pages (kn_heap (w_kernel w'))) \<inter> {r_base (image ld)..<region_end (image ld)} = {} \<Longrightarrow> Q w'"
  shows "boot_wp P E (memory_init hw ld memory dtb w) Q"
proof (rule mm_init_boot [OF m, of "kn_mem (w_kernel w)" ld dtb])
  assume "mm_init (kn_mem (w_kernel w)) heap_empty ld memory dtb = Inl (Panicked ''Failed to initialize heap pages'')"
  then show ?thesis using P h by (simp add: memory_init_def)
next
  assume a: "mm_init (kn_mem (w_kernel w)) heap_empty ld memory dtb = Inr (Inl ''The device tree reported no usable memory'')"
    "memory_map_new memory = None"
  have "boot_wp P E (or_halt hw w (Inl (NoMemory ''The device tree reported no usable memory''))) Q"
    by (rule or_halt_ok [OF s]) (rule E [OF a(2)])
  then show ?thesis using a(1) h by (simp add: memory_init_def)
next
  fix m' h' mm
  assume a: "mm_init (kn_mem (w_kernel w)) heap_empty ld memory dtb = Inr (Inr (m', h', mm))"
    and i: "heap_inv m' h' (free_at_boot ld memory dtb h') (free_at_boot ld memory dtb h') Map.empty"
      "\<And>p. p \<in> covered (hp_pages h') \<longleftrightarrow> page_bytes p \<subseteq> region_bytes memory"
      "meta_bytes (hp_pages h') \<inter> {r_base (image ld)..<region_end (image ld)} = {}"
  let ?w1 = "w\<lparr>w_kernel := (w_kernel w)\<lparr>kn_mem := m', kn_heap := h'\<rparr>\<rparr>"
  obtain w2 where w2: "print_line hw (ascii ''memory: '' @ region_text memory) ?w1 = Some w2" "devices_only ?w1 w2"
    by (rule print_line_ok [of hw ?w1 pending]) (use s in simp_all)
  obtain w3 where w3: "print_line hw (ascii ''heap: '' @ heap_text h') w2 = Some w3" "devices_only w2 w3"
    by (rule print_line_ok [of hw w2 pending]) (use s devices_only_fields [OF w2(2)] in simp_all)
  have d: "devices_only ?w1 w3" by (rule devices_only_trans [OF w2(2) w3(2)])
  have "Q w3"
    by (rule Q [OF same_besides_trans [OF same_besides_kernel same_besides_devices [OF d]]])
      (use i devices_only_fields(1) [OF d] in simp_all)
  then show ?thesis using a h w2(1) w3(1) by (simp add: memory_init_def)
qed

lemma free_at_boot_pages: "hp_pages h = hp_pages h' \<Longrightarrow> free_at_boot ld memory dtb h = free_at_boot ld memory dtb h'"
  by (simp add: free_at_boot_def)

lemma paging_init_ok:
  fixes w :: "'d world" and ld :: linker_symbols and memory dtb :: region
  defines "k \<equiv> w_kernel w"
  defines "U \<equiv> free_at_boot ld memory dtb (kn_heap k)"
  assumes s: "settles hw (w_uart w) pending" and inv: "heap_inv (kn_mem k) (kn_heap k) U F live"
    and U: "low_pages U" and b: "board_ok ld memory dtb"
    and E: "\<And>w' fault. boot_refused ld memory dtb (w_kernel w') (NoMap fault) \<Longrightarrow> E w' (NoMap fault)"
    and Q: "\<And>w' t live'. same_besides w w' \<Longrightarrow> hp_pages (kn_heap (w_kernel w')) = hp_pages (kn_heap k) \<Longrightarrow>
      pt_state U (kn_mem (w_kernel w')) (kn_heap (w_kernel w')) live' t Level1 \<Longrightarrow>
      boot_map (kn_mem (w_kernel w')) t ld memory dtb \<Longrightarrow> Q (w', mmu_enable sr t)"
  shows "boot_wp P E (paging_init hw ld memory dtb sr w) Q"
proof (rule mmu_init_ok [OF inv U b, of sr])
  fix m' h' t live'
  assume a: "mmu_init (kn_mem k) (kn_heap k) sr ld memory dtb = Inr (m', h', Inr (mmu_enable sr t))"
    "pt_state U m' h' live' t Level1"
    "\<And>va. va < 2 ^ 39 \<Longrightarrow> (case boot_template ld memory dtb va of None \<Rightarrow> leaf m' t Level1 va = None
      | Some tpl \<Rightarrow> \<exists>l. leaf m' t Level1 va = Some (leaf_desc tpl l va, l))"
  have "Q (w\<lparr>w_kernel := k\<lparr>kn_mem := m', kn_heap := h'\<rparr>\<rparr>, mmu_enable sr t)"
    by (rule Q [of _ live']) (use a(2,3) mmu_init_pages [OF a(1)] in \<open>simp_all add: k_def same_besides_kernel boot_map_def\<close>)
  then show ?thesis using a(1) by (simp add: paging_init_def k_def)
next
  fix m' h' e
  assume a: "mmu_init (kn_mem k) (kn_heap k) sr ld memory dtb = Inr (m', h', Inl e)" "boot_fault U ld dtb m' h' e"
  let ?w1 = "w\<lparr>w_kernel := k\<lparr>kn_mem := m', kn_heap := h'\<rparr>\<rparr>"
  have "free_at_boot ld memory dtb h' = U" unfolding U_def by (rule free_at_boot_pages [OF mmu_init_pages [OF a(1)]])
  then have r: "boot_refused ld memory dtb (k\<lparr>kn_mem := m', kn_heap := h'\<rparr>) (NoMap e)" using a(2) by (simp add: boot_refused_def)
  have "boot_wp P E (or_halt hw ?w1 (Inl (NoMap e))) Q"
  proof (rule or_halt_ok)
    show "settles hw (w_uart ?w1) pending" using s by simp
    fix w' assume "devices_only ?w1 w'"
    then show "E w' (NoMap e)" using E [of w' e] r devices_only_fields(1) [of ?w1 w'] by simp
  qed
  then show ?thesis using a(1) by (simp add: paging_init_def k_def)
qed

text \<open>The kernel is up: tasks, console input, heap and translation tables, all at once.\<close>

definition machine_up :: "linker_symbols \<Rightarrow> region \<Rightarrow> region \<Rightarrow> 'd world \<Rightarrow> table \<Rightarrow> bool" where
  "machine_up ld memory dtb w t \<longleftrightarrow> (let k = w_kernel w; U = free_at_boot ld memory dtb (kn_heap k) in
    (\<exists>live saved. kernel_inv U live saved k \<and> pt_state U (kn_mem k) (kn_heap k) live t Level1)
    \<and> input_inv (kn_sched k) (w_input w) \<and> running_ok U k \<and> boot_map (kn_mem k) t ld memory dtb
    \<and> sd_current (kn_sched k) = 0 \<and> (\<forall>i<4. in_state task_state.Ready (kn_sched k) i))"

definition code_ok :: "code_addresses \<Rightarrow> bool" where
  "code_ok ca \<longleftrightarrow> ca_trampoline ca < usize_limit \<and> ca_idle ca < usize_limit \<and> ca_task_a ca < usize_limit \<and> ca_task_b ca < usize_limit"

text \<open>The boot code runs on the stack the linker script reserves, with room for a frame.\<close>

definition on_boot_stack :: "linker_symbols \<Rightarrow> regs \<Rightarrow> bool" where
  "on_boot_stack ld rg \<longleftrightarrow> ld_stack_bottom ld + 160 \<le> rg_sp rg \<and> rg_sp rg \<le> ld_stack_top ld \<and> frame_fits (rg_frame rg)"

lemma boot_running_ok:
  assumes ld: "ld_ok ld" and rg: "on_boot_stack ld (kn_regs k)"
    and t: "sd_current (kn_sched k) = 0" "sd_tasks (kn_sched k) ! 0 = Some (task_boot 0)"
    and meta: "meta_bytes (hp_pages (kn_heap k)) \<inter> {r_base (image ld)..<region_end (image ld)} = {}"
  shows "running_ok (free_at_boot ld memory dtb (kn_heap k)) k"
proof -
  let ?sp = "rg_sp (kn_regs k)" and ?img = "{r_base (image ld)..<region_end (image ld)}"
  have le: "ld_image_start ld \<le> ld_stack_bottom ld" "ld_stack_bottom ld \<le> ld_stack_top ld" "ld_stack_top ld \<le> 2 ^ 39"
    using ld by (simp_all add: ld_ok_def)
  have sp: "ld_stack_bottom ld + 160 \<le> ?sp" "?sp \<le> ld_stack_top ld" using rg by (simp_all add: on_boot_stack_def)
  have img: "?img = {ld_image_start ld..<ld_stack_top ld}"
    using le by (simp add: image_def between_def usize_sub_small region_end_def usize_add_small)
  have inside: "range_of (?sp - 160) 160 \<subseteq> ?img" unfolding img using sp le by (auto simp: range_of_def)
  have "x \<notin> ?img" if "x div 4096 \<in> free_at_boot ld memory dtb (kn_heap k)" for x
  proof -
    have "page_bytes (x div 4096) \<inter> ?img = {}" using that by (simp add: free_at_boot_def)
    moreover have "x \<in> page_bytes (x div 4096)" by (simp add: page_bytes_def)
    ultimately show ?thesis by blast
  qed
  then have "range_of (?sp - 160) 160 \<inter> bytes_of (free_at_boot ld memory dtb (kn_heap k)) = {}"
    using inside unfolding bytes_of_def by blast
  moreover have "range_of (?sp - 160) 160 \<inter> meta_bytes (hp_pages (kn_heap k)) = {}" using inside meta by blast
  moreover have "160 \<le> ?sp" "?sp < usize_limit" "frame_fits (rg_frame (kn_regs k))" using sp le rg by (simp_all add: on_boot_stack_def)
  ultimately show ?thesis using t unfolding running_ok_def by (simp add: Int_Un_distrib del: in_range_of)
qed

lemma tasks_init_ok:
  fixes w :: "'d world" and ld :: linker_symbols and memory dtb :: region
  defines "k \<equiv> w_kernel w"
  defines "U \<equiv> free_at_boot ld memory dtb (kn_heap k)"
  assumes s: "settles hw (w_uart w) pending" and pt: "pt_state U (kn_mem k) (kn_heap k) live t Level1"
    and below: "arena_below (hp_pages (kn_heap k))" and new: "kn_sched k = scheduler_new" "w_input w = tty_input_new"
    and map: "boot_map (kn_mem k) t ld memory dtb" and ca: "code_ok ca"
    and ld: "ld_ok ld" and rg: "on_boot_stack ld (kn_regs k)"
    and meta: "meta_bytes (hp_pages (kn_heap k)) \<inter> {r_base (image ld)..<region_end (image ld)} = {}"
    and P: "P UnwrapNone"
    and E: "\<And>w' message. boot_refused ld memory dtb (w_kernel w') (NoTasks message) \<Longrightarrow> E w' (NoTasks message)"
    and Q: "\<And>k'. machine_up ld memory dtb (w\<lparr>w_kernel := k'\<rparr>) t \<Longrightarrow> Q (w\<lparr>w_kernel := k'\<rparr>)"
  shows "boot_wp P E (tasks_init hw ca w) Q"
proof -
  have cas: "ca_idle ca < usize_limit" "ca_trampoline ca < usize_limit" "ca_task_a ca < usize_limit" "ca_task_b ca < usize_limit"
    using ca by (simp_all add: code_ok_def)
  obtain F where h: "heap_inv (kn_mem k) (kn_heap k) U F live" using pt by (auto simp: pt_state_def)
  show ?thesis
  proof (rule sched_init_ok [OF h below new(1) cas(1,2)])
    assume "sched_init (ca_trampoline ca) (ca_idle ca) k = Inl UnwrapNone"
    then show ?thesis using P by (simp add: tasks_init_def k_def)
  next
    fix k1 and c :: context_stack and saved
    let ?live = "live(cs_base c \<mapsto> CONTEXT_STACK_LAYOUT)"
    assume a: "sched_init (ca_trampoline ca) (ca_idle ca) k = Inr k1" "live (cs_base c) = None" "kernel_inv U ?live saved k1"
      "kn_regs k1 = kn_regs k" "sd_tasks (kn_sched k1) ! 0 = Some (task_boot 0)" "sd_current (kn_sched k1) = 0"
      "input_inv (kn_sched k1) tty_input_new" "same_on (live_area live) (kn_mem k) (kn_mem k1)" "hp_pages (kn_heap k1) = hp_pages (kn_heap k)"
      and slots: "\<And>i. i < 4 \<Longrightarrow> (sd_tasks (kn_sched k1) ! i = None) = (2 \<le> i)"
    obtain F1 where h1: "heap_inv (kn_mem k1) (kn_heap k1) U F1 ?live" using a(3) by (auto simp: kernel_inv_def)
    have T: "live x = Some table_layout" if "x \<in> tables (kn_mem k) t Level1" for x using pt that by (simp add: pt_state_def)
    have sub: "(live |` tables (kn_mem k) t Level1) \<subseteq>\<^sub>m ?live"
      using a(2) by (auto simp: map_le_def restrict_map_def split: if_splits)
    have "table_bytes (tables (kn_mem k) t Level1) \<subseteq> live_area live"
      using T unfolding table_bytes_def live_area_def by fastforce
    then have same: "same_on (table_bytes (tables (kn_mem k) t Level1)) (kn_mem k) (kn_mem k1)" by (rule same_on_subset [OF a(8)])
    note pt1 = pt_state_kept [OF pt h1 sub same]
    show ?thesis
    proof (rule demo_start_ok [OF a(3,7) cas(2,3,4) slots a(6)])
      show "in_state task_state.Ready (kn_sched k1) 0" "in_state task_state.Ready (kn_sched k1) 1" using a(6,7) by (simp_all add: input_inv_def IDLE_TASK_ID_def)
      fix k2 live2 saved2
      assume d: "demo_start ca k1 = Inr (k2, Inr ())" "kernel_inv U live2 saved2 k2" "input_inv (kn_sched k2) tty_input_new"
        "keeps ?live k1 live2 k2" "\<forall>i<4. in_state task_state.Ready (kn_sched k2) i" "sd_current (kn_sched k2) = 0"
        "sd_tasks (kn_sched k2) ! 0 = sd_tasks (kn_sched k1) ! 0" "kn_regs k2 = kn_regs k1" "hp_pages (kn_heap k2) = hp_pages (kn_heap k1)"
      note pt2 = pt_state_keeps [OF a(3) pt1(1) d(2,4)]
      have "boot_map (kn_mem k2) t ld memory dtb" using map unfolding boot_map_def pt2(2) pt1(2) .
      moreover have U: "free_at_boot ld memory dtb (kn_heap k2) = U"
        unfolding U_def by (rule free_at_boot_pages) (simp add: d(9) a(9))
      moreover have "running_ok (free_at_boot ld memory dtb (kn_heap k2)) k2"
        by (rule boot_running_ok [OF ld]) (use rg meta a d in simp_all)
      ultimately have "machine_up ld memory dtb (w\<lparr>w_kernel := k2\<rparr>) t"
        using d(2,3,5,6) pt2(1) new(2) by (auto simp: machine_up_def Let_def)
      then show ?thesis using Q [of k2] a(1) d(1) by (simp add: tasks_init_def k_def)
    next
      fix k2 message
      assume d: "demo_start ca k1 = Inr (k2, Inl message)" "no_stack_room U k2" "hp_pages (kn_heap k2) = hp_pages (kn_heap k1)"
      have U: "free_at_boot ld memory dtb (kn_heap k2) = U"
        unfolding U_def by (rule free_at_boot_pages) (simp add: d(3) a(9))
      have "boot_wp P E (or_halt hw (w\<lparr>w_kernel := k2\<rparr>) (Inl (NoTasks message))) Q"
      proof (rule or_halt_ok)
        show "settles hw (w_uart (w\<lparr>w_kernel := k2\<rparr>)) pending" using s by simp
        fix w' assume "devices_only (w\<lparr>w_kernel := k2\<rparr>) w'"
        then show "E w' (NoTasks message)"
          by (intro E) (use d(2) U devices_only_fields(1) [of "w\<lparr>w_kernel := k2\<rparr>" w'] in \<open>simp add: boot_refused_def\<close>)
      qed
      then show ?thesis using a(1) d(1) by (simp add: tasks_init_def k_def)
    qed
  qed
qed

text \<open>The statics as the image has them, before \<open>kmain\<close> runs.\<close>

definition fresh_world :: "'d world \<Rightarrow> bool" where
  "fresh_world w \<longleftrightarrow> w_input w = tty_input_new \<and> w_irq w = irq_new
    \<and> kn_heap (w_kernel w) = heap_empty \<and> kn_sched (w_kernel w) = scheduler_new"

text \<open>Both interrupts are live with their handlers, where the table has a place for them.\<close>

definition handlers_up :: "board \<Rightarrow> irq \<Rightarrow> bool" where
  "handlers_up b i \<longleftrightarrow> ir_live i
    \<and> (unat (b_timer_intid b) < 64 \<longrightarrow> handlers_get (ir_handlers i) (b_timer_intid b) = Some TimeHandler)
    \<and> (unat (dev_intid (b_uart b)) < 64 \<and> dev_intid (b_uart b) \<noteq> b_timer_intid b \<longrightarrow>
        handlers_get (ir_handlers i) (dev_intid (b_uart b)) = Some UartHandler)"

lemma greet_ok:
  assumes "settles hw (w_uart w) pending"
  obtains w' where "greet hw w = Some w'" and "devices_only w w'"
proof -
  have again: "settles hw (w_uart w') pending" if "devices_only w w'" for w' using assms devices_only_fields(3) [OF that] by simp
  obtain w1 where w1: "print_line hw (ascii ''Hello, ZheOS!'') w = Some w1" "devices_only w w1" by (rule print_line_ok [OF assms])
  obtain w2 where w2: "print_line hw (ascii ''Type '' @ [39] @ ascii ''exit'' @ [39] @ ascii '' to shutdown the system'') w1 = Some w2" "devices_only w1 w2"
    by (rule print_line_ok [OF again [OF w1(2)]])
  have d2: "devices_only w w2" by (rule devices_only_trans [OF w1(2) w2(2)])
  obtain w3 where w3: "print_line hw (ascii ''----------------------------------'') w2 = Some w3" "devices_only w2 w3"
    by (rule print_line_ok [OF again [OF d2]])
  show thesis
    by (rule that [OF _ devices_only_trans [OF d2 w3(2)]]) (simp only: greet_def w1(1) w2(1) w3(1) Option.bind.simps)
qed

lemma small_arena:
  assumes "region_fits memory" and "\<And>p. p \<in> covered pg \<longleftrightarrow> page_bytes p \<subseteq> region_bytes memory"
  shows "arena_below pg"
proof -
  have "p * 4096 + 4096 \<le> 2 ^ 39" if "p \<in> covered pg" for p
    using that assms(1) unfolding assms(2) region_bytes_def page_inside region_fits_def by linarith
  then show ?thesis unfolding arena_below_def by fastforce
qed

lemma free_at_boot_low:
  assumes "region_fits memory" and "0 < r_base memory"
  shows "low_pages (free_at_boot ld memory dtb h)"
  unfolding low_pages_def
proof
  fix p assume "p \<in> free_at_boot ld memory dtb h"
  then have "r_base memory \<le> p * 4096 \<and> p * 4096 + 4096 \<le> r_base memory + r_size memory"
    unfolding free_at_boot_def region_bytes_def page_inside by blast
  then show "0 < p \<and> p < 2 ^ 36" using assms unfolding region_fits_def by (cases "p = 0") auto
qed

lemma kmain_ok:
  fixes w :: "'d world"
  assumes fresh: "fresh_world w" and early: "settles hw (w_uart w) pending"
    and found: "discover (kn_mem (w_kernel w)) ptr = Inr (d, b)" and dev: "settles hw (dev_base (b_uart b)) pending"
    and board: "board_ok ld (b_memory b) (dtb_region d)" "0 < r_base (b_memory b)"
    and ca: "code_ok ca" and rg: "on_boot_stack ld (kn_regs (w_kernel w))"
  shows "boot_wp (\<lambda>p. p \<in> {Panicked ''Failed to initialize heap pages'', UnwrapNone})
    (\<lambda>w' e. boot_refused ld (b_memory b) (dtb_region d) (w_kernel w') e) (kmain hw ld ca ptr sr w)
    (\<lambda>(w', sr', b'). b' = b \<and> handlers_up b (w_irq w')
      \<and> (\<exists>t. table_ok t \<and> sr' = mmu_enable sr t \<and> machine_up ld (b_memory b) (dtb_region d) w' t))"
    (is "boot_wp ?P ?E _ ?Q")
proof -
  let ?mem = "b_memory b" and ?dtb = "dtb_region d"
  have mem: "region_fits ?mem" and ld: "ld_ok ld" using board(1) by (simp_all add: board_ok_def)
  obtain w1 where w1: "console_init hw w = Some w1" "devices_only w w1" by (rule console_init_ok [OF early])
  note f1 = devices_only_fields [OF w1(2)]
  obtain w2 where w2: "drivers_init hw b w1 = Some w2" "w_kernel w2 = w_kernel w1" "w_input w2 = w_input w1"
    "w_uart w2 = dev_base (b_uart b)" and h2: "handlers_up b (w_irq w2)"
    by (rule drivers_init_ok [OF dev, of w1]) (use fresh f1 in \<open>auto simp: fresh_world_def handlers_up_def\<close>)
  have s2: "settles hw (w_uart w2) pending" using dev w2(4) by simp
  let ?tail = "\<lambda>w sr. bbind (tasks_init hw ca w) (\<lambda>w. bbind (waits (greet hw w)) (\<lambda>w. Some (Inr (Inr (w, sr, b)))))"
  have k: "kmain hw ld ca ptr sr w = bbind (memory_init hw ld ?mem ?dtb w2) (\<lambda>w. bbind (paging_init hw ld ?mem ?dtb sr w) (\<lambda>(w, sr). ?tail w sr))"
    using w1(1) w2(1) found f1(1) by (simp add: kmain_def)
  show ?thesis
    unfolding k boot_wp_bind
  proof (rule memory_init_ok [OF s2 _ mem])
    show "kn_heap (w_kernel w2) = heap_empty" using fresh f1 w2(2) by (simp add: fresh_world_def)
    fix w3 :: "'d world"
    let ?k3 = "w_kernel w3"
    assume a: "same_besides w2 w3"
      "heap_inv (kn_mem ?k3) (kn_heap ?k3) (free_at_boot ld ?mem ?dtb (kn_heap ?k3)) (free_at_boot ld ?mem ?dtb (kn_heap ?k3)) Map.empty"
      and cov: "\<And>p. p \<in> covered (hp_pages (kn_heap ?k3)) \<longleftrightarrow> page_bytes p \<subseteq> region_bytes ?mem"
      and meta: "meta_bytes (hp_pages (kn_heap ?k3)) \<inter> {r_base (image ld)..<region_end (image ld)} = {}"
    have s3: "settles hw (w_uart w3) pending" using s2 a(1) by (simp add: same_besides_def)
    show "boot_wp ?P ?E (paging_init hw ld ?mem ?dtb sr w3) (\<lambda>v. boot_wp ?P ?E (case v of (w, sr) \<Rightarrow> ?tail w sr) ?Q)"
    proof (rule paging_init_ok [OF s3 a(2) free_at_boot_low [OF mem board(2)] board(1)])
      fix w4 :: "'d world" and t live4
      let ?k4 = "w_kernel w4"
      assume c: "same_besides w3 w4" "hp_pages (kn_heap ?k4) = hp_pages (kn_heap ?k3)"
        and pt: "pt_state (free_at_boot ld ?mem ?dtb (kn_heap ?k3)) (kn_mem ?k4) (kn_heap ?k4) live4 t Level1"
        and map: "boot_map (kn_mem ?k4) t ld ?mem ?dtb"
      note same = same_besides_trans [OF a(1) c(1), unfolded same_besides_def]
      have t: "table_ok t" using pt pt_wf_ok by (auto simp: pt_state_def)
      have s4: "settles hw (w_uart w4) pending" using s2 same by simp
      have pt4: "pt_state (free_at_boot ld ?mem ?dtb (kn_heap ?k4)) (kn_mem ?k4) (kn_heap ?k4) live4 t Level1"
        using pt free_at_boot_pages [OF c(2)] by simp
      have new: "kn_sched ?k4 = scheduler_new" "w_input w4 = tty_input_new" "on_boot_stack ld (kn_regs ?k4)"
        using same fresh rg f1 w2(2,3) by (simp_all add: fresh_world_def)
      have below: "arena_below (hp_pages (kn_heap ?k4))" unfolding c(2) by (rule small_arena [OF mem cov])
      have "boot_wp ?P ?E (tasks_init hw ca w4) (\<lambda>v. boot_wp ?P ?E (bbind (waits (greet hw v)) (\<lambda>w. Some (Inr (Inr (w, mmu_enable sr t, b))))) ?Q)"
      proof (rule tasks_init_ok [OF s4 pt4 below new(1,2) map ca ld new(3) meta [folded c(2)]])
        fix k5 assume up: "machine_up ld ?mem ?dtb (w4\<lparr>w_kernel := k5\<rparr>) t"
        obtain w6 where w6: "greet hw (w4\<lparr>w_kernel := k5\<rparr>) = Some w6" "devices_only (w4\<lparr>w_kernel := k5\<rparr>) w6"
          by (rule greet_ok [of hw "w4\<lparr>w_kernel := k5\<rparr>"]) (use s4 in simp_all)
        note f6 = devices_only_fields [OF w6(2)]
        have "machine_up ld ?mem ?dtb w6 t" using up f6 by (simp add: machine_up_def)
        then show "boot_wp ?P ?E (bbind (waits (greet hw (w4\<lparr>w_kernel := k5\<rparr>))) (\<lambda>w. Some (Inr (Inr (w, mmu_enable sr t, b))))) ?Q"
          using w6(1) f6 same h2 t by auto
      qed simp_all
      then show "boot_wp ?P ?E (case (w4, mmu_enable sr t) of (w, sr) \<Rightarrow> ?tail w sr) ?Q" by simp
    qed simp_all
  qed (simp_all add: boot_refused_def)
qed

end
