(* ===== verification/BootProperties.thy ===== *)
theory BootProperties
  imports BootCorrect
begin

text \<open>
  What the way up promises: \<open>kmain\<close> from the device tree to the running kernel, and the translation tables it
  leaves behind, for as long as the kernel runs.
\<close>

subsection \<open>\<open>kmain\<close>\<close>









subsection \<open>For as long as the kernel runs\<close>

text \<open>
  C31. The translation tables stay well formed, and nothing that runs changes what they map: whatever tasks compute on
  their stacks, and whatever is scheduled, spawned, freed, read or interrupted, every address translates as before.
\<close>

theorem tables_persist:
  assumes "kernel_inv U live saved k" and "input_inv (kn_sched k) inp"
    and pt: "pt_state U (kn_mem k) (kn_heap k) live t Level1" and runs: "kernel_runs U (k, inp) (k', inp')"
  shows "(\<exists>live'. pt_state U (kn_mem k') (kn_heap k') live' t Level1)
    \<and> (\<forall>va. translate (kn_mem k') t va = translate (kn_mem k) t va)"
proof -
  obtain live' where l: "pt_state U (kn_mem k') (kn_heap k') live' t Level1"
    and same: "\<And>va. leaf (kn_mem k') t Level1 va = leaf (kn_mem k) t Level1 va"
    by (rule tables_kept_runs [OF assms]) blast
  have "pt_wf (kn_mem k) t Level1" "pt_wf (kn_mem k') t Level1" using pt l by (simp_all add: pt_state_def)
  then have "translate (kn_mem k') t va = translate (kn_mem k) t va" for va
    by (simp add: translate_def translate_leaf same)
  then show ?thesis using l by blast
qed

lemma demo_kernel_table:
  fixes saved :: "usize \<Rightarrow> regs"
  obtains m h live t where "kernel_inv demo_U live saved (demo_kernel m h)" and "pt_state demo_U m h live t Level1"
proof -
  obtain m0 h0 where h: "hp_pages h0 = demo_pages" "heap_inv m0 h0 demo_U demo_U Map.empty" by (rule demo_heap_ok)
  show thesis
  proof (rule new_table_ok [OF h(2) demo_low_pages, where n = Level1])
    fix m h' t assume a: "table_new m0 h0 = Inr (m, h', Some t)" "pt_state demo_U m h' [t \<mapsto> table_layout] t Level1"
    obtain F where i: "heap_inv m h' demo_U F [t \<mapsto> table_layout]" using a(2) by (auto simp: pt_state_def)
    have "arena_below (hp_pages h')"
      using table_new_pages [OF a(1)] h(1) by (simp add: arena_below_def in_covered demo_pages_def)
    moreover have "parked m u (saved j)" if "j < 4" "sd_tasks demo_sched ! j = Some u" for j u
      using demo_task [OF that] by (simp add: parked_def)
    ultimately have "kernel_inv demo_U [t \<mapsto> table_layout] saved (demo_kernel m h')"
      using i demo_tasks_inv unfolding kernel_inv_def demo_kernel_def by auto
    then show thesis using that a(2) by blast
  qed simp
qed

theorem tables_persist_witness:
  "\<exists>m h t k' r. spawn 4096 8192 (demo_kernel m h) = Inr (k', r) \<and> (\<forall>va. translate (kn_mem k') t va = translate m t va)"
proof -
  fix saved :: "usize \<Rightarrow> regs"
  obtain m h live t where k: "kernel_inv demo_U live saved (demo_kernel m h)" "pt_state demo_U m h live t Level1"
    by (rule demo_kernel_table)
  have inp: "input_inv (kn_sched (demo_kernel m h)) tty_input_new" using demo_input_inv by (simp add: demo_kernel_def)
  have pt: "pt_state demo_U (kn_mem (demo_kernel m h)) (kn_heap (demo_kernel m h)) live t Level1" using k(2) by (simp add: demo_kernel_def)
  have e: "8192 < usize_limit" "4096 < usize_limit" by simp_all
  obtain k' r where s: "spawn 4096 8192 (demo_kernel m h) = Inr (k', r)" by (rule spawn_input [OF k(1) inp e])
  have "kernel_runs demo_U (demo_kernel m h, tty_input_new) (k', tty_input_new)"
    by (rule kernel_runs.run_step [OF kernel_runs.start kernel_step.Spawn [OF e s]])
  from tables_persist [OF k(1) inp pt this] have "\<forall>va. translate (kn_mem k') t va = translate m t va" by (simp add: demo_kernel_def)
  then show ?thesis using s by blast
qed





end
