(* ===== verification/Spec2Isabelle.thy ===== *)
theory Spec2Isabelle
  imports MemoryProperties KernelProperties MmuProperties MonitorProperties PlatformProperties InterruptProperties Exception BootProperties
begin

text \<open>
  A verification library for ZheOS, a kernel for the AArch64 \<open>virt\<close> machine written in Rust without a standard
  library. The root theory only collects the others; each of them opens with what it holds.

  \<^bold>\<open>The program.\<close> The boot code reads the device tree (\<open>src/src/platform\<close>), brings up the serial driver and the
  interrupt controller (\<open>src/src/drivers\<close>), reserves the memory that is taken in the memory map and hands the rest to
  the page allocator and the heap on it (\<open>src/src/mm\<close>), builds the translation tables and turns the MMU on
  (\<open>src/src/arch/aarch64/mmu\<close>), starts the scheduler (\<open>src/src/kernel\<close>) and spawns its tasks, one of which is the
  monitor (\<open>src/src/zhemon\<close>) behind the console (\<open>src/src/tty\<close>). Afterwards tasks run, and timer and input interrupts
  come in between.

  \<^bold>\<open>How state is modelled.\<close> Memory is one function from addresses to bytes (\<open>Memory\<close>). Everything the kernel keeps
  in raw memory is kept in that function: the links of the free blocks, the page metadata, the links of the free
  slots, the translation tables, the registers parked on the stacks of the tasks. That none of them damages
  another or the data of a client is therefore a theorem, not an assumption of the model. What the source keeps in
  statics is a record that each operation takes and returns. A global behind a spin lock is locked around each
  call, so a call is one step. A panic is the left side of a sum, an \<open>Option\<close> an option, a \<open>Result\<close> a sum; a loop
  that can run for ever is a partial function into an option, with the value \<open>None\<close> when it does.

  \<^bold>\<open>Integers.\<close> The kernel is built for release only, so arithmetic wraps. A \<open>usize\<close> is a natural number with the
  wrap-around written out (\<open>Prelude\<close>); values that are packed into fields (descriptors, metadata entries,
  registers, the bytes of the device tree) are words. Positions in a line, a blob or a stack of node levels, which
  no input can bring near \<open>2 ^ 64\<close>, are added without wrap-around; where that is so the theory says it.

  \<^bold>\<open>Shared theories.\<close>
  \<^item> \<open>Prelude\<close>: integer types and operations, panics, the sum and option plumbing, decimal and hexadecimal output.
  \<^item> \<open>Memory\<close>: loads and stores of two, four and eight bytes, and what they leave alone.
  \<^item> \<open>Store\<close>: the locales \<open>store\<close> (a value per key) and \<open>link_store\<close> (doubly linked lists in such values). Pushing and
    unlinking are proved once there. \<open>FreeLists\<close> interprets \<open>link_store\<close> on the words in the free pages, \<open>Pages\<close>
    interprets \<open>store\<close> on the metadata table, and \<open>Cache\<close> interprets \<open>link_store\<close> on the same table. The third
    locale, \<open>bounded_queue\<close> in \<open>RingBuffer\<close>, is the contract of the ring buffer and is interpreted on its code.

  \<^bold>\<open>Memory management\<close> (\<open>src/src/mm\<close>).
  \<^item> \<open>Pfn\<close>, \<open>Region\<close>, \<open>Gaps\<close>, \<open>MemMap\<close>, \<open>Pages\<close>, \<open>FreeLists\<close>, \<open>Frames\<close>: \<open>pfn.rs\<close>, \<open>region.rs\<close>, \<open>gaps.rs\<close>, \<open>map.rs\<close>,
    \<open>pages.rs\<close>, \<open>frames/lists.rs\<close>, \<open>frames/mod.rs\<close>. \<open>FramesCorrect\<close> proves every internal step of the buddy allocator
    against the set of its free pages; \<open>MemoryProperties\<close> states what the group promises, with \<open>SmallMachine\<close> as the
    concrete machine of the examples.
  \<^item> \<open>Slab\<close>, \<open>Cache\<close>, \<open>Heap\<close>: \<open>slab/mod.rs\<close>, \<open>slab/cache.rs\<close>, \<open>heap.rs\<close>, \<open>image.rs\<close>, \<open>mod.rs\<close>. \<open>CacheCorrect\<close> and \<open>HeapCorrect\<close>
    keep the invariant that live allocations are exactly what blocks and slots stand for; \<open>HeapRuns\<close> is the heap over
    its life, with clients that write into what they hold; \<open>HeapProperties\<close> states the results.

  \<^bold>\<open>Tasks\<close> (\<open>src/src/kernel\<close>, \<open>src/src/lib\<close>, \<open>src/src/tty/input.rs\<close>, \<open>src/src/arch/aarch64/context.rs\<close>).
  \<^item> \<open>RingBuffer\<close>, \<open>SpinLock\<close>, \<open>Context\<close>, \<open>Task\<close>, \<open>Sched\<close>, \<open>Input\<close>: \<open>ring_buffer.rs\<close>, \<open>lock.rs\<close> and \<open>cpu.rs\<close>, \<open>context.rs\<close> and
    \<open>switch.s\<close>, \<open>task.rs\<close>, \<open>sched/mod.rs\<close> and \<open>sched/wait.rs\<close>, \<open>input.rs\<close>. \<open>SchedCorrect\<close> says what is parked on each stack.
  \<^item> \<open>KernelRuns\<close> is the step relation of the running kernel; \<open>KernelProperties\<close> has the invariants of all reachable
    states (no panic, no lost wakeup), round robin and the lock. What a step leaves alone on the heap is stated next to
    what it does (\<open>keeps\<close>), and \<open>kernel_runs_keeps\<close> carries it along a run.

  \<^bold>\<open>Translation tables\<close> (\<open>src/src/arch/aarch64/mmu\<close>). \<open>Descriptor\<close> and \<open>PageTable\<close> are \<open>level.rs\<close>, \<open>descriptor.rs\<close>, \<open>mod.rs\<close>,
  \<open>policy.rs\<close> and \<open>init.rs\<close>; a table is a page of the heap above. \<open>PageTableCorrect\<close> describes the tables by the
  descriptor a walk ends at; \<open>MmuProperties\<close> states that a range is mapped to itself and nothing else moves, and
  that no page of the final map is both writable and executable.

  \<^bold>\<open>The monitor\<close> (\<open>src/src/zhemon\<close>, \<open>src/src/tty\<close>). \<open>LineParser\<close> and \<open>Zhemon\<close> are \<open>cursor.rs\<close>, \<open>parser.rs\<close>, \<open>mod.rs\<close>; \<open>Console\<close>
  is \<open>console.rs\<close> and \<open>print.rs\<close>. \<open>LineFaults\<close> is about the position of every error. \<open>MonitorProperties\<close> gives the meaning
  of a session from the keystrokes to the bytes on the serial line: each of the editor, the layout of a
  dump and the session has a specification of its own that does not follow the loops of the code.

  \<^bold>\<open>The platform\<close> (\<open>src/src/platform\<close>). \<open>Dtb\<close> and \<open>Board\<close> are the reader of the flattened tree and what the kernel takes
  from it. \<open>DtbCorrect\<close> has device trees as trees and the blob that flattens one; \<open>BoardCorrect\<close> and
  \<open>PlatformProperties\<close> prove that reading the blob gives what the tree says.

  \<^bold>\<open>Devices and interrupts.\<close> \<open>Uart\<close> and \<open>Interrupts\<close> are \<open>pl011.rs\<close>, \<open>gic.rs\<close>, \<open>timer.rs\<close>, \<open>time.rs\<close>, \<open>irq.rs\<close>. The devices are
  not code of the kernel: their state has an arbitrary type and \<open>hardware\<close>, an argument, says what an access to a
  register does. \<open>InterruptProperties\<close> proves an interrupt, from its acknowledgement to the preemption at
  its end, to be a run of the steps of \<open>KernelRuns\<close>, so that the invariants proved there hold under the
  dispatch code that is really there. \<open>Exception\<close> is \<open>exception.rs\<close>, \<open>panic.rs\<close>, \<open>power.rs\<close> and \<open>psci.rs\<close>: what is
  decoded and written before the core stops, and that different exceptions are reported differently.

  \<^bold>\<open>The way up.\<close> \<open>Boot\<close> is \<open>kmain\<close> of \<open>src/src/main.rs\<close> with what it calls in \<open>src/src/demo.rs\<close>: the board is read, the
  console and the interrupt controller are set up, \<open>mm::init\<close>, \<open>mmu::init\<close> and \<open>sched::init\<close> follow, the tasks are spawned;
  every message is written, every failure is a value of \<open>boot_error\<close>. \<open>BootCorrect\<close> hands the result of each stage to the
  next one: pages that are free after the first, tables in pages of the heap after the second, stacks beside them
  after the third. \<open>BootProperties\<close> states that a machine whose device tree says what the \<open>virt\<close> board says ends
  up in a state where the invariants of \<open>KernelRuns\<close> hold; that the translation tables are never changed by what the
  kernel does afterwards; and so that no page is writable and executable for as long as it runs. \<open>kmain\<close> is
  one sequence in the model: no interrupt comes before its end.

  \<^bold>\<open>Bounds.\<close> \<open>seed_run\<close> and \<open>map_loop\<close> take a number of rounds: the length of the run, every round of which takes at
  least one page (it is shown never to run out), and \<open>map_passes\<close>, one round per slot the range touches and one
  for its ragged ends (\<open>MmuProperties\<close> needs no more). The lists of free blocks, the wait for the serial
  line, the draining of the receiver, the catching up of the timer and \<open>sleep\<close> are loops on data or on a device that
  nothing in the code bounds; their values are options and the theorems say when they are not \<open>None\<close>.

  \<^bold>\<open>What modelling showed.\<close>
  \<^item> The timer is started and interrupts are unmasked before the scheduler has a current task; a tick in between
    panics (\<open>boot_tick_panics\<close>).
  \<^item> A property that stands behind an \<open>FDT_NOP\<close> is not found, although the node iterator skips that token.
  \<^item> Against \<open>docs/wozmon.md\<close>: storing does not move the current address to the last byte written; a colon without
    bytes is accepted when another command follows it; and the caret of two errors is put behind the spaces.

  \<^bold>\<open>Not modelled.\<close> What the demonstration tasks print between two yields. The listing of tasks is an argument of the monitor,
  which knows no tasks; its value is \<open>ps\<close> of \<open>Boot\<close>. Installing the vector table, barriers, the
  invalidation of the TLB and cache hints have no counterpart in the state. Code the monitor jumps to is an
  argument. A translation table is data here: that the processor walks it as its manual says is not proved.
\<close>

end
